(* ===== verification/Prelude.thy ===== *)
theory Prelude
  imports Main "HOL-Library.Word"
begin

text \<open>
  Shared vocabulary of the development: the machine types of the C sources, the limits
  the sources test against, and the generic facts about lists, options, ring indices and
  words that the component theories use. Collections:
  \<^item> \<open>c_limits\<close>: the values of \<open>SIZE_MAX\<close>, \<open>UINT32_MAX\<close> and their kin;
  \<^item> \<open>ring_simps\<close>: facts about indices modulo a capacity.
\<close>

unbundle bit_operations_syntax

named_theorems c_limits
named_theorems ring_simps

section \<open>Machine types and limits\<close>

type_synonym byte = "8 word"
type_synonym bytes = "8 word list"
type_synonym u16 = "16 word"
type_synonym u32 = "32 word"
type_synonym u64 = "64 word"

text \<open>
  Sizes, offsets and counters (\<open>size_t\<close>, \<open>uint64_t\<close>) are natural numbers; every guard of
  the sources against their upper end is written out against these constants.
\<close>

definition SIZE_MAX :: nat where "SIZE_MAX = 18446744073709551615"
definition UINT64_MAX :: nat where "UINT64_MAX = 18446744073709551615"
definition UINT32_MAX :: nat where "UINT32_MAX = 4294967295"
definition LLONG_MAX :: int where "LLONG_MAX = 9223372036854775807"
definition LLONG_MIN :: int where "LLONG_MIN = - 9223372036854775808"

lemmas [c_limits] = SIZE_MAX_def UINT64_MAX_def UINT32_MAX_def LLONG_MAX_def LLONG_MIN_def

text \<open>Additions and subtractions of \<open>uint64_t\<close> values that the sources do not guard wrap around.\<close>

definition u64_add :: "nat \<Rightarrow> nat \<Rightarrow> nat" where
  "u64_add a b = (a + b) mod 2 ^ 64"

definition u64_sub :: "nat \<Rightarrow> nat \<Rightarrow> nat" where
  "u64_sub a b = (a + (2 ^ 64 - b)) mod 2 ^ 64"

lemma u64_sub_eq: "b \<le> a \<Longrightarrow> a \<le> UINT64_MAX \<Longrightarrow> u64_sub a b = a - b"
  by (auto simp: u64_sub_def c_limits mod_if)

lemma u64_add_eq: "a + b \<le> UINT64_MAX \<Longrightarrow> u64_add a b = a + b"
  by (simp add: u64_add_def c_limits)

text \<open>ASCII literals of the sources as byte strings.\<close>

definition ascii :: "string \<Rightarrow> bytes" where
  "ascii s = map of_char s"

lemma length_ascii [simp]: "length (ascii s) = length s"
  by (simp add: ascii_def)

section \<open>Lists\<close>

lemma take_Suc_snoc: "n < length xs \<Longrightarrow> take (Suc n) xs = take n xs @ [xs ! n]"
  by (rule take_Suc_conv_app_nth)

lemma foldl_map_eq: "foldl f a (map g xs) = foldl (\<lambda>s x. f s (g x)) a xs"
  by (induction xs arbitrary: a) simp_all

lemma nth_append_right': "length xs \<le> i \<Longrightarrow> (xs @ ys) ! i = ys ! (i - length xs)"
  by (simp add: nth_append)

section \<open>Ring indices\<close>

text \<open>
  The sources keep capacities at powers of two and reduce an index with
  \<open>i & (cap - 1)\<close>. On such capacities this is reduction modulo the capacity.
\<close>

definition pow2 :: "nat \<Rightarrow> bool" where
  "pow2 c \<longleftrightarrow> (\<exists>k. c = 2 ^ k)"

lemma pow2_pos: "pow2 c \<Longrightarrow> 0 < c"
  by (auto simp: pow2_def)

lemma pow2_exp [simp, intro]: "pow2 (2 ^ k)"
  by (auto simp: pow2_def)

lemma pow2_double: "pow2 c \<Longrightarrow> pow2 (2 * c)"
  unfolding pow2_def by (metis power_Suc)

lemma and_mask_mod [ring_simps]:
  assumes "pow2 c"
  shows "i AND (c - 1) = i mod c"
proof -
  from assms obtain k where k: "c = 2 ^ k" by (auto simp: pow2_def)
  have "i AND (c - 1) = i AND mask k"
    by (simp add: k mask_eq_exp_minus_1)
  also have "\<dots> = i mod c"
    by (simp add: k take_bit_eq_mask [symmetric] take_bit_eq_mod)
  finally show ?thesis .
qed

lemmas and_mask_mod' [ring_simps] = and_mask_mod [unfolded One_nat_def]

lemma mod_step_eq:
  assumes "Suc x mod c = Suc j mod c" and "j < c"
  shows "x mod c = j"
  using assms by (auto simp: mod_Suc split: if_splits)

lemma mod_reach:
  assumes "z < (c::nat)" and "i < c"
  obtains m where "1 \<le> m" "m \<le> c" "(z + m) mod c = i"
proof (cases "z < i")
  case True
  with assms that [of "i - z"] show ?thesis by simp
next
  case False
  with assms that [of "c + i - z"] show ?thesis by simp
qed

lemma nat_and_le: "(i AND m :: nat) \<le> m"
proof -
  have "int (i AND m) \<le> int m"
    by (simp add: of_nat_and_eq AND_upper2)
  then show ?thesis by simp
qed

lemma mod_add_lt: "(a::nat) < c \<Longrightarrow> b < c \<Longrightarrow> (a + b) mod c = (if a + b < c then a + b else a + b - c)"
  by (simp add: mod_if)

lemma Suc_mod_cases: "i < c \<Longrightarrow> Suc i mod c = (if Suc i = c then 0 else Suc i)"
  by (simp add: mod_Suc)

text \<open>The \<open>n\<close> elements of a ring from position \<open>start\<close>.\<close>

definition window :: "'a list \<Rightarrow> nat \<Rightarrow> nat \<Rightarrow> 'a list" where
  "window buf start n = map (\<lambda>i. buf ! ((start + i) mod length buf)) [0..<n]"

lemma length_window [simp]: "length (window buf start n) = n"
  by (simp add: window_def)

lemma window_0 [simp]: "window buf start 0 = []"
  by (simp add: window_def)

lemma nth_window: "i < n \<Longrightarrow> window buf start n ! i = buf ! ((start + i) mod length buf)"
  by (simp add: window_def)

lemma window_mod: "window buf (start mod length buf) n = window buf start n"
  by (simp add: window_def mod_simps)

lemma take_window: "take k (window buf start n) = window buf start (min k n)"
  by (rule nth_equalityI) (auto simp: nth_window)

lemma drop_window: "drop k (window buf start n) = window buf (start + k) (n - k)"
  by (rule nth_equalityI) (auto simp: nth_window add.assoc)

lemma window_append: "window buf start (m + n) = window buf start m @ window buf (start + m) n"
  by (rule nth_equalityI) (auto simp: nth_window nth_append)

lemma window_cong:
  assumes "length buf' = length buf"
    and "\<And>i. i < n \<Longrightarrow> buf' ! ((start + i) mod length buf) = buf ! ((start + i) mod length buf)"
  shows "window buf' start n = window buf start n"
  using assms by (intro nth_equalityI) (auto simp: nth_window)

lemma window_split:
  assumes "start < length buf" and "n \<le> length buf"
  shows "window buf start n =
    (let tail = min (length buf - start) n in take tail (drop start buf) @ take (n - tail) buf)"
proof (rule nth_equalityI)
  fix i assume i: "i < length (window buf start n)"
  show "window buf start n ! i =
      (let tail = min (length buf - start) n in take tail (drop start buf) @ take (n - tail) buf) ! i"
  proof (cases "start + i < length buf")
    case True
    with assms i show ?thesis by (auto simp: nth_window nth_append Let_def)
  next
    case False
    with assms i have "(start + i) mod length buf = start + i - length buf"
      by (subst mod_if) (simp add: le_mod_geq)
    with assms i False show ?thesis by (auto simp: nth_window nth_append Let_def add.commute)
  qed
qed (use assms in \<open>auto simp: Let_def\<close>)

text \<open>\<open>memcpy\<close> into a buffer, and the two-part copy of the ring buffers.\<close>

definition memcpy_at :: "'a list \<Rightarrow> nat \<Rightarrow> 'a list \<Rightarrow> 'a list" where
  "memcpy_at buf pos xs = take pos buf @ xs @ drop (pos + length xs) buf"

lemma length_memcpy_at [simp]: "pos + length xs \<le> length buf \<Longrightarrow> length (memcpy_at buf pos xs) = length buf"
  by (simp add: memcpy_at_def)

lemma nth_memcpy_at:
  assumes "pos + length xs \<le> length buf" and "i < length buf"
  shows "memcpy_at buf pos xs ! i =
    (if pos \<le> i \<and> i < pos + length xs then xs ! (i - pos) else buf ! i)"
  using assms by (auto simp: memcpy_at_def nth_append min_def)

section \<open>Little-endian integers\<close>

text \<open>
  Integers in memory, lowest byte first. The sources assemble them with shifts and bitwise
  or of disjoint bytes, which is the positional sum.
\<close>

fun le_nat :: "bytes \<Rightarrow> nat" where
  "le_nat [] = 0"
| "le_nat (b # bs) = unat b + 256 * le_nat bs"

fun le_bytes :: "nat \<Rightarrow> nat \<Rightarrow> bytes" where
  "le_bytes 0 n = []"
| "le_bytes (Suc k) n = of_nat (n mod 256) # le_bytes k (n div 256)"

lemma length_le_bytes [simp]: "length (le_bytes k n) = k"
  by (induction k arbitrary: n) simp_all

lemma le_nat_bytes: "le_nat (le_bytes k n) = n mod 256 ^ k"
proof (induction k arbitrary: n)
  case (Suc k)
  have "unat (of_nat (n mod 256) :: byte) = n mod 256" by (simp add: unat_of_nat)
  moreover have "n mod 256 ^ Suc k = n mod 256 + 256 * (n div 256 mod 256 ^ k)"
    using mod_mult2_eq [of n 256 "256 ^ k"] by simp
  ultimately show ?case using Suc by simp
qed simp

lemma le_nat_bytes_lt [simp]: "n < 256 ^ k \<Longrightarrow> le_nat (le_bytes k n) = n"
  by (simp add: le_nat_bytes)

lemma le_nat_lt: "le_nat bs < 256 ^ length bs"
proof (induction bs)
  case (Cons b bs)
  have "unat b < 256" using unsigned_less [of b] by simp
  with Cons show ?case by simp
qed simp

text \<open>Reading the low \<open>k\<close> bits of an unsigned value as a signed one.\<close>

definition sext :: "nat \<Rightarrow> nat \<Rightarrow> int" where
  "sext k u = (if 2 ^ (k - 1) \<le> u then int u - 2 ^ k else int u)"

lemma sext_mod:
  assumes "0 < k" and "- (2 ^ (k - 1)) \<le> v" and "v < 2 ^ (k - 1)"
  shows "sext k (nat (v mod 2 ^ k)) = v"
proof -
  have p: "(2::int) ^ k = 2 * 2 ^ (k - 1)" using assms(1) by (cases k) auto
  show ?thesis
  proof (cases "0 \<le> v")
    case True
    then have "v mod 2 ^ k = v" using assms p by (intro mod_pos_pos_trivial) auto
    then show ?thesis using True assms(3) by (simp add: sext_def nat_le_iff le_nat_iff)
  next
    case False
    have "v mod 2 ^ k = (v + 2 ^ k) mod 2 ^ k" by simp
    also have "\<dots> = v + 2 ^ k" using False assms p by (intro mod_pos_pos_trivial) auto
    finally have m: "v mod 2 ^ k = v + 2 ^ k" .
    have "2 ^ (k - 1) \<le> nat (v + 2 ^ k)" using assms p by (simp add: le_nat_iff)
    moreover have "0 \<le> v + 2 ^ k" using assms p by linarith
    ultimately show ?thesis unfolding m by (simp add: sext_def)
  qed
qed

section \<open>Lookup loops\<close>

text \<open>The index of the first element with a property.\<close>

fun index_of :: "('a \<Rightarrow> bool) \<Rightarrow> 'a list \<Rightarrow> nat option" where
  "index_of P [] = None"
| "index_of P (x # xs) = (if P x then Some 0 else map_option Suc (index_of P xs))"

lemma index_of_None: "index_of P xs = None \<longleftrightarrow> (\<forall>x \<in> set xs. \<not> P x)"
  by (induction xs) auto

lemma index_of_SomeE:
  assumes "index_of P xs = Some i"
  obtains us x vs where "xs = us @ x # vs" and "i = length us" and "P x" and "\<forall>u \<in> set us. \<not> P u"
proof -
  have "\<exists>us x vs. xs = us @ x # vs \<and> i = length us \<and> P x \<and> (\<forall>u \<in> set us. \<not> P u)"
    using assms
  proof (induction xs arbitrary: i)
    case (Cons y ys)
    show ?case
    proof (cases "P y")
      case True
      with Cons.prems show ?thesis by (intro exI [of _ "[]"]) auto
    next
      case False
      with Cons.prems obtain j where j: "index_of P ys = Some j" "i = Suc j" by auto
      from Cons.IH [OF j(1)] obtain us x vs
        where d: "ys = us @ x # vs" "j = length us" "P x" "\<forall>u \<in> set us. \<not> P u" by blast
      then have "y # ys = (y # us) @ x # vs \<and> i = length (y # us) \<and> P x \<and> (\<forall>u \<in> set (y # us). \<not> P u)"
        using False j(2) by simp
      then show ?thesis by blast
    qed
  qed simp
  then show ?thesis using that by blast
qed

lemma index_of_append: "\<forall>u \<in> set us. \<not> P u \<Longrightarrow> P x \<Longrightarrow> index_of P (us @ x # vs) = Some (length us)"
  by (induction us) auto

lemma index_of_map: "index_of P (map f xs) = index_of (\<lambda>x. P (f x)) xs"
  by (induction xs) auto

lemma index_of_Some: "index_of P xs = Some i \<Longrightarrow> i < length xs \<and> P (xs ! i)"
  by (induction xs arbitrary: i) (auto split: if_splits)

section \<open>C strings\<close>

text \<open>The string in a character array: up to the first zero byte.\<close>

definition cstr :: "bytes \<Rightarrow> bytes" where
  "cstr s = takeWhile (\<lambda>c. c \<noteq> 0) s"

lemma cstr_id: "0 \<notin> set name \<Longrightarrow> cstr name = name"
  by (simp add: cstr_def takeWhile_eq_all_conv) metis

text \<open>\<open>memcmp\<close> over the common length, by the sign of the result.\<close>

fun memcmp :: "bytes \<Rightarrow> bytes \<Rightarrow> int" where
  "memcmp (x # xs) (y # ys) = (if x < y then -1 else if x > y then 1 else memcmp xs ys)"
| "memcmp _ _ = 0"

text \<open>Decimal digits, each step guarded against exceeding \<open>bound\<close>.\<close>

fun parse_digits :: "nat \<Rightarrow> bytes \<Rightarrow> nat \<Rightarrow> nat option" where
  "parse_digits bound [] v = Some v"
| "parse_digits bound (c # s) v =
     (if c < 48 \<or> 57 < c then None
      else let digit = unat (c - 48)
           in if (bound - digit) div 10 < v then None else parse_digits bound s (v * 10 + digit))"

section \<open>Data refinement\<close>

text \<open>
  A component with operations \<open>exec\<close> on its own state refines an abstract data type \<open>spec\<close>
  when, under its invariant, each operation that is \<open>safe\<close> to call returns, gives the result
  of the abstract operation and commutes with the abstraction. Runs of operations then
  agree, result by result.
\<close>

fun run_ops :: "('s \<Rightarrow> 'op \<Rightarrow> ('r \<times> 's) option) \<Rightarrow> 's \<Rightarrow> 'op list \<Rightarrow> ('r list \<times> 's) option" where
  "run_ops exec s [] = Some ([], s)"
| "run_ops exec s (op # ops) =
     (case exec s op of
        None \<Rightarrow> None
      | Some (r, s') \<Rightarrow>
          (case run_ops exec s' ops of None \<Rightarrow> None | Some (rs, s'') \<Rightarrow> Some (r # rs, s'')))"

fun run_spec :: "('a \<Rightarrow> 'op \<Rightarrow> 'r \<times> 'a) \<Rightarrow> 'a \<Rightarrow> 'op list \<Rightarrow> 'r list \<times> 'a" where
  "run_spec spec a [] = ([], a)"
| "run_spec spec a (op # ops) =
     (case spec a op of
        (r, a') \<Rightarrow> (case run_spec spec a' ops of (rs, a'') \<Rightarrow> (r # rs, a'')))"

fun run_safe ::
  "('s \<Rightarrow> 'op \<Rightarrow> bool) \<Rightarrow> ('s \<Rightarrow> 'op \<Rightarrow> ('r \<times> 's) option) \<Rightarrow> 's \<Rightarrow> 'op list \<Rightarrow> bool" where
  "run_safe safe exec s [] \<longleftrightarrow> True"
| "run_safe safe exec s (op # ops) \<longleftrightarrow>
     safe s op \<and> (case exec s op of None \<Rightarrow> True | Some (_, s') \<Rightarrow> run_safe safe exec s' ops)"

locale data_refinement =
  fixes inv :: "'s \<Rightarrow> bool"
    and abs_of :: "'s \<Rightarrow> 'a"
    and safe :: "'s \<Rightarrow> 'op \<Rightarrow> bool"
    and exec :: "'s \<Rightarrow> 'op \<Rightarrow> ('r \<times> 's) option"
    and spec :: "'a \<Rightarrow> 'op \<Rightarrow> 'r \<times> 'a"
  assumes simulates: "inv s \<Longrightarrow> safe s op \<Longrightarrow>
    \<exists>r s'. exec s op = Some (r, s') \<and> inv s' \<and> spec (abs_of s) op = (r, abs_of s')"
begin

lemma run_refines:
  "inv s \<Longrightarrow> run_safe safe exec s ops \<Longrightarrow>
    \<exists>rs s'. run_ops exec s ops = Some (rs, s') \<and> inv s' \<and>
      run_spec spec (abs_of s) ops = (rs, abs_of s')"
proof (induction ops arbitrary: s)
  case (Cons op ops)
  then obtain r s' where "exec s op = Some (r, s')" "inv s'" "spec (abs_of s) op = (r, abs_of s')"
    using simulates [of s op] by auto
  with Cons.IH [of s'] Cons.prems show ?case by auto
qed simp

lemma run_inv:
  "inv s \<Longrightarrow> run_safe safe exec s ops \<Longrightarrow> run_ops exec s ops = Some (rs, s') \<Longrightarrow> inv s'"
  using run_refines [of s ops] by auto

end

end
