(* ===== verification/Checksum.thy ===== *)
theory Checksum
  imports Prelude
begin

text \<open>
  Checksums: \<open>src/core/hashslot.c\<close> (CRC-16/XMODEM and the cluster hash slot) and
  \<open>src/core/crc64.c\<close> (CRC-64/XZ). The two tables are the tables of the sources. A locale
  states what makes a table-driven CRC agree with the bit-serial shift register; it is
  interpreted once for each of the two registers.
\<close>

section \<open>Definitions\<close>

subsection \<open>CRC-16/XMODEM: \<open>src/core/hashslot.c\<close>\<close>

definition crc16_tab :: "u16 list" where
  "crc16_tab = [
    0x0000, 0x1021, 0x2042, 0x3063, 0x4084, 0x50A5, 0x60C6, 0x70E7,
    0x8108, 0x9129, 0xA14A, 0xB16B, 0xC18C, 0xD1AD, 0xE1CE, 0xF1EF,
    0x1231, 0x0210, 0x3273, 0x2252, 0x52B5, 0x4294, 0x72F7, 0x62D6,
    0x9339, 0x8318, 0xB37B, 0xA35A, 0xD3BD, 0xC39C, 0xF3FF, 0xE3DE,
    0x2462, 0x3443, 0x0420, 0x1401, 0x64E6, 0x74C7, 0x44A4, 0x5485,
    0xA56A, 0xB54B, 0x8528, 0x9509, 0xE5EE, 0xF5CF, 0xC5AC, 0xD58D,
    0x3653, 0x2672, 0x1611, 0x0630, 0x76D7, 0x66F6, 0x5695, 0x46B4,
    0xB75B, 0xA77A, 0x9719, 0x8738, 0xF7DF, 0xE7FE, 0xD79D, 0xC7BC,
    0x48C4, 0x58E5, 0x6886, 0x78A7, 0x0840, 0x1861, 0x2802, 0x3823,
    0xC9CC, 0xD9ED, 0xE98E, 0xF9AF, 0x8948, 0x9969, 0xA90A, 0xB92B,
    0x5AF5, 0x4AD4, 0x7AB7, 0x6A96, 0x1A71, 0x0A50, 0x3A33, 0x2A12,
    0xDBFD, 0xCBDC, 0xFBBF, 0xEB9E, 0x9B79, 0x8B58, 0xBB3B, 0xAB1A,
    0x6CA6, 0x7C87, 0x4CE4, 0x5CC5, 0x2C22, 0x3C03, 0x0C60, 0x1C41,
    0xEDAE, 0xFD8F, 0xCDEC, 0xDDCD, 0xAD2A, 0xBD0B, 0x8D68, 0x9D49,
    0x7E97, 0x6EB6, 0x5ED5, 0x4EF4, 0x3E13, 0x2E32, 0x1E51, 0x0E70,
    0xFF9F, 0xEFBE, 0xDFDD, 0xCFFC, 0xBF1B, 0xAF3A, 0x9F59, 0x8F78,
    0x9188, 0x81A9, 0xB1CA, 0xA1EB, 0xD10C, 0xC12D, 0xF14E, 0xE16F,
    0x1080, 0x00A1, 0x30C2, 0x20E3, 0x5004, 0x4025, 0x7046, 0x6067,
    0x83B9, 0x9398, 0xA3FB, 0xB3DA, 0xC33D, 0xD31C, 0xE37F, 0xF35E,
    0x02B1, 0x1290, 0x22F3, 0x32D2, 0x4235, 0x5214, 0x6277, 0x7256,
    0xB5EA, 0xA5CB, 0x95A8, 0x8589, 0xF56E, 0xE54F, 0xD52C, 0xC50D,
    0x34E2, 0x24C3, 0x14A0, 0x0481, 0x7466, 0x6447, 0x5424, 0x4405,
    0xA7DB, 0xB7FA, 0x8799, 0x97B8, 0xE75F, 0xF77E, 0xC71D, 0xD73C,
    0x26D3, 0x36F2, 0x0691, 0x16B0, 0x6657, 0x7676, 0x4615, 0x5634,
    0xD94C, 0xC96D, 0xF90E, 0xE92F, 0x99C8, 0x89E9, 0xB98A, 0xA9AB,
    0x5844, 0x4865, 0x7806, 0x6827, 0x18C0, 0x08E1, 0x3882, 0x28A3,
    0xCB7D, 0xDB5C, 0xEB3F, 0xFB1E, 0x8BF9, 0x9BD8, 0xABBB, 0xBB9A,
    0x4A75, 0x5A54, 0x6A37, 0x7A16, 0x0AF1, 0x1AD0, 0x2AB3, 0x3A92,
    0xFD2E, 0xED0F, 0xDD6C, 0xCD4D, 0xBDAA, 0xAD8B, 0x9DE8, 0x8DC9,
    0x7C26, 0x6C07, 0x5C64, 0x4C45, 0x3CA2, 0x2C83, 0x1CE0, 0x0CC1,
    0xEF1F, 0xFF3E, 0xCF5D, 0xDF7C, 0xAF9B, 0xBFBA, 0x8FD9, 0x9FF8,
    0x6E17, 0x7E36, 0x4E55, 0x5E74, 0x2E93, 0x3EB2, 0x0ED1, 0x1EF0]"

fun crc16_loop :: "u16 \<Rightarrow> bytes \<Rightarrow> u16" where
  "crc16_loop crc [] = crc"
| "crc16_loop crc (b # bs) =
     crc16_loop (push_bit 8 crc XOR
       crc16_tab ! unat ((drop_bit 8 crc XOR ucast b) AND (0xFF :: u16))) bs"

definition crc16 :: "bytes \<Rightarrow> u16" where
  "crc16 buf = crc16_loop 0 buf"

text \<open>
  \<open>scan_brace c xs\<close>: the position of the first byte \<open>c\<close> of \<open>xs\<close>, the exit of the two
  search loops of \<open>hash_tag\<close> and \<open>hash_slot\<close>.
\<close>

fun scan_byte :: "byte \<Rightarrow> bytes \<Rightarrow> nat option" where
  "scan_byte c [] = None"
| "scan_byte c (x # xs) = (if x = c then Some 0 else map_option Suc (scan_byte c xs))"

abbreviation LBRACE :: byte where "LBRACE \<equiv> 0x7B"
abbreviation RBRACE :: byte where "RBRACE \<equiv> 0x7D"

text \<open>
  \<open>hash_tag\<close> keeps \<open>start = end = 0\<close> until a brace pair is found; \<open>end = 0\<close> afterwards
  means that there is no usable tag. It returns the tag's length, and copies at most
  \<open>cap - 1\<close> bytes of it, followed by a NUL, into \<open>out\<close>.
\<close>

definition hash_tag_bounds :: "bytes \<Rightarrow> nat \<times> nat" where
  "hash_tag_bounds key =
     (let (start, stop) =
        (case scan_byte LBRACE key of
           None \<Rightarrow> (0, 0)
         | Some i \<Rightarrow>
             (case scan_byte RBRACE (drop (i + 1) key) of
                None \<Rightarrow> (i + 1, 0)
              | Some d \<Rightarrow> (i + 1, if i + 1 + d > i + 1 then i + 1 + d else 0)))
      in if stop = 0 then (0, length key) else (start, stop))"

definition hash_tag :: "bytes \<Rightarrow> nat \<Rightarrow> nat \<times> bytes" where
  "hash_tag key cap =
     (let (start, stop) = hash_tag_bounds key;
          n = stop - start
      in (n, if cap > 0
             then take (if n < cap - 1 then n else cap - 1) (drop start key) @ [0]
             else []))"

definition hash_slot :: "bytes \<Rightarrow> nat" where
  "hash_slot key =
     (let (start, stop) =
        (case scan_byte LBRACE key of
           None \<Rightarrow> (0, length key)
         | Some i \<Rightarrow>
             (case scan_byte RBRACE (drop (i + 1) key) of
                None \<Rightarrow> (0, length key)
              | Some d \<Rightarrow> (if i + 1 + d > i + 1 then (i + 1, i + 1 + d)
                           else (0, length key))))
      in if stop = start then 0
         else unat (crc16 (take (stop - start) (drop start key))) mod 16384)"

subsection \<open>CRC-64/XZ: \<open>src/core/crc64.c\<close>\<close>

definition CRC64_POLY :: u64 where
  "CRC64_POLY = 0xC96C5795D7870F42"

definition crc64_tab :: "u64 list" where
  "crc64_tab = [
    0x0000000000000000, 0xB32E4CBE03A75F6F, 0xF4843657A840A05B, 0x47AA7AE9ABE7FF34,
    0x7BD0C384FF8F5E33, 0xC8FE8F3AFC28015C, 0x8F54F5D357CFFE68, 0x3C7AB96D5468A107,
    0xF7A18709FF1EBC66, 0x448FCBB7FCB9E309, 0x0325B15E575E1C3D, 0xB00BFDE054F94352,
    0x8C71448D0091E255, 0x3F5F08330336BD3A, 0x78F572DAA8D1420E, 0xCBDB3E64AB761D61,
    0x7D9BA13851336649, 0xCEB5ED8652943926, 0x891F976FF973C612, 0x3A31DBD1FAD4997D,
    0x064B62BCAEBC387A, 0xB5652E02AD1B6715, 0xF2CF54EB06FC9821, 0x41E11855055BC74E,
    0x8A3A2631AE2DDA2F, 0x39146A8FAD8A8540, 0x7EBE1066066D7A74, 0xCD905CD805CA251B,
    0xF1EAE5B551A2841C, 0x42C4A90B5205DB73, 0x056ED3E2F9E22447, 0xB6409F5CFA457B28,
    0xFB374270A266CC92, 0x48190ECEA1C193FD, 0x0FB374270A266CC9, 0xBC9D3899098133A6,
    0x80E781F45DE992A1, 0x33C9CD4A5E4ECDCE, 0x7463B7A3F5A932FA, 0xC74DFB1DF60E6D95,
    0x0C96C5795D7870F4, 0xBFB889C75EDF2F9B, 0xF812F32EF538D0AF, 0x4B3CBF90F69F8FC0,
    0x774606FDA2F72EC7, 0xC4684A43A15071A8, 0x83C230AA0AB78E9C, 0x30EC7C140910D1F3,
    0x86ACE348F355AADB, 0x3582AFF6F0F2F5B4, 0x7228D51F5B150A80, 0xC10699A158B255EF,
    0xFD7C20CC0CDAF4E8, 0x4E526C720F7DAB87, 0x09F8169BA49A54B3, 0xBAD65A25A73D0BDC,
    0x710D64410C4B16BD, 0xC22328FF0FEC49D2, 0x85895216A40BB6E6, 0x36A71EA8A7ACE989,
    0x0ADDA7C5F3C4488E, 0xB9F3EB7BF06317E1, 0xFE5991925B84E8D5, 0x4D77DD2C5823B7BA,
    0x64B62BCAEBC387A1, 0xD7986774E864D8CE, 0x90321D9D438327FA, 0x231C512340247895,
    0x1F66E84E144CD992, 0xAC48A4F017EB86FD, 0xEBE2DE19BC0C79C9, 0x58CC92A7BFAB26A6,
    0x9317ACC314DD3BC7, 0x2039E07D177A64A8, 0x67939A94BC9D9B9C, 0xD4BDD62ABF3AC4F3,
    0xE8C76F47EB5265F4, 0x5BE923F9E8F53A9B, 0x1C4359104312C5AF, 0xAF6D15AE40B59AC0,
    0x192D8AF2BAF0E1E8, 0xAA03C64CB957BE87, 0xEDA9BCA512B041B3, 0x5E87F01B11171EDC,
    0x62FD4976457FBFDB, 0xD1D305C846D8E0B4, 0x96797F21ED3F1F80, 0x2557339FEE9840EF,
    0xEE8C0DFB45EE5D8E, 0x5DA24145464902E1, 0x1A083BACEDAEFDD5, 0xA9267712EE09A2BA,
    0x955CCE7FBA6103BD, 0x267282C1B9C65CD2, 0x61D8F8281221A3E6, 0xD2F6B4961186FC89,
    0x9F8169BA49A54B33, 0x2CAF25044A02145C, 0x6B055FEDE1E5EB68, 0xD82B1353E242B407,
    0xE451AA3EB62A1500, 0x577FE680B58D4A6F, 0x10D59C691E6AB55B, 0xA3FBD0D71DCDEA34,
    0x6820EEB3B6BBF755, 0xDB0EA20DB51CA83A, 0x9CA4D8E41EFB570E, 0x2F8A945A1D5C0861,
    0x13F02D374934A966, 0xA0DE61894A93F609, 0xE7741B60E174093D, 0x545A57DEE2D35652,
    0xE21AC88218962D7A, 0x5134843C1B317215, 0x169EFED5B0D68D21, 0xA5B0B26BB371D24E,
    0x99CA0B06E7197349, 0x2AE447B8E4BE2C26, 0x6D4E3D514F59D312, 0xDE6071EF4CFE8C7D,
    0x15BB4F8BE788911C, 0xA6950335E42FCE73, 0xE13F79DC4FC83147, 0x521135624C6F6E28,
    0x6E6B8C0F1807CF2F, 0xDD45C0B11BA09040, 0x9AEFBA58B0476F74, 0x29C1F6E6B3E0301B,
    0xC96C5795D7870F42, 0x7A421B2BD420502D, 0x3DE861C27FC7AF19, 0x8EC62D7C7C60F076,
    0xB2BC941128085171, 0x0192D8AF2BAF0E1E, 0x4638A2468048F12A, 0xF516EEF883EFAE45,
    0x3ECDD09C2899B324, 0x8DE39C222B3EEC4B, 0xCA49E6CB80D9137F, 0x7967AA75837E4C10,
    0x451D1318D716ED17, 0xF6335FA6D4B1B278, 0xB199254F7F564D4C, 0x02B769F17CF11223,
    0xB4F7F6AD86B4690B, 0x07D9BA1385133664, 0x4073C0FA2EF4C950, 0xF35D8C442D53963F,
    0xCF273529793B3738, 0x7C0979977A9C6857, 0x3BA3037ED17B9763, 0x888D4FC0D2DCC80C,
    0x435671A479AAD56D, 0xF0783D1A7A0D8A02, 0xB7D247F3D1EA7536, 0x04FC0B4DD24D2A59,
    0x3886B22086258B5E, 0x8BA8FE9E8582D431, 0xCC0284772E652B05, 0x7F2CC8C92DC2746A,
    0x325B15E575E1C3D0, 0x8175595B76469CBF, 0xC6DF23B2DDA1638B, 0x75F16F0CDE063CE4,
    0x498BD6618A6E9DE3, 0xFAA59ADF89C9C28C, 0xBD0FE036222E3DB8, 0x0E21AC88218962D7,
    0xC5FA92EC8AFF7FB6, 0x76D4DE52895820D9, 0x317EA4BB22BFDFED, 0x8250E80521188082,
    0xBE2A516875702185, 0x0D041DD676D77EEA, 0x4AAE673FDD3081DE, 0xF9802B81DE97DEB1,
    0x4FC0B4DD24D2A599, 0xFCEEF8632775FAF6, 0xBB44828A8C9205C2, 0x086ACE348F355AAD,
    0x34107759DB5DFBAA, 0x873E3BE7D8FAA4C5, 0xC094410E731D5BF1, 0x73BA0DB070BA049E,
    0xB86133D4DBCC19FF, 0x0B4F7F6AD86B4690, 0x4CE50583738CB9A4, 0xFFCB493D702BE6CB,
    0xC3B1F050244347CC, 0x709FBCEE27E418A3, 0x3735C6078C03E797, 0x841B8AB98FA4B8F8,
    0xADDA7C5F3C4488E3, 0x1EF430E13FE3D78C, 0x595E4A08940428B8, 0xEA7006B697A377D7,
    0xD60ABFDBC3CBD6D0, 0x6524F365C06C89BF, 0x228E898C6B8B768B, 0x91A0C532682C29E4,
    0x5A7BFB56C35A3485, 0xE955B7E8C0FD6BEA, 0xAEFFCD016B1A94DE, 0x1DD181BF68BDCBB1,
    0x21AB38D23CD56AB6, 0x9285746C3F7235D9, 0xD52F0E859495CAED, 0x6601423B97329582,
    0xD041DD676D77EEAA, 0x636F91D96ED0B1C5, 0x24C5EB30C5374EF1, 0x97EBA78EC690119E,
    0xAB911EE392F8B099, 0x18BF525D915FEFF6, 0x5F1528B43AB810C2, 0xEC3B640A391F4FAD,
    0x27E05A6E926952CC, 0x94CE16D091CE0DA3, 0xD3646C393A29F297, 0x604A2087398EADF8,
    0x5C3099EA6DE60CFF, 0xEF1ED5546E415390, 0xA8B4AFBDC5A6ACA4, 0x1B9AE303C601F3CB,
    0x56ED3E2F9E224471, 0xE5C372919D851B1E, 0xA26908783662E42A, 0x114744C635C5BB45,
    0x2D3DFDAB61AD1A42, 0x9E13B115620A452D, 0xD9B9CBFCC9EDBA19, 0x6A978742CA4AE576,
    0xA14CB926613CF817, 0x1262F598629BA778, 0x55C88F71C97C584C, 0xE6E6C3CFCADB0723,
    0xDA9C7AA29EB3A624, 0x69B2361C9D14F94B, 0x2E184CF536F3067F, 0x9D36004B35545910,
    0x2B769F17CF112238, 0x9858D3A9CCB67D57, 0xDFF2A94067518263, 0x6CDCE5FE64F6DD0C,
    0x50A65C93309E7C0B, 0xE388102D33392364, 0xA4226AC498DEDC50, 0x170C267A9B79833F,
    0xDCD7181E300F9E5E, 0x6FF954A033A8C131, 0x28532E49984F3E05, 0x9B7D62F79BE8616A,
    0xA707DB9ACF80C06D, 0x14299724CC279F02, 0x5383EDCD67C06036, 0xE0ADA17364673F59]"

fun crc64_loop :: "u64 \<Rightarrow> bytes \<Rightarrow> u64" where
  "crc64_loop crc [] = crc"
| "crc64_loop crc (b # bs) =
     crc64_loop (crc64_tab ! unat ((crc XOR ucast b) AND (0xFF :: u64)) XOR drop_bit 8 crc) bs"

definition crc64 :: "u64 \<Rightarrow> bytes \<Rightarrow> u64" where
  "crc64 crc data = NOT (crc64_loop (NOT crc) data)"

subsection \<open>Specification: bit-serial shift registers\<close>

text \<open>
  \<open>crc16_step\<close> shifts a 16-bit register left by one bit and subtracts the polynomial
  \<open>0x1021\<close> when a one leaves it; \<open>crc64_step\<close> is the reflected register of CRC-64/XZ. A
  message byte is added at the end where bits leave, then eight bits are shifted.
\<close>

definition crc16_step :: "u16 \<Rightarrow> u16" where
  "crc16_step x = (if bit x 15 then push_bit 1 x XOR 0x1021 else push_bit 1 x)"

definition crc64_step :: "u64 \<Rightarrow> u64" where
  "crc64_step x = (if bit x 0 then drop_bit 1 x XOR CRC64_POLY else drop_bit 1 x)"

definition crc16_serial :: "u16 \<Rightarrow> bytes \<Rightarrow> u16" where
  "crc16_serial = foldl (\<lambda>crc b. (crc16_step ^^ 8) (crc XOR push_bit 8 (ucast b)))"

definition crc64_serial :: "u64 \<Rightarrow> bytes \<Rightarrow> u64" where
  "crc64_serial = foldl (\<lambda>crc b. (crc64_step ^^ 8) (crc XOR ucast b))"

text \<open>The table of a linear map from its values at the powers of two.\<close>

definition xor_table :: "'a::len word list \<Rightarrow> 'a word list" where
  "xor_table = foldl (\<lambda>t b. t @ map (\<lambda>x. x XOR b) t) [0]"

section \<open>Table-driven CRCs\<close>

lemma upt_double: "[0..<2 ^ Suc n] = [0..<2 ^ n] @ map (\<lambda>i. i + 2 ^ n) [0..<2 ^ n]"
proof -
  have "[0..<2 ^ n + 2 ^ n] = [0..<2 ^ n] @ [2 ^ n..<2 ^ n + 2 ^ n]"
    by (rule upt_add_eq_append) simp
  moreover have "(2::nat) ^ Suc n = 2 ^ n + 2 ^ n" by simp
  ultimately show ?thesis by (simp only: map_add_upt)
qed

lemma of_nat_add_exp_xor:
  assumes "i < 2 ^ n"
  shows "(of_nat (i + 2 ^ n) :: 'a::len word) = of_nat i XOR 2 ^ n"
proof -
  have "bit i m \<Longrightarrow> m \<noteq> n" for m
    using assms by (metis bit_take_bit_iff less_irrefl take_bit_nat_eq_self)
  then have "i AND 2 ^ n = 0"
    by (auto simp: bit_eq_iff bit_simps)
  then have "i + 2 ^ n = i XOR 2 ^ n"
    by (rule disjunctive_add_eq_xor)
  then show ?thesis
    by (metis of_nat_numeral of_nat_power of_nat_xor_eq)
qed

lemma xor_table_linear:
  assumes lin: "\<And>x y. f (x XOR y) = f x XOR f y"
  shows "xor_table (map (\<lambda>k. f (2 ^ k)) [0..<n]) =
         map (\<lambda>i. f (of_nat i :: 'a::len word)) [0..<2 ^ n]"
proof (induction n)
  case 0
  have "f 0 = 0" using lin [of 0 0] by simp
  then show ?case by (simp add: xor_table_def)
next
  case (Suc n)
  have "xor_table (map (\<lambda>k. f (2 ^ k)) [0..<Suc n]) =
      (let t = xor_table (map (\<lambda>k. f (2 ^ k)) [0..<n]) in t @ map (\<lambda>x. x XOR f (2 ^ n)) t)"
    by (simp add: xor_table_def Let_def)
  also have "\<dots> = map (\<lambda>i. f (of_nat i)) [0..<2 ^ Suc n]"
    unfolding Suc.IH Let_def upt_double map_append map_map comp_def
    by (auto simp: lin of_nat_add_exp_xor simp del: of_nat_add)
  finally show ?case .
qed

text \<open>
  A register \<open>step\<close> with a byte port: \<open>inj\<close> puts a byte on the end where bits leave,
  \<open>out\<close> reads the byte standing there, \<open>rest\<close> is what eight shifts make of the others.
\<close>

locale crc_register =
  fixes step :: "'a::len word \<Rightarrow> 'a word"
    and inj :: "byte \<Rightarrow> 'a word"
    and out :: "'a word \<Rightarrow> byte"
    and rest :: "'a word \<Rightarrow> 'a word"
  assumes step_xor: "step (x XOR y) = step x XOR step y"
    and inj_xor: "inj (a XOR b) = inj a XOR inj b"
    and out_xor: "out (x XOR inj b) = out x XOR b"
    and rest_xor: "rest (x XOR inj b) = rest x"
    and step8_split: "(step ^^ 8) x = (step ^^ 8) (inj (out x)) XOR rest x"
begin

lemma steps_xor: "(step ^^ n) (x XOR y) = (step ^^ n) x XOR (step ^^ n) y"
  by (induction n) (simp_all add: step_xor)

lemma byte_step:
  "(step ^^ 8) (crc XOR inj b) = (step ^^ 8) (inj (out crc XOR b)) XOR rest crc"
  by (subst step8_split) (simp add: out_xor rest_xor)

lemma table_from_powers:
  "xor_table (map (\<lambda>k. (step ^^ 8) (inj (2 ^ k))) [0..<8]) =
   map (\<lambda>i. (step ^^ 8) (inj (of_nat i))) [0..<256]"
  using xor_table_linear [of "\<lambda>b. (step ^^ 8) (inj b)" 8]
  by (simp add: inj_xor steps_xor)

lemma table_step:
  assumes "tab = xor_table (map (\<lambda>k. (step ^^ 8) (inj (2 ^ k))) [0..<8])"
  shows "(step ^^ 8) (crc XOR inj b) = tab ! unat (out crc XOR b) XOR rest crc"
proof -
  have "unat (out crc XOR b) < 256"
    using unsigned_less [of "out crc XOR b" ] by simp
  then show ?thesis
    by (simp add: assms table_from_powers byte_step)
qed

end

lemma crc16_step_xor: "crc16_step (x XOR y) = crc16_step x XOR crc16_step y"
  by (rule bit_word_eqI) (auto simp: crc16_step_def bit_simps)

lemma crc64_step_xor: "crc64_step (x XOR y) = crc64_step x XOR crc64_step y"
  by (rule bit_word_eqI) (auto simp: crc64_step_def bit_simps)

lemma crc16_steps_low:
  "k \<le> 8 \<Longrightarrow> drop_bit 8 x = 0 \<Longrightarrow> (crc16_step ^^ k) x = push_bit k x"
proof (induction k)
  case (Suc k)
  have "bit (drop_bit 8 x) (7 - k) = bit x (15 - k)"
    using Suc.prems(1) by (simp add: bit_drop_bit_eq)
  with Suc.prems have "\<not> bit x (15 - k)" by simp
  then have "\<not> bit (push_bit k x) 15"
    by (simp add: bit_push_bit_iff)
  then show ?case using Suc
    by (simp add: crc16_step_def)
qed simp

lemma crc64_steps_high:
  "k \<le> 8 \<Longrightarrow> take_bit 8 x = 0 \<Longrightarrow> (crc64_step ^^ k) x = drop_bit k x"
proof (induction k)
  case (Suc k)
  then have "\<not> bit x k"
    by (metis bit_0_eq bit_take_bit_iff bot_apply bot_bool_def Suc_le_eq)
  then have "\<not> bit (drop_bit k x) 0"
    by (simp add: bit_drop_bit_eq)
  then show ?case using Suc
    by (simp add: crc64_step_def)
qed simp

lemma crc16_split:
  "(crc16_step ^^ 8) x = (crc16_step ^^ 8) (push_bit 8 (ucast (ucast (drop_bit 8 x) :: byte)))
     XOR push_bit 8 x"
proof -
  have x: "x = push_bit 8 (ucast (ucast (drop_bit 8 x) :: byte)) XOR take_bit 8 x"
    by (rule bit_word_eqI) (auto simp: bit_simps)
  have lin: "(crc16_step ^^ n) (a XOR b) = (crc16_step ^^ n) a XOR (crc16_step ^^ n) b" for n a b
    by (induction n) (simp_all add: crc16_step_xor)
  have "(crc16_step ^^ 8) (take_bit 8 x) = push_bit 8 (take_bit 8 x)"
    by (rule crc16_steps_low) (auto simp: bit_eq_iff bit_simps)
  also have "\<dots> = push_bit 8 x"
    by (rule bit_word_eqI) (auto simp: bit_simps)
  finally have "(crc16_step ^^ 8) (take_bit 8 x) = push_bit 8 x" .
  then show ?thesis
    by (subst x) (simp add: lin)
qed

lemma crc64_split:
  "(crc64_step ^^ 8) x = (crc64_step ^^ 8) (ucast (ucast x :: byte)) XOR drop_bit 8 x"
proof -
  let ?h = "x AND NOT (mask 8)"
  have x: "x = ucast (ucast x :: byte) XOR ?h"
    by (rule bit_word_eqI) (auto simp: bit_simps)
  have lin: "(crc64_step ^^ n) (a XOR b) = (crc64_step ^^ n) a XOR (crc64_step ^^ n) b" for n a b
    by (induction n) (simp_all add: crc64_step_xor)
  have "(crc64_step ^^ 8) ?h = drop_bit 8 ?h"
    by (rule crc64_steps_high) (auto simp: bit_eq_iff bit_simps)
  also have "\<dots> = drop_bit 8 x"
    by (rule bit_word_eqI) (auto simp: bit_simps dest: bit_imp_le_length)
  finally have "(crc64_step ^^ 8) ?h = drop_bit 8 x" .
  then show ?thesis
    by (subst x) (simp add: lin)
qed

interpretation crc16_reg: crc_register crc16_step "\<lambda>b. push_bit 8 (ucast b)"
  "\<lambda>x. ucast (drop_bit 8 x)" "push_bit 8"
proof unfold_locales
  show "crc16_step (x XOR y) = crc16_step x XOR crc16_step y" for x y
    by (rule crc16_step_xor)
  show "(crc16_step ^^ 8) x = (crc16_step ^^ 8) (push_bit 8 (ucast (ucast (drop_bit 8 x) :: byte)))
     XOR push_bit 8 x" for x
    by (rule crc16_split)
qed (auto simp: bit_eq_iff bit_simps dest: bit_imp_le_length)

interpretation crc64_reg: crc_register crc64_step ucast ucast "drop_bit 8"
proof unfold_locales
  show "crc64_step (x XOR y) = crc64_step x XOR crc64_step y" for x y
    by (rule crc64_step_xor)
  show "(crc64_step ^^ 8) x = (crc64_step ^^ 8) (ucast (ucast x :: byte)) XOR drop_bit 8 x" for x
    by (rule crc64_split)
qed (auto simp: bit_eq_iff bit_simps dest: bit_imp_le_length)

text \<open>Both tables are the XOR tables of their eight power-of-two entries.\<close>

lemma upt_8: "[0..<8] = [0, 1, 2, 3, 4, 5, 6, 7::nat]"
  by (simp add: upt_rec)

lemma funpow_8: "(f ^^ 8) x = f (f (f (f (f (f (f (f x)))))))"
  by (simp add: numeral_eq_Suc)

lemma crc16_tab_powers:
  "map (\<lambda>k. (crc16_step ^^ 8) (push_bit 8 (ucast ((2 :: byte) ^ k)))) [0..<8] =
   [0x1021, 0x2042, 0x4084, 0x8108, 0x1231, 0x2462, 0x48C4, 0x9188]"
  by (simp add: upt_8 funpow_8 crc16_step_def)

lemma crc64_tab_powers:
  "map (\<lambda>k. (crc64_step ^^ 8) (ucast ((2 :: byte) ^ k))) [0..<8] =
   map (nth crc64_tab) [1, 2, 4, 8, 16, 32, 64, 128]"
  by (simp add: upt_8 funpow_8 crc64_step_def CRC64_POLY_def crc64_tab_def)

lemma crc16_tab_xor:
  "xor_table [0x1021, 0x2042, 0x4084, 0x8108, 0x1231, 0x2462, 0x48C4, 0x9188] = crc16_tab"
  by (simp add: crc16_tab_def xor_table_def)

lemma crc64_tab_xor:
  "xor_table (map (nth crc64_tab) [1, 2, 4, 8, 16, 32, 64, 128]) = crc64_tab"
  by (simp add: crc64_tab_def xor_table_def)

lemma and_FF_unat:
  assumes "8 \<le> LENGTH('a)"
  shows "unat ((x :: 'a::len word) AND 0xFF) = unat (ucast x :: byte)"
proof -
  have "(0xFF :: 'a word) = mask 8"
    by (simp add: mask_eq_exp_minus_1)
  then have "x AND 0xFF = take_bit 8 x"
    by (simp add: take_bit_eq_mask)
  then show ?thesis
    using assms by (simp add: unsigned_take_bit_eq unsigned_ucast_eq)
qed

lemma ucast_xor_byte:
  assumes "8 \<le> LENGTH('a)"
  shows "ucast ((x :: 'a::len word) XOR ucast b) = ucast x XOR (b :: byte)"
  by (rule bit_word_eqI) (use assms in \<open>auto simp: bit_simps\<close>)

lemma crc16_table_step:
  "push_bit 8 crc XOR crc16_tab ! unat ((drop_bit 8 crc XOR ucast (b :: byte)) AND (0xFF :: u16)) =
   (crc16_step ^^ 8) (crc XOR push_bit 8 (ucast b))"
proof -
  have "unat ((drop_bit 8 crc XOR ucast b) AND (0xFF :: u16)) =
        unat (ucast (drop_bit 8 crc) XOR b)"
    by (simp add: and_FF_unat ucast_xor_byte)
  then show ?thesis
    using crc16_reg.table_step [OF crc16_tab_xor [symmetric, folded crc16_tab_powers]]
    by (simp add: xor.commute)
qed

lemma crc64_table_step:
  "crc64_tab ! unat ((crc XOR ucast (b :: byte)) AND (0xFF :: u64)) XOR drop_bit 8 crc =
   (crc64_step ^^ 8) (crc XOR ucast b)"
proof -
  have "unat ((crc XOR ucast b) AND (0xFF :: u64)) = unat (ucast crc XOR b)"
    by (simp add: and_FF_unat ucast_xor_byte)
  then show ?thesis
    using crc64_reg.table_step [OF crc64_tab_xor [symmetric, folded crc64_tab_powers]]
    by simp
qed

lemma crc16_loop_serial: "crc16_loop crc bs = crc16_serial crc bs"
  by (induction crc bs rule: crc16_loop.induct) (simp_all add: crc16_serial_def crc16_table_step)

lemma crc64_loop_serial: "crc64_loop crc bs = crc64_serial crc bs"
  by (induction crc bs rule: crc64_loop.induct) (simp_all add: crc64_serial_def crc64_table_step)

section \<open>The hash tag rule\<close>

text \<open>
  \<open>tag_of key\<close> is the rule of \<open>src/core/hashslot.h\<close>: the bytes between the first opening
  brace and the next closing one when there are any, else the whole key.
\<close>

definition tag_of :: "bytes \<Rightarrow> bytes" where
  "tag_of key =
     (let after = tl (dropWhile (\<lambda>c. c \<noteq> LBRACE) key);
          tag = takeWhile (\<lambda>c. c \<noteq> RBRACE) after
      in if LBRACE \<in> set key \<and> RBRACE \<in> set after \<and> tag \<noteq> [] then tag else key)"

lemma scan_byte_None: "scan_byte c xs = None \<longleftrightarrow> c \<notin> set xs"
  by (induction xs) auto

lemma scan_byte_Some:
  "scan_byte c xs = Some i \<Longrightarrow>
     c \<in> set xs \<and> i < length xs \<and> take i xs = takeWhile (\<lambda>x. x \<noteq> c) xs \<and>
     drop i xs = dropWhile (\<lambda>x. x \<noteq> c) xs"
  by (induction xs arbitrary: i) (auto split: if_splits)

text \<open>Both functions search for the same bounds.\<close>

lemma hash_slot_bounds:
  "hash_slot key =
     (let (start, stop) = hash_tag_bounds key
      in unat (crc16 (take (stop - start) (drop start key))) mod 16384)"
proof (cases "scan_byte LBRACE key")
  case None
  then show ?thesis by (simp add: hash_slot_def hash_tag_bounds_def crc16_def)
next
  case (Some i)
  then show ?thesis
    by (cases "scan_byte RBRACE (drop (i + 1) key)")
      (auto simp: hash_slot_def hash_tag_bounds_def crc16_def)
qed

lemma hash_tag_bounds_tag:
  "hash_tag_bounds key = (start, stop) \<Longrightarrow>
     stop \<le> length key \<and> take (stop - start) (drop start key) = tag_of key \<and>
     stop - start = length (tag_of key)"
proof (cases "scan_byte LBRACE key")
  case None
  assume "hash_tag_bounds key = (start, stop)"
  with None scan_byte_None [of LBRACE key] show ?thesis
    by (auto simp: hash_tag_bounds_def tag_of_def)
next
  case (Some i)
  assume hb: "hash_tag_bounds key = (start, stop)"
  from scan_byte_Some [OF Some]
  have i: "LBRACE \<in> set key" "i < length key"
    and d: "drop i key = dropWhile (\<lambda>x. x \<noteq> LBRACE) key" by auto
  let ?r = "drop (i + 1) key"
  have r: "?r = tl (dropWhile (\<lambda>x. x \<noteq> LBRACE) key)"
    by (simp add: d [symmetric] drop_Suc tl_drop)
  show ?thesis
  proof (cases "scan_byte RBRACE ?r")
    case None
    with hb Some i r scan_byte_None [of RBRACE ?r] show ?thesis
      by (auto simp: hash_tag_bounds_def tag_of_def)
  next
    case s: (Some j)
    from scan_byte_Some [OF s]
    have j: "RBRACE \<in> set ?r" "j < length ?r"
      and t': "take j ?r = takeWhile (\<lambda>c. c \<noteq> RBRACE) ?r" by auto
    note t = t' [unfolded r]
    have len: "length (take j ?r) = j"
      using j(2) by simp
    show ?thesis
    proof (cases "j = 0")
      case True
      with t have "tag_of key = key"
        unfolding tag_of_def Let_def by simp
      with True hb Some s show ?thesis
        by (auto simp: hash_tag_bounds_def)
    next
      case False
      then have "take j ?r \<noteq> []" using len by auto
      with i(1) j(1) t' have "tag_of key = take j ?r"
        unfolding tag_of_def Let_def r by simp
      with False hb Some s len j(2) show ?thesis
        by (auto simp: hash_tag_bounds_def)
    qed
  qed
qed

section \<open>Properties\<close>

text \<open>
  C17: The table-driven loop of \<open>crc16\<close> computes the CRC of the bit-serial register with
  polynomial \<open>0x1021\<close>, most significant bit first, start value 0.
\<close>

theorem crc16_is_xmodem: "crc16 buf = crc16_serial 0 buf"
  by (simp add: crc16_def crc16_loop_serial)

text \<open>
  C18: \<open>crc64\<close> is the reflected bit-serial CRC-64 with inverted input and output, and a
  message checksummed in two pieces gives the checksum of the whole.
\<close>

theorem crc64_is_xz_and_incremental:
  "crc64 c data = NOT (crc64_serial (NOT c) data) \<and>
   crc64 (crc64 c data) more = crc64 c (data @ more)"
  by (simp add: crc64_def crc64_loop_serial crc64_serial_def)

text \<open>
  \<open>hash_slot\<close> is a slot below 16384, the CRC-16 of the key's hash tag reduced modulo
  16384; \<open>hash_tag\<close> returns the length of that same tag and writes its first \<open>cap - 1\<close>
  bytes.
\<close>

theorem hash_slot_of_tag:
  "hash_slot key < 16384 \<and>
   hash_slot key = unat (crc16_serial 0 (tag_of key)) mod 16384 \<and>
   hash_tag key cap =
     (length (tag_of key), if cap = 0 then [] else take (cap - 1) (tag_of key) @ [0])"
proof -
  obtain start stop where b: "hash_tag_bounds key = (start, stop)"
    by (cases "hash_tag_bounds key")
  from hash_tag_bounds_tag [OF b]
  have t: "take (stop - start) (drop start key) = tag_of key"
    and l: "stop - start = length (tag_of key)" by auto
  have "hash_slot key = unat (crc16_serial 0 (tag_of key)) mod 16384"
    by (simp only: hash_slot_bounds b Let_def prod.case t crc16_def crc16_loop_serial)
  moreover have "take n (drop start key) = take n (tag_of key)" if "n \<le> length (tag_of key)" for n
    using that by (metis l min.absorb1 t take_take)
  ultimately show ?thesis
    by (auto simp: hash_tag_def b l Let_def)
qed

end
