(* ===== verification/Rhtable.thy ===== *)
theory Rhtable
  imports Prelude "HOL-Library.Multiset"
begin

text \<open>
  The main store: \<open>src/core/rhtable.c\<close>, a Robin Hood open-addressing hash table that grows
  by incremental rehashing. Slots, probe loops, backward-shift deletion, batched migration
  and every public operation are modelled. The hash function is a parameter \<open>h\<close> (the source
  takes it from \<open>deps/wyhash\<close> where a 128-bit multiply exists); \<open>rh_hash_fnv\<close> is the
  fallback the source defines itself.

  Loops with no bound of their own are \<open>partial_function (option)\<close>; \<open>None\<close> also stands for
  the \<open>exit(1)\<close> of a capacity overflow. That the operations return is proved.
\<close>

section \<open>Definitions\<close>

subsection \<open>Entries and tables\<close>

record rh_entry =
  e_hash :: u64
  e_kv :: bytes
  e_klen :: nat
  e_vlen :: nat
  e_psl :: int
  e_meta :: u32

record rh_table =
  t_slots :: "rh_entry list"
  t_cap :: nat
  t_size :: nat
  t_grow_at :: nat
  t_old_slots :: "rh_entry list option"
  t_old_cap :: nat
  t_old_live :: nat
  t_migrate_pos :: nat

definition RH_INIT_CAP :: nat where "RH_INIT_CAP = 16"
definition RH_MAX_LOAD_NUM :: nat where "RH_MAX_LOAD_NUM = 85"
definition RH_MAX_LOAD_DEN :: nat where "RH_MAX_LOAD_DEN = 100"
definition RH_MIGRATE_BATCH :: nat where "RH_MIGRATE_BATCH = 16"

text \<open>\<open>sizeof(rh_entry)\<close>: two 8-byte and four 4-byte fields.\<close>

definition RH_ENTRY_SIZE :: nat where "RH_ENTRY_SIZE = 32"

text \<open>A fresh slot: \<open>psl = -1\<close>, the other fields are never read before they are written.\<close>

definition rh_empty_slot :: rh_entry where
  "rh_empty_slot = \<lparr>e_hash = 0, e_kv = [], e_klen = 0, e_vlen = 0, e_psl = -1, e_meta = 0\<rparr>"

text \<open>The views \<open>kv\<close> and \<open>kv + klen\<close> the operations hand out.\<close>

definition rh_key :: "rh_entry \<Rightarrow> bytes" where
  "rh_key e = take (e_klen e) (e_kv e)"

definition rh_val :: "rh_entry \<Rightarrow> bytes" where
  "rh_val e = take (e_vlen e) (drop (e_klen e) (e_kv e))"

definition rh_slot_bytes :: "nat \<Rightarrow> nat option" where
  "rh_slot_bytes c = (if c > SIZE_MAX div RH_ENTRY_SIZE then None else Some (c * RH_ENTRY_SIZE))"

definition rh_grow_capacity :: "nat \<Rightarrow> nat option" where
  "rh_grow_capacity c =
     (if c > SIZE_MAX div 2 then None
      else let doubled = c * 2
           in if doubled > SIZE_MAX div RH_ENTRY_SIZE then None else Some doubled)"

text \<open>The hash of platforms without a 128-bit multiply: FNV-1a followed by a mixer.\<close>

fun rh_fnv_loop :: "u64 \<Rightarrow> bytes \<Rightarrow> u64" where
  "rh_fnv_loop h [] = h"
| "rh_fnv_loop h (b # bs) = rh_fnv_loop ((h XOR ucast b) * 1099511628211) bs"

definition rh_hash_fnv :: "bytes \<Rightarrow> u64" where
  "rh_hash_fnv key =
     (let h = rh_fnv_loop 14695981039346656037 key;
          h = h XOR drop_bit 33 h;
          h = h * 0xff51afd7ed558ccd;
          h = h XOR drop_bit 33 h;
          h = h * 0xc4ceb9fe1a85ec53;
          h = h XOR drop_bit 33 h
      in h)"

definition rh_growth_limit :: "nat \<Rightarrow> nat" where
  "rh_growth_limit c =
     (c div RH_MAX_LOAD_DEN) * RH_MAX_LOAD_NUM +
     ((c mod RH_MAX_LOAD_DEN) * RH_MAX_LOAD_NUM) div RH_MAX_LOAD_DEN"

definition rh_alloc_slots :: "nat \<Rightarrow> rh_entry list option" where
  "rh_alloc_slots c =
     (case rh_slot_bytes c of None \<Rightarrow> None | Some _ \<Rightarrow> Some (replicate c rh_empty_slot))"

definition rh_init :: "rh_table option" where
  "rh_init =
     (case rh_alloc_slots RH_INIT_CAP of
        None \<Rightarrow> None
      | Some s \<Rightarrow> Some \<lparr>t_slots = s, t_cap = RH_INIT_CAP, t_size = 0,
          t_grow_at = rh_growth_limit RH_INIT_CAP, t_old_slots = None, t_old_cap = 0,
          t_old_live = 0, t_migrate_pos = 0\<rparr>)"

definition rh_destroy :: "rh_table \<Rightarrow> rh_table" where
  "rh_destroy t = \<lparr>t_slots = [], t_cap = 0, t_size = 0, t_grow_at = 0, t_old_slots = None,
     t_old_cap = 0, t_old_live = 0, t_migrate_pos = 0\<rparr>"

subsection \<open>Probe loops\<close>

partial_function (option) rh_insert_loop ::
  "rh_entry list \<Rightarrow> nat \<Rightarrow> nat \<Rightarrow> int \<Rightarrow> rh_entry \<Rightarrow> rh_entry list option" where
  "rh_insert_loop slots m i dist e =
     (if e_psl (slots ! i) < 0 then Some (slots[i := e\<lparr>e_psl := dist\<rparr>])
      else if e_psl (slots ! i) < dist
      then rh_insert_loop (slots[i := e\<lparr>e_psl := dist\<rparr>]) m ((i + 1) AND m)
             (e_psl (slots ! i) + 1) (slots ! i)
      else rh_insert_loop slots m ((i + 1) AND m) (dist + 1) e)"

definition rh_insert_entry :: "rh_entry list \<Rightarrow> nat \<Rightarrow> rh_entry \<Rightarrow> rh_entry list option" where
  "rh_insert_entry slots c e = rh_insert_loop slots (c - 1) (unat (e_hash e) AND (c - 1)) 0 e"

definition rh_match :: "u64 \<Rightarrow> bytes \<Rightarrow> rh_entry \<Rightarrow> bool" where
  "rh_match hv key e \<longleftrightarrow>
     e_hash e = hv \<and> e_klen e = length key \<and>
     (length key = 0 \<or> take (length key) (e_kv e) = key)"

text \<open>
  The search loop ends: \<open>dist\<close> grows with each step and the loop stops at the first slot
  whose \<open>psl\<close> is below it.
\<close>

function rh_find_loop ::
  "rh_entry list \<Rightarrow> nat \<Rightarrow> u64 \<Rightarrow> bytes \<Rightarrow> nat \<Rightarrow> int \<Rightarrow> nat option" where
  "rh_find_loop slots m hv key i dist =
     (if e_psl (slots ! i) < 0 \<or> e_psl (slots ! i) < dist then None
      else if rh_match hv key (slots ! i) then Some i
      else rh_find_loop slots m hv key ((i + 1) AND m) (dist + 1))"
  by pat_completeness auto
termination
proof (relation "measure (\<lambda>(slots, m, hv, key, i, dist).
    nat (Max ((\<lambda>j. e_psl (slots ! j)) ` {..max i m}) + 1 - dist))", goal_cases)
  case 1
  show ?case by simp
next
  case (2 slots m hv key i dist)
  let ?f = "\<lambda>j. e_psl (slots ! j)"
  have le: "(i + 1) AND m \<le> m"
    by (rule nat_and_le)
  have "Max (?f ` {..max ((i + 1) AND m) m}) \<le> Max (?f ` {..max i m})"
    by (rule Max_mono) (use le in auto)
  moreover have "dist \<le> Max (?f ` {..max i m})"
    by (rule order_trans [OF _ Max_ge, of _ "?f i"]) (use 2(1) in auto)
  ultimately show ?case
    by (simp del: Max_le_iff Max_ge_iff)
qed

declare rh_find_loop.simps [simp del]

definition rh_find_in :: "rh_entry list \<Rightarrow> nat \<Rightarrow> u64 \<Rightarrow> bytes \<Rightarrow> nat option" where
  "rh_find_in slots c hv key = rh_find_loop slots (c - 1) hv key (unat hv AND (c - 1)) 0"

partial_function (option) rh_delete_loop ::
  "rh_entry list \<Rightarrow> nat \<Rightarrow> nat \<Rightarrow> rh_entry list option" where
  "rh_delete_loop slots m j =
     (if e_psl (slots ! ((j + 1) AND m)) \<le> 0
      then Some (slots[j := (slots ! j)\<lparr>e_psl := -1, e_kv := []\<rparr>])
      else rh_delete_loop
             (slots[j := (slots ! ((j + 1) AND m))
                \<lparr>e_psl := e_psl (slots ! ((j + 1) AND m)) - 1\<rparr>])
             m ((j + 1) AND m))"

definition rh_delete_at :: "rh_entry list \<Rightarrow> nat \<Rightarrow> nat \<Rightarrow> rh_entry list option" where
  "rh_delete_at slots c i = rh_delete_loop slots (c - 1) i"

subsection \<open>Incremental rehash\<close>

function rh_migrate_loop :: "rh_table \<Rightarrow> nat \<Rightarrow> rh_table option" where
  "rh_migrate_loop t moved =
     (case t_old_slots t of
        None \<Rightarrow> Some t
      | Some old \<Rightarrow>
          if moved < RH_MIGRATE_BATCH \<and> t_old_live t > 0 then
            if t_migrate_pos t \<ge> t_old_cap t then Some t
            else let e = old ! t_migrate_pos t;
                     t1 = t\<lparr>t_migrate_pos := t_migrate_pos t + 1\<rparr>
                 in if e_psl e \<ge> 0
                    then (case rh_insert_entry (t_slots t) (t_cap t) e of
                            None \<Rightarrow> None
                          | Some s \<Rightarrow>
                              rh_migrate_loop
                                (t1\<lparr>t_slots := s,
                                    t_old_slots :=
                                      Some (old[t_migrate_pos t := e\<lparr>e_psl := -1, e_kv := []\<rparr>]),
                                    t_old_live := t_old_live t - 1\<rparr>)
                                (moved + 1))
                    else rh_migrate_loop t1 moved
          else Some t)"
  by pat_completeness auto
termination
  by (relation "measure (\<lambda>(t, moved). t_old_cap t - t_migrate_pos t)") auto

declare rh_migrate_loop.simps [simp del]

definition rh_migrate_some_slow :: "rh_table \<Rightarrow> rh_table option" where
  "rh_migrate_some_slow t =
     (case rh_migrate_loop t 0 of
        None \<Rightarrow> None
      | Some t \<Rightarrow>
          Some (if t_old_live t = 0
                then t\<lparr>t_old_slots := None, t_old_cap := 0, t_migrate_pos := 0\<rparr> else t))"

definition rh_migrate_some :: "rh_table \<Rightarrow> rh_table option" where
  "rh_migrate_some t = (if t_old_slots t \<noteq> None then rh_migrate_some_slow t else Some t)"

definition rh_maybe_grow :: "rh_table \<Rightarrow> rh_table option" where
  "rh_maybe_grow t =
     (if t_old_slots t \<noteq> None then Some t
      else if t_size t < SIZE_MAX \<and> t_size t + 1 \<le> t_grow_at t then Some t
      else case rh_grow_capacity (t_cap t) of
             None \<Rightarrow> None
           | Some new_cap \<Rightarrow>
               (case rh_alloc_slots new_cap of
                  None \<Rightarrow> None
                | Some new_slots \<Rightarrow>
                    Some (t\<lparr>t_old_slots := Some (t_slots t), t_old_cap := t_cap t,
                            t_old_live := t_size t, t_migrate_pos := 0,
                            t_slots := new_slots, t_cap := new_cap,
                            t_grow_at := rh_growth_limit new_cap\<rparr>)))"

subsection \<open>Public operations\<close>

text \<open>
  \<open>rh_locate\<close> is the lookup every operation starts with: the main slots first, the old
  slots while a rehash is in flight. A table after \<open>rh_destroy\<close> (\<open>slots == NULL\<close>,
  \<open>cap == 0\<close>) makes every operation return at its first test.
\<close>

datatype rh_ref = InMain nat | InOld nat

definition rh_locate :: "(bytes \<Rightarrow> u64) \<Rightarrow> rh_table \<Rightarrow> bytes \<Rightarrow> rh_ref option" where
  "rh_locate h t key =
     (case rh_find_in (t_slots t) (t_cap t) (h key) key of
        Some i \<Rightarrow> Some (InMain i)
      | None \<Rightarrow>
          (case t_old_slots t of
             None \<Rightarrow> None
           | Some old \<Rightarrow>
               if t_old_cap t \<noteq> 0
               then map_option InOld (rh_find_in old (t_old_cap t) (h key) key)
               else None))"

fun rh_deref :: "rh_table \<Rightarrow> rh_ref \<Rightarrow> rh_entry" where
  "rh_deref t (InMain i) = t_slots t ! i"
| "rh_deref t (InOld i) = the (t_old_slots t) ! i"

fun rh_assign :: "rh_table \<Rightarrow> rh_ref \<Rightarrow> rh_entry \<Rightarrow> rh_table" where
  "rh_assign t (InMain i) e = t\<lparr>t_slots := (t_slots t)[i := e]\<rparr>"
| "rh_assign t (InOld i) e = t\<lparr>t_old_slots := Some ((the (t_old_slots t))[i := e])\<rparr>"

definition rh_get :: "(bytes \<Rightarrow> u64) \<Rightarrow> rh_table \<Rightarrow> bytes \<Rightarrow> (bytes option \<times> rh_table) option" where
  "rh_get h t key =
     (if t_cap t = 0 then Some (None, t)
      else case rh_migrate_some t of
             None \<Rightarrow> None
           | Some t \<Rightarrow> Some (map_option (\<lambda>r. rh_val (rh_deref t r)) (rh_locate h t key), t))"

definition rh_get_touch ::
  "(bytes \<Rightarrow> u64) \<Rightarrow> rh_table \<Rightarrow> bytes \<Rightarrow> u32 \<Rightarrow> (bytes option \<times> rh_table) option" where
  "rh_get_touch h t key mt =
     (if t_cap t = 0 then Some (None, t)
      else case rh_migrate_some t of
             None \<Rightarrow> None
           | Some t \<Rightarrow>
               (case rh_locate h t key of
                  None \<Rightarrow> Some (None, t)
                | Some r \<Rightarrow>
                    let e = (rh_deref t r)\<lparr>e_meta := mt\<rparr>
                    in Some (Some (rh_val e), rh_assign t r e)))"

text \<open>
  \<open>rh_set\<close>: the result is \<open>-1\<close> for a length that does not fit, 1 on overwrite, 0 on insert.
  The insert path shared with \<open>rh_set_ex2\<close> is \<open>rh_add\<close>.
\<close>

definition rh_add ::
  "(bytes \<Rightarrow> u64) \<Rightarrow> rh_table \<Rightarrow> bytes \<Rightarrow> bytes \<Rightarrow> u32 \<Rightarrow> rh_table option" where
  "rh_add h t key v mt =
     (case rh_maybe_grow t of
        None \<Rightarrow> None
      | Some t \<Rightarrow>
          (case rh_insert_entry (t_slots t) (t_cap t)
                  \<lparr>e_hash = h key, e_kv = key @ v, e_klen = length key, e_vlen = length v,
                   e_psl = 0, e_meta = mt\<rparr> of
             None \<Rightarrow> None
           | Some s \<Rightarrow> Some (t\<lparr>t_slots := s, t_size := t_size t + 1\<rparr>)))"

definition rh_set :: "(bytes \<Rightarrow> u64) \<Rightarrow> rh_table \<Rightarrow> bytes \<Rightarrow> bytes \<Rightarrow> (int \<times> rh_table) option" where
  "rh_set h t key v =
     (if t_cap t = 0 \<or> length key > UINT32_MAX \<or> length v > UINT32_MAX \<or>
         length key > SIZE_MAX - length v
      then Some (-1, t)
      else case rh_migrate_some t of
             None \<Rightarrow> None
           | Some t \<Rightarrow>
               (case rh_locate h t key of
                  Some r \<Rightarrow>
                    Some (1, rh_assign t r ((rh_deref t r)\<lparr>e_kv := key @ v, e_vlen := length v\<rparr>))
                | None \<Rightarrow> map_option (\<lambda>t. (0, t)) (rh_add h t key v 0)))"

text \<open>
  \<open>rh_set_ex2\<close> stores the concatenation of two parts and returns the replaced value with
  the result.
\<close>

definition rh_set_ex2 ::
  "(bytes \<Rightarrow> u64) \<Rightarrow> rh_table \<Rightarrow> bytes \<Rightarrow> bytes \<Rightarrow> bytes \<Rightarrow> u32 \<Rightarrow>
     (int \<times> bytes option \<times> rh_table) option" where
  "rh_set_ex2 h t key v1 v2 mt =
     (if t_cap t = 0 \<or> length key > UINT32_MAX \<or> length v1 > UINT32_MAX \<or>
         length v2 > UINT32_MAX \<or> length v1 > SIZE_MAX - length v2
      then Some (-1, None, t)
      else if length v1 + length v2 > UINT32_MAX \<or>
              length key > SIZE_MAX - (length v1 + length v2)
      then Some (-1, None, t)
      else case rh_migrate_some t of
             None \<Rightarrow> None
           | Some t \<Rightarrow>
               (case rh_locate h t key of
                  Some r \<Rightarrow>
                    Some (1, Some (rh_val (rh_deref t r)),
                      rh_assign t r ((rh_deref t r)\<lparr>e_kv := key @ v1 @ v2,
                        e_vlen := length v1 + length v2, e_meta := mt\<rparr>))
                | None \<Rightarrow> map_option (\<lambda>t. (0, None, t)) (rh_add h t key (v1 @ v2) mt)))"

definition rh_set_ex ::
  "(bytes \<Rightarrow> u64) \<Rightarrow> rh_table \<Rightarrow> bytes \<Rightarrow> bytes \<Rightarrow> u32 \<Rightarrow>
     (int \<times> bytes option \<times> rh_table) option" where
  "rh_set_ex h t key v mt = rh_set_ex2 h t key v [] mt"

definition rh_meta_of :: "(bytes \<Rightarrow> u64) \<Rightarrow> rh_table \<Rightarrow> bytes \<Rightarrow> u32" where
  "rh_meta_of h t key =
     (if t_cap t = 0 then 0
      else case rh_locate h t key of None \<Rightarrow> 0 | Some r \<Rightarrow> e_meta (rh_deref t r))"

definition rh_touch :: "(bytes \<Rightarrow> u64) \<Rightarrow> rh_table \<Rightarrow> bytes \<Rightarrow> u32 \<Rightarrow> bool \<times> rh_table" where
  "rh_touch h t key mt =
     (if t_cap t = 0 then (False, t)
      else case rh_locate h t key of
             None \<Rightarrow> (False, t)
           | Some r \<Rightarrow> (True, rh_assign t r ((rh_deref t r)\<lparr>e_meta := mt\<rparr>)))"

definition rh_del :: "(bytes \<Rightarrow> u64) \<Rightarrow> rh_table \<Rightarrow> bytes \<Rightarrow> (bool \<times> rh_table) option" where
  "rh_del h t key =
     (if t_cap t = 0 then Some (False, t)
      else case rh_migrate_some t of
             None \<Rightarrow> None
           | Some t \<Rightarrow>
               (case rh_locate h t key of
                  None \<Rightarrow> Some (False, t)
                | Some (InMain i) \<Rightarrow>
                    map_option (\<lambda>s. (True, t\<lparr>t_slots := s, t_size := t_size t - 1\<rparr>))
                      (rh_delete_at (t_slots t) (t_cap t) i)
                | Some (InOld i) \<Rightarrow>
                    map_option
                      (\<lambda>s. (True, t\<lparr>t_old_slots := Some s, t_old_live := t_old_live t - 1,
                                     t_size := t_size t - 1\<rparr>))
                      (rh_delete_at (the (t_old_slots t)) (t_old_cap t) i)))"

text \<open>\<open>rh_scan_occupied\<close>: the first occupied slot at or after \<open>start\<close>, wrapping around.\<close>

definition rh_scan_occupied :: "rh_entry list \<Rightarrow> nat \<Rightarrow> nat \<Rightarrow> rh_entry option" where
  "rh_scan_occupied slots c start =
     find (\<lambda>e. e_psl e \<ge> 0) (map (\<lambda>k. slots ! ((start + k) AND (c - 1))) [0..<c])"

definition rh_random_entry :: "rh_table \<Rightarrow> u32 \<Rightarrow> (bytes \<times> bytes \<times> u32) option" where
  "rh_random_entry t rnd =
     (if t_cap t = 0 \<or> t_size t = 0 then None
      else map_option (\<lambda>e. (rh_key e, rh_val e, e_meta e))
        (case rh_scan_occupied (t_slots t) (t_cap t) (unat rnd AND (t_cap t - 1)) of
           Some e \<Rightarrow> Some e
         | None \<Rightarrow>
             (case t_old_slots t of
                None \<Rightarrow> None
              | Some old \<Rightarrow>
                  if t_old_cap t \<noteq> 0
                  then rh_scan_occupied old (t_old_cap t) (unat rnd AND (t_old_cap t - 1))
                  else None)))"

definition rh_size :: "rh_table \<Rightarrow> nat" where
  "rh_size t = t_size t"

text \<open>\<open>rh_each\<close> as the list of calls it makes, in order.\<close>

definition rh_each :: "rh_table \<Rightarrow> (bytes \<times> bytes) list" where
  "rh_each t =
     (let visit = (\<lambda>slots. map (\<lambda>e. (rh_key e, rh_val e)) (filter (\<lambda>e. e_psl e \<ge> 0) slots))
      in if t_cap t = 0 then []
         else visit (t_slots t) @
              (case t_old_slots t of
                 None \<Rightarrow> []
               | Some old \<Rightarrow> if t_old_cap t = 0 then [] else visit old))"

text \<open>
  \<open>rh_scan\<close> with a callback that may change the table and its own state \<open>'s\<close>: the table
  fields are read again after every call. The result is the resume cursor, 0 at the end.
\<close>

definition rh_virtual_slot :: "rh_table \<Rightarrow> nat \<Rightarrow> rh_entry option" where
  "rh_virtual_slot t cursor =
     (if cursor < t_cap t then Some (t_slots t ! cursor)
      else case t_old_slots t of
             None \<Rightarrow> None
           | Some old \<Rightarrow>
               if cursor - t_cap t < t_old_cap t then Some (old ! (cursor - t_cap t)) else None)"

function rh_scan_loop ::
  "(bytes \<Rightarrow> bytes \<Rightarrow> rh_table \<Rightarrow> 's \<Rightarrow> bool \<times> rh_table \<times> 's) \<Rightarrow>
     nat \<Rightarrow> nat \<Rightarrow> nat \<Rightarrow> nat \<Rightarrow> rh_table \<Rightarrow> 's \<Rightarrow> nat \<times> rh_table \<times> 's" where
  "rh_scan_loop cb tot visited cnt cursor t st =
     (if visited < cnt
      then (case rh_virtual_slot t cursor of
              None \<Rightarrow> (0, t, st)
            | Some e \<Rightarrow>
                if e_psl e < 0 then rh_scan_loop cb tot visited cnt (cursor + 1) t st
                else (case cb (rh_key e) (rh_val e) t st of
                        (stop, t', st') \<Rightarrow>
                          if stop
                          then (if cursor + 1 \<ge> tot then 0 else cursor + 1, t', st')
                          else rh_scan_loop cb tot (visited + 1) cnt (cursor + 1) t' st'))
      else (if cursor \<ge> tot then 0 else cursor, t, st))"
  by pat_completeness auto
termination
  by (relation "measures [\<lambda>(cb, tot, visited, cnt, cursor, t, st). cnt - visited,
        \<lambda>(cb, tot, visited, cnt, cursor, t, st). t_cap t + t_old_cap t - cursor]")
    (auto simp: rh_virtual_slot_def split: if_splits option.splits)

declare rh_scan_loop.simps [simp del]

definition rh_scan ::
  "(bytes \<Rightarrow> bytes \<Rightarrow> rh_table \<Rightarrow> 's \<Rightarrow> bool \<times> rh_table \<times> 's) \<Rightarrow>
     rh_table \<Rightarrow> nat \<Rightarrow> nat \<Rightarrow> 's \<Rightarrow> nat \<times> rh_table \<times> 's" where
  "rh_scan cb t cursor cnt st =
     (if t_cap t = 0 \<or> t_cap t > SIZE_MAX - t_old_cap t then (0, t, st)
      else let tot = t_cap t + t_old_cap t
           in if cursor \<ge> tot then (0, t, st)
              else rh_scan_loop cb tot 0 cnt cursor t st)"

end
