(* ===== verification/Rhtable_Probe.thy ===== *)
theory Rhtable_Probe
  imports Rhtable
begin

text \<open>
  The Robin Hood invariant of one slot array and its preservation.

  \<open>rh_ok h p slots\<close> says of an array of \<open>2^k\<close> slots that every entry sits \<open>psl\<close> slots after
  its home slot, that \<open>psl\<close> grows by at most one from a slot to the next, and that the first
  \<open>p\<close> slots are empty. For \<open>p = 0\<close> this is the invariant of the main table; an array that is
  being migrated has \<open>p = migrate_pos\<close>, and the step over the boundary \<open>p - 1, p\<close> is exempt
  because migration empties slots without shifting the entries behind them.

  Insertion and backward-shift deletion end, keep the invariant and change the multiset of
  live entries by exactly the one entry; the search finds an entry exactly when it is
  \<open>visible\<close> (\<open>rh_find_in_iff\<close>).
\<close>

subsection \<open>The invariant\<close>

abbreviation P :: "rh_entry list \<Rightarrow> nat \<Rightarrow> int" where
  "P slots i \<equiv> e_psl (slots ! i)"

definition entry_ok :: "(bytes \<Rightarrow> u64) \<Rightarrow> rh_entry \<Rightarrow> bool" where
  "entry_ok h e \<longleftrightarrow>
     length (e_kv e) = e_klen e + e_vlen e \<and> e_hash e = h (rh_key e)"

definition home :: "nat \<Rightarrow> rh_entry \<Rightarrow> nat" where
  "home c e = unat (e_hash e) mod c"

definition placed :: "(bytes \<Rightarrow> u64) \<Rightarrow> rh_entry list \<Rightarrow> bool" where
  "placed h slots \<longleftrightarrow>
     (\<forall>i < length slots. -1 \<le> P slots i \<and>
        (0 \<le> P slots i \<longrightarrow>
           entry_ok h (slots ! i) \<and> P slots i < int (length slots) \<and>
           (home (length slots) (slots ! i) + nat (P slots i)) mod length slots = i))"

definition ordered :: "nat \<Rightarrow> rh_entry list \<Rightarrow> bool" where
  "ordered p slots \<longleftrightarrow>
     (\<forall>i < length slots. p = 0 \<or> Suc i mod length slots \<noteq> p \<longrightarrow>
        P slots (Suc i mod length slots) \<le> P slots i + 1)"

definition rh_ok :: "(bytes \<Rightarrow> u64) \<Rightarrow> nat \<Rightarrow> rh_entry list \<Rightarrow> bool" where
  "rh_ok h p slots \<longleftrightarrow>
     pow2 (length slots) \<and> p \<le> length slots \<and> placed h slots \<and> ordered p slots \<and>
     (\<forall>i < p. P slots i = -1)"

definition strip :: "rh_entry \<Rightarrow> rh_entry" where
  "strip e = e\<lparr>e_psl := 0\<rparr>"

definition live :: "rh_entry list \<Rightarrow> rh_entry multiset" where
  "live slots = image_mset strip (filter_mset (\<lambda>e. 0 \<le> e_psl e) (mset slots))"

lemma strip_simps [simp]:
  "e_hash (strip e) = e_hash e" "e_kv (strip e) = e_kv e" "e_klen (strip e) = e_klen e"
  "e_vlen (strip e) = e_vlen e" "e_meta (strip e) = e_meta e" "e_psl (strip e) = 0"
  "rh_key (strip e) = rh_key e" "rh_val (strip e) = rh_val e"
  "strip (e\<lparr>e_psl := d\<rparr>) = strip e" "strip (strip e) = strip e"
  by (simp_all add: strip_def rh_key_def rh_val_def)

lemma entry_simps [simp]:
  "rh_key (e\<lparr>e_psl := d\<rparr>) = rh_key e" "rh_val (e\<lparr>e_psl := d\<rparr>) = rh_val e"
  "entry_ok h (e\<lparr>e_psl := d\<rparr>) = entry_ok h e" "home c (e\<lparr>e_psl := d\<rparr>) = home c e"
  by (simp_all add: rh_key_def rh_val_def entry_ok_def home_def)

lemma live_update:
  assumes "i < length slots"
  shows "live (slots[i := e]) =
    (if 0 \<le> e_psl e then {#strip e#} else {#}) +
    (live slots - (if 0 \<le> P slots i then {#strip (slots ! i)#} else {#}))"
proof -
  have "slots ! i \<in># mset slots" using assms by simp
  then obtain M where M: "mset slots = add_mset (slots ! i) M"
    by (meson mset_add)
  then have "mset (slots[i := e]) = add_mset e M"
    using assms by (simp add: mset_update)
  with M show ?thesis by (simp add: live_def)
qed

lemma rh_idx: "rh_ok h p slots \<Longrightarrow> (i + 1) AND (length slots - 1) = Suc i mod length slots"
  by (simp add: rh_ok_def ring_simps)

lemma placedD:
  assumes "placed h slots" and "i < length slots"
  shows "-1 \<le> P slots i"
    and "0 \<le> P slots i \<Longrightarrow> entry_ok h (slots ! i)"
    and "0 \<le> P slots i \<Longrightarrow> P slots i < int (length slots)"
    and "0 \<le> P slots i \<Longrightarrow>
           (home (length slots) (slots ! i) + nat (P slots i)) mod length slots = i"
  using assms by (auto simp: placed_def)

text \<open>From an empty slot on, probe lengths grow by at most one per slot.\<close>

lemma psl_from_empty:
  assumes ok: "rh_ok h 0 slots" and z: "z < length slots" "P slots z < 0"
  shows "P slots ((z + m) mod length slots) < int m"
proof (induction m)
  case 0
  with z show ?case by simp
next
  case (Suc m)
  let ?c = "length slots"
  have c: "0 < ?c" using z by auto
  have "P slots (Suc ((z + m) mod ?c) mod ?c) \<le> P slots ((z + m) mod ?c) + 1"
    using ok c unfolding rh_ok_def ordered_def by auto
  moreover have "Suc ((z + m) mod ?c) mod ?c = (z + Suc m) mod ?c"
    by (simp add: mod_Suc_eq)
  ultimately show ?case using Suc by simp
qed

lemma live_empty_slot: "size (live slots) < length slots \<longleftrightarrow> (\<exists>z < length slots. P slots z < 0)"
proof -
  have "size (live slots) + size (filter_mset (\<lambda>e. \<not> 0 \<le> e_psl e) (mset slots)) = length slots"
    by (metis live_def multiset_partition size_image_mset size_mset size_union)
  moreover have "size (filter_mset (\<lambda>e. \<not> 0 \<le> e_psl e) (mset slots)) = 0 \<longleftrightarrow>
      (\<forall>z < length slots. 0 \<le> P slots z)"
    by (auto simp: in_set_conv_nth filter_mset_eq_mempty_iff)
  ultimately show ?thesis by (metis less_add_same_cancel1 linorder_not_less neq0_conv)
qed

lemma placed_put:
  assumes "placed h slots" and "i < length slots"
    and "e_psl e = -1 \<or> 0 \<le> e_psl e \<and> entry_ok h e \<and> e_psl e < int (length slots) \<and>
           (home (length slots) e + nat (e_psl e)) mod length slots = i"
  shows "placed h (slots[i := e])"
  unfolding placed_def length_list_update
proof (intro allI impI)
  fix k assume "k < length slots"
  with assms placedD [OF assms(1), of k]
  show "-1 \<le> P (slots[i := e]) k \<and>
      (0 \<le> P (slots[i := e]) k \<longrightarrow>
         entry_ok h (slots[i := e] ! k) \<and> P (slots[i := e]) k < int (length slots) \<and>
         (home (length slots) (slots[i := e] ! k) + nat (P (slots[i := e]) k)) mod length slots = k)"
    by (cases "k = i") auto
qed

lemma ordered_put:
  assumes o: "ordered p slots" and i: "i < length slots"
    and pre: "\<And>j. j < length slots \<Longrightarrow> Suc j mod length slots = i \<Longrightarrow> p = 0 \<or> i \<noteq> p \<Longrightarrow>
                e_psl e \<le> P slots j + 1"
    and nxt: "p = 0 \<or> Suc i mod length slots \<noteq> p \<Longrightarrow>
                P slots (Suc i mod length slots) \<le> e_psl e + 1"
  shows "ordered p (slots[i := e])"
  unfolding ordered_def length_list_update
proof (intro allI impI)
  fix k assume k: "k < length slots" "p = 0 \<or> Suc k mod length slots \<noteq> p"
  then have "P slots (Suc k mod length slots) \<le> P slots k + 1"
    using o by (auto simp: ordered_def)
  then show "P (slots[i := e]) (Suc k mod length slots) \<le> P (slots[i := e]) k + 1"
    using pre [OF k(1)] nxt k i
    by (cases "k = i"; cases "Suc k mod length slots = i") auto
qed

text \<open>Writing an entry over a poorer one, or into an empty slot, keeps the order.\<close>

lemma rh_ok_put:
  assumes ok: "rh_ok h 0 slots" and i: "i < length slots" and lt: "P slots i < dist"
    and e: "entry_ok h e" and d: "0 \<le> dist" "dist < int (length slots)"
    and hm: "(home (length slots) e + nat dist) mod length slots = i"
    and pre: "\<And>j. j < length slots \<Longrightarrow> Suc j mod length slots = i \<Longrightarrow> dist \<le> P slots j + 1"
  shows "rh_ok h 0 (slots[i := e\<lparr>e_psl := dist\<rparr>])"
proof -
  have "P slots (Suc i mod length slots) \<le> P slots i + 1"
    using ok i by (simp add: rh_ok_def ordered_def)
  then have "ordered 0 (slots[i := e\<lparr>e_psl := dist\<rparr>])"
    using ok i lt pre by (intro ordered_put) (auto simp: rh_ok_def)
  moreover have "placed h (slots[i := e\<lparr>e_psl := dist\<rparr>])"
    using ok i e d hm by (intro placed_put) (auto simp: rh_ok_def)
  ultimately show ?thesis
    using ok by (simp add: rh_ok_def)
qed

lemma dist_bound:
  assumes ok: "rh_ok h 0 slots" and i: "i < length slots"
    and z: "z < length slots" "P slots z < 0"
    and pre: "\<And>j. j < length slots \<Longrightarrow> Suc j mod length slots = i \<Longrightarrow> dist \<le> P slots j + 1"
  shows "dist < int (length slots)"
proof -
  let ?c = "length slots"
  obtain m where m: "1 \<le> m" "m \<le> ?c" "(z + m) mod ?c = i"
    using mod_reach [OF z(1) i] by blast
  let ?j = "(z + (m - 1)) mod ?c"
  have "Suc ?j mod ?c = i"
    using m by (simp add: mod_Suc_eq)
  moreover have "?j < ?c" using z(1) by (intro mod_less_divisor) auto
  ultimately have "dist \<le> P slots ?j + 1" by (intro pre)
  moreover have "P slots ?j < int (m - 1)"
    by (rule psl_from_empty [OF ok z])
  ultimately show ?thesis using m by simp
qed

lemma rh_insert_loop_ok:
  assumes "rh_ok h 0 slots" and "i < length slots" and "entry_ok h e" and "0 \<le> dist"
    and "(home (length slots) e + nat dist) mod length slots = i"
    and "\<And>j. j < length slots \<Longrightarrow> Suc j mod length slots = i \<Longrightarrow> dist \<le> P slots j + 1"
    and "P slots ((i + n) mod length slots) < 0"
  shows "\<exists>s. rh_insert_loop slots (length slots - 1) i dist e = Some s \<and>
     length s = length slots \<and> rh_ok h 0 s \<and> live s = add_mset (strip e) (live slots)"
  using assms
proof (induction n arbitrary: slots i dist e)
  case 0
  let ?c = "length slots"
  have i: "P slots i < 0" using 0 by simp
  have "dist < int ?c"
    by (rule dist_bound [OF 0(1,2) 0(2) i 0(6)])
  then have "rh_ok h 0 (slots[i := e\<lparr>e_psl := dist\<rparr>])"
    using 0 i by (intro rh_ok_put) auto
  moreover have "rh_insert_loop slots (?c - 1) i dist e = Some (slots[i := e\<lparr>e_psl := dist\<rparr>])"
    using i by (simp add: rh_insert_loop.simps)
  moreover have "live (slots[i := e\<lparr>e_psl := dist\<rparr>]) = add_mset (strip e) (live slots)"
    using 0(2,4) i by (simp add: live_update)
  ultimately show ?case by simp
next
  case (Suc n)
  let ?c = "length slots" and ?z = "(i + Suc n) mod length slots"
  let ?i' = "Suc i mod length slots"
  have c: "0 < ?c" using Suc.prems(2) by auto
  have z: "?z < ?c" "P slots ?z < 0" using Suc.prems(7) c by auto
  have i': "?i' < ?c" "(?i' + n) mod ?c = ?z" using c by (simp_all add: mod_simps)
  have idx: "(i + 1) AND (?c - 1) = ?i'" by (rule rh_idx [OF Suc.prems(1)])
  have pred: "j = i" if "j < ?c" "Suc j mod ?c = ?i'" for j
    using that Suc.prems(2) by (metis mod_less mod_step_eq)
  have dc: "dist < int ?c" by (rule dist_bound [OF Suc.prems(1,2) z Suc.prems(6)])
  consider "P slots i < 0" | "0 \<le> P slots i" "P slots i < dist" | "0 \<le> P slots i" "dist \<le> P slots i"
    by linarith
  then show ?case
  proof cases
    case 1
    have "rh_ok h 0 (slots[i := e\<lparr>e_psl := dist\<rparr>])"
      using Suc.prems dc 1 by (intro rh_ok_put) auto
    moreover have "rh_insert_loop slots (?c - 1) i dist e = Some (slots[i := e\<lparr>e_psl := dist\<rparr>])"
      using 1 by (simp add: rh_insert_loop.simps)
    moreover have "live (slots[i := e\<lparr>e_psl := dist\<rparr>]) = add_mset (strip e) (live slots)"
      using Suc.prems(2,4) 1 by (simp add: live_update)
    ultimately show ?thesis by simp
  next
    case 2
    let ?s = "slots[i := e\<lparr>e_psl := dist\<rparr>]" and ?e = "slots ! i"
    have ok: "rh_ok h 0 ?s"
      using Suc.prems dc 2 by (intro rh_ok_put) auto
    have zi: "?z \<noteq> i" using z 2 by auto
    note pl = placedD [of h slots i] 
    have e: "entry_ok h ?e" and hm: "(home ?c ?e + nat (P slots i)) mod ?c = i"
      using Suc.prems(1,2) 2 pl by (auto simp: rh_ok_def)
    have hm': "(home ?c ?e + nat (P slots i + 1)) mod ?c = ?i'"
      using hm 2 by (metis Suc_eq_plus1 add_Suc_right mod_Suc_eq nat_add_distrib nat_one_as_int
          zero_le_one)
    have "\<exists>s. rh_insert_loop ?s (length ?s - 1) ?i' (P slots i + 1) ?e = Some s \<and>
       length s = length ?s \<and> rh_ok h 0 s \<and> live s = add_mset (strip ?e) (live ?s)"
    proof (rule Suc.IH [OF ok])
      show "P ?s ((?i' + n) mod length ?s) < 0"
        using z zi i' by simp
      show "P slots i + 1 \<le> P ?s j + 1" if "j < length ?s" "Suc j mod length ?s = ?i'" for j
        using pred [of j] that Suc.prems(2) 2 by simp
    qed (use e hm' 2 i' in simp_all)
    moreover have "live ?s = add_mset (strip e) (live slots - {#strip ?e#})"
      using Suc.prems(2,4) 2 by (simp add: live_update)
    moreover have "strip ?e \<in># live slots"
      using Suc.prems(2) 2 by (auto simp: live_def)
    ultimately show ?thesis
      using 2 idx by (subst rh_insert_loop.simps) auto
  next
    case 3
    have hm': "(home ?c e + nat (dist + 1)) mod ?c = ?i'"
      using Suc.prems(4,5) by (metis Suc_eq_plus1 add_Suc_right mod_Suc_eq nat_add_distrib
          nat_one_as_int zero_le_one)
    have "\<exists>s. rh_insert_loop slots (?c - 1) ?i' (dist + 1) e = Some s \<and>
       length s = ?c \<and> rh_ok h 0 s \<and> live s = add_mset (strip e) (live slots)"
    proof (rule Suc.IH [OF Suc.prems(1)])
      show "dist + 1 \<le> P slots j + 1" if "j < ?c" "Suc j mod ?c = ?i'" for j
        using pred [of j] that 3 by simp
    qed (use Suc.prems hm' z i' in simp_all)
    then show ?thesis
      using 3 idx by (subst rh_insert_loop.simps) simp
  qed
qed

lemma rh_insert_entry_ok:
  assumes ok: "rh_ok h 0 slots" and e: "entry_ok h e" and sz: "size (live slots) < length slots"
  shows "\<exists>s. rh_insert_entry slots (length slots) e = Some s \<and> length s = length slots \<and>
     rh_ok h 0 s \<and> live s = add_mset (strip e) (live slots)"
proof -
  let ?c = "length slots" and ?i = "unat (e_hash e) mod length slots"
  from sz obtain z where z: "z < ?c" "P slots z < 0"
    by (auto simp: live_empty_slot)
  then have i: "?i < ?c" by (intro mod_less_divisor) auto
  obtain n where n: "(?i + n) mod ?c = z"
    using mod_reach [OF i z(1)] by blast
  have idx: "unat (e_hash e) AND (?c - 1) = ?i"
    using ok by (simp add: rh_ok_def ring_simps)
  have "0 \<le> P slots j + 1" if "j < ?c" for j
    using ok that placedD(1) [of h slots j] by (simp add: rh_ok_def)
  then show ?thesis
    unfolding rh_insert_entry_def idx
    by (intro rh_insert_loop_ok [OF ok i e, where n = n]) (simp_all add: n z home_def)
qed

subsection \<open>Backward-shift deletion\<close>

text \<open>
  While the loop runs the slots stay ordered: the hole \<open>j\<close> still holds a stale copy, and
  the result has lost exactly that copy.
\<close>

lemma rh_delete_loop_ok:
  assumes "rh_ok h p slots" and "j < length slots" and "0 \<le> P slots j"
    and "P slots ((j + n) mod length slots) < 0"
  shows "\<exists>s. rh_delete_loop slots (length slots - 1) j = Some s \<and>
     length s = length slots \<and> rh_ok h p s \<and> live s = live slots - {#strip (slots ! j)#}"
  using assms
proof (induction n arbitrary: slots j)
  case 0
  then show ?case by simp
next
  case (Suc n)
  let ?c = "length slots" and ?n = "Suc j mod length slots"
  have c: "0 < ?c" using Suc.prems(2) by auto
  have idx: "(j + 1) AND (?c - 1) = ?n" by (rule rh_idx [OF Suc.prems(1)])
  have n: "?n < ?c" using c by simp
  have ordp: "P slots (Suc k mod ?c) \<le> P slots k + 1" if "k < ?c" "p = 0 \<or> Suc k mod ?c \<noteq> p" for k
    using Suc.prems(1) that by (auto simp: rh_ok_def ordered_def)
  have pl: "placed h slots" and pc: "p \<le> ?c" and pw: "pow2 ?c"
    and pe: "\<And>k. k < p \<Longrightarrow> P slots k = -1"
    using Suc.prems(1) by (auto simp: rh_ok_def)
  have jp: "p \<le> j" using pe [of j] Suc.prems(3) by linarith
  have np: "?n \<noteq> p \<or> p = 0" using jp Suc.prems(2) by (auto simp: mod_Suc)
  show ?case
  proof (cases "P slots ?n \<le> 0")
    case True
    let ?s = "slots[j := (slots ! j)\<lparr>e_psl := -1, e_kv := []\<rparr>]"
    have "ordered p ?s"
    proof (rule ordered_put)
      show "e_psl ((slots ! j)\<lparr>e_psl := -1, e_kv := []\<rparr>) \<le> P slots k + 1" if "k < ?c" for k
        using placedD(1) [OF pl that] by simp
    qed (use Suc.prems(1,2) True in \<open>simp_all add: rh_ok_def\<close>)
    moreover have "placed h ?s"
      using pl Suc.prems(2) by (intro placed_put) auto
    ultimately have "rh_ok h p ?s"
      using pw pc pe jp by (simp add: rh_ok_def)
    moreover have "live ?s = live slots - {#strip (slots ! j)#}"
      using Suc.prems(2,3) by (simp add: live_update)
    ultimately show ?thesis
      using True idx by (subst rh_delete_loop.simps) simp
  next
    case False
    let ?e = "slots ! ?n"
    let ?s = "slots[j := ?e\<lparr>e_psl := e_psl ?e - 1\<rparr>]"
    have nj: "?n \<noteq> j"
    proof
      assume "?n = j"
      then have "?c = 1" using Suc.prems(2) by (auto simp: mod_Suc split: if_splits)
      then show False using Suc.prems(2,3,4) by simp
    qed
    have le: "P slots ?n - 1 \<le> P slots j"
      using ordp [of j] Suc.prems(2) np by auto
    have "(home ?c ?e + nat (P slots ?n)) mod ?c = ?n"
      using placedD(4) [OF pl n] False by simp
    moreover have "nat (P slots ?n) = Suc (nat (P slots ?n - 1))" using False by linarith
    ultimately have "Suc (home ?c ?e + nat (P slots ?n - 1)) mod ?c = Suc j mod ?c"
      by (simp only: add_Suc_right)
    then have hm: "(home ?c ?e + nat (P slots ?n - 1)) mod ?c = j"
      using Suc.prems(2) by (rule mod_step_eq)
    have "ordered p ?s"
    proof (rule ordered_put)
      show "e_psl (?e\<lparr>e_psl := e_psl ?e - 1\<rparr>) \<le> P slots k + 1"
        if "k < ?c" "Suc k mod ?c = j" "p = 0 \<or> j \<noteq> p" for k
        using ordp [of k] that le by simp
    qed (use Suc.prems(1,2) in \<open>simp_all add: rh_ok_def\<close>)
    moreover have "placed h ?s"
      using pl hm False Suc.prems(2) placedD(2,3) [OF pl n] by (intro placed_put) auto
    ultimately have ok: "rh_ok h p ?s"
      using pw pc pe jp by (simp add: rh_ok_def)
    have z: "P slots ((?n + n) mod ?c) < 0"
      using Suc.prems(4) by (simp add: mod_simps)
    have "\<exists>s. rh_delete_loop ?s (length ?s - 1) ?n = Some s \<and>
       length s = length ?s \<and> rh_ok h p s \<and> live s = live ?s - {#strip (?s ! ?n)#}"
    proof (rule Suc.IH [OF ok])
      show "P ?s ((?n + n) mod length ?s) < 0"
        using z Suc.prems(3) by (cases "(?n + n) mod ?c = j") auto
    qed (use n nj False in simp_all)
    moreover have "live ?s = add_mset (strip ?e) (live slots - {#strip (slots ! j)#})"
      using Suc.prems(2,3) False by (simp add: live_update)
    ultimately show ?thesis
      using False idx nj by (subst rh_delete_loop.simps) simp
  qed
qed

lemma rh_delete_at_ok:
  assumes ok: "rh_ok h p slots" and i: "i < length slots" "0 \<le> P slots i"
    and sz: "size (live slots) < length slots"
  shows "\<exists>s. rh_delete_at slots (length slots) i = Some s \<and> length s = length slots \<and>
     rh_ok h p s \<and> live s = live slots - {#strip (slots ! i)#}"
proof -
  from sz obtain z where z: "z < length slots" "P slots z < 0"
    by (auto simp: live_empty_slot)
  obtain n where "(i + n) mod length slots = z"
    using mod_reach [OF i(1) z(1)] by blast
  with z show ?thesis
    unfolding rh_delete_at_def by (intro rh_delete_loop_ok [OF ok i, of n]) simp
qed

subsection \<open>Search\<close>

text \<open>
  An entry at slot \<open>i\<close> of a table whose first \<open>p\<close> slots have been migrated away is
  \<open>visible\<close> when its probe sequence starts at or after \<open>p\<close> and does not wrap around.
\<close>

definition visible :: "nat \<Rightarrow> rh_entry list \<Rightarrow> nat \<Rightarrow> bool" where
  "visible p slots i \<longleftrightarrow> p = 0 \<or> P slots i \<le> int i - int p"

definition unique_keys :: "rh_entry multiset \<Rightarrow> bool" where
  "unique_keys M \<longleftrightarrow> (\<forall>k. size {#e \<in># M. rh_key e = k#} \<le> 1)"

lemma rh_match_key: "entry_ok h e \<Longrightarrow> rh_match (h key) key e \<longleftrightarrow> rh_key e = key"
  by (auto simp: rh_match_def entry_ok_def rh_key_def)

lemma unique_slot:
  assumes u: "unique_keys (live slots)" and ij: "i < length slots" "j < length slots"
    and occ: "0 \<le> P slots i" "0 \<le> P slots j" and k: "rh_key (slots ! i) = rh_key (slots ! j)"
  shows "i = j"
proof (rule ccontr)
  assume ne: "i \<noteq> j"
  let ?k = "rh_key (slots ! j)" and ?s = "slots[i := rh_empty_slot]"
  have "strip (slots ! i) \<in># live slots" using ij occ by (auto simp: live_def)
  moreover have "live ?s = live slots - {#strip (slots ! i)#}"
    using ij occ by (simp add: live_update rh_empty_slot_def)
  ultimately have "live slots = add_mset (strip (slots ! i)) (live ?s)" by simp
  moreover have "strip (?s ! j) \<in># live ?s"
    using ij occ ne by (auto simp: live_def in_set_conv_nth intro!: image_eqI [where x = "slots ! j"] exI [where x = j])
  then obtain M where "live ?s = add_mset (strip (slots ! j)) M"
    using ne by (metis mset_add nth_list_update_neq)
  ultimately have "size {#e \<in># live slots. rh_key e = ?k#} \<ge> 2"
    using k by simp
  with u show False unfolding unique_keys_def by (metis Suc_1 not_less_eq_eq)
qed

lemma find_loop_trace:
  assumes "rh_find_loop slots (length slots - 1) hv key i dist = Some r"
    and "pow2 (length slots)" and "i < length slots"
  shows "\<exists>n. r = (i + n) mod length slots \<and> rh_match hv key (slots ! r) \<and>
     (\<forall>m \<le> n. max 0 (dist + int m) \<le> P slots ((i + m) mod length slots))"
  using assms
proof (induction slots "length slots - 1" hv key i dist rule: rh_find_loop.induct)
  case (1 slots hv key i dist)
  let ?c = "length slots"
  have idx: "(i + 1) AND (?c - 1) = Suc i mod ?c"
    using 1(3) by (simp add: ring_simps)
  have lt: "Suc i mod ?c < ?c" by (rule mod_less_divisor) (use 1(4) in linarith)
  from 1(2) have psl: "0 \<le> P slots i" "dist \<le> P slots i"
    by (auto simp: rh_find_loop.simps [of slots _ hv key i dist] split: if_splits)
  show ?case
  proof (cases "rh_match hv key (slots ! i)")
    case True
    with 1(2) psl have "r = i"
      by (simp add: rh_find_loop.simps [of slots _ hv key i dist])
    with True psl 1(4) show ?thesis by (intro exI [of _ 0]) auto
  next
    case False
    have "\<exists>n. r = (Suc i mod ?c + n) mod ?c \<and> rh_match hv key (slots ! r) \<and>
       (\<forall>m \<le> n. max 0 (dist + 1 + int m) \<le> P slots ((Suc i mod ?c + m) mod ?c))"
      using 1(1) False psl 1(2,3,4) idx lt
      by (simp add: rh_find_loop.simps [of slots _ hv key i dist])
    then obtain n where n: "r = (Suc i mod ?c + n) mod ?c" "rh_match hv key (slots ! r)"
      "\<forall>m \<le> n. max 0 (dist + 1 + int m) \<le> P slots ((Suc i mod ?c + m) mod ?c)" by blast
    have "max 0 (dist + int m) \<le> P slots ((i + m) mod ?c)" if "m \<le> Suc n" for m
    proof (cases m)
      case 0
      with psl 1(4) show ?thesis by simp
    next
      case (Suc k)
      with n(3) that have "max 0 (dist + 1 + int k) \<le> P slots ((Suc i mod ?c + k) mod ?c)" by simp
      then show ?thesis by (simp add: Suc mod_simps add.assoc)
    qed
    with n(1,2) show ?thesis by (intro exI [of _ "Suc n"]) (simp add: mod_simps)
  qed
qed

lemma find_loop_hit:
  assumes "pow2 (length slots)" and "i < length slots"
    and "rh_match hv key (slots ! ((i + n) mod length slots))"
    and "\<And>j. j < length slots \<Longrightarrow> 0 \<le> P slots j \<Longrightarrow> rh_match hv key (slots ! j) \<Longrightarrow>
           j = (i + n) mod length slots"
    and "\<And>m. m \<le> n \<Longrightarrow> max 0 (dist + int m) \<le> P slots ((i + m) mod length slots)"
  shows "rh_find_loop slots (length slots - 1) hv key i dist = Some ((i + n) mod length slots)"
  using assms
proof (induction n arbitrary: i dist)
  case 0
  from 0(5) [of 0] 0(2) have "0 \<le> P slots i" "dist \<le> P slots i" by auto
  with 0(2,3) show ?case by (simp add: rh_find_loop.simps [of slots _ hv key i dist])
next
  case (Suc n)
  let ?c = "length slots" and ?i = "Suc i mod length slots"
  have idx: "(i + 1) AND (?c - 1) = ?i"
    using Suc.prems(1) by (simp add: ring_simps)
  have eq: "(?i + m) mod ?c = (i + Suc m) mod ?c" for m
    by (simp add: mod_simps)
  from Suc.prems(5) [of 0] Suc.prems(2) have psl: "0 \<le> P slots i" "dist \<le> P slots i" by auto
  show ?case
  proof (cases "rh_match hv key (slots ! i)")
    case True
    with Suc.prems(4) [OF Suc.prems(2) psl(1)] psl show ?thesis
      by (simp add: rh_find_loop.simps [of slots _ hv key i dist])
  next
    case False
    have "rh_find_loop slots (?c - 1) hv key ?i (dist + 1) = Some ((?i + n) mod ?c)"
    proof (rule Suc.IH)
      show "?i < ?c" by (rule mod_less_divisor) (use Suc.prems(2) in linarith)
      show "max 0 (dist + 1 + int m) \<le> P slots ((?i + m) mod ?c)" if "m \<le> n" for m
        using Suc.prems(5) [of "Suc m"] that by (simp add: eq add.assoc)
    qed (use Suc.prems in \<open>simp_all add: eq\<close>)
    with False psl idx show ?thesis
      by (simp add: rh_find_loop.simps [of slots _ hv key i dist] eq)
  qed
qed

lemma mod_add_inj:
  assumes "(a::nat) < c" and "n < c" and "m < c" and "(a + n) mod c = (a + m) mod c"
  shows "n = m"
  using assms by (auto simp: mod_add_lt split: if_splits)

lemma visible_chain:
  assumes ok: "rh_ok h p slots" and r: "r < length slots" "0 \<le> P slots r"
    and vis: "visible p slots r" and m: "m \<le> nat (P slots r)"
  shows "int m \<le> P slots ((home (length slots) (slots ! r) + m) mod length slots)"
  using m
proof (induction "nat (P slots r) - m" arbitrary: m)
  case 0
  with ok r show ?case by (auto simp: rh_ok_def dest: placedD)
next
  case (Suc k)
  let ?c = "length slots" and ?a = "home (length slots) (slots ! r)" and ?d = "nat (P slots r)"
  let ?j = "(?a + m) mod ?c"
  have c: "0 < ?c" using r by auto
  have nxt: "Suc ?j mod ?c = (?a + Suc m) mod ?c" by (simp add: mod_Suc_eq)
  have "p = 0 \<or> Suc ?j mod ?c \<noteq> p"
  proof (cases "p = 0")
    case False
    with vis have v: "P slots r \<le> int r - int p" by (simp add: visible_def)
    have ad: "(?a + ?d) mod ?c = r" "?a < ?c" "?d < ?c"
      using placedD(3,4) [OF _ r(1,2), of h] ok c r
      by (auto simp: rh_ok_def home_def nat_less_iff)
    have "?a + ?d = r"
      using ad v r mod_add_lt [of ?a ?c ?d] by (auto split: if_splits)
    with Suc(2,3) v r ad(2) show ?thesis by (auto simp: nxt)
  qed simp
  then have "P slots (Suc ?j mod ?c) \<le> P slots ?j + 1"
    using ok c by (auto simp: rh_ok_def ordered_def)
  moreover have "int (Suc m) \<le> P slots ((?a + Suc m) mod ?c)"
    using Suc(2,3) by (intro Suc(1)) auto
  ultimately show ?case by (simp add: nxt)
qed

text \<open>The search finds exactly the visible entries of the table.\<close>

lemma rh_find_in_iff:
  assumes ok: "rh_ok h p slots" and u: "unique_keys (live slots)"
  shows "rh_find_in slots (length slots) (h key) key = Some i \<longleftrightarrow>
    i < length slots \<and> 0 \<le> P slots i \<and> rh_key (slots ! i) = key \<and> visible p slots i"
proof
  let ?c = "length slots" and ?a = "unat (h key) mod length slots"
  have c: "0 < ?c" and pw: "pow2 ?c" using ok pow2_pos by (auto simp only: rh_ok_def)
  have a: "unat (h key) AND (?c - 1) = ?a" using pw by (simp add: ring_simps)
  have home: "home ?c (slots ! j) = ?a" if "entry_ok h (slots ! j)" "rh_key (slots ! j) = key" for j
    using that by (simp add: home_def entry_ok_def)
  have key: "rh_match (h key) key (slots ! j) \<longleftrightarrow> rh_key (slots ! j) = key"
    if "j < ?c" "0 \<le> P slots j" for j
    using rh_match_key placedD(2) [OF _ that] ok unfolding rh_ok_def by blast
  {
    assume "rh_find_in slots ?c (h key) key = Some i"
    then obtain n where n: "i = (?a + n) mod ?c" "rh_match (h key) key (slots ! i)"
      "\<forall>m \<le> n. max 0 (int m) \<le> P slots ((?a + m) mod ?c)"
      using find_loop_trace [of slots "h key" key ?a 0 i] c pw
      by (auto simp: rh_find_in_def ring_simps)
    then have i: "i < ?c" "0 \<le> P slots i" "int n \<le> P slots i" using c by auto
    with n(2) key have k: "rh_key (slots ! i) = key" by blast
    have e: "entry_ok h (slots ! i)" "P slots i < int ?c" "(?a + nat (P slots i)) mod ?c = i"
      using placedD(2,3,4) [OF _ i(1,2)] ok home k by (auto simp: rh_ok_def)
    have "visible p slots i"
    proof (cases "p = 0")
      case False
      have emp: "P slots j < 0" if "j < p" for j using ok that by (auto simp: rh_ok_def)
      have pc: "p \<le> ?c" using ok by (simp add: rh_ok_def)
      have mod_n: "n = nat (P slots i)"
        by (rule mod_add_inj [of ?a ?c]) (use n(1) e(2,3) i(2,3) c in auto)
      have "p \<le> ?a"
        using emp [of ?a] n(3) [rule_format, of 0] by (cases "?a < p") simp_all
      moreover have "?a + n < ?c"
      proof (rule ccontr)
        assume "\<not> ?a + n < ?c"
        then have "?c - ?a \<le> n" "(?a + (?c - ?a)) mod ?c = 0" using c by auto
        with n(3) [rule_format, of "?c - ?a"] have "0 \<le> P slots 0" by simp
        with emp [of 0] False show False by simp
      qed
      ultimately have "int p \<le> int i - int n"
        unfolding n(1) mod_less [OF \<open>?a + n < ?c\<close>] by linarith
      moreover have "int n = P slots i" using mod_n i(2) by linarith
      ultimately show ?thesis unfolding visible_def by linarith
    qed (simp add: visible_def)
    with i k show "i < ?c \<and> 0 \<le> P slots i \<and> rh_key (slots ! i) = key \<and> visible p slots i" by blast
  }
  {
    assume A: "i < ?c \<and> 0 \<le> P slots i \<and> rh_key (slots ! i) = key \<and> visible p slots i"
    then have e: "entry_ok h (slots ! i)" "(home ?c (slots ! i) + nat (P slots i)) mod ?c = i"
      using placedD(2,4) ok by (auto simp: rh_ok_def)
    then have i: "(?a + nat (P slots i)) mod ?c = i" using home A by simp
    have "rh_find_loop slots (?c - 1) (h key) key ?a 0 = Some ((?a + nat (P slots i)) mod ?c)"
    proof (rule find_loop_hit [OF pw])
      show "?a < ?c" using c by simp
      show "rh_match (h key) key (slots ! ((?a + nat (P slots i)) mod ?c))"
        unfolding i using A key [of i] by blast
      show "j = (?a + nat (P slots i)) mod ?c"
        if "j < ?c" "0 \<le> P slots j" "rh_match (h key) key (slots ! j)" for j
        unfolding i using unique_slot [OF u that(1) _ that(2)] A that key [of j] by metis
      show "max 0 (0 + int m) \<le> P slots ((?a + m) mod ?c)" if "m \<le> nat (P slots i)" for m
        using visible_chain [OF ok, of i m] A that home [OF e(1)] by simp
    qed
    then show "rh_find_in slots ?c (h key) key = Some i" unfolding rh_find_in_def a i .
  }
qed

end
