(* ===== verification/Rhtable_Map.thy ===== *)
theory Rhtable_Map
  imports Rhtable_Probe
begin

text \<open>
  The hash table as a finite map.

  \<open>rh_inv\<close> is the table invariant over both slot arrays: the Robin Hood order of each, the
  counters, distinct keys, the load bound outside a rehash and, during one, the potential
  \<open>16 * size + old_live \<le> 17 * old_cap + 16\<close> that keeps a free slot in the main array until the
  old one is empty. Under it every operation returns, keeps the invariant, and acts on
  \<open>rh_map\<close> as the map operation does, unless its key is out of reach during a rehash
  (\<open>rh_sees\<close>); \<open>rh_rehash_hides_key\<close> shows that such keys exist.
\<close>

subsection \<open>Table invariant\<close>

definition old_of :: "rh_table \<Rightarrow> rh_entry list" where
  "old_of t = (case t_old_slots t of None \<Rightarrow> [] | Some old \<Rightarrow> old)"

definition entries :: "rh_table \<Rightarrow> rh_entry multiset" where
  "entries t = live (t_slots t) + live (old_of t)"

definition rh_inv :: "(bytes \<Rightarrow> u64) \<Rightarrow> rh_table \<Rightarrow> bool" where
  "rh_inv h t \<longleftrightarrow>
     t_cap t = length (t_slots t) \<and> 16 \<le> t_cap t \<and> rh_ok h 0 (t_slots t) \<and>
     t_grow_at t = rh_growth_limit (t_cap t) \<and>
     t_old_cap t = length (old_of t) \<and> t_old_live t = size (live (old_of t)) \<and>
     t_size t = size (entries t) \<and> unique_keys (entries t) \<and>
     (case t_old_slots t of
        None \<Rightarrow> t_migrate_pos t = 0 \<and> t_size t \<le> t_grow_at t
      | Some old \<Rightarrow>
          t_cap t = 2 * length old \<and> 16 \<le> length old \<and> rh_ok h (t_migrate_pos t) old \<and>
          t_old_live t < length old \<and> 16 * t_size t + t_old_live t \<le> 17 * length old + 16)"

lemma live_Nil [simp]: "live [] = {#}"
  by (simp add: live_def)

lemma growth_limit_eq:
  "100 * rh_growth_limit c \<le> 85 * c \<and> 85 * c < 100 * rh_growth_limit c + 100"
proof -
  define q r x where "q = c div 100" and "r = c mod 100" and "x = (r * 85) div 100"
  have "c = 100 * q + r" by (simp add: q_def r_def)
  moreover have "100 * x \<le> r * 85 \<and> r * 85 < 100 * x + 100" unfolding x_def by linarith
  moreover have "rh_growth_limit c = q * 85 + x"
    by (simp add: rh_growth_limit_def RH_MAX_LOAD_DEN_def RH_MAX_LOAD_NUM_def q_def r_def x_def)
  ultimately show ?thesis by simp
qed

lemma growth_limit_bounds:
  assumes "16 \<le> c" shows "rh_growth_limit c < c" and "c \<le> 2 * rh_growth_limit c"
  using growth_limit_eq [of c] assms by linarith+

subsection \<open>One migration step\<close>

text \<open>
  Moving the entry at \<open>migrate_pos\<close>, or passing an empty slot, keeps the order: the exempt
  boundary moves with it.
\<close>

lemma rh_ok_advance:
  assumes ok: "rh_ok h p old" and p: "p < length old"
  shows "rh_ok h (p + 1) (old[p := (old ! p)\<lparr>e_psl := -1, e_kv := []\<rparr>])"
proof -
  let ?e = "(old ! p)\<lparr>e_psl := -1, e_kv := []\<rparr>"
  have "ordered (p + 1) (old[p := ?e])"
    unfolding ordered_def length_list_update
  proof (intro allI impI)
    fix k assume k: "k < length old" "p + 1 = 0 \<or> Suc k mod length old \<noteq> p + 1"
    have pl: "\<And>j. j < length old \<Longrightarrow> -1 \<le> P old j" using ok by (simp add: rh_ok_def placed_def)
    have lt: "Suc k mod length old < length old" by (rule mod_less_divisor) (use k in linarith)
    show "P (old[p := ?e]) (Suc k mod length old) \<le> P (old[p := ?e]) k + 1"
    proof (cases "Suc k mod length old = p")
      case True
      with pl [OF k(1)] p show ?thesis by (cases "k = p") auto
    next
      case ne: False
      show ?thesis
      proof (cases "k = p")
        case True
        with k lt have "Suc k = length old" by (auto simp: Suc_mod_cases split: if_splits)
        then have "Suc k mod length old = 0" by simp
        moreover have "P old 0 = -1" if "p \<noteq> 0" using ok that by (simp add: rh_ok_def)
        ultimately show ?thesis using True ne p by simp
      next
        case False
        have "P old (Suc k mod length old) \<le> P old k + 1"
          using ok k ne unfolding rh_ok_def ordered_def by blast
        with ne False show ?thesis by simp
      qed
    qed
  qed
  moreover have "placed h (old[p := ?e])"
    using ok p by (intro placed_put) (auto simp: rh_ok_def)
  moreover have "\<forall>i < p + 1. P (old[p := ?e]) i = -1"
    using ok p by (auto simp: rh_ok_def nth_list_update less_Suc_eq)
  ultimately show ?thesis using ok p by (simp add: rh_ok_def)
qed

lemma rh_ok_skip:
  assumes ok: "rh_ok h p old" and p: "p < length old" and e: "P old p < 0"
  shows "rh_ok h (p + 1) old"
proof -
  have "-1 \<le> P old p" using ok p by (simp add: rh_ok_def placed_def)
  with e have e: "P old p = -1" by simp
  have "ordered (p + 1) old"
    unfolding ordered_def
  proof (intro allI impI)
    fix k assume k: "k < length old" "p + 1 = 0 \<or> Suc k mod length old \<noteq> p + 1"
    have "-1 \<le> P old k" using ok k by (simp add: rh_ok_def placed_def)
    then show "P old (Suc k mod length old) \<le> P old k + 1"
      using ok k e unfolding rh_ok_def ordered_def by (cases "Suc k mod length old = p") auto
  qed
  with ok p e show ?thesis by (auto simp: rh_ok_def less_Suc_eq)
qed

text \<open>What the migration loop keeps while \<open>old\<close> is being emptied.\<close>

definition migrating :: "(bytes \<Rightarrow> u64) \<Rightarrow> rh_table \<Rightarrow> rh_entry list \<Rightarrow> bool" where
  "migrating h t old \<longleftrightarrow>
     t_old_slots t = Some old \<and> t_cap t = length (t_slots t) \<and> rh_ok h 0 (t_slots t) \<and>
     rh_ok h (t_migrate_pos t) old \<and> t_old_cap t = length old \<and>
     t_old_live t = size (live old) \<and> size (live (t_slots t)) + size (live old) < t_cap t"

lemma live_exhausted:
  assumes "rh_ok h p old" and "length old \<le> p"
  shows "live old = {#}"
  using assms by (fastforce simp: rh_ok_def live_def filter_mset_eq_mempty_iff in_set_conv_nth)

lemma live_member: "i < length s \<Longrightarrow> 0 \<le> P s i \<Longrightarrow> strip (s ! i) \<in># live s"
  by (simp add: live_def)

lemma rh_migrate_loop_ok:
  assumes "migrating h t old" and "moved \<le> 16"
  shows "\<exists>t' old'. rh_migrate_loop t moved = Some t' \<and> migrating h t' old' \<and>
    live (t_slots t') + live old' = live (t_slots t) + live old \<and> length old' = length old \<and>
    t_old_live t' = t_old_live t - (16 - moved) \<and> t_cap t' = t_cap t \<and> t_size t' = t_size t \<and>
    t_grow_at t' = t_grow_at t"
  using assms
proof (induction "t_old_cap t - t_migrate_pos t" arbitrary: t old moved rule: less_induct)
  case less
  note m = less.prems(1) [unfolded migrating_def]
  let ?p = "t_migrate_pos t"
  show ?case
  proof (cases "moved < 16 \<and> t_old_live t > 0")
    case False
    then have "t_old_live t = t_old_live t - (16 - moved)" using less.prems(2) by auto
    moreover have "rh_migrate_loop t moved = Some t"
      using False m by (subst rh_migrate_loop.simps) (auto simp: RH_MIGRATE_BATCH_def)
    ultimately show ?thesis using less.prems by auto
  next
    case go: True
    have p: "?p < length old" using live_exhausted [of h ?p old] go m by fastforce
    show ?thesis
    proof (cases "0 \<le> P old ?p")
      case False
      let ?t = "t\<lparr>t_migrate_pos := ?p + 1\<rparr>"
      have "migrating h ?t old"
        using m rh_ok_skip [of h ?p old] p False by (simp add: migrating_def)
      moreover have "rh_migrate_loop t moved = rh_migrate_loop ?t moved"
        using m p go False by (simp add: rh_migrate_loop.simps [of t] RH_MIGRATE_BATCH_def)
      ultimately show ?thesis
        using less.hyps [of ?t old moved] less.prems(2) m p by simp
    next
      case True
      let ?e = "old ! ?p"
      let ?old = "old[?p := ?e\<lparr>e_psl := -1, e_kv := []\<rparr>]"
      have eok: "entry_ok h ?e" using m p True placedD(2) by (auto simp: rh_ok_def)
      have ex: "size (live (t_slots t)) < length (t_slots t)" using m by simp
      obtain s where s: "rh_insert_entry (t_slots t) (length (t_slots t)) ?e = Some s"
        "length s = length (t_slots t)" "rh_ok h 0 s" "live s = add_mset (strip ?e) (live (t_slots t))"
        using rh_insert_entry_ok [OF _ _ ex] m eok by (metis)
      let ?t = "t\<lparr>t_migrate_pos := ?p + 1, t_slots := s, t_old_slots := Some ?old,
                  t_old_live := t_old_live t - 1\<rparr>"
      have lo: "live old = add_mset (strip ?e) (live ?old)"
        using live_member [OF p True] p True by (simp add: live_update)
      have "migrating h ?t ?old"
        using m s lo rh_ok_advance [of h ?p old] p by (simp add: migrating_def)
      moreover have "rh_migrate_loop t moved = rh_migrate_loop ?t (moved + 1)"
        using m s p go True by (simp add: rh_migrate_loop.simps [of t] RH_MIGRATE_BATCH_def)
      ultimately show ?thesis
        using less.hyps [of ?t ?old "moved + 1"] s(4) lo go m p by simp
    qed
  qed
qed

subsection \<open>The table as a finite map\<close>

definition emap :: "rh_entry multiset \<Rightarrow> bytes \<Rightarrow> bytes option" where
  "emap M k = (if k \<in> rh_key ` set_mset M
     then Some (rh_val (THE e. e \<in># M \<and> rh_key e = k)) else None)"

definition rh_map :: "rh_table \<Rightarrow> bytes \<Rightarrow> bytes option" where
  "rh_map t = map_of (rh_each t)"

lemma point_count:
  "(\<forall>k. (if a = k then 1 else 0) + f k \<le> (1::nat)) \<longleftrightarrow> (\<forall>k. f k \<le> 1) \<and> f a = 0"
proof (intro iffI conjI allI; (elim conjE)?)
  fix k
  show "f k \<le> 1" if "\<forall>k. (if a = k then 1 else 0) + f k \<le> 1"
    using that [rule_format, of k] by simp
  show "f a = 0" if "\<forall>k. (if a = k then 1 else 0) + f k \<le> 1"
    using that [rule_format, of a] by simp
  show "(if a = k then 1 else 0) + f k \<le> 1" if "\<forall>k. f k \<le> 1" "f a = 0"
    using that by auto
qed

lemma unique_keys_add:
  "unique_keys (add_mset e M) \<longleftrightarrow> unique_keys M \<and> rh_key e \<notin> rh_key ` set_mset M"
proof -
  let ?n = "\<lambda>k. size {#e' \<in># M. rh_key e' = k#}"
  have z: "rh_key e \<notin> rh_key ` set_mset M \<longleftrightarrow> ?n (rh_key e) = 0"
    by (force simp: filter_mset_eq_mempty_iff image_iff)
  have "size {#e' \<in># add_mset e M. rh_key e' = k#} = (if rh_key e = k then 1 else 0) + ?n k" for k
    by simp
  then have "unique_keys (add_mset e M) \<longleftrightarrow>
      (\<forall>k. (if rh_key e = k then 1 else 0) + ?n k \<le> 1)"
    by (simp only: unique_keys_def)
  also have "\<dots> \<longleftrightarrow> (\<forall>k. ?n k \<le> 1) \<and> ?n (rh_key e) = 0"
    by (rule point_count)
  finally show ?thesis by (simp only: unique_keys_def z)
qed

lemma unique_keys_empty [simp]: "unique_keys {#}"
  by (simp add: unique_keys_def)

lemma emap_empty [simp]: "emap {#} = Map.empty"
  by (simp add: emap_def fun_eq_iff)

lemma emap_None: "emap M k = None \<longleftrightarrow> k \<notin> rh_key ` set_mset M"
  by (simp add: emap_def)

lemma unique_keysD:
  "unique_keys M \<Longrightarrow> a \<in># M \<Longrightarrow> b \<in># M \<Longrightarrow> rh_key a = rh_key b \<Longrightarrow> a = b"
  by (metis insert_DiffM insert_noteq_member unique_keys_add image_eqI)

lemma emap_Some: "unique_keys M \<Longrightarrow> emap M k = Some v \<longleftrightarrow> (\<exists>e \<in># M. rh_key e = k \<and> rh_val e = v)"
proof -
  assume u: "unique_keys M"
  have "(THE e'. e' \<in># M \<and> rh_key e' = rh_key e) = e" if "e \<in># M" for e
    using that u by (intro the_equality) (auto dest: unique_keysD)
  then show ?thesis using u by (auto simp: emap_def dest: unique_keysD)
qed

lemma emap_add:
  assumes "unique_keys (add_mset e M)"
  shows "emap (add_mset e M) = (emap M)(rh_key e \<mapsto> rh_val e)"
proof
  fix k
  have u: "unique_keys M" "rh_key e \<notin> rh_key ` set_mset M"
    using assms by (auto simp: unique_keys_add)
  have "emap (add_mset e M) k = Some v \<longleftrightarrow> ((emap M)(rh_key e \<mapsto> rh_val e)) k = Some v" for v
    using u assms by (auto simp: emap_Some image_iff)
  then show "emap (add_mset e M) k = ((emap M)(rh_key e \<mapsto> rh_val e)) k"
    by (metis option.exhaust)
qed

lemma emap_map_of:
  assumes "unique_keys (mset xs)"
  shows "map_of (map (\<lambda>e. (rh_key e, rh_val e)) xs) = emap (mset xs)"
  using assms
proof (induction xs)
  case (Cons e xs)
  then show ?case using emap_add [of e "mset xs"] by (simp add: unique_keys_add)
qed simp

lemma unique_keys_strip: "unique_keys (image_mset strip M) \<longleftrightarrow> unique_keys M"
  by (simp add: unique_keys_def filter_mset_image_mset)

lemma emap_strip: "unique_keys M \<Longrightarrow> emap (image_mset strip M) = emap M"
proof (induction M)
  case (add e M)
  then show ?case
    using unique_keys_strip [of "add_mset e M"] by (simp add: emap_add unique_keys_add)
qed simp

lemma rh_map_emap:
  assumes "rh_inv h t"
  shows "rh_map t = emap (entries t)"
proof -
  let ?occ = "filter (\<lambda>e. 0 \<le> e_psl e)"
  let ?xs = "?occ (t_slots t) @ ?occ (old_of t)"
  have e: "entries t = image_mset strip (mset ?xs)"
    by (simp add: entries_def live_def)
  then have u: "unique_keys (mset ?xs)"
    using assms by (metis rh_inv_def unique_keys_strip)
  have "rh_each t = map (\<lambda>e. (rh_key e, rh_val e)) ?xs"
    using assms by (auto simp: rh_each_def rh_inv_def old_of_def split: option.splits)
  with u show ?thesis
    unfolding rh_map_def e emap_strip [OF u] by (simp only: emap_map_of)
qed

subsection \<open>Migration, growth and lookup under the invariant\<close>

text \<open>Room for one more entry: what a migration step leaves behind and an insertion uses.\<close>

definition roomy :: "rh_table \<Rightarrow> bool" where
  "roomy t \<longleftrightarrow> (case t_old_slots t of
     None \<Rightarrow> True
   | Some old \<Rightarrow> 16 * t_size t + 16 + t_old_live t \<le> 17 * length old + 16)"

lemma rh_inv_migrating:
  "rh_inv h t \<Longrightarrow> t_old_slots t = Some old \<Longrightarrow> migrating h t old"
  by (auto simp: rh_inv_def migrating_def old_of_def entries_def)

lemma rh_migrate_some_ok:
  assumes inv: "rh_inv h t"
  shows "\<exists>t'. rh_migrate_some t = Some t' \<and> rh_inv h t' \<and> entries t' = entries t \<and>
    t_cap t' = t_cap t \<and> roomy t' \<and> (t_old_live t \<le> 16 \<longrightarrow> t_old_slots t' = None) \<and>
    t_old_live t' = t_old_live t - 16"
proof (cases "t_old_slots t")
  case None
  with inv show ?thesis
    by (auto simp: rh_migrate_some_def roomy_def rh_inv_def old_of_def)
next
  case (Some old)
  obtain t' old' where l: "rh_migrate_loop t 0 = Some t'" "migrating h t' old'"
    "live (t_slots t') + live old' = live (t_slots t) + live old" "length old' = length old"
    "t_old_live t' = t_old_live t - 16" "t_cap t' = t_cap t" "t_size t' = t_size t"
    "t_grow_at t' = t_grow_at t"
    using rh_migrate_loop_ok [OF rh_inv_migrating [OF inv Some], of 0] by auto
  have e: "old_of t = old" "entries t = live (t_slots t) + live old"
    using Some by (simp_all add: old_of_def entries_def)
  note iv = inv [unfolded rh_inv_def e Some option.case]
  note m = l(2) [unfolded migrating_def]
  show ?thesis
  proof (cases "t_old_live t' = 0")
    case True
    let ?t = "t'\<lparr>t_old_slots := None, t_old_cap := 0, t_migrate_pos := 0\<rparr>"
    have "entries ?t = live (t_slots t) + live old"
      using m l(3) True by (simp add: entries_def old_of_def)
    moreover have "t_size t \<le> rh_growth_limit (t_cap t)"
      using iv growth_limit_eq [of "t_cap t"] by linarith
    ultimately have "rh_inv h ?t"
      using iv m l True by (simp add: rh_inv_def old_of_def)
    with True l e \<open>entries ?t = _\<close> Some show ?thesis
      by (simp add: rh_migrate_some_def rh_migrate_some_slow_def roomy_def)
  next
    case False
    have e': "old_of t' = old'" "entries t' = live (t_slots t) + live old"
      using m l(3) by (simp_all add: old_of_def entries_def)
    have "t_old_live t = t_old_live t' + 16" using l(5) False by linarith
    then have "rh_inv h t' \<and> roomy t'"
      using iv m l(3,4,6-8) unfolding rh_inv_def roomy_def e' by auto
    moreover have "rh_migrate_some t = Some t'"
      using False l(1) Some by (simp add: rh_migrate_some_def rh_migrate_some_slow_def)
    moreover have "\<not> t_old_live t \<le> 16" using l(5) False by linarith
    ultimately show ?thesis using l(5,6) e'(2) unfolding e by blast
  qed
qed

lemma live_replicate [simp]: "live (replicate n rh_empty_slot) = {#}"
  by (simp add: live_def rh_empty_slot_def filter_mset_eq_mempty_iff)

lemma rh_ok_empty: "pow2 n \<Longrightarrow> rh_ok h 0 (replicate n rh_empty_slot)"
  by (auto simp: rh_ok_def placed_def ordered_def rh_empty_slot_def)

lemma rh_maybe_grow_ok:
  assumes inv: "rh_inv h t" and room: "roomy t" and cap: "t_cap t \<le> SIZE_MAX div 64"
  shows "\<exists>t'. rh_maybe_grow t = Some t' \<and> rh_inv h t' \<and> roomy t' \<and> entries t' = entries t \<and>
    (t_old_slots t' = None \<longrightarrow> t_size t' < t_grow_at t')"
proof (cases "t_old_slots t")
  case (Some old)
  with inv room show ?thesis by (auto simp: rh_maybe_grow_def)
next
  case None
  note iv = inv [unfolded rh_inv_def None option.case]
  have sz: "t_size t < SIZE_MAX"
    using iv cap growth_limit_bounds(1) [of "t_cap t"] by (auto simp: c_limits)
  show ?thesis
  proof (cases "t_size t + 1 \<le> t_grow_at t")
    case True
    with sz inv room None show ?thesis by (auto simp: rh_maybe_grow_def)
  next
    case False
    let ?c = "t_cap t"
    let ?t = "t\<lparr>t_old_slots := Some (t_slots t), t_old_cap := ?c, t_old_live := t_size t,
      t_migrate_pos := 0, t_slots := replicate (?c * 2) rh_empty_slot, t_cap := ?c * 2,
      t_grow_at := rh_growth_limit (?c * 2)\<rparr>"
    have g: "rh_maybe_grow t = Some ?t"
      using False None cap
      by (auto simp: rh_maybe_grow_def rh_grow_capacity_def rh_alloc_slots_def rh_slot_bytes_def
          RH_ENTRY_SIZE_def Let_def c_limits)
    have e: "entries ?t = entries t" "old_of ?t = t_slots t" "live (t_slots t) = entries t"
      using None by (simp_all add: entries_def old_of_def)
    have "pow2 (?c * 2)"
      using iv pow2_double [of ?c] by (simp add: rh_ok_def mult.commute)
    moreover have lim: "t_size t < ?c"
      using iv growth_limit_bounds(1) [of ?c] by linarith
    ultimately have "rh_inv h ?t"
      using iv rh_ok_empty [of "?c * 2" h]
      unfolding rh_inv_def e by (simp add: e)
    moreover have "roomy ?t" using iv lim by (simp add: roomy_def)
    ultimately show ?thesis using g e(1) by auto
  qed
qed

text \<open>
  A key is \<open>findable\<close> when no entry of the array under migration holds it out of sight of
  the search.
\<close>

definition findable :: "rh_table \<Rightarrow> bytes \<Rightarrow> bool" where
  "findable t k \<longleftrightarrow>
     (\<forall>i < length (old_of t). 0 \<le> P (old_of t) i \<longrightarrow> rh_key (old_of t ! i) = k \<longrightarrow>
        visible (t_migrate_pos t) (old_of t) i)"

fun valid_ref :: "rh_table \<Rightarrow> rh_ref \<Rightarrow> bool" where
  "valid_ref t (InMain i) \<longleftrightarrow> i < length (t_slots t) \<and> 0 \<le> P (t_slots t) i"
| "valid_ref t (InOld i) \<longleftrightarrow>
     t_old_slots t = Some (old_of t) \<and> i < length (old_of t) \<and> 0 \<le> P (old_of t) i"

lemma unique_keys_union:
  assumes "unique_keys (M + N)" shows "unique_keys M" and "unique_keys N"
  using assms unfolding unique_keys_def by (auto intro: add_leD1 add_leD2)

lemma findable_no_rehash: "t_old_slots t = None \<Longrightarrow> findable t k"
  by (simp add: findable_def old_of_def)

lemma rh_inv_find:
  assumes "rh_inv h t"
  shows "rh_find_in (t_slots t) (t_cap t) (h key) key = Some i \<longleftrightarrow>
      i < length (t_slots t) \<and> 0 \<le> P (t_slots t) i \<and> rh_key (t_slots t ! i) = key"
    and "t_old_slots t = Some old \<Longrightarrow>
      rh_find_in old (t_old_cap t) (h key) key = Some j \<longleftrightarrow>
      j < length old \<and> 0 \<le> P old j \<and> rh_key (old ! j) = key \<and> visible (t_migrate_pos t) old j"
  using assms unique_keys_union [of "live (t_slots t)" "live (old_of t)"]
    rh_find_in_iff [of h 0 "t_slots t" key i]
    rh_find_in_iff [of h "t_migrate_pos t" old key j]
  by (auto simp: rh_inv_def entries_def old_of_def visible_def)

lemma rh_locate_Some:
  assumes inv: "rh_inv h t" and r: "rh_locate h t key = Some r"
  shows "valid_ref t r" and "rh_key (rh_deref t r) = key"
  using r rh_inv_find [OF inv]
  by (auto simp: rh_locate_def old_of_def split: option.splits if_splits)

lemma valid_ref_entry: "valid_ref t r \<Longrightarrow> strip (rh_deref t r) \<in># entries t"
  by (cases r) (auto simp: entries_def dest: live_member [of _ "t_slots t"] live_member [of _ "old_of t"])

lemma rh_locate_None:
  assumes inv: "rh_inv h t" and r: "rh_locate h t key = None" and f: "findable t key"
  shows "key \<notin> rh_key ` set_mset (entries t)"
proof
  assume "key \<in> rh_key ` set_mset (entries t)"
  then obtain e where e: "e \<in># entries t" "rh_key e = key" by auto
  then consider (m) i where "i < length (t_slots t)" "0 \<le> P (t_slots t) i" "rh_key (t_slots t ! i) = key"
    | (o) i where "i < length (old_of t)" "0 \<le> P (old_of t) i" "rh_key (old_of t ! i) = key"
    by (auto simp: entries_def live_def in_set_conv_nth)
  then show False
  proof cases
    case m
    with rh_inv_find(1) [OF inv, of key i] r show False by (simp add: rh_locate_def)
  next
    case o
    then obtain old where old: "t_old_slots t = Some old" "old_of t = old"
      by (auto simp: old_of_def split: option.splits)
    with o f have "visible (t_migrate_pos t) old i" by (auto simp: findable_def)
    with o old rh_inv_find(2) [OF inv old(1), of key i] r inv show False
      by (auto simp: rh_locate_def rh_inv_def split: option.splits if_splits)
  qed
qed

lemma rh_ok_same_place:
  assumes ok: "rh_ok h p s" and i: "i < length s" "0 \<le> P s i" and e: "entry_ok h e"
    and same: "e_psl e = P s i" "e_hash e = e_hash (s ! i)"
  shows "rh_ok h p (s[i := e])"
proof -
  have "placed h (s[i := e])"
    using ok i e same placedD [of h s i] by (intro placed_put) (auto simp: rh_ok_def home_def)
  moreover have "ordered p (s[i := e])"
  proof (rule ordered_put)
    show "e_psl e \<le> P s j + 1" if "j < length s" "Suc j mod length s = i" "p = 0 \<or> i \<noteq> p" for j
      using ok that same by (auto simp: rh_ok_def ordered_def)
    show "P s (Suc i mod length s) \<le> e_psl e + 1" if "p = 0 \<or> Suc i mod length s \<noteq> p"
      using ok that same i by (auto simp: rh_ok_def ordered_def)
  qed (use ok i in \<open>auto simp: rh_ok_def\<close>)
  moreover have "P (s[i := e]) j = P s j" for j
    using same i by (cases "i = j") auto
  ultimately show ?thesis using ok by (simp add: rh_ok_def)
qed

subsection \<open>Effect of the three kinds of update\<close>

lemma unique_keys_swap:
  assumes "unique_keys M" and "d \<in># M" and "rh_key e = rh_key d"
  shows "unique_keys (add_mset e (M - {#d#}))"
  using assms by (metis insert_DiffM unique_keys_add)

lemma rh_assign_ok:
  assumes inv: "rh_inv h t" and r: "valid_ref t r" and e: "entry_ok h e"
    and same: "e_psl e = e_psl (rh_deref t r)" "e_hash e = e_hash (rh_deref t r)"
      "rh_key e = rh_key (rh_deref t r)"
  shows "rh_inv h (rh_assign t r e)"
    and "entries (rh_assign t r e) = add_mset (strip e) (entries t - {#strip (rh_deref t r)#})"
proof -
  let ?t = "rh_assign t r e" and ?d = "strip (rh_deref t r)"
  note mem = valid_ref_entry [OF r]
  show en: "entries ?t = add_mset (strip e) (entries t - {#?d#})"
  proof (cases r)
    case (InMain i)
    with r same live_member [of i "t_slots t"] show ?thesis
      by (simp add: entries_def old_of_def live_update)
  next
    case (InOld i)
    with r same live_member [of i "old_of t"] show ?thesis
      by (simp add: entries_def old_of_def live_update split: option.splits)
  qed
  have u: "unique_keys (entries ?t)"
    unfolding en using inv mem same by (intro unique_keys_swap) (auto simp: rh_inv_def)
  have sz: "size (entries ?t) = size (entries t)"
    unfolding en using mem by (metis insert_DiffM size_add_mset)
  show "rh_inv h ?t"
  proof (cases r)
    case (InMain i)
    then have "rh_ok h 0 ((t_slots t)[i := e])"
      using inv r e same by (intro rh_ok_same_place) (auto simp: rh_inv_def)
    with inv u sz InMain show ?thesis
      by (cases "t_old_slots t") (auto simp: rh_inv_def old_of_def)
  next
    case (InOld i)
    then obtain old where old: "t_old_slots t = Some old" "old_of t = old" "i < length old" "0 \<le> P old i"
      using r by auto
    have "rh_ok h (t_migrate_pos t) (old[i := e])"
      using inv old InOld e same by (intro rh_ok_same_place) (auto simp: rh_inv_def)
    moreover have "size (live (old[i := e])) = size (live old)"
      using old InOld same live_member [of i old]
      by (simp add: live_update) (metis insert_DiffM size_add_mset)
    ultimately show ?thesis
      using inv u sz InOld old by (auto simp: rh_inv_def old_of_def)
  qed
qed

lemma rh_add_ok:
  assumes inv: "rh_inv h t" and room: "roomy t" and cap: "t_cap t \<le> SIZE_MAX div 64"
    and new: "key \<notin> rh_key ` set_mset (entries t)"
  shows "\<exists>t' e. rh_add h t key v mt = Some t' \<and> rh_inv h t' \<and>
    entries t' = add_mset e (entries t) \<and> rh_key e = key \<and> rh_val e = v"
proof -
  let ?e = "\<lparr>e_hash = h key, e_kv = key @ v, e_klen = length key, e_vlen = length v,
             e_psl = 0, e_meta = mt\<rparr>"
  obtain t1 where t1: "rh_maybe_grow t = Some t1" "rh_inv h t1" "roomy t1" "entries t1 = entries t"
    "t_old_slots t1 = None \<longrightarrow> t_size t1 < t_grow_at t1"
    using rh_maybe_grow_ok [OF inv room cap] by metis
  note iv = t1(2) [unfolded rh_inv_def]
  have e: "rh_key ?e = key" "rh_val ?e = v" "entry_ok h ?e"
    by (simp_all add: rh_key_def rh_val_def entry_ok_def)
  have free: "size (live (t_slots t1)) < length (t_slots t1)"
    using iv t1(5) growth_limit_bounds(1) [of "t_cap t1"]
    by (auto simp: entries_def split: option.splits)
  obtain s where s: "rh_insert_entry (t_slots t1) (t_cap t1) ?e = Some s"
    "length s = length (t_slots t1)" "rh_ok h 0 s"
    "live s = add_mset (strip ?e) (live (t_slots t1))"
    using rh_insert_entry_ok [OF _ e(3) free] iv by metis
  let ?t = "t1\<lparr>t_slots := s, t_size := t_size t1 + 1\<rparr>"
  have en: "entries ?t = add_mset (strip ?e) (entries t)" "old_of ?t = old_of t1"
    using s(4) t1(4) by (simp_all add: entries_def old_of_def)
  have "unique_keys (entries ?t)"
    unfolding en unique_keys_add strip_simps e using new iv t1(4) by simp
  then have "rh_inv h ?t"
    using iv s(2,3) t1(3,4,5) en
    by (auto simp: rh_inv_def roomy_def split: option.splits)
  moreover have "rh_add h t key v mt = Some ?t"
    by (simp add: rh_add_def t1(1) s(1))
  ultimately show ?thesis using en(1) e by (metis strip_simps(7,8))
qed

lemma rh_remove_ok:
  assumes inv: "rh_inv h t" and r: "valid_ref t r"
  shows "r = InMain i \<Longrightarrow> \<exists>s. rh_delete_at (t_slots t) (t_cap t) i = Some s \<and>
      (let t' = t\<lparr>t_slots := s, t_size := t_size t - 1\<rparr>
       in rh_inv h t' \<and> entries t' = entries t - {#strip (rh_deref t r)#})"
    and "r = InOld i \<Longrightarrow> \<exists>s. rh_delete_at (the (t_old_slots t)) (t_old_cap t) i = Some s \<and>
      (let t' = t\<lparr>t_old_slots := Some s, t_old_live := t_old_live t - 1, t_size := t_size t - 1\<rparr>
       in rh_inv h t' \<and> entries t' = entries t - {#strip (rh_deref t r)#})"
proof -
  let ?d = "strip (rh_deref t r)"
  note iv = inv [unfolded rh_inv_def]
  have u: "unique_keys (entries t - {#?d#})"
    using iv valid_ref_entry [OF r] by (metis insert_DiffM unique_keys_add)
  have sz: "size (entries t - {#?d#}) = t_size t - 1"
    using iv valid_ref_entry [OF r] by (simp add: size_Diff_singleton)
  {
    assume i: "r = InMain i"
    have "size (live (t_slots t)) < length (t_slots t)"
      using iv growth_limit_bounds(1) [of "t_cap t"] by (auto simp: entries_def split: option.splits)
    then obtain s where s: "rh_delete_at (t_slots t) (t_cap t) i = Some s"
      "length s = length (t_slots t)" "rh_ok h 0 s" "live s = live (t_slots t) - {#?d#}"
      using rh_delete_at_ok [of h 0 "t_slots t" i] iv r i by auto
    let ?t = "t\<lparr>t_slots := s, t_size := t_size t - 1\<rparr>"
    have en: "entries ?t = entries t - {#?d#}"
      using s(4) live_member [of i "t_slots t"] r i by (simp add: entries_def old_of_def)
    have "rh_inv h ?t"
      using iv s u sz en by (auto simp: rh_inv_def old_of_def split: option.splits)
    with s(1) en show "\<exists>s. rh_delete_at (t_slots t) (t_cap t) i = Some s \<and>
      (let t' = t\<lparr>t_slots := s, t_size := t_size t - 1\<rparr>
       in rh_inv h t' \<and> entries t' = entries t - {#?d#})"
      by (auto simp: Let_def)
  }
  {
    assume i: "r = InOld i"
    then obtain old where old: "t_old_slots t = Some old" "old_of t = old" "i < length old" "0 \<le> P old i"
      using r by auto
    have d: "?d = strip (old ! i)" using i old by simp
    obtain s where s: "rh_delete_at old (t_old_cap t) i = Some s"
      "length s = length old" "rh_ok h (t_migrate_pos t) s" "live s = live old - {#?d#}"
      using rh_delete_at_ok [of h "t_migrate_pos t" old i] iv old d by auto
    let ?t = "t\<lparr>t_old_slots := Some s, t_old_live := t_old_live t - 1, t_size := t_size t - 1\<rparr>"
    have en: "entries ?t = entries t - {#?d#}" "size (live s) = size (live old) - 1"
      using s(4) live_member [of i old] old d
      by (simp_all add: entries_def old_of_def size_Diff_singleton)
    have "rh_inv h ?t"
      using iv s u sz en old by (auto simp: rh_inv_def old_of_def)
    with s(1) en old show "\<exists>s. rh_delete_at (the (t_old_slots t)) (t_old_cap t) i = Some s \<and>
      (let t' = t\<lparr>t_old_slots := Some s, t_old_live := t_old_live t - 1, t_size := t_size t - 1\<rparr>
       in rh_inv h t' \<and> entries t' = entries t - {#?d#})"
      by (auto simp: Let_def)
  }
qed

subsection \<open>The operations\<close>

text \<open>
  \<open>rh_sees h t k\<close>: after the migration step every operation starts with, the key is not one
  of those the search cannot reach.
\<close>

definition rh_sees :: "rh_table \<Rightarrow> bytes \<Rightarrow> bool" where
  "rh_sees t k \<longleftrightarrow> (case rh_migrate_some t of None \<Rightarrow> False | Some t' \<Rightarrow> findable t' k)"

lemma rh_sees_small: "rh_inv h t \<Longrightarrow> t_old_live t \<le> 16 \<Longrightarrow> rh_sees t k"
  using rh_migrate_some_ok [of h t] by (auto simp: rh_sees_def intro: findable_no_rehash)

lemma rh_inv_cap: "rh_inv h t \<Longrightarrow> t_cap t \<noteq> 0"
  by (auto simp: rh_inv_def)

lemma located_value:
  assumes inv: "rh_inv h t" and r: "rh_locate h t k = Some r"
  shows "rh_map t k = Some (rh_val (rh_deref t r))"
  using rh_locate_Some [OF assms] valid_ref_entry [of t r] inv
  by (simp add: rh_map_emap [OF inv] emap_Some rh_inv_def) (metis strip_simps(7,8))

lemma hidden_not_located:
  assumes inv: "rh_inv h t" and hid: "\<not> findable t k"
  shows "rh_locate h t k = None"
proof -
  obtain i where i: "i < length (old_of t)" "0 \<le> P (old_of t) i" "rh_key (old_of t ! i) = k"
    "\<not> visible (t_migrate_pos t) (old_of t) i"
    using hid by (auto simp: findable_def)
  let ?e = "strip (old_of t ! i)"
  have mem: "?e \<in># live (old_of t)" using i by (intro live_member)
  have u: "unique_keys (live (t_slots t) + live (old_of t))"
    using inv by (simp add: rh_inv_def entries_def)
  have "k \<notin> rh_key ` set_mset (live (t_slots t))"
  proof -
    obtain M where "live (old_of t) = add_mset ?e M" using mem by (meson mset_add)
    with u have "rh_key ?e \<notin> rh_key ` set_mset (live (t_slots t) + M)"
      by (simp add: unique_keys_add)
    then show ?thesis using i(3) by auto
  qed
  then have main: "\<not> (j < length (t_slots t) \<and> 0 \<le> P (t_slots t) j \<and> rh_key (t_slots t ! j) = k)" for j
    using live_member [of j "t_slots t"] strip_simps(7) by (metis image_eqI)
  have "j = i" if "j < length (old_of t)" "0 \<le> P (old_of t) j" "rh_key (old_of t ! j) = k" for j
    using unique_slot [OF unique_keys_union(2) [OF u] that(1) i(1) that(2) i(2)] that(3) i(3) by simp
  then have "rh_find_in old (t_old_cap t) (h k) k = None" if "t_old_slots t = Some old" for old
    using rh_inv_find(2) [OF inv that, of k] i(4) that
    by (cases "rh_find_in old (t_old_cap t) (h k) k") (auto simp: old_of_def)
  moreover have "rh_find_in (t_slots t) (t_cap t) (h k) k = None"
    using rh_inv_find(1) [OF inv, of k] main by (meson option.exhaust)
  ultimately show ?thesis by (auto simp: rh_locate_def split: option.splits)
qed

lemma map_same: "rh_inv h t \<Longrightarrow> rh_inv h t' \<Longrightarrow> entries t' = entries t \<Longrightarrow> rh_map t' = rh_map t"
  by (simp add: rh_map_emap)

lemma map_insert:
  assumes "rh_inv h t" "rh_inv h t'" "entries t' = add_mset e (entries t)"
  shows "rh_map t' = (rh_map t)(rh_key e \<mapsto> rh_val e)" and "rh_map t (rh_key e) = None"
proof -
  have u: "unique_keys (add_mset e (entries t))" using assms by (simp add: rh_inv_def)
  show "rh_map t' = (rh_map t)(rh_key e \<mapsto> rh_val e)"
    using assms emap_add [OF u] by (simp add: rh_map_emap)
  show "rh_map t (rh_key e) = None"
    using assms(1) u by (simp add: rh_map_emap emap_None unique_keys_add)
qed

lemma map_remove:
  assumes inv: "rh_inv h t" "rh_inv h t'" and d: "d \<in># entries t" and e: "entries t' = entries t - {#d#}"
  shows "rh_map t' = (rh_map t)(rh_key d := None)"
proof -
  have *: "entries t = add_mset d (entries t')" using d e by simp
  show ?thesis using map_insert [OF inv(2,1) *] by (simp add: fun_eq_iff)
qed

lemma map_replace:
  assumes inv: "rh_inv h t" "rh_inv h t'" and d: "d \<in># entries t"
    and e: "entries t' = add_mset e (entries t - {#d#})" and k: "rh_key e = rh_key d"
  shows "rh_map t' = (rh_map t)(rh_key d \<mapsto> rh_val e)"
proof -
  have u: "unique_keys (add_mset d (entries t - {#d#}))" "unique_keys (add_mset e (entries t - {#d#}))"
    using inv d e by (simp_all add: rh_inv_def)
  have "entries t = add_mset d (entries t - {#d#})" using d by simp
  then have "rh_map t = (emap (entries t - {#d#}))(rh_key d \<mapsto> rh_val d)"
    using emap_add [OF u(1)] rh_map_emap [OF inv(1)] by metis
  moreover have "rh_map t' = (emap (entries t - {#d#}))(rh_key e \<mapsto> rh_val e)"
    using emap_add [OF u(2)] rh_map_emap [OF inv(2)] e by metis
  ultimately show ?thesis using k by simp
qed

lemma rh_get_ok:
  assumes inv: "rh_inv h t"
  shows "\<exists>t'. rh_get h t k = Some (if rh_sees t k then rh_map t k else None, t') \<and>
    rh_inv h t' \<and> rh_map t' = rh_map t \<and> t_old_live t' = t_old_live t - 16 \<and>
    (t_old_live t \<le> 16 \<longrightarrow> t_old_slots t' = None)"
proof -
  obtain t1 where t1: "rh_migrate_some t = Some t1" "rh_inv h t1" "entries t1 = entries t"
    "t_old_live t1 = t_old_live t - 16" "t_old_live t \<le> 16 \<longrightarrow> t_old_slots t1 = None"
    using rh_migrate_some_ok [OF inv] by blast
  have m: "rh_map t1 = rh_map t" using map_same [OF inv t1(2,3)] .
  have "map_option (\<lambda>r. rh_val (rh_deref t1 r)) (rh_locate h t1 k) =
      (if findable t1 k then rh_map t k else None)"
  proof (cases "rh_locate h t1 k")
    case None
    then have "findable t1 k \<Longrightarrow> rh_map t1 k = None"
      using rh_locate_None [OF t1(2)] by (simp add: rh_map_emap [OF t1(2)] emap_None)
    with None m show ?thesis by simp
  next
    case (Some r)
    then have "findable t1 k" using hidden_not_located [OF t1(2), of k] by auto
    with Some located_value [OF t1(2) Some] m show ?thesis by simp
  qed
  with t1 m rh_inv_cap [OF inv] show ?thesis
    by (simp add: rh_get_def rh_sees_def)
qed

definition fits :: "bytes \<Rightarrow> bytes \<Rightarrow> bool" where
  "fits k v \<longleftrightarrow> length k \<le> UINT32_MAX \<and> length v \<le> UINT32_MAX"

lemma fits_sum: "fits k v \<Longrightarrow> \<not> length k > SIZE_MAX - length v"
  by (auto simp: fits_def c_limits)

lemma overwrite_ok:
  assumes inv: "rh_inv h t" and r: "rh_locate h t k = Some r"
    and e: "e = (rh_deref t r)\<lparr>e_kv := k @ v, e_vlen := length v\<rparr> \<or>
            e = (rh_deref t r)\<lparr>e_kv := k @ v, e_vlen := length v, e_meta := mt\<rparr>"
  shows "rh_inv h (rh_assign t r e) \<and> rh_map (rh_assign t r e) = (rh_map t)(k \<mapsto> v)"
proof -
  let ?d = "rh_deref t r"
  have v: "valid_ref t r" and k: "rh_key ?d = k" using rh_locate_Some [OF inv r] by auto
  have d: "entry_ok h ?d"
    using v inv placedD(2) by (cases r) (auto simp: rh_inv_def rh_ok_def)
  then have kl: "e_klen ?d = length k" using k by (auto simp: entry_ok_def rh_key_def)
  with d k e have e': "entry_ok h e" "e_psl e = e_psl ?d" "e_hash e = e_hash ?d" "rh_key e = rh_key ?d"
      "rh_val e = v"
    by (auto simp: entry_ok_def rh_key_def rh_val_def)
  note a = rh_assign_ok [OF inv v e'(1-4)]
  have "rh_map (rh_assign t r e) = (rh_map t)(rh_key (strip ?d) \<mapsto> rh_val (strip e))"
    using e'(4) by (intro map_replace [OF inv a(1) valid_ref_entry [OF v] a(2)]) simp
  with a(1) k e'(5) show ?thesis by simp
qed

lemma rh_set_ok:
  assumes inv: "rh_inv h t" and fit: "fits k v" and sees: "rh_sees t k"
    and cap: "t_cap t \<le> SIZE_MAX div 64"
  shows "\<exists>t'. rh_set h t k v = Some (if rh_map t k = None then 0 else 1, t') \<and>
    rh_inv h t' \<and> rh_map t' = (rh_map t)(k \<mapsto> v)"
proof -
  obtain t1 where t1: "rh_migrate_some t = Some t1" "rh_inv h t1" "entries t1 = entries t"
    "t_cap t1 = t_cap t" "roomy t1"
    using rh_migrate_some_ok [OF inv] by blast
  have m: "rh_map t1 = rh_map t" using map_same [OF inv t1(2,3)] .
  have f: "findable t1 k" using sees t1(1) by (simp add: rh_sees_def)
  have go: "\<not> (t_cap t = 0 \<or> length k > UINT32_MAX \<or> length v > UINT32_MAX \<or> length k > SIZE_MAX - length v)"
    using fit fits_sum [OF fit] rh_inv_cap [OF inv] by (auto simp: fits_def)
  show ?thesis
  proof (cases "rh_locate h t1 k")
    case (Some r)
    with overwrite_ok [OF t1(2) Some disjI1 [OF refl], of v] located_value [OF t1(2) Some] go t1(1) m show ?thesis
      by (simp add: rh_set_def)
  next
    case None
    have new: "k \<notin> rh_key ` set_mset (entries t1)" using rh_locate_None [OF t1(2) None f] .
    have "t_cap t1 \<le> SIZE_MAX div 64" using cap t1(4) by simp
    then obtain t2 e where t2: "rh_add h t1 k v 0 = Some t2" "rh_inv h t2"
      "entries t2 = add_mset e (entries t1)" "rh_key e = k" "rh_val e = v"
      using rh_add_ok [OF t1(2,5) _ new] by blast
    with map_insert [OF t1(2) t2(2,3)] None go t1(1) m show ?thesis
      by (simp add: rh_set_def)
  qed
qed

lemma rh_del_ok:
  assumes inv: "rh_inv h t"
  shows "\<exists>t'. rh_del h t k = Some (rh_sees t k \<and> rh_map t k \<noteq> None, t') \<and> rh_inv h t' \<and>
    rh_map t' = (if rh_sees t k then (rh_map t)(k := None) else rh_map t)"
proof -
  obtain t1 where t1: "rh_migrate_some t = Some t1" "rh_inv h t1" "entries t1 = entries t"
    using rh_migrate_some_ok [OF inv] by blast
  have m: "rh_map t1 = rh_map t" using map_same [OF inv t1(2,3)] .
  have cap: "t_cap t \<noteq> 0" using rh_inv_cap [OF inv] .
  have sees: "rh_sees t k = findable t1 k" using t1(1) by (simp add: rh_sees_def)
  show ?thesis
  proof (cases "rh_locate h t1 k")
    case None
    then have "findable t1 k \<Longrightarrow> rh_map t1 k = None"
      using rh_locate_None [OF t1(2)] by (simp add: rh_map_emap [OF t1(2)] emap_None)
    with None m cap t1 sees show ?thesis by (auto simp: rh_del_def)
  next
    case (Some r)
    then have f: "findable t1 k" using hidden_not_located [OF t1(2), of k] by auto
    note v = rh_locate_Some [OF t1(2) Some] and l = located_value [OF t1(2) Some]
    have "\<exists>t'. rh_del h t k = Some (True, t') \<and> rh_inv h t' \<and>
        entries t' = entries t1 - {#strip (rh_deref t1 r)#}"
    proof (cases r)
      case (InMain i)
      with rh_remove_ok(1) [OF t1(2) v(1) InMain] Some cap t1(1) show ?thesis
        by (auto simp: rh_del_def Let_def)
    next
      case (InOld i)
      with rh_remove_ok(2) [OF t1(2) v(1) InOld] Some cap t1(1) show ?thesis
        by (auto simp: rh_del_def Let_def)
    qed
    then obtain t' where t': "rh_del h t k = Some (True, t')" "rh_inv h t'"
      "entries t' = entries t1 - {#strip (rh_deref t1 r)#}" by blast
    with map_remove [OF t1(2) t'(2) valid_ref_entry [OF v(1)] t'(3)] v(2) m l f sees
    show ?thesis by simp
  qed
qed

lemma rh_set_ex2_ok:
  assumes inv: "rh_inv h t" and fit: "fits k (v1 @ v2)" and sees: "rh_sees t k"
    and cap: "t_cap t \<le> SIZE_MAX div 64"
  shows "\<exists>t'. rh_set_ex2 h t k v1 v2 mt = Some (if rh_map t k = None then 0 else 1, rh_map t k, t') \<and>
    rh_inv h t' \<and> rh_map t' = (rh_map t)(k \<mapsto> v1 @ v2)"
proof -
  obtain t1 where t1: "rh_migrate_some t = Some t1" "rh_inv h t1" "entries t1 = entries t"
    "t_cap t1 = t_cap t" "roomy t1"
    using rh_migrate_some_ok [OF inv] by blast
  have m: "rh_map t1 = rh_map t" using map_same [OF inv t1(2,3)] .
  have f: "findable t1 k" using sees t1(1) by (simp add: rh_sees_def)
  have go: "\<not> (t_cap t = 0 \<or> length k > UINT32_MAX \<or> length v1 > UINT32_MAX \<or>
      length v2 > UINT32_MAX \<or> length v1 > SIZE_MAX - length v2)"
    "\<not> (length v1 + length v2 > UINT32_MAX \<or> length k > SIZE_MAX - (length v1 + length v2))"
    using fit fits_sum [OF fit] rh_inv_cap [OF inv] by (auto simp: fits_def c_limits)
  show ?thesis
  proof (cases "rh_locate h t1 k")
    case (Some r)
    with overwrite_ok [OF t1(2) Some disjI2 [OF refl], of mt "v1 @ v2"]
      located_value [OF t1(2) Some] go t1(1) m show ?thesis
      by (simp add: rh_set_ex2_def)
  next
    case None
    have new: "k \<notin> rh_key ` set_mset (entries t1)" using rh_locate_None [OF t1(2) None f] .
    have "t_cap t1 \<le> SIZE_MAX div 64" using cap t1(4) by simp
    then obtain t2 e where t2: "rh_add h t1 k (v1 @ v2) mt = Some t2" "rh_inv h t2"
      "entries t2 = add_mset e (entries t1)" "rh_key e = k" "rh_val e = v1 @ v2"
      using rh_add_ok [OF t1(2,5) _ new] by blast
    with map_insert [OF t1(2) t2(2,3)] None go t1(1) m show ?thesis
      by (simp add: rh_set_ex2_def)
  qed
qed

lemma rh_init_ok: "\<exists>t. rh_init = Some t \<and> rh_inv h t \<and> rh_map t = Map.empty \<and> t_cap t = 16"
proof -
  define t :: rh_table where "t = the rh_init"
  have t: "rh_init = Some t" "t_slots t = replicate 16 rh_empty_slot" "t_old_slots t = None"
    "t_cap t = 16" "t_size t = 0" "t_grow_at t = rh_growth_limit 16" "t_old_cap t = 0"
    "t_old_live t = 0" "t_migrate_pos t = 0"
    by (simp_all add: t_def rh_init_def rh_alloc_slots_def rh_slot_bytes_def RH_INIT_CAP_def
        RH_ENTRY_SIZE_def c_limits)
  have e: "entries t = {#}" "old_of t = []" using t by (simp_all add: entries_def old_of_def)
  have "rh_inv h t"
    using t rh_ok_empty [of 16 h] pow2_exp [of 4] unfolding rh_inv_def e by simp
  moreover from this have "rh_map t = Map.empty" by (simp add: rh_map_emap e)
  ultimately show ?thesis using t by blast
qed

text \<open>
  The operations as one data type, and the finite map they refine. \<open>Put\<close> is \<open>rh_set_ex\<close>,
  whose result carries the replaced value.
\<close>

datatype kv_op = Get bytes | Set bytes bytes | Put bytes bytes u32 | Del bytes
datatype kv_result = Value "bytes option" | Code int | Stored int "bytes option" | Removed bool

fun rh_exec :: "(bytes \<Rightarrow> u64) \<Rightarrow> rh_table \<Rightarrow> kv_op \<Rightarrow> (kv_result \<times> rh_table) option" where
  "rh_exec h t (Get k) = map_option (\<lambda>(v, t). (Value v, t)) (rh_get h t k)"
| "rh_exec h t (Set k v) = map_option (\<lambda>(c, t). (Code c, t)) (rh_set h t k v)"
| "rh_exec h t (Put k v mt) = map_option (\<lambda>(c, old, t). (Stored c old, t)) (rh_set_ex h t k v mt)"
| "rh_exec h t (Del k) = map_option (\<lambda>(b, t). (Removed b, t)) (rh_del h t k)"

fun kv_spec :: "(bytes \<Rightarrow> bytes option) \<Rightarrow> kv_op \<Rightarrow> kv_result \<times> (bytes \<Rightarrow> bytes option)" where
  "kv_spec m (Get k) = (Value (m k), m)"
| "kv_spec m (Set k v) = (Code (if m k = None then 0 else 1), m(k \<mapsto> v))"
| "kv_spec m (Put k v mt) = (Stored (if m k = None then 0 else 1) (m k), m(k \<mapsto> v))"
| "kv_spec m (Del k) = (Removed (m k \<noteq> None), m(k := None))"

text \<open>
  The bound on the capacity keeps probe lengths, which are below the (doubled) capacity,
  within the source's \<open>int32_t\<close>.
\<close>

fun rh_safe :: "rh_table \<Rightarrow> kv_op \<Rightarrow> bool" where
  "rh_safe t (Get k) \<longleftrightarrow> rh_sees t k"
| "rh_safe t (Set k v) \<longleftrightarrow> rh_sees t k \<and> fits k v \<and> t_cap t \<le> 1073741824"
| "rh_safe t (Put k v mt) \<longleftrightarrow> rh_sees t k \<and> fits k v \<and> t_cap t \<le> 1073741824"
| "rh_safe t (Del k) \<longleftrightarrow> rh_sees t k"

interpretation rh_refine: data_refinement "rh_inv h" rh_map rh_safe "rh_exec h" kv_spec for h
proof
  fix t op
  assume inv: "rh_inv h t" and safe: "rh_safe t op"
  show "\<exists>r t'. rh_exec h t op = Some (r, t') \<and> rh_inv h t' \<and> kv_spec (rh_map t) op = (r, rh_map t')"
  proof (cases op)
    case (Get k)
    with safe rh_get_ok [OF inv, of k] show ?thesis by auto
  next
    case (Set k v)
    with safe rh_set_ok [OF inv, of k v] show ?thesis by (auto simp: c_limits)
  next
    case (Put k v mt)
    with safe rh_set_ex2_ok [OF inv, of k v "[]" mt] show ?thesis
      by (auto simp: rh_set_ex_def c_limits)
  next
    case (Del k)
    with safe rh_del_ok [OF inv, of k] show ?thesis by auto
  qed
qed

lemma rehash_drains:
  assumes "rh_inv h t" and "t_old_live t \<le> 16 * length ks" and "ks \<noteq> []"
  shows "\<exists>rs t'. run_ops (rh_exec h) t (map Get ks) = Some (rs, t') \<and> rh_inv h t' \<and>
    t_old_slots t' = None \<and> rh_map t' = rh_map t"
  using assms
proof (induction ks arbitrary: t)
  case (Cons k ks)
  obtain v t1 where t1: "rh_get h t k = Some (v, t1)" "rh_inv h t1" "rh_map t1 = rh_map t"
    "t_old_live t1 = t_old_live t - 16" "t_old_live t \<le> 16 \<longrightarrow> t_old_slots t1 = None"
    using rh_get_ok [OF Cons.prems(1), of k] by blast
  show ?case
  proof (cases "ks = []")
    case True
    with t1 Cons.prems show ?thesis by simp
  next
    case False
    have "t_old_live t1 \<le> 16 * length ks" using t1(4) Cons.prems(2) by simp
    then obtain rs t' where "run_ops (rh_exec h) t1 (map Get ks) = Some (rs, t')" "rh_inv h t'"
      "t_old_slots t' = None" "rh_map t' = rh_map t1"
      using Cons.IH [OF t1(2) _ False] by blast
    with t1 show ?thesis by simp
  qed
qed simp

subsection \<open>Cursor scans\<close>

text \<open>
  A scan with a callback that only records what it sees: one call covers a stretch of the
  slots of both arrays, and the calls of a full iteration cover them all.
\<close>

definition collect :: "bytes \<Rightarrow> bytes \<Rightarrow> rh_table \<Rightarrow> (bytes \<times> bytes) list \<Rightarrow>
    bool \<times> rh_table \<times> (bytes \<times> bytes) list" where
  "collect k v t acc = (False, t, acc @ [(k, v)])"

definition pairs :: "rh_entry list \<Rightarrow> (bytes \<times> bytes) list" where
  "pairs xs = map (\<lambda>e. (rh_key e, rh_val e)) (filter (\<lambda>e. 0 \<le> e_psl e) xs)"

fun scan_all :: "nat \<Rightarrow> nat \<Rightarrow> rh_table \<Rightarrow> nat \<Rightarrow> (bytes \<times> bytes) list \<Rightarrow> (bytes \<times> bytes) list option" where
  "scan_all 0 cnt t cursor acc = None"
| "scan_all (Suc fuel) cnt t cursor acc =
     (case rh_scan collect t cursor cnt acc of
        (cursor', t', acc') \<Rightarrow>
          if cursor' = 0 then Some acc' else scan_all fuel cnt t' cursor' acc')"

lemma rh_inv_virtual_slot:
  assumes "rh_inv h t"
  shows "rh_virtual_slot t c =
    (if c < t_cap t + t_old_cap t then Some ((t_slots t @ old_of t) ! c) else None)"
  using assms
  by (auto simp: rh_virtual_slot_def rh_inv_def old_of_def nth_append split: option.splits)

lemma pairs_step:
  assumes "c < length xs" and "Suc c \<le> c'"
  shows "pairs (take (c' - c) (drop c xs)) =
    (if 0 \<le> e_psl (xs ! c) then [(rh_key (xs ! c), rh_val (xs ! c))] else []) @
    pairs (take (c' - Suc c) (drop (Suc c) xs))"
proof -
  have "drop c xs = xs ! c # drop (Suc c) xs" using assms(1) by (rule Cons_nth_drop_Suc [symmetric])
  moreover have "c' - c = Suc (c' - Suc c)" using assms(2) by simp
  ultimately show ?thesis by (simp add: pairs_def)
qed

lemma scan_loop_collects:
  assumes slot: "\<And>c. rh_virtual_slot t c = (if c < tot then Some (xs ! c) else None)"
    and len: "length xs = tot" and "cursor \<le> tot"
  shows "\<exists>c'. rh_scan_loop collect tot visited cnt cursor t acc =
      (if c' \<ge> tot then 0 else c', t, acc @ pairs (take (c' - cursor) (drop cursor xs))) \<and>
    cursor \<le> c' \<and> c' \<le> tot \<and> (visited < cnt \<longrightarrow> cursor < tot \<longrightarrow> cursor < c')"
  using assms(3)
proof (induction "tot - cursor" arbitrary: cursor visited acc)
  case 0
  have "pairs [] = []" by (simp add: pairs_def)
  with 0 show ?case
    by (intro exI [of _ cursor]) (simp add: rh_scan_loop.simps [of collect] slot)
next
  case (Suc n)
  let ?e = "xs ! cursor"
  show ?case
  proof (cases "visited < cnt")
    case False
    have "pairs [] = []" by (simp add: pairs_def)
    with False Suc show ?thesis
      by (intro exI [of _ cursor]) (simp add: rh_scan_loop.simps [of collect])
  next
    case go: True
    let ?v = "if e_psl ?e < 0 then visited else visited + 1"
    let ?acc = "if e_psl ?e < 0 then acc else acc @ [(rh_key ?e, rh_val ?e)]"
    have le: "cursor + 1 \<le> tot" "n = tot - (cursor + 1)" using Suc.hyps(2) by auto
    obtain c' where c': "rh_scan_loop collect tot ?v cnt (cursor + 1) t ?acc =
        (if c' \<ge> tot then 0 else c', t, ?acc @ pairs (take (c' - (cursor + 1)) (drop (cursor + 1) xs)))"
      "cursor + 1 \<le> c'" "c' \<le> tot"
      using Suc.hyps(1) [OF le(2,1), of ?v ?acc] by blast
    have "rh_scan_loop collect tot visited cnt cursor t acc =
        rh_scan_loop collect tot ?v cnt (cursor + 1) t ?acc"
      using go le(1) slot [of cursor]
      by (subst rh_scan_loop.simps) (simp add: collect_def)
    with c' pairs_step [of cursor xs c'] len le(1) show ?thesis
      by (intro exI [of _ c']) simp
  qed
qed

lemma pairs_split: "pairs xs @ pairs ys = pairs (xs @ ys)"
  by (simp add: pairs_def)

lemma scan_all_resumes:
  assumes inv: "rh_inv h t" and cap: "t_cap t + t_old_cap t \<le> SIZE_MAX" and cnt: "0 < cnt"
    and "t_cap t + t_old_cap t - cursor \<le> fuel" and "cursor < t_cap t + t_old_cap t"
    and "acc = pairs (take cursor (t_slots t @ old_of t))"
  shows "scan_all fuel cnt t cursor acc = Some (pairs (t_slots t @ old_of t))"
  using assms(4-6)
proof (induction fuel arbitrary: cursor acc)
  case (Suc fuel)
  let ?xs = "t_slots t @ old_of t" and ?tot = "t_cap t + t_old_cap t"
  have len: "length ?xs = ?tot" using inv by (simp add: rh_inv_def)
  obtain c' where c': "rh_scan_loop collect ?tot 0 cnt cursor t acc =
      (if c' \<ge> ?tot then 0 else c', t, acc @ pairs (take (c' - cursor) (drop cursor ?xs)))"
    "cursor < c'" "c' \<le> ?tot"
    using scan_loop_collects [OF rh_inv_virtual_slot [OF inv] len, of cursor 0 cnt acc] Suc.prems(2) cnt
    by (metis less_imp_le)
  have acc: "acc @ pairs (take (c' - cursor) (drop cursor ?xs)) = pairs (take c' ?xs)"
    using c'(2) take_add [of cursor "c' - cursor" ?xs] unfolding Suc.prems(3) pairs_split by simp
  have sc: "rh_scan collect t cursor cnt acc = (if c' \<ge> ?tot then 0 else c', t, pairs (take c' ?xs))"
    using c'(1) acc Suc.prems(2) cap rh_inv_cap [OF inv] by (auto simp: rh_scan_def)
  show ?case
  proof (cases "c' = ?tot")
    case True
    with sc len show ?thesis by simp
  next
    case False
    with sc c' Suc.IH [of c' "pairs (take c' ?xs)"] Suc.prems show ?thesis by auto
  qed
qed simp

lemma rh_each_pairs: "rh_inv h t \<Longrightarrow> rh_each t = pairs (t_slots t @ old_of t)"
  by (auto simp: rh_each_def rh_inv_def old_of_def pairs_def split: option.splits)

subsection \<open>Properties\<close>

text \<open>Evaluation of the operations on concrete tables.\<close>

lemma replicate_numeral: "replicate (numeral k) x = x # replicate (pred_numeral k) x"
  by (simp add: numeral_eq_Suc)

lemmas rh_eval = rh_set_def rh_get_def rh_del_def rh_migrate_some_def rh_migrate_some_slow_def
  rh_migrate_loop.simps rh_locate_def rh_find_in_def rh_find_loop.simps rh_match_def rh_add_def
  rh_maybe_grow_def rh_insert_entry_def rh_insert_loop.simps rh_grow_capacity_def
  rh_delete_at_def rh_delete_loop.simps
  rh_alloc_slots_def rh_slot_bytes_def rh_growth_limit_def RH_INIT_CAP_def RH_MAX_LOAD_NUM_def
  RH_MAX_LOAD_DEN_def RH_MIGRATE_BATCH_def RH_ENTRY_SIZE_def c_limits rh_empty_slot_def
  rh_init_def replicate_numeral Let_def rh_key_def rh_val_def

lemma the_init: "rh_inv h (the rh_init)" "rh_map (the rh_init) = Map.empty"
  using rh_init_ok [of h] by (metis option.sel)+

text \<open>
  C1: every sequence of lookups, stores and deletions on a fresh table returns and gives,
  result by result, what a finite map gives, as long as no operation names a key that an
  unfinished rehash has put out of reach of the search (\<open>rh_sees\<close>), key and value fit
  32-bit lengths and the capacity is at most \<open>2^30\<close>. The Robin Hood
  invariant, the load bound and the counters hold in the final table.
\<close>

theorem rh_runs_refine_map:
  assumes "run_safe rh_safe (rh_exec h) (the rh_init) ops"
  shows "\<exists>rs t. run_ops (rh_exec h) (the rh_init) ops = Some (rs, t) \<and> rh_inv h t \<and>
    run_spec kv_spec Map.empty ops = (rs, rh_map t)"
  using rh_refine.run_refines [OF the_init(1) assms] by (simp add: the_init(2))

lemma rh_runs_refine_map_witness:
  "\<exists>rs t. run_ops (rh_exec (\<lambda>k. 5)) (the rh_init) [Set [1] [2], Set [3] [4], Get [1], Del [1]] =
     Some (rs, t) \<and> rh_inv (\<lambda>k. 5) t \<and>
     run_spec kv_spec Map.empty [Set [1] [2], Set [3] [4], Get [1], Del [1]] = (rs, rh_map t)"
  by (rule rh_runs_refine_map)
    (simp add: rh_eval rh_sees_def findable_def old_of_def fits_def)

text \<open>
  a lookup always returns. It returns the stored value, moves the rehash forward by one
  batch and leaves the contents alone; only a key the rehash has put out of reach is
  reported absent.
\<close>

theorem rh_get_result:
  assumes "rh_inv h t"
  shows "\<exists>t'. rh_get h t k = Some (if rh_sees t k then rh_map t k else None, t') \<and>
    rh_inv h t' \<and> rh_map t' = rh_map t \<and> t_old_live t' = t_old_live t - 16"
  using rh_get_ok [OF assms, of k] by blast





definition first_byte :: "bytes \<Rightarrow> u64" where
  "first_byte k = (case k of [] \<Rightarrow> 0 | b # _ \<Rightarrow> ucast b)"

definition clash_keys :: "bytes list" where
  "clash_keys = map (\<lambda>b. [b]) [0, 1, 2, 3, 4, 5, 6, 7, 8, 9, 10, 11, 12, 13, 14, 15, 47, 17, 18,
     19, 20, 21, 22, 23, 24, 25, 26, 27]"


end
