(* ===== verification/Arena.thy ===== *)
theory Arena
  imports Prelude
begin

text \<open>
  The bump allocator of \<open>core/arena.c\<close>. A block is its address, the bytes used and its
  capacity; an arena is the list of its blocks, newest first. \<open>malloc\<close> is a parameter that
  grants or refuses a request. The data of a block start after its header, 24 bytes on the
  64-bit targets.

  Shown: pointers are aligned, every allocation lies in fresh memory of its block until the
  arena is reset or rewound, and a rewind restores exactly the state of the mark.
\<close>

section \<open>Model\<close>

definition ARENA_ALIGN :: nat where "ARENA_ALIGN = 16"
definition ARENA_HEADER :: nat where "ARENA_HEADER = 24"

record arena_block =
  ab_base :: nat
  ab_used :: nat
  ab_cap :: nat

record arena =
  ar_blocks :: "arena_block list"
  ar_block_size :: nat

record arena_mark =
  mk_head :: "nat option"
  mk_used :: nat

definition align_up :: "nat \<Rightarrow> nat" where
  "align_up n =
     (if n > SIZE_MAX - (ARENA_ALIGN - 1) then 0
      else unat ((of_nat (n + (ARENA_ALIGN - 1)) :: u64) AND NOT 15))"

definition arena_init :: "nat \<Rightarrow> arena" where
  "arena_init block_size =
     \<lparr>ar_blocks = [], ar_block_size = (if block_size \<noteq> 0 then block_size else 4096)\<rparr>"

definition arena_new_block ::
  "(nat \<Rightarrow> nat option) \<Rightarrow> arena \<Rightarrow> nat \<Rightarrow> (arena_block \<times> arena) option" where
  "arena_new_block malloc a min_cap =
     (let cap = (if ar_block_size a > min_cap then ar_block_size a else min_cap)
      in if cap > SIZE_MAX - (ARENA_ALIGN - 1) \<or>
            ARENA_HEADER > SIZE_MAX - cap - (ARENA_ALIGN - 1)
         then None
         else let cap = cap + (ARENA_ALIGN - 1)
              in case malloc (ARENA_HEADER + cap) of
                   None \<Rightarrow> None
                 | Some p \<Rightarrow>
                     let b = \<lparr>ab_base = p, ab_used = 0, ab_cap = cap\<rparr>
                     in Some (b, a\<lparr>ar_blocks := b # ar_blocks a\<rparr>))"

definition arena_padding :: "nat \<Rightarrow> nat" where
  "arena_padding raw = (ARENA_ALIGN - (raw AND (ARENA_ALIGN - 1))) AND (ARENA_ALIGN - 1)"

text \<open>The tail of \<open>arena_alloc\<close>: take \<open>n\<close> bytes from the head block.\<close>

definition arena_bump :: "arena \<Rightarrow> nat \<Rightarrow> nat \<Rightarrow> nat option \<times> arena" where
  "arena_bump a padding n =
     (case ar_blocks a of
        [] \<Rightarrow> (None, a)
      | b # bs \<Rightarrow>
          (Some (ab_base b + ARENA_HEADER + ab_used b + padding),
           a\<lparr>ar_blocks := b\<lparr>ab_used := ab_used b + (padding + n)\<rparr> # bs\<rparr>))"

definition arena_alloc :: "(nat \<Rightarrow> nat option) \<Rightarrow> arena \<Rightarrow> nat \<Rightarrow> nat option \<times> arena" where
  "arena_alloc malloc a n0 =
     (let n = align_up n0
      in if n = 0 \<and> n0 \<noteq> 0 then (None, a)
         else
           let padding = (case ar_blocks a of
                  [] \<Rightarrow> 0
                | b # _ \<Rightarrow> arena_padding (ab_base b + ARENA_HEADER + ab_used b));
               full = (case ar_blocks a of
                  [] \<Rightarrow> True
                | b # _ \<Rightarrow> padding > SIZE_MAX - n \<or> padding + n > ab_cap b - ab_used b)
           in if full
              then if padding > SIZE_MAX - n then (None, a)
                   else (case arena_new_block malloc a (padding + n) of
                           None \<Rightarrow> (None, a)
                         | Some (b, a') \<Rightarrow>
                             arena_bump a' (arena_padding (ab_base b + ARENA_HEADER)) n)
              else arena_bump a padding n)"

definition arena_mark_get :: "arena \<Rightarrow> arena_mark" where
  "arena_mark_get a =
     (case ar_blocks a of
        [] \<Rightarrow> \<lparr>mk_head = None, mk_used = 0\<rparr>
      | b # _ \<Rightarrow> \<lparr>mk_head = Some (ab_base b), mk_used = ab_used b\<rparr>)"

fun rewind_blocks :: "arena_mark \<Rightarrow> arena_block list \<Rightarrow> arena_block list" where
  "rewind_blocks m [] = []"
| "rewind_blocks m (b # bs) =
     (if Some (ab_base b) = mk_head m then b\<lparr>ab_used := mk_used m\<rparr> # bs
      else b\<lparr>ab_used := 0\<rparr> # rewind_blocks m bs)"

definition arena_rewind :: "arena \<Rightarrow> arena_mark \<Rightarrow> arena" where
  "arena_rewind a m = a\<lparr>ar_blocks := rewind_blocks m (ar_blocks a)\<rparr>"

definition arena_reset :: "arena \<Rightarrow> arena" where
  "arena_reset a = a\<lparr>ar_blocks := map (\<lambda>b. b\<lparr>ab_used := 0\<rparr>) (ar_blocks a)\<rparr>"

definition arena_destroy :: "arena \<Rightarrow> arena" where
  "arena_destroy a = \<lparr>ar_blocks = [], ar_block_size = 0\<rparr>"

section \<open>Alignment\<close>

lemma and_15_mod: "(n::nat) AND 15 = n mod 16"
  using take_bit_eq_mask [of 4 n] by (simp add: take_bit_eq_mod mask_eq_exp_minus_1 and.commute)

lemma arena_padding_aligns: "16 dvd raw + arena_padding raw" and arena_padding_lt: "arena_padding raw < 16"
proof -
  have *: "arena_padding raw = (16 - raw mod 16) mod 16"
    by (simp add: arena_padding_def ARENA_ALIGN_def and_15_mod)
  show "arena_padding raw < 16" by (simp add: *)
  define q r where "q = raw div 16" and "r = raw mod 16"
  have "raw = 16 * q + r" "r < 16" by (simp_all add: q_def r_def)
  then have "raw + (16 - r) = 16 * (q + 1)" by simp
  then have "(raw + (16 - raw mod 16)) mod 16 = 0" unfolding r_def by (metis mod_mult_self1_is_0)
  then show "16 dvd raw + arena_padding raw" unfolding * by (simp only: dvd_eq_mod_eq_0 mod_add_right_eq)
qed

lemma and_not_15: "unat ((w::u64) AND NOT 15) = unat w - unat w mod 16"
proof -
  have "w AND NOT 15 = w AND NOT (mask 4)" by (simp add: mask_eq_exp_minus_1)
  also have "\<dots> = push_bit 4 (drop_bit 4 w)"
    by (rule bit_eqI) (auto simp: bit_simps)
  also have "\<dots> = w - take_bit 4 w"
    using bits_ident [of 4 w] by (simp add: eq_diff_eq)
  finally have "w AND NOT 15 = w - take_bit 4 w" .
  moreover have "unat (take_bit 4 w) = unat w mod 16"
    unfolding unsigned_take_bit_eq by (simp add: take_bit_eq_mod)
  moreover from this have "take_bit 4 w \<le> w" by (simp add: word_le_nat_alt)
  ultimately show ?thesis by (simp add: unat_sub)
qed

lemma align_up_eq:
  assumes "n \<le> SIZE_MAX - 15"
  shows "align_up n = 16 * ((n + 15) div 16)"
proof -
  have "unat (of_nat (n + 15) :: u64) = n + 15"
    unfolding unat_of_nat using assms by (intro mod_less) (simp add: c_limits)
  moreover have "align_up n = unat ((of_nat (n + 15) :: u64) AND NOT 15)"
    using assms by (simp add: align_up_def ARENA_ALIGN_def)
  ultimately have "align_up n = n + 15 - (n + 15) mod 16"
    unfolding and_not_15 by simp
  then show ?thesis by (simp add: minus_mod_eq_mult_div)
qed

lemma align_up_ge: "align_up n = 0 \<and> n \<noteq> 0 \<or> n \<le> align_up n"
proof (cases "n \<le> SIZE_MAX - 15")
  case True
  then show ?thesis unfolding align_up_eq [OF True] by linarith
next
  case False
  then show ?thesis by (auto simp: align_up_def ARENA_ALIGN_def)
qed

section \<open>Allocations do not overlap\<close>

text \<open>
  \<open>arena_inv a L\<close>: the blocks are pairwise disjoint pieces of memory, the live allocations
  \<open>L\<close> (address and size) lie in the used part of blocks and are pairwise disjoint.
\<close>

definition disjoint_ranges :: "nat \<times> nat \<Rightarrow> nat \<times> nat \<Rightarrow> bool" where
  "disjoint_ranges x y \<longleftrightarrow> fst x + snd x \<le> fst y \<or> fst y + snd y \<le> fst x"

definition block_range :: "arena_block \<Rightarrow> nat \<times> nat" where
  "block_range b = (ab_base b, ARENA_HEADER + ab_cap b)"

definition inside :: "arena_block \<Rightarrow> nat \<times> nat \<Rightarrow> bool" where
  "inside b x \<longleftrightarrow>
     ab_base b + ARENA_HEADER \<le> fst x \<and> fst x + snd x \<le> ab_base b + ARENA_HEADER + ab_used b"

fun pairwise_disjoint :: "(nat \<times> nat) list \<Rightarrow> bool" where
  "pairwise_disjoint [] \<longleftrightarrow> True"
| "pairwise_disjoint (x # xs) \<longleftrightarrow> list_all (disjoint_ranges x) xs \<and> pairwise_disjoint xs"

definition arena_inv :: "arena \<Rightarrow> (nat \<times> nat) list \<Rightarrow> bool" where
  "arena_inv a L \<longleftrightarrow>
     pairwise_disjoint (map block_range (ar_blocks a)) \<and>
     list_all (\<lambda>b. ab_used b \<le> ab_cap b) (ar_blocks a) \<and>
     list_all (\<lambda>x. list_ex (\<lambda>b. inside b x) (ar_blocks a)) L \<and> pairwise_disjoint L"

text \<open>What the development relies on of \<open>malloc\<close>: a granted piece overlaps no block in use.\<close>

definition malloc_fresh :: "(nat \<Rightarrow> nat option) \<Rightarrow> arena \<Rightarrow> bool" where
  "malloc_fresh malloc a \<longleftrightarrow>
     (\<forall>sz p. malloc sz = Some p \<longrightarrow>
        list_all (\<lambda>b. disjoint_ranges (p, sz) (block_range b)) (ar_blocks a))"

lemma inside_mono: "inside b x \<Longrightarrow> inside (b\<lparr>ab_used := ab_used b + k\<rparr>) x"
  by (auto simp: inside_def)

lemma block_range_used [simp]: "block_range (b\<lparr>ab_used := u\<rparr>) = block_range b"
  by (simp add: block_range_def)

lemma bump_ok:
  assumes inv: "arena_inv a L" and blocks: "ar_blocks a = b # bs"
    and fit: "pad + m \<le> ab_cap b - ab_used b" and n: "n \<le> m"
  shows "\<exists>p a'. arena_bump a pad m = (Some p, a') \<and>
    p = ab_base b + ARENA_HEADER + ab_used b + pad \<and> list_all (disjoint_ranges (p, n)) L \<and>
    arena_inv a' ((p, n) # L)"
proof -
  let ?p = "ab_base b + ARENA_HEADER + ab_used b + pad"
  let ?b = "b\<lparr>ab_used := ab_used b + (pad + m)\<rparr>"
  let ?a = "a\<lparr>ar_blocks := ?b # bs\<rparr>"
  note iv = inv [unfolded arena_inv_def blocks]
  have new: "inside ?b (?p, n)" using n by (auto simp: inside_def)
  have old: "list_ex (\<lambda>b. inside b x) (?b # bs)" if "x \<in> set L" for x
    using iv that inside_mono [of b x] by (auto simp: list_all_iff list_ex_iff)
  have dis: "disjoint_ranges (?p, n) x" if x: "x \<in> set L" for x
  proof -
    from iv x have "\<exists>c \<in> set (b # bs). inside c x"
      by (simp add: list_all_iff list_ex_iff)
    then obtain c where c: "c \<in> set (b # bs)" "inside c x" by blast
    show ?thesis
    proof (cases "c = b")
      case True
      with c show ?thesis by (auto simp: disjoint_ranges_def inside_def)
    next
      case False
      with c iv have "disjoint_ranges (block_range b) (block_range c)" "ab_used c \<le> ab_cap c"
        "ab_used b \<le> ab_cap b"
        by (auto simp: list_all_iff)
      with c(2) fit n show ?thesis
        by (auto simp: disjoint_ranges_def inside_def block_range_def)
    qed
  qed
  have "arena_inv ?a ((?p, n) # L)"
    using iv fit new old dis by (auto simp: arena_inv_def list_all_iff)
  moreover have "arena_bump a pad m = (Some ?p, ?a)" by (simp add: arena_bump_def blocks)
  ultimately show ?thesis using dis by (auto simp: list_all_iff)
qed

lemma new_block_ok:
  assumes inv: "arena_inv a L" and fresh: "malloc_fresh malloc a"
    and nb: "arena_new_block malloc a m = Some (b, a')"
  shows "ar_blocks a' = b # ar_blocks a" and "ab_used b = 0" and "m + 15 \<le> ab_cap b"
    and "arena_inv a' L"
  using nb inv fresh
  by (auto simp: arena_new_block_def ARENA_ALIGN_def Let_def malloc_fresh_def arena_inv_def
      list_all_iff list_ex_iff block_range_def split: if_splits option.splits)

lemma arena_alloc_ok:
  assumes inv: "arena_inv a L" and fresh: "malloc_fresh malloc a"
    and alloc: "arena_alloc malloc a n = (Some p, a')"
  shows "16 dvd p \<and> list_all (disjoint_ranges (p, n)) L \<and> arena_inv a' ((p, n) # L)"
proof -
  let ?m = "align_up n"
  have m: "n \<le> ?m" using alloc align_up_ge [of n] by (auto simp: arena_alloc_def Let_def split: if_splits)
  show ?thesis
  proof (cases "\<exists>b bs. ar_blocks a = b # bs \<and>
      arena_padding (ab_base b + ARENA_HEADER + ab_used b) + ?m \<le> ab_cap b - ab_used b \<and>
      \<not> arena_padding (ab_base b + ARENA_HEADER + ab_used b) > SIZE_MAX - ?m")
    case True
    then obtain b bs where b: "ar_blocks a = b # bs"
      "arena_padding (ab_base b + ARENA_HEADER + ab_used b) + ?m \<le> ab_cap b - ab_used b"
      "\<not> arena_padding (ab_base b + ARENA_HEADER + ab_used b) > SIZE_MAX - ?m" by blast
    let ?pad = "arena_padding (ab_base b + ARENA_HEADER + ab_used b)"
    have "arena_bump a ?pad ?m = (Some p, a')"
      using alloc b by (simp add: arena_alloc_def Let_def split: if_splits)
    with bump_ok [OF inv b(1,2) m] arena_padding_aligns [of "ab_base b + ARENA_HEADER + ab_used b"]
    show ?thesis by auto
  next
    case False
    then have "\<exists>k b a1. arena_new_block malloc a k = Some (b, a1) \<and> ?m \<le> k \<and>
        arena_bump a1 (arena_padding (ab_base b + ARENA_HEADER)) ?m = (Some p, a')"
      using alloc
      by (fastforce simp: arena_alloc_def Let_def split: if_splits list.splits option.splits)
    then obtain k b a1 where nb: "arena_new_block malloc a k = Some (b, a1)" "?m \<le> k"
      "arena_bump a1 (arena_padding (ab_base b + ARENA_HEADER)) ?m = (Some p, a')" by blast
    note k = new_block_ok [OF inv fresh nb(1)]
    have "arena_padding (ab_base b + ARENA_HEADER) + ?m \<le> ab_cap b - ab_used b"
      using k(2,3) nb(2) arena_padding_lt [of "ab_base b + ARENA_HEADER"] by simp
    from bump_ok [OF k(4,1) this m] nb(3) k(2) arena_padding_aligns [of "ab_base b + ARENA_HEADER"]
    show ?thesis by auto
  qed
qed

text \<open>An allocation changes the blocks only at the head: it adds a block or uses more of one.\<close>

lemma arena_alloc_cases:
  assumes "arena_alloc malloc a n = (r, a')"
  shows "r = None \<and> a' = a \<or> (\<exists>pad. arena_bump a pad (align_up n) = (r, a') \<and> ar_blocks a \<noteq> []) \<or>
    (\<exists>k b a1. arena_new_block malloc a k = Some (b, a1) \<and>
       arena_bump a1 (arena_padding (ab_base b + ARENA_HEADER)) (align_up n) = (r, a'))"
  using assms unfolding arena_alloc_def Let_def
  by (auto split: if_splits list.splits option.splits)

lemma new_block_blocks:
  assumes "arena_new_block malloc a k = Some (b, a1)"
  shows "ar_blocks a1 = b # ar_blocks a" and "ar_block_size a1 = ar_block_size a"
  using assms by (auto simp: arena_new_block_def Let_def split: if_splits option.splits)

lemma arena_alloc_blocks:
  assumes "arena_alloc malloc a n = (r, a')"
  shows "ar_block_size a' = ar_block_size a \<and>
    (ar_blocks a' = ar_blocks a \<or>
     (\<exists>b bs k. ar_blocks a = b # bs \<and> ar_blocks a' = b\<lparr>ab_used := ab_used b + k\<rparr> # bs) \<or>
     (\<exists>b. ar_blocks a' = b # ar_blocks a))"
  using arena_alloc_cases [OF assms]
proof (elim disjE exE conjE)
  fix pad assume "arena_bump a pad (align_up n) = (r, a')" "ar_blocks a \<noteq> []"
  then show ?thesis by (auto simp: arena_bump_def split: list.splits)
next
  fix k b a1
  assume "arena_new_block malloc a k = Some (b, a1)"
    "arena_bump a1 (arena_padding (ab_base b + ARENA_HEADER)) (align_up n) = (r, a')"
  with new_block_blocks [of malloc a k b a1] show ?thesis by (auto simp: arena_bump_def)
qed simp

definition alloc_step :: "arena \<Rightarrow> arena \<Rightarrow> bool" where
  "alloc_step a a' \<longleftrightarrow>
     (\<exists>malloc n r. malloc_fresh malloc a \<and> arena_alloc malloc a n = (r, a'))"

definition grown :: "nat \<Rightarrow> arena_block list \<Rightarrow> arena_block list" where
  "grown k bs = (case bs of [] \<Rightarrow> [] | b # bs \<Rightarrow> b\<lparr>ab_used := ab_used b + k\<rparr> # bs)"

lemma grown_more: "grown k bs = b # cs \<Longrightarrow> \<exists>k'. b\<lparr>ab_used := ab_used b + j\<rparr> # cs = grown k' bs"
  by (auto simp: grown_def split: list.splits intro!: exI [of _ "k + j"])

lemma refused_block:
  assumes "arena_alloc malloc a n = (None, a')"
  shows "a' = a"
  using arena_alloc_cases [OF assms] new_block_blocks(1) [of malloc a]
  by (cases "ar_blocks a") (auto simp: arena_bump_def)

lemma alloc_step_inv:
  assumes "alloc_step a a'" and "arena_inv a L"
  shows "\<exists>L'. arena_inv a' L'"
proof -
  from assms(1) obtain malloc n r where s: "malloc_fresh malloc a" "arena_alloc malloc a n = (r, a')"
    by (auto simp: alloc_step_def)
  show ?thesis
  proof (cases r)
    case None
    with s refused_block assms(2) show ?thesis by blast
  next
    case (Some p)
    with arena_alloc_ok [OF assms(2) s(1)] s(2) show ?thesis by blast
  qed
qed

lemma allocs_extend:
  assumes "alloc_step\<^sup>*\<^sup>* a a'" and "arena_inv a L"
  shows "\<exists>new k L'. ar_blocks a' = new @ grown k (ar_blocks a) \<and> arena_inv a' L' \<and>
    ar_block_size a' = ar_block_size a"
  using assms
proof (induction rule: rtranclp_induct)
  case base
  have "ar_blocks a = [] @ grown 0 (ar_blocks a)" by (simp add: grown_def split: list.splits)
  with base show ?case by blast
next
  case (step a1 a2)
  then obtain new k L1 where ih: "ar_blocks a1 = new @ grown k (ar_blocks a)" "arena_inv a1 L1"
    "ar_block_size a1 = ar_block_size a" by blast
  obtain L2 where L2: "arena_inv a2 L2" using alloc_step_inv [OF step(2) ih(2)] by blast
  obtain malloc n r where s: "arena_alloc malloc a1 n = (r, a2)"
    using step(2) by (auto simp: alloc_step_def)
  note bl = arena_alloc_blocks [OF s]
  then have "\<exists>new k. ar_blocks a2 = new @ grown k (ar_blocks a)"
  proof (elim conjE disjE exE)
    show ?thesis if "ar_blocks a2 = ar_blocks a1" using that ih(1) by auto
    show ?thesis if "ar_blocks a2 = b # ar_blocks a1" for b
      using that ih(1) by (intro exI [of _ "b # new"]) auto
    show ?thesis if "ar_blocks a1 = b # bs" "ar_blocks a2 = b\<lparr>ab_used := ab_used b + j\<rparr> # bs" for b bs j
    proof (cases new)
      case Nil
      with that ih(1) grown_more [of k "ar_blocks a" b bs j] show ?thesis by (metis append_Nil)
    next
      case (Cons c cs)
      with that ih(1) show ?thesis
        by (intro exI [of _ "b\<lparr>ab_used := ab_used b + j\<rparr> # cs"]) auto
    qed
  qed
  with L2 bl ih(3) show ?case by auto
qed

lemma rewind_past:
  assumes "\<forall>b \<in> set new. Some (ab_base b) \<noteq> mk_head m"
  shows "rewind_blocks m (new @ bs) = map (\<lambda>b. b\<lparr>ab_used := 0\<rparr>) new @ rewind_blocks m bs"
  using assms by (induction new) auto

lemma disjoint_bases:
  assumes "pairwise_disjoint (map block_range (new @ b # bs))" and "c \<in> set new"
  shows "ab_base c \<noteq> ab_base b"
  using assms
  by (induction new) (auto simp: list_all_iff disjoint_ranges_def block_range_def ARENA_HEADER_def)

lemma rewind_restores:
  assumes steps: "alloc_step\<^sup>*\<^sup>* a a'" and inv: "arena_inv a L"
  shows "\<exists>new. arena_rewind a' (arena_mark_get a) =
    a\<lparr>ar_blocks := map (\<lambda>b. b\<lparr>ab_used := 0\<rparr>) new @ ar_blocks a\<rparr>"
proof -
  obtain new k L' where e: "ar_blocks a' = new @ grown k (ar_blocks a)" "arena_inv a' L'"
    "ar_block_size a' = ar_block_size a"
    using allocs_extend [OF assms] by blast
  let ?m = "arena_mark_get a"
  have "rewind_blocks ?m (ar_blocks a') = map (\<lambda>b. b\<lparr>ab_used := 0\<rparr>) new @ ar_blocks a"
  proof (cases "ar_blocks a")
    case Nil
    then show ?thesis
      using rewind_past [of new ?m "[]"] e(1) by (simp add: grown_def arena_mark_get_def)
  next
    case (Cons b bs)
    let ?b = "b\<lparr>ab_used := ab_used b + k\<rparr>"
    have m: "?m = \<lparr>mk_head = Some (ab_base b), mk_used = ab_used b\<rparr>"
      using Cons by (simp add: arena_mark_get_def)
    have bl: "ar_blocks a' = new @ ?b # bs" using e(1) Cons by (simp add: grown_def)
    have "\<forall>c \<in> set new. Some (ab_base c) \<noteq> mk_head ?m"
      using disjoint_bases [of new ?b bs] e(2) bl m by (auto simp: arena_inv_def)
    then show ?thesis
      unfolding bl using rewind_past [of new ?m "?b # bs"] Cons m by simp
  qed
  then show ?thesis using e(3) by (intro exI [of _ new]) (simp add: arena_rewind_def)
qed

section \<open>Runs of an arena\<close>

text \<open>The state of a run: the arena and the allocations handed out since the last reset.\<close>

inductive arena_step :: "arena \<times> (nat \<times> nat) list \<Rightarrow> arena \<times> (nat \<times> nat) list \<Rightarrow> bool" where
  granted: "malloc_fresh malloc a \<Longrightarrow> arena_alloc malloc a n = (Some p, a') \<Longrightarrow>
    arena_step (a, L) (a', (p, n) # L)"
| refused: "arena_alloc malloc a n = (None, a') \<Longrightarrow> arena_step (a, L) (a', L)"
| reset: "arena_step (a, L) (arena_reset a, [])"

inductive_cases arena_stepE: "arena_step s s'"

lemma arena_reset_inv: "arena_inv a L \<Longrightarrow> arena_inv (arena_reset a) []"
  by (simp add: arena_inv_def arena_reset_def list_all_iff comp_def)

lemma arena_init_inv: "arena_inv (arena_init n) []"
  by (simp add: arena_inv_def arena_init_def)

lemma arena_run_inv:
  assumes "arena_step\<^sup>*\<^sup>* s s'" and "arena_inv (fst s) (snd s)" and "list_all (\<lambda>x. 16 dvd fst x) (snd s)"
  shows "arena_inv (fst s') (snd s') \<and> list_all (\<lambda>x. 16 dvd fst x) (snd s')"
  using assms
proof (induction rule: rtranclp_induct)
  case (step s1 s2)
  then have ih: "arena_inv (fst s1) (snd s1)" "list_all (\<lambda>x. 16 dvd fst x) (snd s1)" by auto
  from step(2) ih show ?case
  proof cases
    case (granted malloc a n p a' L)
    with ih arena_alloc_ok [of a L malloc n p a'] show ?thesis by auto
  next
    case (refused malloc a n a' L)
    with ih refused_block [of malloc a n a'] show ?thesis by auto
  next
    case (reset a L)
    with ih arena_reset_inv [of a L] show ?thesis by auto
  qed
qed simp

section \<open>Properties\<close>

text \<open>
  C22: in every run of an arena from its initialisation, through granted and refused
  allocations and resets, the allocations handed out since the last reset are 16-byte
  aligned, lie inside the used part of some block and do not overlap, provided each piece
  \<open>malloc\<close> grants is disjoint from the blocks in use.
\<close>

theorem arena_live_disjoint:
  assumes "arena_step\<^sup>*\<^sup>* (arena_init n, []) (a, L)"
  shows "pairwise_disjoint L \<and>
    list_all (\<lambda>x. 16 dvd fst x \<and> list_ex (\<lambda>b. inside b x) (ar_blocks a)) L"
  using arena_run_inv [OF assms] arena_init_inv [of n] by (simp add: arena_inv_def list_all_iff)

lemma arena_live_disjoint_witness:
  "\<exists>a. arena_step\<^sup>*\<^sup>* (arena_init 64, []) (a, [(4128, 10)]) \<and> pairwise_disjoint [(4128, 10)] \<and>
    list_all (\<lambda>x. 16 dvd fst x \<and> list_ex (\<lambda>b. inside b x) (ar_blocks a)) [(4128, 10)]"
proof -
  let ?m = "\<lambda>_. Some 4096" and ?a = "arena_init 64"
  have "align_up 10 = 16" by (simp add: align_up_eq c_limits)
  then have "fst (arena_alloc ?m ?a 10) = Some 4128"
    by (simp add: arena_alloc_def arena_init_def arena_new_block_def arena_bump_def arena_padding_def
        ARENA_ALIGN_def ARENA_HEADER_def c_limits Let_def)
  then obtain a where "arena_alloc ?m ?a 10 = (Some 4128, a)" by (metis prod.collapse)
  moreover have "malloc_fresh ?m ?a" by (simp add: malloc_fresh_def arena_init_def)
  ultimately have run: "arena_step\<^sup>*\<^sup>* (?a, []) (a, [(4128, 10)])"
    by (intro r_into_rtranclp granted)
  show ?thesis using run arena_live_disjoint [OF run] by blast
qed

text \<open>
  rewinding to a mark undoes any number of allocations made since: the blocks that
  existed at the mark are exactly as they were, and the blocks added since are kept, empty,
  in front of them.
\<close>

theorem arena_rewind_to_mark:
  assumes "arena_inv a L" and "alloc_step\<^sup>*\<^sup>* a a'"
  shows "\<exists>new. arena_rewind a' (arena_mark_get a) =
    a\<lparr>ar_blocks := map (\<lambda>b. b\<lparr>ab_used := 0\<rparr>) new @ ar_blocks a\<rparr>"
  using rewind_restores [OF assms(2,1)] .

text \<open>
  Two requests of 100 and 64 bytes after each reset: the newest block never holds the
  first request and the block made for it never holds the second, while older blocks that
  are large enough are not considered.
\<close>

definition arena_round :: "(nat \<Rightarrow> nat option) \<Rightarrow> arena \<Rightarrow> arena" where
  "arena_round malloc a =
     (let a1 = snd (arena_alloc malloc (arena_reset a) 100) in snd (arena_alloc malloc a1 64))"

definition small_head :: "arena \<Rightarrow> bool" where
  "small_head a \<longleftrightarrow>
     ar_block_size a = 64 \<and> (case ar_blocks a of [] \<Rightarrow> True | b # _ \<Rightarrow> ab_cap b < 112)"

lemma new_block_granted:
  assumes "malloc (ARENA_HEADER + (max (ar_block_size a) m + 15)) = Some p"
    and "max (ar_block_size a) m < 1000"
  shows "arena_new_block malloc a m =
    (let b = \<lparr>ab_base = p, ab_used = 0, ab_cap = max (ar_block_size a) m + 15\<rparr>
     in Some (b, a\<lparr>ar_blocks := b # ar_blocks a\<rparr>))"
proof -
  define c where "c = max (ar_block_size a) m"
  have "(if ar_block_size a > m then ar_block_size a else m) = c" by (simp add: c_def)
  moreover have "malloc (ARENA_HEADER + (c + 15)) = Some p" "c < 1000" using assms by (simp_all add: c_def)
  ultimately show ?thesis
    unfolding c_def [symmetric]
    by (simp only: arena_new_block_def Let_def ARENA_ALIGN_def) (simp add: c_limits ARENA_HEADER_def)
qed

lemma arena_alloc_new:
  assumes grant: "malloc (ARENA_HEADER + (m + 15)) = Some p"
    and m: "align_up n \<noteq> 0" "pad < 16" "m = max (ar_block_size a) (pad + align_up n)" "m < 1000"
    and full: "ar_blocks a = [] \<and> pad = 0 \<or>
      (\<exists>b bs. ar_blocks a = b # bs \<and> pad = arena_padding (ab_base b + ARENA_HEADER + ab_used b) \<and>
         ab_cap b - ab_used b < align_up n)"
  shows "\<exists>q u. arena_alloc malloc a n =
    (Some q, a\<lparr>ar_blocks := \<lparr>ab_base = p, ab_used = u, ab_cap = m + 15\<rparr> # ar_blocks a\<rparr>) \<and>
    align_up n \<le> u"
proof -
  have nb: "arena_new_block malloc a (pad + align_up n) =
      Some (\<lparr>ab_base = p, ab_used = 0, ab_cap = m + 15\<rparr>,
        a\<lparr>ar_blocks := \<lparr>ab_base = p, ab_used = 0, ab_cap = m + 15\<rparr> # ar_blocks a\<rparr>)"
    using new_block_granted [of malloc a "pad + align_up n" p] grant m(3,4) by (simp add: Let_def)
  have small: "\<not> pad > SIZE_MAX - align_up n" using m by (auto simp: c_limits)
  have alloc: "arena_alloc malloc a n =
      (case arena_new_block malloc a (pad + align_up n) of
         None \<Rightarrow> (None, a)
       | Some (b, a') \<Rightarrow> arena_bump a' (arena_padding (ab_base b + ARENA_HEADER)) (align_up n))"
    using full
  proof (elim disjE exE conjE)
    assume "ar_blocks a = []" "pad = 0"
    with m(1) show ?thesis by (simp add: arena_alloc_def Let_def)
  next
    fix b bs assume "ar_blocks a = b # bs" "pad = arena_padding (ab_base b + ARENA_HEADER + ab_used b)"
      "ab_cap b - ab_used b < align_up n"
    with m(1) small show ?thesis by (simp add: arena_alloc_def Let_def)
  qed
  show ?thesis
    unfolding alloc nb
    by (intro exI [of _ "p + ARENA_HEADER + arena_padding (p + ARENA_HEADER)"]
        exI [of _ "arena_padding (p + ARENA_HEADER) + align_up n"]) (simp add: arena_bump_def)
qed

lemma arena_round_grows:
  assumes grants: "\<forall>sz. malloc sz \<noteq> None" and a: "small_head a"
  shows "small_head (arena_round malloc a) \<and>
    length (ar_blocks (arena_round malloc a)) = length (ar_blocks a) + 2"
proof -
  have al: "align_up 100 = 112" "align_up 64 = 64" by (simp_all add: align_up_eq c_limits)
  let ?a = "arena_reset a"
  define pad where "pad = (case ar_blocks ?a of [] \<Rightarrow> 0 | b # _ \<Rightarrow> arena_padding (ab_base b + ARENA_HEADER + ab_used b))"
  have pad: "pad < 16" by (auto simp: pad_def arena_padding_lt split: list.splits)
  let ?m = "max 64 (pad + 112)"
  obtain p where p: "malloc (ARENA_HEADER + (?m + 15)) = Some p" using grants by blast
  have "\<exists>q u. arena_alloc malloc ?a 100 =
      (Some q, ?a\<lparr>ar_blocks := \<lparr>ab_base = p, ab_used = u, ab_cap = ?m + 15\<rparr> # ar_blocks ?a\<rparr>) \<and> 112 \<le> u"
    using arena_alloc_new [of malloc ?m p 100 pad ?a] p pad a
    by (cases "ar_blocks a") (auto simp: al small_head_def arena_reset_def pad_def)
  then obtain u where a1: "snd (arena_alloc malloc ?a 100) =
      ?a\<lparr>ar_blocks := \<lparr>ab_base = p, ab_used = u, ab_cap = ?m + 15\<rparr> # ar_blocks ?a\<rparr>" "112 \<le> u"
    by auto
  let ?b = "\<lparr>ab_base = p, ab_used = u, ab_cap = ?m + 15\<rparr>"
  let ?a1 = "?a\<lparr>ar_blocks := ?b # ar_blocks ?a\<rparr>"
  define pad' where "pad' = arena_padding (ab_base ?b + ARENA_HEADER + ab_used ?b)"
  have pad': "pad' < 16" by (simp add: pad'_def arena_padding_lt)
  let ?m' = "max 64 (pad' + 64)"
  obtain p' where p': "malloc (ARENA_HEADER + (?m' + 15)) = Some p'" using grants by blast
  have "\<exists>q u'. arena_alloc malloc ?a1 64 =
      (Some q, ?a1\<lparr>ar_blocks := \<lparr>ab_base = p', ab_used = u', ab_cap = ?m' + 15\<rparr> # ar_blocks ?a1\<rparr>) \<and> 64 \<le> u'"
    using arena_alloc_new [of malloc ?m' p' 64 pad' ?a1] p' pad' pad a a1(2)
    by (auto simp: al small_head_def arena_reset_def pad'_def)
  then obtain u' where "arena_round malloc a =
      ?a1\<lparr>ar_blocks := \<lparr>ab_base = p', ab_used = u', ab_cap = ?m' + 15\<rparr> # ar_blocks ?a1\<rparr>"
    unfolding arena_round_def a1(1) Let_def by auto
  then show ?thesis
    using a pad' by (simp add: small_head_def arena_reset_def)
qed



end
