(* ===== verification/Buf_Pool.thy ===== *)
theory Buf_Pool
  imports Prelude
begin

text \<open>
  The tiered buffer pool of \<open>core/buf_pool.c\<close>. A free node is the address of its buffer;
  the four free lists are stacks. \<open>malloc\<close> is a parameter of the operations that need it.

  Shown: along every run that returns a buffer with the size it was handed out with, no
  buffer is handed out twice at the same time, every buffer is at least as large as asked
  for, and a free list holds only buffers of its tier.
\<close>

section \<open>Model\<close>

definition BUF_POOL_TIERS :: nat where "BUF_POOL_TIERS = 4"

record buf_pool =
  bp_sizes :: "nat list"
  bp_lists :: "nat list list"
  bp_allocs :: nat
  bp_hits :: nat

definition buf_pool_init :: buf_pool where
  "buf_pool_init =
     \<lparr>bp_sizes = [4 * 1024, 16 * 1024, 64 * 1024, 256 * 1024], bp_lists = [[], [], [], []],
      bp_allocs = 0, bp_hits = 0\<rparr>"

fun first_tier :: "nat list \<Rightarrow> nat \<Rightarrow> nat option" where
  "first_tier [] n = None"
| "first_tier (s # ss) n = (if n \<le> s then Some 0 else map_option Suc (first_tier ss n))"

definition buf_pool_tier :: "buf_pool \<Rightarrow> nat \<Rightarrow> nat option" where
  "buf_pool_tier pool n = first_tier (bp_sizes pool) n"

text \<open>The result is the buffer, if any, the size reported with it and the pool.\<close>

definition buf_pool_get ::
  "(nat \<Rightarrow> nat option) \<Rightarrow> buf_pool \<Rightarrow> nat \<Rightarrow> nat option \<times> nat \<times> buf_pool" where
  "buf_pool_get malloc pool want =
     (case buf_pool_tier pool want of
        Some tier \<Rightarrow>
          (case bp_lists pool ! tier of
             n # ns \<Rightarrow>
               (Some n, bp_sizes pool ! tier,
                pool\<lparr>bp_lists := (bp_lists pool)[tier := ns], bp_hits := bp_hits pool + 1\<rparr>)
           | [] \<Rightarrow>
               (case malloc (bp_sizes pool ! tier) of
                  None \<Rightarrow> (None, 0, pool)
                | Some n \<Rightarrow>
                    (Some n, bp_sizes pool ! tier, pool\<lparr>bp_allocs := bp_allocs pool + 1\<rparr>)))
      | None \<Rightarrow>
          (case malloc want of
             None \<Rightarrow> (None, want, pool)
           | Some p \<Rightarrow> (Some p, want, pool\<lparr>bp_allocs := bp_allocs pool + 1\<rparr>)))"

text \<open>\<open>buf_pool_put\<close> also says whether it released the buffer with \<open>free\<close>.\<close>

definition buf_pool_put :: "buf_pool \<Rightarrow> nat \<Rightarrow> nat \<Rightarrow> bool \<times> buf_pool" where
  "buf_pool_put pool ptr actual =
     (case buf_pool_tier pool actual of
        Some tier \<Rightarrow>
          if actual = bp_sizes pool ! tier
          then (False, pool\<lparr>bp_lists := (bp_lists pool)[tier := ptr # bp_lists pool ! tier]\<rparr>)
          else (True, pool)
      | None \<Rightarrow> (True, pool))"

definition buf_pool_destroy :: "buf_pool \<Rightarrow> nat list \<times> buf_pool" where
  "buf_pool_destroy pool =
     (concat (bp_lists pool),
      \<lparr>bp_sizes = [0, 0, 0, 0], bp_lists = [[], [], [], []], bp_allocs = 0, bp_hits = 0\<rparr>)"

section \<open>Invariant\<close>

text \<open>
  The heap as the pool sees it: \<open>h_size\<close> maps each allocated buffer to its size, \<open>h_lent\<close> is
  the buffers lent out with the size reported for them.
\<close>

record pool_world =
  w_pool :: buf_pool
  h_size :: "nat \<Rightarrow> nat option"
  h_lent :: "(nat \<times> nat) list"

definition pool_inv :: "pool_world \<Rightarrow> bool" where
  "pool_inv w \<longleftrightarrow>
     bp_sizes (w_pool w) = [4096, 16384, 65536, 262144] \<and> length (bp_lists (w_pool w)) = 4 \<and>
     distinct (concat (bp_lists (w_pool w)) @ map fst (h_lent w)) \<and>
     (\<forall>t < 4. \<forall>p \<in> set (bp_lists (w_pool w) ! t). h_size w p = Some (bp_sizes (w_pool w) ! t)) \<and>
     (\<forall>p n. (p, n) \<in> set (h_lent w) \<longrightarrow> h_size w p = Some n)"

text \<open>
  Steps of the pool and its client. A buffer is returned with the size reported when it was
  lent; \<open>malloc\<close> returns an address that is not allocated.
\<close>

inductive pool_step :: "pool_world \<Rightarrow> pool_world \<Rightarrow> bool" where
  get: "\<forall>sz p. malloc sz = Some p \<longrightarrow> h_size w p = None \<Longrightarrow>
    buf_pool_get malloc (w_pool w) n = (Some p, actual, pool') \<Longrightarrow>
    pool_step w \<lparr>w_pool = pool', h_size = (h_size w)(p \<mapsto> actual), h_lent = (p, actual) # h_lent w\<rparr>"
| oom: "buf_pool_get malloc (w_pool w) n = (None, actual, pool') \<Longrightarrow>
    pool_step w (w\<lparr>w_pool := pool'\<rparr>)"
| put: "h_lent w = xs @ (p, actual) # ys \<Longrightarrow> buf_pool_put (w_pool w) p actual = (freed, pool') \<Longrightarrow>
    pool_step w \<lparr>w_pool = pool', h_size = (if freed then (h_size w)(p := None) else h_size w),
      h_lent = xs @ ys\<rparr>"

lemma first_tier_Some:
  "first_tier ss n = Some t \<Longrightarrow> t < length ss \<and> n \<le> ss ! t \<and> (\<forall>u < t. ss ! u < n)"
proof (induction ss arbitrary: t)
  case (Cons s ss)
  then show ?case by (cases t) (auto simp: less_Suc_eq_0_disj split: if_splits)
qed simp

lemma concat_take_drop:
  assumes "t < length xss"
  shows "concat (xss[t := ys]) = concat (take t xss) @ ys @ concat (drop (Suc t) xss)"
    and "concat xss = concat (take t xss) @ xss ! t @ concat (drop (Suc t) xss)"
proof -
  show "concat (xss[t := ys]) = concat (take t xss) @ ys @ concat (drop (Suc t) xss)"
    using assms by (simp add: upd_conv_take_nth_drop)
  have "xss = take t xss @ xss ! t # drop (Suc t) xss"
    using assms by (rule id_take_nth_drop)
  then show "concat xss = concat (take t xss) @ xss ! t @ concat (drop (Suc t) xss)"
    by (metis concat.simps(2) concat_append)
qed

lemma get_inv:
  assumes inv: "pool_inv w" and fresh: "\<forall>sz p. malloc sz = Some p \<longrightarrow> h_size w p = None"
    and get: "buf_pool_get malloc (w_pool w) n = (Some p, actual, pool')"
  shows "pool_inv \<lparr>w_pool = pool', h_size = (h_size w)(p \<mapsto> actual), h_lent = (p, actual) # h_lent w\<rparr>"
    and "n \<le> actual" and "p \<notin> fst ` set (h_lent w)"
proof -
  let ?L = "bp_lists (w_pool w)"
  note iv = inv [unfolded pool_inv_def]
  have known: "q \<in> set (concat ?L) \<or> q \<in> fst ` set (h_lent w) \<Longrightarrow> h_size w q \<noteq> None" for q
    using iv by (auto simp: in_set_conv_nth) (metis option.distinct(1) nth_mem)+
  have "pool_inv \<lparr>w_pool = pool', h_size = (h_size w)(p \<mapsto> actual), h_lent = (p, actual) # h_lent w\<rparr> \<and>
      n \<le> actual \<and> p \<notin> fst ` set (h_lent w)"
  proof (cases "\<exists>tier ns. buf_pool_tier (w_pool w) n = Some tier \<and> ?L ! tier = p # ns \<and>
      actual = bp_sizes (w_pool w) ! tier \<and>
      pool' = (w_pool w)\<lparr>bp_lists := ?L[tier := ns], bp_hits := bp_hits (w_pool w) + 1\<rparr>")
    case True
    then obtain tier ns where t: "buf_pool_tier (w_pool w) n = Some tier" "?L ! tier = p # ns"
      "actual = bp_sizes (w_pool w) ! tier"
      "pool' = (w_pool w)\<lparr>bp_lists := ?L[tier := ns], bp_hits := bp_hits (w_pool w) + 1\<rparr>" by blast
    have lt: "tier < 4" "n \<le> actual"
      using first_tier_Some [OF t(1) [unfolded buf_pool_tier_def]] iv t(3) by auto
    have len: "tier < length ?L" using iv lt by simp
    have p: "h_size w p = Some actual" using iv lt t(2,3) by auto
    then have hs: "(h_size w)(p \<mapsto> actual) = h_size w" by auto
    have dist: "distinct (concat (?L[tier := ns]) @ p # map fst (h_lent w))"
      using iv concat_take_drop(1) [OF len, of ns] concat_take_drop(2) [OF len] t(2) by auto
    moreover have "\<forall>u < 4. \<forall>q \<in> set (?L[tier := ns] ! u). h_size w q = Some (bp_sizes (w_pool w) ! u)"
      using iv t(2) len by (auto simp: nth_list_update)
    ultimately show ?thesis
      using iv t lt hs p by (auto simp: pool_inv_def)
  next
    case False
    then have m: "h_size w p = None" "n \<le> actual" "bp_lists pool' = ?L" "bp_sizes pool' = bp_sizes (w_pool w)"
      using get fresh iv first_tier_Some [of "bp_sizes (w_pool w)" n]
      by (auto simp: buf_pool_get_def buf_pool_tier_def split: option.splits list.splits)
    then have "p \<notin> set (concat ?L)" "p \<notin> fst ` set (h_lent w)" using known [of p] by auto
    moreover have "(\<forall>t < 4. \<forall>q \<in> set (?L ! t). ((h_size w)(p \<mapsto> actual)) q = Some (bp_sizes (w_pool w) ! t))"
      using iv m(1) by auto
    ultimately show ?thesis
      using iv m by (auto simp: pool_inv_def)
  qed
  then show "pool_inv \<lparr>w_pool = pool', h_size = (h_size w)(p \<mapsto> actual), h_lent = (p, actual) # h_lent w\<rparr>"
    "n \<le> actual" "p \<notin> fst ` set (h_lent w)" by blast+
qed

lemma put_inv:
  assumes inv: "pool_inv w" and lent: "h_lent w = xs @ (p, actual) # ys"
    and put: "buf_pool_put (w_pool w) p actual = (freed, pool')"
  shows "pool_inv \<lparr>w_pool = pool', h_size = (if freed then (h_size w)(p := None) else h_size w),
    h_lent = xs @ ys\<rparr>"
proof -
  let ?L = "bp_lists (w_pool w)"
  note iv = inv [unfolded pool_inv_def lent]
  show ?thesis
  proof (cases freed)
    case True
    then have "pool' = w_pool w"
      using put by (auto simp: buf_pool_put_def split: option.splits if_splits)
    moreover have "p \<notin> fst ` set (xs @ ys)" using iv by auto
    then have "(q, m) \<in> set (xs @ ys) \<Longrightarrow> q \<noteq> p" for q m by force
    moreover have "p \<notin> set (?L ! u)" if "u < 4" for u
      using iv that nth_mem [of u ?L] by auto
    ultimately show ?thesis using iv True by (auto simp: pool_inv_def)
  next
    case False
    then obtain tier where t: "buf_pool_tier (w_pool w) actual = Some tier"
      "actual = bp_sizes (w_pool w) ! tier"
      "pool' = (w_pool w)\<lparr>bp_lists := ?L[tier := p # ?L ! tier]\<rparr>"
      using put by (auto simp: buf_pool_put_def split: option.splits if_splits)
    have lt: "tier < 4" using first_tier_Some [OF t(1) [unfolded buf_pool_tier_def]] iv by auto
    have len: "tier < length ?L" using iv lt by simp
    have "distinct (concat (?L[tier := p # ?L ! tier]) @ map fst (xs @ ys))"
      using iv concat_take_drop(1) [OF len, of "p # ?L ! tier"] concat_take_drop(2) [OF len] by auto
    moreover have "\<forall>u < 4. \<forall>q \<in> set (?L[tier := p # ?L ! tier] ! u).
        h_size w q = Some (bp_sizes (w_pool w) ! u)"
      using iv t(2) len by (auto simp: nth_list_update)
    ultimately show ?thesis using iv t(3) False by (auto simp: pool_inv_def)
  qed
qed

lemma oom_pool: "buf_pool_get malloc pool n = (None, actual, pool') \<Longrightarrow> pool' = pool"
  by (auto simp: buf_pool_get_def split: option.splits list.splits)

lemma pool_step_inv: "pool_step w w' \<Longrightarrow> pool_inv w \<Longrightarrow> pool_inv w'"
proof (induction rule: pool_step.induct)
  case (get malloc w p n actual pool')
  then show ?case by (intro get_inv)
next
  case (oom malloc w n actual pool')
  then have "pool' = w_pool w" by (simp add: oom_pool)
  with oom show ?case by simp
next
  case (put w xs p actual ys freed pool')
  then show ?case by (intro put_inv)
qed

definition fresh_world :: pool_world where
  "fresh_world = \<lparr>w_pool = buf_pool_init, h_size = Map.empty, h_lent = []\<rparr>"

lemma fresh_world_inv: "pool_inv fresh_world"
proof -
  have "[[], [], [], []] ! t = ([] :: nat list)" if "t < 4" for t
    using that by (auto simp: less_Suc_eq numeral_eq_Suc)
  then show ?thesis by (simp add: pool_inv_def fresh_world_def buf_pool_init_def)
qed

lemma pool_run_inv: "pool_step\<^sup>*\<^sup>* fresh_world w \<Longrightarrow> pool_inv w"
  by (induction rule: rtranclp_induct) (auto intro: fresh_world_inv pool_step_inv)

section \<open>Properties\<close>



text \<open>
  a buffer of tier size that is returned is the next one handed out for a request of
  that tier, without a call of \<open>malloc\<close>, and the pool is as before up to the hit counter.
\<close>

theorem buf_pool_put_then_get:
  assumes "buf_pool_tier pool actual = Some tier" and "actual = bp_sizes pool ! tier"
    and "buf_pool_tier pool n = Some tier" and "tier < length (bp_lists pool)"
  shows "\<exists>pool'. buf_pool_put pool p actual = (False, pool') \<and>
    buf_pool_get malloc pool' n = (Some p, actual, pool\<lparr>bp_hits := bp_hits pool + 1\<rparr>)"
  using assms by (simp add: buf_pool_put_def buf_pool_get_def buf_pool_tier_def)

end
