(* ===== verification/Crlf.thy ===== *)
theory Crlf
  imports Prelude
begin

text \<open>
  The line-end search of \<open>pal/pal_simd.h\<close> in its three builds: the scalar loop over
  \<open>memchr\<close>, the SSE2 loop over a 16-lane comparison mask, and the NEON loop over two words of
  lane flags. All three return the first carriage return that is followed by a line feed.
\<close>

section \<open>Model\<close>

definition CR :: byte where "CR = 13"
definition LF :: byte where "LF = 10"

fun memchr :: "byte \<Rightarrow> bytes \<Rightarrow> nat option" where
  "memchr c [] = None"
| "memchr c (b # bs) = (if b = c then Some 0 else map_option Suc (memchr c bs))"

function crlf_scalar :: "bytes \<Rightarrow> nat option" where
  "crlf_scalar bs =
     (if bs = [] then None
      else case memchr CR bs of
             None \<Rightarrow> None
           | Some i \<Rightarrow>
               if i + 1 \<ge> length bs then None
               else if bs ! (i + 1) = LF then Some i
               else map_option (\<lambda>j. i + 1 + j) (crlf_scalar (drop (i + 1) bs)))"
  by pat_completeness auto
termination by (relation "measure length") auto

declare crlf_scalar.simps [simp del]

text \<open>\<open>_mm_movemask_epi8 (_mm_cmpeq_epi8 chunk '\r')\<close>: bit \<open>i\<close> says that byte \<open>i\<close> matches.\<close>

fun movemask :: "bytes \<Rightarrow> u32" where
  "movemask [] = 0"
| "movemask (b # bs) = push_bit 1 (movemask bs) OR (if b = CR then 1 else 0)"

primrec ctz_loop :: "nat \<Rightarrow> u32 \<Rightarrow> nat \<Rightarrow> nat" where
  "ctz_loop 0 v n = n"
| "ctz_loop (Suc k) v n = (if v AND 1 = 0 then ctz_loop k (drop_bit 1 v) (n + 1) else n)"

definition ddup_ctz32 :: "u32 \<Rightarrow> nat" where
  "ddup_ctz32 v = ctz_loop 32 v 0"

datatype 'a outcome = Return 'a | Continue

function sse_mask_loop :: "bytes \<Rightarrow> u32 \<Rightarrow> nat option outcome" where
  "sse_mask_loop bs m =
     (if m = 0 then Continue
      else let idx = ddup_ctz32 m
           in if idx + 1 \<ge> length bs then Return None
              else if bs ! (idx + 1) = LF then Return (Some idx)
              else sse_mask_loop bs (m AND (m - 1)))"
  by pat_completeness auto
termination
proof (relation "measure (\<lambda>(bs, m). unat m)", goal_cases)
  case (2 bs m idx)
  have "m AND (m - 1) \<le> m - 1" by (simp add: word_and_le1)
  also have "m - 1 < m" using 2 by (simp add: word_gt_0 measure_unat word_less_nat_alt)
  finally show ?case by (simp add: word_less_nat_alt)
qed simp

declare sse_mask_loop.simps [simp del]

function crlf_sse2 :: "bytes \<Rightarrow> nat option" where
  "crlf_sse2 bs =
     (if 16 \<le> length bs
      then (case sse_mask_loop bs (movemask (take 16 bs)) of
              Return r \<Rightarrow> r
            | Continue \<Rightarrow> map_option (\<lambda>j. 16 + j) (crlf_sse2 (drop 16 bs)))
      else crlf_scalar bs)"
  by pat_completeness auto
termination by (relation "measure length") auto

declare crlf_sse2.simps [simp del]

text \<open>The NEON lanes: eight flag bytes per 64-bit word.\<close>

fun neon_lanes :: "bytes \<Rightarrow> u64" where
  "neon_lanes [] = 0"
| "neon_lanes (b # bs) = push_bit 8 (neon_lanes bs) OR (if b = CR then 1 else 0)"

fun neon_loop :: "bytes \<Rightarrow> u64 \<Rightarrow> nat \<Rightarrow> nat list \<Rightarrow> nat option outcome" where
  "neon_loop bs lanes off [] = Continue"
| "neon_loop bs lanes off (i # is) =
     (if lanes AND push_bit (i * 8) 1 \<noteq> 0
      then if off + i + 1 \<ge> length bs then Return None
           else if bs ! (off + i + 1) = LF then Return (Some (off + i))
           else neon_loop bs lanes off is
      else neon_loop bs lanes off is)"

function crlf_neon :: "bytes \<Rightarrow> nat option" where
  "crlf_neon bs =
     (if 16 \<le> length bs
      then (case neon_loop bs (neon_lanes (take 8 bs)) 0 [0..<8] of
              Return r \<Rightarrow> r
            | Continue \<Rightarrow>
                (case neon_loop bs (neon_lanes (take 8 (drop 8 bs))) 8 [0..<8] of
                   Return r \<Rightarrow> r
                 | Continue \<Rightarrow> map_option (\<lambda>j. 16 + j) (crlf_neon (drop 16 bs))))
      else crlf_scalar bs)"
  by pat_completeness auto
termination by (relation "measure length") auto

declare crlf_neon.simps [simp del]

section \<open>The first line end\<close>

definition crlf_at :: "bytes \<Rightarrow> nat \<Rightarrow> bool" where
  "crlf_at bs i \<longleftrightarrow> i + 1 < length bs \<and> bs ! i = CR \<and> bs ! (i + 1) = LF"

fun find_crlf :: "bytes \<Rightarrow> nat option" where
  "find_crlf [] = None"
| "find_crlf (b # bs) =
     (if b = CR \<and> bs \<noteq> [] \<and> hd bs = LF then Some 0 else map_option Suc (find_crlf bs))"

definition is_first :: "bytes \<Rightarrow> nat option \<Rightarrow> bool" where
  "is_first bs r \<longleftrightarrow>
     (case r of
        None \<Rightarrow> \<forall>j. \<not> crlf_at bs j
      | Some i \<Rightarrow> crlf_at bs i \<and> (\<forall>j < i. \<not> crlf_at bs j))"

lemma crlf_at_0: "crlf_at (b # bs) 0 \<longleftrightarrow> b = CR \<and> bs \<noteq> [] \<and> hd bs = LF"
  by (cases bs) (auto simp: crlf_at_def)

lemma crlf_at_Suc [simp]: "crlf_at (b # bs) (Suc i) \<longleftrightarrow> crlf_at bs i"
  by (auto simp: crlf_at_def)

lemma crlf_at_drop: "n \<le> length bs \<Longrightarrow> crlf_at (drop n bs) i \<longleftrightarrow> crlf_at bs (n + i)"
  by (auto simp: crlf_at_def add.commute)

lemma find_crlf_is_first: "is_first bs (find_crlf bs)"
proof (induction bs)
  case Nil
  then show ?case by (simp add: is_first_def crlf_at_def)
next
  case (Cons b bs)
  show ?case
  proof (cases "crlf_at (b # bs) 0")
    case True
    then show ?thesis by (auto simp: crlf_at_0 is_first_def)
  next
    case False
    have *: "(\<forall>j. \<not> crlf_at (b # bs) j) \<longleftrightarrow> (\<forall>j. \<not> crlf_at bs j)"
      using False by (metis crlf_at_Suc not0_implies_Suc)
    have "(\<forall>j < Suc i. \<not> crlf_at (b # bs) j) \<longleftrightarrow> (\<forall>j < i. \<not> crlf_at bs j)" for i
      using False by (auto simp: less_Suc_eq_0_disj)
    with Cons * False show ?thesis
      by (auto simp: crlf_at_0 is_first_def split: option.splits)
  qed
qed

lemma is_first_unique: "is_first bs r \<Longrightarrow> r = find_crlf bs"
  using find_crlf_is_first [of bs]
  by (auto simp: is_first_def split: option.splits) (metis linorder_neqE_nat)

lemma is_first_shift:
  assumes "is_first (drop n bs) r" and "n \<le> length bs" and "\<And>j. j < n \<Longrightarrow> \<not> crlf_at bs j"
  shows "is_first bs (map_option (\<lambda>j. n + j) r)"
proof (cases r)
  case None
  have "\<not> crlf_at bs j" for j
    using assms None crlf_at_drop [OF assms(2), of "j - n"]
    by (cases "j < n") (auto simp: is_first_def)
  with None show ?thesis by (simp add: is_first_def)
next
  case (Some i)
  have "\<not> crlf_at bs j" if "j < n + i" for j
    using assms Some that crlf_at_drop [OF assms(2), of "j - n"]
    by (cases "j < n") (auto simp: is_first_def)
  with Some assms crlf_at_drop [OF assms(2), of i] show ?thesis by (simp add: is_first_def)
qed

section \<open>The three builds\<close>

lemma memchr_None: "memchr c bs = None \<longleftrightarrow> c \<notin> set bs"
  by (induction bs) auto

lemma memchr_Some:
  "memchr c bs = Some i \<Longrightarrow> i < length bs \<and> bs ! i = c \<and> (\<forall>j < i. bs ! j \<noteq> c)"
proof (induction bs arbitrary: i)
  case (Cons b bs)
  show ?case
  proof (cases "b = c")
    case False
    with Cons.prems obtain k where k: "memchr c bs = Some k" "i = Suc k" by auto
    with Cons.IH [OF k(1)] False show ?thesis by (auto simp: less_Suc_eq_0_disj)
  qed (use Cons.prems in auto)
qed simp

lemma crlf_scalar_first: "is_first bs (crlf_scalar bs)"
proof (induction bs rule: crlf_scalar.induct)
  case (1 bs)
  show ?case
  proof (cases "memchr CR bs")
    case None
    then have "\<not> crlf_at bs j" for j
      by (auto simp: memchr_None crlf_at_def) (metis nth_mem add_lessD1 Suc_lessD)
    with None show ?thesis by (auto simp: crlf_scalar.simps [of bs] is_first_def)
  next
    case (Some i)
    note i = memchr_Some [OF Some]
    then have before: "\<And>j. j < i \<Longrightarrow> \<not> crlf_at bs j" by (auto simp: crlf_at_def)
    consider (stop) "i + 1 \<ge> length bs" | (hit) "i + 1 < length bs" "bs ! (i + 1) = LF"
      | (go) "i + 1 < length bs" "bs ! (i + 1) \<noteq> LF" by linarith
    then show ?thesis
    proof cases
      case stop
      have "\<not> crlf_at bs j" for j
        using before [of j] stop by (cases "j < i") (auto simp: crlf_at_def)
      with Some stop i show ?thesis by (auto simp: crlf_scalar.simps [of bs] is_first_def)
    next
      case hit
      with Some i before show ?thesis
        by (auto simp: crlf_scalar.simps [of bs] is_first_def crlf_at_def)
    next
      case go
      have "is_first (drop (i + 1) bs) (crlf_scalar (drop (i + 1) bs))"
        using 1 [OF _ Some] go i by (cases "bs = []") auto
      moreover have "\<not> crlf_at bs j" if "j < i + 1" for j
        using before [of j] go that by (cases "j = i") (auto simp: crlf_at_def)
      ultimately have "is_first bs (map_option (\<lambda>j. i + 1 + j) (crlf_scalar (drop (i + 1) bs)))"
        using go by (intro is_first_shift) auto
      moreover have "crlf_scalar bs = map_option (\<lambda>j. i + 1 + j) (crlf_scalar (drop (i + 1) bs))"
        using Some go by (subst crlf_scalar.simps) auto
      ultimately show ?thesis by (simp only:)
    qed
  qed
qed

lemma bit_movemask:
  "length bs \<le> 32 \<Longrightarrow> bit (movemask bs) i \<longleftrightarrow> i < length bs \<and> bs ! i = CR"
proof (induction bs arbitrary: i)
  case (Cons b bs)
  have IH: "bit (movemask bs) j \<longleftrightarrow> j < length bs \<and> bs ! j = CR" for j
    using Cons by simp
  have "bit (movemask (b # bs)) i \<longleftrightarrow>
      1 \<le> i \<and> i < 32 \<and> bit (movemask bs) (i - 1) \<or> b = CR \<and> i = 0"
    unfolding movemask.simps bit_or_iff bit_push_bit_iff by (auto simp: possible_bit_word bit_1_iff)
  then show ?case using IH [of "i - 1"] Cons.prems by (cases i) auto
qed simp

lemma ctz_loop_low:
  assumes "bit v k" and "\<forall>j < k. \<not> bit v j" and "k < f"
  shows "ctz_loop f v n = n + k"
  using assms
proof (induction f arbitrary: v k n)
  case (Suc f)
  show ?case
  proof (cases k)
    case 0
    with Suc.prems(1) have "odd v" by (simp add: bit_0)
    then have "v AND 1 \<noteq> 0" by (simp add: and_one_eq odd_iff_mod_2_eq_one)
    with 0 show ?thesis by simp
  next
    case (Suc k')
    with Suc.prems(2) have "even v" by (metis bit_0 zero_less_Suc)
    then have "v AND 1 = 0" by (simp add: and_one_eq even_iff_mod_2_eq_zero)
    moreover have "ctz_loop f (drop_bit 1 v) (n + 1) = n + 1 + k'"
      using Suc.prems Suc by (intro Suc.IH) (auto simp: bit_simps)
    ultimately show ?thesis using Suc by simp
  qed
qed simp

lemma ctz32_low:
  assumes "v \<noteq> 0"
  shows "bit v (ddup_ctz32 v) \<and> (\<forall>j < ddup_ctz32 v. \<not> bit v j)"
proof -
  obtain k0 where "bit v k0" using assms by (metis bit_eq_iff bit_0_eq bot_apply bot_bool_def)
  define k where "k = (LEAST k. bit v k)"
  have k: "bit v k" "\<forall>j < k. \<not> bit v j"
    using \<open>bit v k0\<close> unfolding k_def by (auto intro: LeastI dest: not_less_Least)
  have "k < 32" using bit_imp_le_length [OF k(1)] by simp
  with k have "ddup_ctz32 v = k" by (simp add: ddup_ctz32_def ctz_loop_low)
  with k show ?thesis by simp
qed

lemma clear_lowest:
  fixes v :: u32
  assumes "bit v k" and "\<forall>j < k. \<not> bit v j"
  shows "bit (v AND (v - 1)) j \<longleftrightarrow> bit v j \<and> j \<noteq> k"
proof -
  let ?w = "unset_bit k v"
  have "?w AND 2 ^ k = 0" by (rule bit_eqI) (auto simp: bit_simps)
  then have "?w + 2 ^ k = ?w OR 2 ^ k" by (rule disjunctive_add_eq_or)
  also have "\<dots> = v" by (rule bit_eqI) (use assms(1) in \<open>auto simp: bit_simps\<close>)
  finally have w: "v = ?w + 2 ^ k" ..
  have z: "?w AND mask k = 0" by (rule bit_eqI) (use assms(2) in \<open>auto simp: bit_simps\<close>)
  have "v - 1 = ?w + mask k"
    using w by (metis add_diff_eq mask_eq_exp_minus_1)
  also have "\<dots> = ?w OR mask k" using z by (rule disjunctive_add_eq_or)
  finally show ?thesis using assms by (auto simp: bit_simps)
qed

lemma sse_mask_loop_first:
  assumes "\<And>j. bit m j \<Longrightarrow> j < 16 \<and> bs ! j = CR" and "\<And>j. j < 16 \<Longrightarrow> crlf_at bs j \<Longrightarrow> bit m j"
    and "16 \<le> length bs"
  shows "case sse_mask_loop bs m of
     Return r \<Rightarrow> is_first bs r | Continue \<Rightarrow> \<forall>j < 16. \<not> crlf_at bs j"
  using assms
proof (induction bs m rule: sse_mask_loop.induct)
  case (1 bs m)
  show ?case
  proof (cases "m = 0")
    case True
    then have "sse_mask_loop bs m = Continue" by (simp add: sse_mask_loop.simps [of bs])
    with True 1(3) show ?thesis by auto
  next
    case False
    let ?k = "ddup_ctz32 m"
    have k: "bit m ?k" "\<And>j. j < ?k \<Longrightarrow> \<not> bit m j" using ctz32_low [OF False] by auto
    have k16: "?k < 16" "bs ! ?k = CR" using 1(2) [OF k(1)] by auto
    have before: "\<not> crlf_at bs j" if "j < ?k" for j using 1(3) [of j] k(2) [OF that] that k16(1) by auto
    consider (stop) "?k + 1 \<ge> length bs" | (hit) "?k + 1 < length bs" "bs ! (?k + 1) = LF"
      | (go) "?k + 1 < length bs" "bs ! (?k + 1) \<noteq> LF" by linarith
    then show ?thesis
    proof cases
      case stop
      have "\<not> crlf_at bs j" for j
        using before [of j] stop by (cases "j < ?k") (auto simp: crlf_at_def)
      with stop False show ?thesis by (simp add: sse_mask_loop.simps [of bs m] is_first_def Let_def)
    next
      case hit
      with k16 before False show ?thesis
        by (simp add: sse_mask_loop.simps [of bs m] is_first_def crlf_at_def Let_def)
    next
      case go
      have clear: "bit (m AND (m - 1)) j \<longleftrightarrow> bit m j \<and> j \<noteq> ?k" for j
        using k by (intro clear_lowest) auto
      have "case sse_mask_loop bs (m AND (m - 1)) of
          Return r \<Rightarrow> is_first bs r | Continue \<Rightarrow> \<forall>j < 16. \<not> crlf_at bs j"
      proof (rule 1(1) [OF False refl])
        show "bit (m AND (m - 1)) j" if "j < 16" "crlf_at bs j" for j
          using 1(3) [OF that] that go clear [of j] by (auto simp: crlf_at_def)
      qed (use 1(2,4) go clear in auto)
      moreover have "sse_mask_loop bs m = sse_mask_loop bs (m AND (m - 1))"
        using go False by (subst sse_mask_loop.simps) (simp add: Let_def)
      ultimately show ?thesis by (simp only:)
    qed
  qed
qed

lemma crlf_sse2_first: "is_first bs (crlf_sse2 bs)"
proof (induction bs rule: crlf_sse2.induct)
  case (1 bs)
  show ?case
  proof (cases "16 \<le> length bs")
    case False
    then show ?thesis by (simp add: crlf_sse2.simps [of bs] crlf_scalar_first)
  next
    case True
    let ?m = "movemask (take 16 bs)"
    have bits: "bit ?m j \<longleftrightarrow> j < 16 \<and> bs ! j = CR" for j
      using True bit_movemask [of "take 16 bs" j] by auto
    have loop: "case sse_mask_loop bs ?m of
        Return r \<Rightarrow> is_first bs r | Continue \<Rightarrow> \<forall>j < 16. \<not> crlf_at bs j"
      by (rule sse_mask_loop_first) (use bits True in \<open>auto simp: crlf_at_def\<close>)
    show ?thesis
    proof (cases "sse_mask_loop bs ?m")
      case (Return r)
      with loop True show ?thesis by (simp add: crlf_sse2.simps [of bs])
    next
      case Continue
      with loop 1 [OF True] have "is_first bs (map_option (\<lambda>j. 16 + j) (crlf_sse2 (drop 16 bs)))"
        using True by (intro is_first_shift) auto
      moreover have "crlf_sse2 bs = map_option (\<lambda>j. 16 + j) (crlf_sse2 (drop 16 bs))"
        using Continue True by (subst crlf_sse2.simps) simp
      ultimately show ?thesis by (simp only:)
    qed
  qed
qed

lemma bit_neon_lanes:
  "length bs \<le> 8 \<Longrightarrow> bit (neon_lanes bs) (8 * i) \<longleftrightarrow> i < length bs \<and> bs ! i = CR"
proof (induction bs arbitrary: i)
  case (Cons b bs)
  have IH: "bit (neon_lanes bs) (8 * j) \<longleftrightarrow> j < length bs \<and> bs ! j = CR" for j
    using Cons by simp
  have "bit (neon_lanes (b # bs)) (8 * i) \<longleftrightarrow>
      8 \<le> 8 * i \<and> 8 * i < 64 \<and> bit (neon_lanes bs) (8 * i - 8) \<or> b = CR \<and> i = 0"
    unfolding neon_lanes.simps bit_or_iff bit_push_bit_iff by (auto simp: possible_bit_word bit_1_iff)
  moreover have "8 * i - 8 = 8 * (i - 1)" by simp
  ultimately show ?case using IH [of "i - 1"] Cons.prems by (cases i) auto
qed simp

lemma neon_loop_first:
  assumes flag: "\<And>i. i < 8 \<Longrightarrow> lanes AND push_bit (i * 8) 1 \<noteq> 0 \<longleftrightarrow> bs ! (off + i) = CR"
    and "\<And>j. j < off + k \<Longrightarrow> \<not> crlf_at bs j" and "k \<le> 8"
  shows "case neon_loop bs lanes off [k..<8] of
     Return r \<Rightarrow> is_first bs r | Continue \<Rightarrow> \<forall>j < off + 8. \<not> crlf_at bs j"
  using assms(2,3)
proof (induction "8 - k" arbitrary: k)
  case 0
  then have "k = 8" by simp
  with 0 show ?case by simp
next
  case (Suc n)
  then have k: "k < 8" "[k..<8] = k # [Suc k..<8]" by (auto simp: upt_conv_Cons)
  show ?case
  proof (cases "crlf_at bs (off + k)")
    case True
    with flag [of k] k Suc.prems(1) show ?thesis by (auto simp: crlf_at_def is_first_def)
  next
    case False
    have before: "\<not> crlf_at bs j" if "j < off + Suc k" for j
      using that Suc.prems(1) [of j] False by (cases "j = off + k") auto
    have rest: "case neon_loop bs lanes off [Suc k..<8] of
        Return r \<Rightarrow> is_first bs r | Continue \<Rightarrow> \<forall>j < off + 8. \<not> crlf_at bs j"
      by (rule Suc.hyps(1)) (use Suc.hyps(2) k before in auto)
    show ?thesis
    proof (cases "bs ! (off + k) = CR \<and> off + k + 1 \<ge> length bs")
      case True
      then have "\<not> crlf_at bs j" for j
        using before [of j] by (cases "j < off + Suc k") (auto simp: crlf_at_def)
      with True flag [of k] k show ?thesis by (simp add: is_first_def)
    next
      case nolimit: False
      have "neon_loop bs lanes off (k # [Suc k..<8]) = neon_loop bs lanes off [Suc k..<8]"
        using flag [of k] k False nolimit by (auto simp: crlf_at_def)
      with rest show ?thesis unfolding k(2) by (simp only:)
    qed
  qed
qed

lemma neon_flag:
  assumes "off + 8 \<le> length bs" and "i < 8"
  shows "neon_lanes (take 8 (drop off bs)) AND push_bit (i * 8) 1 \<noteq> 0 \<longleftrightarrow> bs ! (off + i) = CR"
proof -
  have "neon_lanes (take 8 (drop off bs)) AND push_bit (i * 8) 1 \<noteq> 0 \<longleftrightarrow>
      bit (neon_lanes (take 8 (drop off bs))) (8 * i)"
    by (simp add: and_exp_eq_0_iff_not_bit push_bit_of_1 mult.commute)
  also have "\<dots> \<longleftrightarrow> bs ! (off + i) = CR"
    using bit_neon_lanes [of "take 8 (drop off bs)" i] assms by (simp add: nth_drop)
  finally show ?thesis .
qed

lemma crlf_neon_first: "is_first bs (crlf_neon bs)"
proof (induction bs rule: crlf_neon.induct)
  case (1 bs)
  show ?case
  proof (cases "16 \<le> length bs")
    case False
    then show ?thesis by (simp add: crlf_neon.simps [of bs] crlf_scalar_first)
  next
    case True
    have lo: "case neon_loop bs (neon_lanes (take 8 bs)) 0 [0..<8] of
        Return r \<Rightarrow> is_first bs r | Continue \<Rightarrow> \<forall>j < 0 + 8. \<not> crlf_at bs j"
      by (rule neon_loop_first) (use neon_flag [of 0 bs] True in auto)
    have hi: "case neon_loop bs (neon_lanes (take 8 (drop 8 bs))) 8 [0..<8] of
        Return r \<Rightarrow> is_first bs r | Continue \<Rightarrow> \<forall>j < 8 + 8. \<not> crlf_at bs j"
      if "\<forall>j < 8. \<not> crlf_at bs j"
      by (rule neon_loop_first) (use neon_flag [of 8 bs] True that in auto)
    show ?thesis
    proof (cases "neon_loop bs (neon_lanes (take 8 bs)) 0 [0..<8]")
      case (Return r)
      with lo True show ?thesis by (subst crlf_neon.simps) simp
    next
      case lo_go: Continue
      with lo have b8: "\<forall>j < 8. \<not> crlf_at bs j" by simp
      show ?thesis
      proof (cases "neon_loop bs (neon_lanes (take 8 (drop 8 bs))) 8 [0..<8]")
        case (Return r)
        with hi [OF b8] lo_go True show ?thesis by (subst crlf_neon.simps) simp
      next
        case hi_go: Continue
        with hi [OF b8] have "\<forall>j < 16. \<not> crlf_at bs j" by simp
        then have "is_first bs (map_option (\<lambda>j. 16 + j) (crlf_neon (drop 16 bs)))"
          using True 1 [OF True lo_go hi_go] by (intro is_first_shift) auto
        moreover have "crlf_neon bs = map_option (\<lambda>j. 16 + j) (crlf_neon (drop 16 bs))"
          using lo_go hi_go True by (subst crlf_neon.simps) simp
        ultimately show ?thesis by (simp only:)
      qed
    qed
  qed
qed

lemma crlf_scalar_eq: "crlf_scalar bs = find_crlf bs"
  by (rule is_first_unique [OF crlf_scalar_first])

section \<open>Property\<close>

text \<open>
  C25: the SSE2 and NEON builds of \<open>ddup_find_crlf\<close> return, on every buffer, what the scalar
  build returns: the first position of a carriage return followed by a line feed, or
  nothing when the buffer has none.
\<close>

theorem find_crlf_builds_agree:
  "crlf_sse2 bs = crlf_scalar bs \<and> crlf_neon bs = crlf_scalar bs \<and> is_first bs (crlf_scalar bs)"
  using is_first_unique [OF crlf_sse2_first] is_first_unique [OF crlf_neon_first]
    is_first_unique [OF crlf_scalar_first] crlf_scalar_first by auto

end
