(* ===== verification/Resp_Parser.thy ===== *)
theory Resp_Parser
  imports Crlf
begin

text \<open>
  The RESP value model (\<open>resp/resp.h\<close>) and the recursive-descent parser
  (\<open>resp/resp_parser.c\<close>).

  A position in the receive buffer is the list of bytes from it to the end of the buffer; a
  parse result is the value with the bytes after it, \<open>More\<close> for the return value 0 and \<open>Bad\<close>
  for -1. Doubles are an abstract type with the operations of the C library the parser uses;
  \<open>mem n\<close> says whether the arena grants a request of \<open>n\<close> bytes.
\<close>

section \<open>Values\<close>

datatype 'd resp_value =
    SimpleString bytes
  | RespError bytes
  | Integer int
  | BulkString "bytes option"
  | Array "'d resp_value list option"
  | Null
  | Boolean bool
  | Double 'd
  | BigNumber bytes
  | BlobError bytes
  | VerbatimString bytes
  | RespMap "'d resp_value list"
  | RespSet "'d resp_value list"
  | RespPush "'d resp_value list"

text \<open>
  The floating point operations: the special values, \<open>strtod\<close> (the value and the number of
  bytes it accepts), and the tests and formatting the writer uses.
\<close>

record 'd double_ops =
  d_inf :: 'd
  d_ninf :: 'd
  d_nan :: 'd
  d_strtod :: "bytes \<Rightarrow> 'd \<times> nat"
  d_isinf :: "'d \<Rightarrow> bool"
  d_positive :: "'d \<Rightarrow> bool"
  d_isnan :: "'d \<Rightarrow> bool"
  d_fmt17g :: "'d \<Rightarrow> bytes"

section \<open>Integers\<close>

definition RESP_MAX_DEPTH :: nat where "RESP_MAX_DEPTH = 512"
definition RESP_MAX_ARRAY_LEN :: nat where "RESP_MAX_ARRAY_LEN = 1024 * 1024 * 1024"
definition RESP_VALUE_SIZE :: nat where "RESP_VALUE_SIZE = 64"

text \<open>The array of an aggregate, in bytes; the size of a \<open>resp_value\<close> is 64 on 64-bit targets.\<close>

definition resp_aggregate_bytes :: "nat \<Rightarrow> nat option" where
  "resp_aggregate_bytes slots =
     (if slots > SIZE_MAX div RESP_VALUE_SIZE then None else Some (slots * RESP_VALUE_SIZE))"

definition is_digit :: "byte \<Rightarrow> bool" where
  "is_digit b \<longleftrightarrow> 48 \<le> b \<and> b \<le> 57"

definition digit_val :: "byte \<Rightarrow> nat" where
  "digit_val b = unat b - 48"

fun short_digits :: "nat \<Rightarrow> bytes \<Rightarrow> nat option" where
  "short_digits v [] = Some v"
| "short_digits v (b # bs) =
     (if \<not> is_digit b then None else short_digits (v * 10 + digit_val b) bs)"

fun long_digits :: "nat \<Rightarrow> nat \<Rightarrow> bytes \<Rightarrow> nat option" where
  "long_digits limit v [] = Some v"
| "long_digits limit v (b # bs) =
     (if \<not> is_digit b then None
      else if v > limit div 10 \<or> (v = limit div 10 \<and> digit_val b > limit mod 10) then None
      else long_digits limit (v * 10 + digit_val b) bs)"

definition parse_ll :: "bytes \<Rightarrow> int option" where
  "parse_ll bs =
     (if bs = [] then None
      else let neg = (hd bs = 45);
               p = (if neg then tl bs else bs)
           in if p = [] then None
              else let p = dropWhile (\<lambda>b. b = 48) p
                   in if p = [] then Some 0
                      else if length p > 19 then None
                      else case (if length p < 19 then short_digits 0 p
                                 else long_digits (nat LLONG_MAX + (if neg then 1 else 0)) 0 p) of
                             None \<Rightarrow> None
                           | Some v \<Rightarrow>
                               Some (if neg
                                     then if v = nat LLONG_MAX + 1 then LLONG_MIN else - int v
                                     else int v))"

definition parse_bulk_len :: "bytes \<Rightarrow> int option" where
  "parse_bulk_len p =
     (if p = [] then None
      else if hd p = 45
      then (if length p = 2 \<and> p ! 1 = 49 then Some (-1) else None)
      else let first = dropWhile (\<lambda>b. b = 48) p
           in if length first > 10 then None
              else case short_digits 0 first of
                     None \<Rightarrow> None
                   | Some v \<Rightarrow> if v > RESP_MAX_ARRAY_LEN then None else Some (int v))"

section \<open>The parser\<close>

datatype 'a pres = Ok 'a bytes | More | Bad

text \<open>Line types: the value of a payload, \<open>None\<close> for a protocol error.\<close>

definition parse_double :: "'d double_ops \<Rightarrow> (nat \<Rightarrow> bool) \<Rightarrow> bytes \<Rightarrow> 'd option" where
  "parse_double D mem s =
     (if s = ascii ''inf'' then Some (d_inf D)
      else if s = ascii ''-inf'' then Some (d_ninf D)
      else if s = ascii ''nan'' then Some (d_nan D)
      else if s = [] then None
      else if \<not> mem (length s + 1) then None
      else case d_strtod D s of (v, k) \<Rightarrow> if k \<noteq> length s then None else Some v)"

definition parse_line ::
  "'d double_ops \<Rightarrow> (nat \<Rightarrow> bool) \<Rightarrow> byte \<Rightarrow> bytes \<Rightarrow> 'd resp_value option" where
  "parse_line D mem ty s =
     (if ty = 43 then Some (SimpleString s)
      else if ty = 45 then Some (RespError s)
      else if ty = 58 then map_option Integer (parse_ll s)
      else if ty = 95 then (if s \<noteq> [] then None else Some Null)
      else if ty = 35
      then (if length s \<noteq> 1 \<or> (hd s \<noteq> 116 \<and> hd s \<noteq> 102) then None
            else Some (Boolean (hd s = 116)))
      else if ty = 44 then map_option Double (parse_double D mem s)
      else Some (BigNumber s))"

definition line_types :: "byte list" where "line_types = [43, 45, 58, 95, 35, 44, 40]"
definition blob_types :: "byte list" where "blob_types = [36, 33, 61]"
definition aggregate_types :: "byte list" where "aggregate_types = [42, 37, 126, 62]"

text \<open>Blob types; \<open>p\<close> is the input after the type byte.\<close>

definition parse_blob :: "byte \<Rightarrow> bytes \<Rightarrow> 'd resp_value pres" where
  "parse_blob ty p =
     (case crlf_scalar p of
        None \<Rightarrow> More
      | Some i \<Rightarrow>
          (case parse_bulk_len (take i p) of
             None \<Rightarrow> Bad
           | Some blen \<Rightarrow>
               let payload = drop (i + 2) p
               in if ty = 36 \<and> blen = -1 then Ok (BulkString None) payload
                  else if blen < 0 \<or> blen > int RESP_MAX_ARRAY_LEN then Bad
                  else let n = nat blen
                       in if length payload < n + 2 then More
                          else if payload ! n \<noteq> CR \<or> payload ! (n + 1) \<noteq> LF then Bad
                          else Ok (if ty = 36 then BulkString (Some (take n payload))
                                   else if ty = 33 then BlobError (take n payload)
                                   else VerbatimString (take n payload))
                                  (drop (n + 2) payload)))"

text \<open>
  The fast path of arrays: bulk children parsed in place, up to the first child of another
  type. The result is the children read and the input after them.
\<close>

fun bulk_run :: "nat \<Rightarrow> bytes \<Rightarrow> 'd resp_value list pres" where
  "bulk_run 0 cur = Ok [] cur"
| "bulk_run (Suc k) cur =
     (if cur = [] \<or> hd cur \<noteq> 36 then Ok [] cur
      else case crlf_scalar (tl cur) of
             None \<Rightarrow> More
           | Some i \<Rightarrow>
               (case parse_bulk_len (take i (tl cur)) of
                  None \<Rightarrow> Bad
                | Some blen \<Rightarrow>
                    let payload = drop (i + 2) (tl cur);
                        more = (\<lambda>v cur. case bulk_run k cur of
                                  Ok vs rest \<Rightarrow> Ok (v # vs) rest | More \<Rightarrow> More | Bad \<Rightarrow> Bad)
                    in if blen = -1 then more (BulkString None) payload
                       else if blen < 0 \<or> blen > int RESP_MAX_ARRAY_LEN then Bad
                       else let n = nat blen
                            in if length payload < n + 2 then More
                               else if payload ! n \<noteq> CR \<or> payload ! (n + 1) \<noteq> LF then Bad
                               else more (BulkString (Some (take n payload)))
                                      (drop (n + 2) payload)))"

primrec parse_items :: "(bytes \<Rightarrow> 'a pres) \<Rightarrow> nat \<Rightarrow> bytes \<Rightarrow> 'a list pres" where
  "parse_items item 0 cur = Ok [] cur"
| "parse_items item (Suc k) cur =
     (case item cur of
        More \<Rightarrow> More
      | Bad \<Rightarrow> Bad
      | Ok v cur' \<Rightarrow>
          (case parse_items item k cur' of
             Ok vs rest \<Rightarrow> Ok (v # vs) rest | More \<Rightarrow> More | Bad \<Rightarrow> Bad))"

definition aggregate :: "byte \<Rightarrow> 'd resp_value list \<Rightarrow> 'd resp_value" where
  "aggregate ty vs =
     (if ty = 42 then Array (Some vs) else if ty = 37 then RespMap vs
      else if ty = 126 then RespSet vs else RespPush vs)"

text \<open>
  Aggregate types, with the parser of the children that are not read by the fast path as an
  argument.
\<close>

definition parse_aggregate ::
  "(nat \<Rightarrow> bool) \<Rightarrow> (bytes \<Rightarrow> 'd resp_value pres) \<Rightarrow> byte \<Rightarrow> bytes \<Rightarrow> 'd resp_value pres" where
  "parse_aggregate mem item ty p =
     (case crlf_scalar p of
        None \<Rightarrow> More
      | Some i \<Rightarrow>
          (case parse_bulk_len (take i p) of
             None \<Rightarrow> Bad
           | Some cnt \<Rightarrow>
               let cur = drop (i + 2) p
               in if ty = 42 \<and> cnt = -1 then Ok (Array None) cur
                  else if cnt < 0 \<or> cnt > int RESP_MAX_ARRAY_LEN then Bad
                  else let n = nat cnt;
                           slots = (if ty = 37 then n * 2 else n)
                       in if ty = 37 \<and> n > RESP_MAX_ARRAY_LEN div 2 then Bad
                          else if slots > length cur div 3 then More
                          else if slots = 0 then Ok (aggregate ty []) cur
                          else case resp_aggregate_bytes slots of
                                 None \<Rightarrow> Bad
                               | Some sz \<Rightarrow>
                                   if \<not> mem sz then Bad
                                   else (case (if ty = 42 then bulk_run slots cur else Ok [] cur) of
                                           More \<Rightarrow> More
                                         | Bad \<Rightarrow> Bad
                                         | Ok vs cur' \<Rightarrow>
                                             (case parse_items item (slots - length vs) cur' of
                                                More \<Rightarrow> More
                                              | Bad \<Rightarrow> Bad
                                              | Ok vs' rest \<Rightarrow>
                                                  Ok (aggregate ty (vs @ vs')) rest))))"

function parse_at :: "'d double_ops \<Rightarrow> (nat \<Rightarrow> bool) \<Rightarrow> nat \<Rightarrow> bytes \<Rightarrow> 'd resp_value pres" where
  "parse_at D mem depth bs =
     (if depth > RESP_MAX_DEPTH then Bad
      else case bs of
             [] \<Rightarrow> More
           | ty # p \<Rightarrow>
               if ty \<in> set line_types
               then (case crlf_scalar p of
                       None \<Rightarrow> More
                     | Some i \<Rightarrow>
                         (case parse_line D mem ty (take i p) of
                            None \<Rightarrow> Bad
                          | Some v \<Rightarrow> Ok v (drop (i + 2) p)))
               else if ty \<in> set blob_types then parse_blob ty p
               else if ty \<in> set aggregate_types
               then parse_aggregate mem (\<lambda>cur. parse_at D mem (depth + 1) cur) ty p
               else Bad)"
  by pat_completeness auto
termination
  by (relation "measure (\<lambda>(D, mem, depth, bs). RESP_MAX_DEPTH + 1 - depth)") auto

declare parse_at.simps [simp del]

text \<open>\<open>resp_parse\<close>: bytes consumed and the value; 0 for incomplete input, -1 for an error.\<close>

definition resp_parse ::
  "'d double_ops \<Rightarrow> (nat \<Rightarrow> bool) \<Rightarrow> bytes \<Rightarrow> int \<times> 'd resp_value option" where
  "resp_parse D mem buf =
     (case parse_at D mem 0 buf of
        Bad \<Rightarrow> (-1, None)
      | More \<Rightarrow> (0, None)
      | Ok v rest \<Rightarrow> (int (length buf) - int (length rest), Some v))"

end
