(* ===== verification/Resp_Writer.thy ===== *)
theory Resp_Writer
  imports Resp_Parser Buf_Pool
begin

text \<open>
  The output buffer and the RESP writer (\<open>resp/resp_writer.c\<close>).

  The data of a buffer are its first \<open>len\<close> bytes; the capacity, the memory and the pool it
  may come from are kept beside them. Writing returns \<open>None\<close> where the program exits for
  lack of memory; a write whose size does not fit a \<open>size_t\<close> leaves the buffer unchanged.
\<close>

section \<open>Output buffer\<close>

record resp_buf =
  rb_data :: bytes
  rb_cap :: nat
  rb_ptr :: "nat option"
  rb_pool :: "buf_pool option"
  rb_pool_size :: nat

definition resp_buf_init :: resp_buf where
  "resp_buf_init =
     \<lparr>rb_data = [], rb_cap = 0, rb_ptr = None, rb_pool = None, rb_pool_size = 0\<rparr>"

text \<open>The memory is given back to the pool or released.\<close>

definition resp_buf_free :: "resp_buf \<Rightarrow> (bool \<times> buf_pool) option \<times> resp_buf" where
  "resp_buf_free b =
     ((case rb_pool b of
         Some pool \<Rightarrow> map_option (\<lambda>p. buf_pool_put pool p (rb_pool_size b)) (rb_ptr b)
       | None \<Rightarrow> None),
      resp_buf_init)"

function grow_cap :: "nat \<Rightarrow> nat \<Rightarrow> nat" where
  "grow_cap needed cap =
     (if cap < needed \<and> 0 < cap
      then if cap > SIZE_MAX div 2 then needed else grow_cap needed (cap * 2)
      else cap)"
  by pat_completeness auto
termination by (relation "measure (\<lambda>(needed, cap). needed - cap)") auto

declare grow_cap.simps [simp del]

definition resp_buf_reserve ::
  "(nat \<Rightarrow> nat option) \<Rightarrow> resp_buf \<Rightarrow> nat \<Rightarrow> (bool \<times> resp_buf) option" where
  "resp_buf_reserve malloc b n =
     (if n > SIZE_MAX - length (rb_data b) then Some (False, b)
      else let needed = length (rb_data b) + n
           in if needed \<le> rb_cap b then Some (True, b)
              else let cap = grow_cap needed (if rb_cap b \<noteq> 0 then rb_cap b else 256)
                   in case rb_pool b of
                        Some pool \<Rightarrow>
                          (case buf_pool_get malloc pool cap of
                             (None, actual, pool') \<Rightarrow> None
                           | (Some p, actual, pool') \<Rightarrow>
                               let pool'' = (case rb_ptr b of
                                      None \<Rightarrow> pool'
                                    | Some old \<Rightarrow> snd (buf_pool_put pool' old (rb_pool_size b)))
                               in Some (True, b\<lparr>rb_ptr := Some p, rb_cap := actual,
                                    rb_pool := Some pool'', rb_pool_size := actual\<rparr>))
                      | None \<Rightarrow>
                          (case malloc cap of
                             None \<Rightarrow> None
                           | Some p \<Rightarrow> Some (True, b\<lparr>rb_ptr := Some p, rb_cap := cap\<rparr>)))"

definition buf_append :: "(nat \<Rightarrow> nat option) \<Rightarrow> resp_buf \<Rightarrow> bytes \<Rightarrow> resp_buf option" where
  "buf_append malloc b s =
     (case resp_buf_reserve malloc b (length s) of
        None \<Rightarrow> None
      | Some (False, b') \<Rightarrow> Some b'
      | Some (True, b') \<Rightarrow> Some (b'\<lparr>rb_data := rb_data b' @ s\<rparr>))"

section \<open>Numbers\<close>

text \<open>\<open>digits100\<close> holds the two digits of each number below 100.\<close>

definition digits100 :: bytes where
  "digits100 = ascii (
     ''00010203040506070809'' @ ''10111213141516171819'' @ ''20212223242526272829'' @
     ''30313233343536373839'' @ ''40414243444546474849'' @ ''50515253545556575859'' @
     ''60616263646566676869'' @ ''70717273747576777879'' @ ''80818283848586878889'' @
     ''90919293949596979899'')"

text \<open>The digits are collected from the right and copied out in reverse.\<close>

function u64_digits :: "nat \<Rightarrow> bytes \<Rightarrow> bytes" where
  "u64_digits v tmp =
     (if v \<ge> 100
      then u64_digits (v div 100)
             (tmp @ [digits100 ! (v mod 100 * 2 + 1), digits100 ! (v mod 100 * 2)])
      else if v < 10 then tmp @ [48 + of_nat v]
      else tmp @ [digits100 ! (v * 2 + 1), digits100 ! (v * 2)])"
  by pat_completeness auto
termination by (relation "measure (\<lambda>(v, tmp). v)") auto

declare u64_digits.simps [simp del]

definition u64_to_str :: "nat \<Rightarrow> bytes" where
  "u64_to_str v = rev (u64_digits v [])"

text \<open>The magnitude of a negative number is taken modulo \<open>2^64\<close>, which covers \<open>LLONG_MIN\<close>.\<close>

definition ll_to_str :: "int \<Rightarrow> bytes" where
  "ll_to_str v =
     (if v < 0 then 45 # u64_to_str (unat (0 - (of_int v :: u64)))
      else u64_to_str (unat (of_int v :: u64)))"

section \<open>Writers\<close>

definition write_typed_line ::
  "(nat \<Rightarrow> nat option) \<Rightarrow> resp_buf \<Rightarrow> byte \<Rightarrow> bytes \<Rightarrow> resp_buf option" where
  "write_typed_line malloc b ty s =
     (if length s > SIZE_MAX - 3 then Some b else buf_append malloc b (ty # s @ [CR, LF]))"

definition write_header :: "(nat \<Rightarrow> nat option) \<Rightarrow> resp_buf \<Rightarrow> byte \<Rightarrow> nat \<Rightarrow> resp_buf option" where
  "write_header malloc b ty n = buf_append malloc b (ty # u64_to_str n @ [CR, LF])"

definition resp_write_simple_string where
  "resp_write_simple_string malloc b s = write_typed_line malloc b 43 s"

definition resp_write_error where
  "resp_write_error malloc b s = write_typed_line malloc b 45 s"

definition resp_write_integer where
  "resp_write_integer malloc b v = write_typed_line malloc b 58 (ll_to_str v)"

definition resp_write_bulk ::
  "(nat \<Rightarrow> nat option) \<Rightarrow> resp_buf \<Rightarrow> bytes option \<Rightarrow> resp_buf option" where
  "resp_write_bulk malloc b s =
     (case s of
        None \<Rightarrow> buf_append malloc b (ascii ''$-1'' @ [CR, LF])
      | Some s \<Rightarrow>
          let num = u64_to_str (length s);
              overhead = 1 + length num + 2 + 2
          in if length s > SIZE_MAX - overhead then Some b
             else buf_append malloc b (36 # num @ [CR, LF] @ s @ [CR, LF]))"

definition resp_write_array_header where
  "resp_write_array_header malloc b n = write_header malloc b 42 n"

definition resp_write_null where
  "resp_write_null malloc b = buf_append malloc b [95, CR, LF]"

definition resp_write_boolean where
  "resp_write_boolean malloc b v = buf_append malloc b [35, (if v then 116 else 102), CR, LF]"

definition resp_write_double ::
  "'d double_ops \<Rightarrow> (nat \<Rightarrow> nat option) \<Rightarrow> resp_buf \<Rightarrow> 'd \<Rightarrow> resp_buf option" where
  "resp_write_double D malloc b v =
     (if d_isinf D v
      then buf_append malloc b (if d_positive D v then ascii '',inf'' @ [CR, LF]
                                else ascii '',-inf'' @ [CR, LF])
      else if d_isnan D v then buf_append malloc b (ascii '',nan'' @ [CR, LF])
      else write_typed_line malloc b 44 (d_fmt17g D v))"

definition resp_write_big_number where
  "resp_write_big_number malloc b s = write_typed_line malloc b 40 s"

definition resp_write_map_header where
  "resp_write_map_header malloc b n = write_header malloc b 37 n"

definition resp_write_set_header where
  "resp_write_set_header malloc b n = write_header malloc b 126 n"

definition resp_write_push_header where
  "resp_write_push_header malloc b n = write_header malloc b 62 n"

text \<open>Sequencing of writes, and \<open>resp_write_value\<close> with the loop over the children.\<close>

definition then_write :: "resp_buf option \<Rightarrow> (resp_buf \<Rightarrow> resp_buf option) \<Rightarrow> resp_buf option" where
  "then_write r f = (case r of None \<Rightarrow> None | Some b \<Rightarrow> f b)"

fun resp_write_value ::
  "'d double_ops \<Rightarrow> (nat \<Rightarrow> nat option) \<Rightarrow> 'd resp_value \<Rightarrow> resp_buf \<Rightarrow> resp_buf option"
  and resp_write_values ::
  "'d double_ops \<Rightarrow> (nat \<Rightarrow> nat option) \<Rightarrow> 'd resp_value list \<Rightarrow> resp_buf \<Rightarrow> resp_buf option" where
  "resp_write_value D malloc (SimpleString s) b = resp_write_simple_string malloc b s"
| "resp_write_value D malloc (RespError s) b = resp_write_error malloc b s"
| "resp_write_value D malloc (Integer v) b = resp_write_integer malloc b v"
| "resp_write_value D malloc (BulkString s) b = resp_write_bulk malloc b s"
| "resp_write_value D malloc Null b = resp_write_null malloc b"
| "resp_write_value D malloc (Boolean v) b = resp_write_boolean malloc b v"
| "resp_write_value D malloc (Double v) b = resp_write_double D malloc b v"
| "resp_write_value D malloc (BigNumber s) b = resp_write_big_number malloc b s"
| "resp_write_value D malloc (BlobError s) b = write_typed_line malloc b 33 s"
| "resp_write_value D malloc (VerbatimString s) b =
     then_write (write_header malloc b 61 (length s)) (\<lambda>b.
     then_write (buf_append malloc b s) (\<lambda>b. buf_append malloc b [CR, LF]))"
| "resp_write_value D malloc (Array None) b = buf_append malloc b (ascii ''*-1'' @ [CR, LF])"
| "resp_write_value D malloc (Array (Some vs)) b =
     then_write (resp_write_array_header malloc b (length vs)) (resp_write_values D malloc vs)"
| "resp_write_value D malloc (RespMap vs) b =
     then_write (resp_write_map_header malloc b (length vs div 2)) (resp_write_values D malloc vs)"
| "resp_write_value D malloc (RespSet vs) b =
     then_write (resp_write_set_header malloc b (length vs)) (resp_write_values D malloc vs)"
| "resp_write_value D malloc (RespPush vs) b =
     then_write (resp_write_push_header malloc b (length vs)) (resp_write_values D malloc vs)"
| "resp_write_values D malloc [] b = Some b"
| "resp_write_values D malloc (v # vs) b =
     then_write (resp_write_value D malloc v b) (resp_write_values D malloc vs)"

section \<open>Buffer lemmas\<close>

lemma grow_cap_ge: "0 < cap \<Longrightarrow> needed \<le> grow_cap needed cap"
  by (induction needed cap rule: grow_cap.induct) (subst grow_cap.simps, auto)

lemma grow_cap_le:
  "0 < cap \<Longrightarrow> cap \<le> SIZE_MAX \<Longrightarrow> needed \<le> SIZE_MAX \<Longrightarrow> grow_cap needed cap \<le> SIZE_MAX"
  by (induction needed cap rule: grow_cap.induct) (subst grow_cap.simps, auto simp: c_limits)

end
