(* ===== verification/Resp_Numbers.thy ===== *)
theory Resp_Numbers
  imports Resp_Writer
begin

text \<open>
  Decimal numbers of the protocol: the two-digit table printer writes the plain decimal
  representation, and the integer parser accepts exactly the decimal numbers that fit a
  \<open>long long\<close>.
\<close>

section \<open>Printing\<close>

fun decimal :: "nat \<Rightarrow> bytes" where
  "decimal n = (if n < 10 then [48 + of_nat n] else decimal (n div 10) @ [48 + of_nat (n mod 10)])"

declare decimal.simps [simp del]

lemma digits100_table:
  "digits100 = concat (map (\<lambda>r. [48 + of_nat (r div 10), 48 + of_nat (r mod 10)]) [0..<100])"
  unfolding digits100_def ascii_def by (simp add: upt_rec)

lemma concat_pairs_nth:
  assumes "r < n"
  shows "concat (map (\<lambda>r. [f r, g r]) [0..<n]) ! (r * 2) = f r"
    and "concat (map (\<lambda>r. [f r, g r]) [0..<n]) ! (r * 2 + 1) = g r"
proof -
  have len: "length (concat (map (\<lambda>r. [f r, g r]) [0..<m])) = m * 2" for m
    by (induction m) auto
  have "concat (map (\<lambda>r. [f r, g r]) [0..<n]) ! (r * 2) = f r \<and>
      concat (map (\<lambda>r. [f r, g r]) [0..<n]) ! (r * 2 + 1) = g r"
    using assms
  proof (induction n)
    case (Suc n)
    then show ?case by (cases "r = n") (auto simp: nth_append len)
  qed simp
  then show "concat (map (\<lambda>r. [f r, g r]) [0..<n]) ! (r * 2) = f r"
    "concat (map (\<lambda>r. [f r, g r]) [0..<n]) ! (r * 2 + 1) = g r" by auto
qed

lemma digits100_nth:
  assumes "r < 100"
  shows "digits100 ! (r * 2) = 48 + of_nat (r div 10)"
    and "digits100 ! (r * 2 + 1) = 48 + of_nat (r mod 10)"
  using concat_pairs_nth [OF assms] unfolding digits100_table by auto

lemma u64_digits_decimal: "u64_digits v tmp = tmp @ rev (decimal v)"
proof (induction v tmp rule: u64_digits.induct)
  case (1 v tmp)
  show ?case
  proof (cases "v \<ge> 100")
    case True
    have "10 \<le> v div 10" using div_le_mono [of 100 v 10] True by simp
    then have "decimal v = decimal (v div 10 div 10) @ [48 + of_nat (v div 10 mod 10), 48 + of_nat (v mod 10)]"
      using True by (simp add: decimal.simps [of v] decimal.simps [of "v div 10"])
    moreover have "v div 10 div 10 = v div 100" using div_mult2_eq [of v 10 10] by simp
    moreover have "v mod 100 = 10 * (v div 10 mod 10) + v mod 10"
      using mod_mult2_eq [of v 10 10] by simp
    then have "v mod 100 div 10 = v div 10 mod 10" "v mod 100 mod 10 = v mod 10" by simp_all
    moreover have "u64_digits v tmp = u64_digits (v div 100)
        (tmp @ [digits100 ! (v mod 100 * 2 + 1), digits100 ! (v mod 100 * 2)])"
      using True by (simp add: u64_digits.simps [of v])
    ultimately show ?thesis
      using 1(1) [OF True] digits100_nth [of "v mod 100"] by simp
  next
    case False
    show ?thesis
    proof (cases "v < 10")
      case True
      then show ?thesis by (simp add: u64_digits.simps [of v] decimal.simps [of v])
    next
      case ge: False
      have "v div 10 < 10" using False by (simp add: less_mult_imp_div_less)
      then have "decimal v = [48 + of_nat (v div 10), 48 + of_nat (v mod 10)]"
        using ge by (simp add: decimal.simps [of v] decimal.simps [of "v div 10"])
      with ge False digits100_nth [of v] show ?thesis by (simp add: u64_digits.simps [of v])
    qed
  qed
qed

lemma u64_to_str_decimal: "u64_to_str v = decimal v"
  by (simp add: u64_to_str_def u64_digits_decimal)

section \<open>Reading\<close>

definition num_value :: "bytes \<Rightarrow> nat" where
  "num_value bs = foldl (\<lambda>v b. v * 10 + digit_val b) 0 bs"

lemma short_digits_eq:
  "short_digits v bs =
    (if list_all is_digit bs then Some (foldl (\<lambda>v b. v * 10 + digit_val b) v bs) else None)"
  by (induction bs arbitrary: v) auto

lemma digit_byte: "d < 10 \<Longrightarrow> is_digit (48 + of_nat d) \<and> digit_val (48 + of_nat d) = d"
proof -
  assume "d < 10"
  then have "d \<in> {0, 1, 2, 3, 4, 5, 6, 7, 8, 9}" by auto
  then show ?thesis by (auto simp: is_digit_def digit_val_def)
qed

lemma decimal_digits: "list_all is_digit (decimal n)"
  by (induction n rule: decimal.induct) (subst decimal.simps, auto simp: digit_byte)

lemma num_value_snoc [simp]: "num_value (bs @ [b]) = num_value bs * 10 + digit_val b"
  by (simp add: num_value_def)

lemma decimal_value: "num_value (decimal n) = n"
proof (induction n rule: decimal.induct)
  case (1 n)
  show ?case
  proof (cases "n < 10")
    case True
    then show ?thesis by (simp add: decimal.simps [of n] num_value_def digit_byte)
  next
    case False
    with 1 have "num_value (decimal n) = n div 10 * 10 + n mod 10"
      by (simp add: decimal.simps [of n] digit_byte)
    then show ?thesis by simp
  qed
qed

lemma digit_val_le: "is_digit b \<Longrightarrow> digit_val b \<le> 9"
  by (auto simp: is_digit_def digit_val_def word_le_nat_alt)

lemma foldl_digits_split:
  "foldl (\<lambda>v b. v * 10 + digit_val b) v bs = v * 10 ^ length bs + num_value bs"
proof (induction bs rule: rev_induct)
  case (snoc b bs)
  then show ?case by (simp add: algebra_simps)
qed (simp add: num_value_def)

lemma num_value_Cons: "num_value (b # bs) = digit_val b * 10 ^ length bs + num_value bs"
  using foldl_digits_split [of "digit_val b" bs] by (simp add: num_value_def)

lemma num_value_lt: "list_all is_digit bs \<Longrightarrow> num_value bs < 10 ^ length bs"
proof (induction bs rule: rev_induct)
  case (snoc b bs)
  then have "num_value bs + 1 \<le> 10 ^ length bs" "digit_val b \<le> 9" by (auto simp: digit_val_le)
  then show ?case by simp
qed (simp add: num_value_def)

lemma num_value_strip: "num_value (dropWhile (\<lambda>b. b = 48) bs) = num_value bs"
proof (induction bs)
  case (Cons b bs)
  then show ?case by (auto simp: num_value_Cons digit_val_def)
qed simp

lemma digits_strip: "list_all is_digit (dropWhile (\<lambda>b. b = 48) bs) = list_all is_digit bs"
  by (induction bs) (auto simp: is_digit_def)

lemma num_value_ge:
  assumes "p \<noteq> []" and "hd p \<noteq> 48" and "list_all is_digit p"
  shows "10 ^ (length p - 1) \<le> num_value p"
proof -
  obtain b bs where p: "p = b # bs" using assms(1) by (cases p) auto
  have "48 \<le> unat b" using assms(3) p by (simp add: is_digit_def word_le_nat_alt)
  moreover have "unat b \<noteq> 48" using assms(2) p by (simp add: word_unat_eq_iff)
  ultimately have "1 \<le> digit_val b" by (simp add: digit_val_def)
  then have "1 * 10 ^ length bs \<le> digit_val b * 10 ^ length bs" by (intro mult_le_mono) auto
  then have "10 ^ length bs \<le> num_value p" unfolding p num_value_Cons by linarith
  then show ?thesis using p by simp
qed

lemma long_digits_eq:
  "long_digits limit v bs =
    (if list_all is_digit bs \<and> foldl (\<lambda>v b. v * 10 + digit_val b) v bs \<le> limit \<or> bs = []
     then Some (foldl (\<lambda>v b. v * 10 + digit_val b) v bs) else None)"
proof (induction bs arbitrary: v)
  case (Cons b bs)
  let ?w = "v * 10 + digit_val b"
  have over: "v > limit div 10 \<or> (v = limit div 10 \<and> digit_val b > limit mod 10) \<longleftrightarrow> ?w > limit"
    if "is_digit b"
  proof -
    define q r where "q = limit div 10" and "r = limit mod 10"
    have "limit = 10 * q + r" "r < 10" by (simp_all add: q_def r_def)
    with digit_val_le [OF that] show ?thesis
      unfolding q_def [symmetric] r_def [symmetric] by (cases v q rule: linorder_cases) auto
  qed
  have grow: "?w \<le> foldl (\<lambda>v b. v * 10 + digit_val b) ?w bs"
    by (simp add: foldl_digits_split trans_le_add1)
  show ?case
  proof (cases "is_digit b \<and> ?w \<le> limit")
    case True
    with over Cons.IH [of ?w] show ?thesis by (cases "bs = []") auto
  next
    case False
    with over grow show ?thesis by auto
  qed
qed simp

text \<open>An optional minus sign and at least one digit, and the number it denotes.\<close>

definition number_body :: "bytes \<Rightarrow> bytes" where
  "number_body bs = (if bs \<noteq> [] \<and> hd bs = 45 then tl bs else bs)"

definition is_number :: "bytes \<Rightarrow> bool" where
  "is_number bs \<longleftrightarrow> number_body bs \<noteq> [] \<and> list_all is_digit (number_body bs)"

definition number_value :: "bytes \<Rightarrow> int" where
  "number_value bs =
     (if bs \<noteq> [] \<and> hd bs = 45 then - int (num_value (number_body bs))
      else int (num_value (number_body bs)))"

lemma parse_digits_value:
  fixes p :: bytes and limit :: nat
  defines "q \<equiv> dropWhile (\<lambda>b. b = 48) p"
  assumes q: "q \<noteq> []" and limit: "10 ^ 18 \<le> limit" "limit < 10 ^ 19"
  shows "(if length q > 19 then None
          else if length q < 19 then short_digits 0 q else long_digits limit 0 q) =
    (if list_all is_digit p \<and> num_value p \<le> limit then Some (num_value p) else None)"
proof (cases "list_all is_digit p")
  case False
  then have "\<not> list_all is_digit q" by (simp add: q_def digits_strip)
  with False q show ?thesis by (simp add: short_digits_eq long_digits_eq)
next
  case True
  then have dq: "list_all is_digit q" by (simp add: q_def digits_strip)
  have v: "num_value q = num_value p" by (simp add: q_def num_value_strip)
  have hq: "hd q \<noteq> 48" using q hd_dropWhile [of "\<lambda>b. b = 48" p] by (simp add: q_def)
  have lo: "10 ^ (length q - 1) \<le> num_value q" using num_value_ge [OF q hq dq] .
  have hi: "num_value q < 10 ^ length q" using num_value_lt [OF dq] .
  consider "length q > 19" | "length q < 19" | "length q = 19" by linarith
  then show ?thesis
  proof cases
    case 1
    then have "(10::nat) ^ 19 \<le> 10 ^ (length q - 1)" by (intro power_increasing) auto
    with lo limit v have "\<not> num_value p \<le> limit" by linarith
    with 1 show ?thesis by simp
  next
    case 2
    then have "(10::nat) ^ length q \<le> 10 ^ 18" by (intro power_increasing) auto
    with hi limit v have "num_value p \<le> limit" by linarith
    with 2 True dq v show ?thesis by (simp add: short_digits_eq num_value_def)
  next
    case 3
    with True dq v q show ?thesis by (simp add: long_digits_eq num_value_def)
  qed
qed

lemma parse_ll_eq:
  "parse_ll bs =
    (if is_number bs \<and> LLONG_MIN \<le> number_value bs \<and> number_value bs \<le> LLONG_MAX
     then Some (number_value bs) else None)"
proof (cases "number_body bs = []")
  case True
  then have "bs = [] \<or> hd bs = 45 \<and> tl bs = []" by (auto simp: number_body_def split: if_splits)
  with True show ?thesis by (auto simp: parse_ll_def is_number_def)
next
  case ne: False
  let ?p = "number_body bs" and ?neg = "bs \<noteq> [] \<and> hd bs = 45"
  let ?q = "dropWhile (\<lambda>b. b = 48) ?p"
  let ?limit = "nat LLONG_MAX + (if ?neg then 1 else 0)"
  have bs: "bs \<noteq> []" using ne by (auto simp: number_body_def)
  have body: "(if hd bs = 45 then tl bs else bs) = ?p" using bs by (simp add: number_body_def)
  show ?thesis
  proof (cases "?q = []")
    case True
    have "list_all is_digit ?p" using digits_strip [of ?p] unfolding True by simp
    moreover have "num_value ?p = 0"
      using num_value_strip [of ?p, symmetric] unfolding True by (simp add: num_value_def)
    ultimately show ?thesis
      using True ne bs body
      by (simp add: parse_ll_def is_number_def number_value_def Let_def c_limits)
  next
    case False
    define r where "r = (if length ?q > 19 then None
          else if length ?q < 19 then short_digits 0 ?q else long_digits ?limit 0 ?q)"
    have r: "r = (if list_all is_digit ?p \<and> num_value ?p \<le> ?limit then Some (num_value ?p) else None)"
      unfolding r_def by (rule parse_digits_value [OF False]) (auto simp: c_limits)
    define q where "q = ?q"
    have "parse_ll bs = (case r of None \<Rightarrow> None | Some v \<Rightarrow>
        Some (if hd bs = 45 then if v = nat LLONG_MAX + 1 then LLONG_MIN else - int v else int v))"
      using False ne bs unfolding r_def parse_ll_def Let_def body q_def [symmetric] by simp
    then show ?thesis
      unfolding r using ne bs
      by (auto simp: is_number_def number_value_def c_limits)
  qed
qed

lemma parse_bulk_len_decimal:
  assumes "n \<le> RESP_MAX_ARRAY_LEN"
  shows "parse_bulk_len (decimal n) = Some (int n)"
proof -
  let ?p = "decimal n"
  define q where "q = dropWhile (\<lambda>b. b = 48) ?p"
  have ne: "?p \<noteq> []" by (subst decimal.simps) auto
  have d: "list_all is_digit ?p" by (rule decimal_digits)
  have "is_digit (hd ?p)" using d ne by (cases ?p) auto
  then have h: "hd ?p \<noteq> 45" by (auto simp: is_digit_def)
  have v: "num_value q = n" by (simp add: q_def num_value_strip decimal_value)
  have "length q \<le> 10"
  proof (rule ccontr)
    assume a: "\<not> length q \<le> 10"
    then have q: "q \<noteq> []" by auto
    have "hd q \<noteq> 48" using q hd_dropWhile [of "\<lambda>b. b = 48" ?p] by (simp add: q_def)
    then have "10 ^ (length q - 1) \<le> n" using num_value_ge [OF q] d v by (simp add: q_def digits_strip)
    moreover have "(10::nat) ^ 10 \<le> 10 ^ (length q - 1)" using a by (intro power_increasing) auto
    ultimately show False using assms by (simp add: RESP_MAX_ARRAY_LEN_def)
  qed
  then show ?thesis
    using ne h v d assms
    unfolding parse_bulk_len_def Let_def q_def [symmetric] short_digits_eq num_value_def [symmetric]
    by (simp add: q_def digits_strip)
qed

lemma unat_of_int_neg:
  assumes "LLONG_MIN \<le> v" and "v < 0"
  shows "unat (0 - (of_int v :: u64)) = nat (- v)"
proof -
  have "0 - (of_int v :: u64) = of_nat (nat (- v))" using assms by simp
  moreover have "nat (- v) < 2 ^ 64" using assms by (simp add: c_limits)
  ultimately show ?thesis by (simp add: unat_of_nat)
qed

lemma ll_to_str_eq:
  assumes "LLONG_MIN \<le> v" and "v \<le> LLONG_MAX"
  shows "ll_to_str v = (if v < 0 then 45 # decimal (nat (- v)) else decimal (nat v))"
proof (cases "v < 0")
  case True
  with unat_of_int_neg [OF assms(1)] show ?thesis by (simp add: ll_to_str_def u64_to_str_decimal)
next
  case False
  then have "(of_int v :: u64) = of_nat (nat v)" by simp
  moreover have "nat v < 2 ^ 64" using assms(2) False by (simp add: c_limits)
  ultimately have "unat (of_int v :: u64) = nat v" by (simp add: unat_of_nat)
  with False show ?thesis by (simp add: ll_to_str_def u64_to_str_decimal)
qed

lemma parse_ll_print:
  assumes "LLONG_MIN \<le> v" and "v \<le> LLONG_MAX"
  shows "parse_ll (ll_to_str v) = Some v"
proof -
  have hd: "decimal n \<noteq> [] \<and> hd (decimal n) \<noteq> 45" for n
  proof -
    have "decimal n \<noteq> []" by (subst decimal.simps) auto
    with decimal_digits [of n] show ?thesis by (cases "decimal n") (auto simp: is_digit_def)
  qed
  have "number_body (ll_to_str v) = decimal (nat \<bar>v\<bar>)"
    using hd [of "nat v"] by (auto simp: ll_to_str_eq [OF assms] number_body_def)
  then have "is_number (ll_to_str v)" "number_value (ll_to_str v) = v"
    using hd [of "nat \<bar>v\<bar>"] decimal_digits [of "nat \<bar>v\<bar>"] hd [of "nat v"] assms
    by (auto simp: is_number_def number_value_def decimal_value ll_to_str_eq)
  with assms show ?thesis by (simp add: parse_ll_eq)
qed

section \<open>Properties\<close>

text \<open>
  C29: the integer parser accepts exactly the strings made of an optional minus sign and at
  least one digit whose value lies between \<open>LLONG_MIN\<close> and \<open>LLONG_MAX\<close>, whatever the number
  of leading zeros, and returns that value; everything else is a protocol error.
\<close>

theorem parse_ll_exact:
  "parse_ll bs =
    (if is_number bs \<and> LLONG_MIN \<le> number_value bs \<and> number_value bs \<le> LLONG_MAX
     then Some (number_value bs) else None)"
  by (rule parse_ll_eq)

text \<open>
  the printer that emits two digits at a time from a table writes the decimal
  representation obtained one digit at a time, and for every \<open>long long\<close> the integer parser
  reads back what \<open>ll_to_str\<close> writes.
\<close>

theorem integer_print_parse:
  "u64_to_str n = decimal n \<and>
   (\<not> (LLONG_MIN \<le> v \<and> v \<le> LLONG_MAX) \<or> parse_ll (ll_to_str v) = Some v)"
  using u64_to_str_decimal parse_ll_print by blast

end
