(* ===== verification/Resp_Roundtrip.thy ===== *)
theory Resp_Roundtrip
  imports Resp_Correct
begin

text \<open>
  What the writer puts into a buffer, what the parser makes of it, and the properties of the
  RESP codec.
\<close>

section \<open>Wire format\<close>

definition line :: "byte \<Rightarrow> bytes \<Rightarrow> bytes" where
  "line ty s = ty # s @ [CR, LF]"

fun encode :: "'d double_ops \<Rightarrow> 'd resp_value \<Rightarrow> bytes"
  and encodes :: "'d double_ops \<Rightarrow> 'd resp_value list \<Rightarrow> bytes" where
  "encode D (SimpleString s) = line 43 s"
| "encode D (RespError s) = line 45 s"
| "encode D (Integer v) = line 58 (ll_to_str v)"
| "encode D (BulkString None) = line 36 (ascii ''-1'')"
| "encode D (BulkString (Some s)) = line 36 (decimal (length s)) @ s @ [CR, LF]"
| "encode D Null = line 95 []"
| "encode D (Boolean v) = line 35 [if v then 116 else 102]"
| "encode D (Double v) =
     line 44 (if d_isinf D v then if d_positive D v then ascii ''inf'' else ascii ''-inf''
              else if d_isnan D v then ascii ''nan'' else d_fmt17g D v)"
| "encode D (BigNumber s) = line 40 s"
| "encode D (BlobError s) = line 33 s"
| "encode D (VerbatimString s) = line 61 (decimal (length s)) @ s @ [CR, LF]"
| "encode D (Array None) = line 42 (ascii ''-1'')"
| "encode D (Array (Some vs)) = line 42 (decimal (length vs)) @ encodes D vs"
| "encode D (RespMap vs) = line 37 (decimal (length vs div 2)) @ encodes D vs"
| "encode D (RespSet vs) = line 126 (decimal (length vs)) @ encodes D vs"
| "encode D (RespPush vs) = line 62 (decimal (length vs)) @ encodes D vs"
| "encodes D [] = []"
| "encodes D (v # vs) = encode D v @ encodes D vs"

section \<open>The writer appends the wire format\<close>

definition buf_ok :: "resp_buf \<Rightarrow> bool" where
  "buf_ok b \<longleftrightarrow> length (rb_data b) \<le> rb_cap b"

definition grants :: "(nat \<Rightarrow> nat option) \<Rightarrow> bool" where
  "grants malloc \<longleftrightarrow> (\<forall>n. malloc n \<noteq> None)"

text \<open>\<open>wrote s b r\<close>: the write succeeded and appended \<open>s\<close> within the capacity.\<close>

definition wrote :: "bytes \<Rightarrow> resp_buf \<Rightarrow> resp_buf option \<Rightarrow> bool" where
  "wrote s b r \<longleftrightarrow> (\<exists>b'. r = Some b' \<and> rb_data b' = rb_data b @ s \<and> buf_ok b')"

lemma pool_get_grants:
  assumes "grants malloc" and "buf_pool_get malloc pool n = (r, actual, pool')"
  shows "r \<noteq> None" and "n \<le> actual"
proof -
  obtain m where m: "malloc = (\<lambda>n. Some (m n))"
    using assms(1) unfolding grants_def by (intro that [of "\<lambda>n. the (malloc n)"]) auto
  show "r \<noteq> None" "n \<le> actual"
    using assms(2) first_tier_Some [of "bp_sizes pool" n] unfolding m
    by (auto simp: buf_pool_get_def buf_pool_tier_def split: option.splits list.splits)
qed

lemma reserve_ok:
  assumes g: "grants malloc" and fit: "length (rb_data b) + n \<le> SIZE_MAX"
  shows "\<exists>b'. resp_buf_reserve malloc b n = Some (True, b') \<and> rb_data b' = rb_data b \<and>
    length (rb_data b) + n \<le> rb_cap b'"
proof (cases "length (rb_data b) + n \<le> rb_cap b")
  case True
  with fit show ?thesis by (auto simp: resp_buf_reserve_def)
next
  case False
  let ?cap = "grow_cap (length (rb_data b) + n) (if rb_cap b \<noteq> 0 then rb_cap b else 256)"
  have cap: "length (rb_data b) + n \<le> ?cap" by (rule grow_cap_ge) auto
  show ?thesis
  proof (cases "rb_pool b")
    case None
    obtain p where "malloc ?cap = Some p" using g by (auto simp: grants_def)
    with None False fit cap show ?thesis by (auto simp: resp_buf_reserve_def Let_def)
  next
    case (Some pool)
    obtain r actual pool' where get: "buf_pool_get malloc pool ?cap = (r, actual, pool')"
      by (metis prod_cases3)
    with pool_get_grants [OF g get] obtain p where "r = Some p" "?cap \<le> actual" by auto
    with Some get False fit cap show ?thesis by (auto simp: resp_buf_reserve_def Let_def)
  qed
qed

lemma append_ok:
  assumes "grants malloc" and "length (rb_data b) + length s \<le> SIZE_MAX"
  shows "wrote s b (buf_append malloc b s)"
  using reserve_ok [OF assms] by (auto simp: wrote_def buf_append_def buf_ok_def)

lemma typed_line_ok:
  assumes "grants malloc" and "length (rb_data b) + length (line ty s) \<le> SIZE_MAX"
  shows "wrote (line ty s) b (write_typed_line malloc b ty s)"
  using append_ok [OF assms(1), of b "line ty s"] assms(2)
  by (auto simp: write_typed_line_def line_def c_limits)

lemma wrote_then:
  assumes "wrote s b r" and "\<And>b'. rb_data b' = rb_data b @ s \<Longrightarrow> wrote s' b' (f b')"
  shows "wrote (s @ s') b (then_write r f)"
  using assms by (fastforce simp: wrote_def then_write_def)

lemmas writer_defs = resp_write_simple_string_def resp_write_error_def resp_write_integer_def
  resp_write_bulk_def resp_write_array_header_def resp_write_null_def resp_write_boolean_def
  resp_write_double_def resp_write_big_number_def resp_write_map_header_def
  resp_write_set_header_def resp_write_push_header_def write_header_def u64_to_str_decimal

lemma header_ok:
  assumes "grants malloc" and "length (rb_data b) + length (line ty (decimal n)) \<le> SIZE_MAX"
  shows "wrote (line ty (decimal n)) b (write_header malloc b ty n)"
  using append_ok [OF assms(1), of b "line ty (decimal n)"] assms(2)
  by (simp add: write_header_def u64_to_str_decimal line_def)

lemma append_line_ok:
  assumes "grants malloc" and "length (rb_data b) + length (line ty s) \<le> SIZE_MAX"
  shows "wrote (line ty s) b (buf_append malloc b (ty # s @ [CR, LF]))"
  using append_ok [OF assms(1), of b "line ty s"] assms(2) by (simp add: line_def)

lemma ascii_Cons: "ascii (c # s) = of_char c # ascii s" and ascii_Nil: "ascii [] = []"
  by (simp_all add: ascii_def)

lemma write_aggregate_ok:
  assumes g: "grants malloc" and fit: "length (rb_data b) + length (line ty (decimal n) @ s) \<le> SIZE_MAX"
    and kids: "\<And>b'. rb_data b' = rb_data b @ line ty (decimal n) \<Longrightarrow> buf_ok b' \<Longrightarrow> wrote s b' (f b')"
  shows "wrote (line ty (decimal n) @ s) b (then_write (write_header malloc b ty n) f)"
proof -
  obtain b' where "write_header malloc b ty n = Some b'" "rb_data b' = rb_data b @ line ty (decimal n)" "buf_ok b'"
    using header_ok [OF g, of b ty n] fit by (auto simp: wrote_def)
  with kids [of b'] show ?thesis by (auto simp: wrote_def then_write_def)
qed

lemma write_verbatim_ok:
  assumes g: "grants malloc" and fit: "length (rb_data b) + length (encode D (VerbatimString s)) \<le> SIZE_MAX"
  shows "wrote (encode D (VerbatimString s)) b (resp_write_value D malloc (VerbatimString s) b)"
  unfolding encode.simps resp_write_value.simps
proof (rule write_aggregate_ok [OF g])
  fix b' :: resp_buf assume b': "rb_data b' = rb_data b @ line 61 (decimal (length s))"
  show "wrote (s @ [CR, LF]) b' (then_write (buf_append malloc b' s) (\<lambda>b. buf_append malloc b [CR, LF]))"
    using fit b' by (intro wrote_then append_ok [OF g]) auto
qed (use fit in simp)

lemma write_value_ok:
  assumes g: "grants malloc"
  shows "length (rb_data b) + length (encode D v) \<le> SIZE_MAX \<Longrightarrow>
      wrote (encode D v) b (resp_write_value D malloc v b)"
    and "length (rb_data b) + length (encodes D vs) \<le> SIZE_MAX \<Longrightarrow> buf_ok b \<Longrightarrow>
      wrote (encodes D vs) b (resp_write_values D malloc vs b)"
proof (induction D v and D vs arbitrary: b and b rule: encode_encodes.induct)
  case (4 D)
  then show ?case
    using append_line_ok [OF g, of b 36 "ascii ''-1''"]
    by (simp add: writer_defs ascii_Cons ascii_Nil)
next
  case (5 D s)
  then show ?case
    using append_ok [OF g, of b "line 36 (decimal (length s)) @ s @ [CR, LF]"]
    by (auto simp: writer_defs line_def Let_def c_limits)
next
  case (6 D)
  then show ?case using append_line_ok [OF g, of b 95 "[]"] by (simp add: writer_defs)
next
  case (7 D v)
  then show ?case
    using append_line_ok [OF g, of b 35 "[if v then 116 else 102]"] by (simp add: writer_defs)
next
  case (8 D v)
  then show ?case
    using append_line_ok [OF g, of b 44 "ascii ''inf''"] append_line_ok [OF g, of b 44 "ascii ''-inf''"]
      append_line_ok [OF g, of b 44 "ascii ''nan''"] typed_line_ok [OF g, of b 44 "d_fmt17g D v"]
    by (auto simp: writer_defs ascii_Cons ascii_Nil)
next
  case (11 D s)
  then show ?case by (rule write_verbatim_ok [OF g])
next
  case (12 D)
  then show ?case
    using append_line_ok [OF g, of b 42 "ascii ''-1''"] by (simp add: ascii_Cons ascii_Nil)
next
  case (18 D v vs)
  have "wrote (encode D v) b (resp_write_value D malloc v b)" using 18 by simp
  then obtain b' where "resp_write_value D malloc v b = Some b'" "rb_data b' = rb_data b @ encode D v" "buf_ok b'"
    by (auto simp: wrote_def)
  moreover have "wrote (encodes D vs) b' (resp_write_values D malloc vs b')"
    using 18 calculation by simp
  ultimately show ?case by (auto simp: wrote_def then_write_def)
qed (auto simp: writer_defs wrote_def [of "[]"] intro!: typed_line_ok [OF g]
      write_aggregate_ok [OF g, unfolded write_header_def u64_to_str_decimal])

section \<open>The parser reads the wire format\<close>

text \<open>
  Values that survive the wire at nesting depth \<open>d\<close>: payloads of line types have no line end
  inside, lengths stay within the protocol cap, maps have an even number of items. A blob
  error is never readable: it is written without its length. The law for finite doubles is
  that the C library reads back what \<open>%.17g\<close> prints.
\<close>

definition plain :: "bytes \<Rightarrow> bool" where
  "plain s \<longleftrightarrow> find_crlf (s @ [CR, LF]) = Some (length s)"

definition double_ok :: "'d double_ops \<Rightarrow> 'd \<Rightarrow> bool" where
  "double_ok D v \<longleftrightarrow>
     (if d_isinf D v then v = (if d_positive D v then d_inf D else d_ninf D)
      else if d_isnan D v then v = d_nan D
      else d_strtod D (d_fmt17g D v) = (v, length (d_fmt17g D v)) \<and> plain (d_fmt17g D v) \<and>
           d_fmt17g D v \<notin> {[], ascii ''inf'', ascii ''-inf'', ascii ''nan''})"

fun writable :: "'d double_ops \<Rightarrow> nat \<Rightarrow> 'd resp_value \<Rightarrow> bool" where
  "writable D d (SimpleString s) \<longleftrightarrow> d \<le> RESP_MAX_DEPTH \<and> plain s"
| "writable D d (RespError s) \<longleftrightarrow> d \<le> RESP_MAX_DEPTH \<and> plain s"
| "writable D d (Integer v) \<longleftrightarrow> d \<le> RESP_MAX_DEPTH \<and> LLONG_MIN \<le> v \<and> v \<le> LLONG_MAX"
| "writable D d (BulkString None) \<longleftrightarrow> d \<le> RESP_MAX_DEPTH"
| "writable D d (BulkString (Some s)) \<longleftrightarrow> d \<le> RESP_MAX_DEPTH \<and> length s \<le> RESP_MAX_ARRAY_LEN"
| "writable D d Null \<longleftrightarrow> d \<le> RESP_MAX_DEPTH"
| "writable D d (Boolean v) \<longleftrightarrow> d \<le> RESP_MAX_DEPTH"
| "writable D d (Double v) \<longleftrightarrow> d \<le> RESP_MAX_DEPTH \<and> double_ok D v"
| "writable D d (BigNumber s) \<longleftrightarrow> d \<le> RESP_MAX_DEPTH \<and> plain s"
| "writable D d (BlobError s) \<longleftrightarrow> False"
| "writable D d (VerbatimString s) \<longleftrightarrow> d \<le> RESP_MAX_DEPTH \<and> length s \<le> RESP_MAX_ARRAY_LEN"
| "writable D d (Array None) \<longleftrightarrow> d \<le> RESP_MAX_DEPTH"
| "writable D d (Array (Some vs)) \<longleftrightarrow>
     d \<le> RESP_MAX_DEPTH \<and> length vs \<le> RESP_MAX_ARRAY_LEN \<and> (\<forall>v \<in> set vs. writable D (d + 1) v)"
| "writable D d (RespMap vs) \<longleftrightarrow>
     d \<le> RESP_MAX_DEPTH \<and> length vs \<le> RESP_MAX_ARRAY_LEN \<and> even (length vs) \<and>
     (\<forall>v \<in> set vs. writable D (d + 1) v)"
| "writable D d (RespSet vs) \<longleftrightarrow>
     d \<le> RESP_MAX_DEPTH \<and> length vs \<le> RESP_MAX_ARRAY_LEN \<and> (\<forall>v \<in> set vs. writable D (d + 1) v)"
| "writable D d (RespPush vs) \<longleftrightarrow>
     d \<le> RESP_MAX_DEPTH \<and> length vs \<le> RESP_MAX_ARRAY_LEN \<and> (\<forall>v \<in> set vs. writable D (d + 1) v)"

lemma writable_depth: "writable D d v \<Longrightarrow> d \<le> RESP_MAX_DEPTH"
  by (induction D d v rule: writable.induct) auto

lemma find_crlf_plain: "plain s \<Longrightarrow> find_crlf (s @ CR # LF # rest) = Some (length s)"
  using find_crlf_ext [of "s @ [CR, LF]" "length s" rest] by (simp add: plain_def)

lemma header_then_plain: "plain s \<Longrightarrow> header_then f (s @ CR # LF # rest) = f s rest"
  by (simp add: header_then_def find_crlf_plain)

lemma plain_no_CR: "CR \<notin> set s \<Longrightarrow> plain s"
  unfolding plain_def by (induction s) auto

lemma plain_digits: "list_all is_digit s \<Longrightarrow> plain s"
  by (rule plain_no_CR) (auto simp: list_all_iff is_digit_def CR_def)

lemma plain_decimal: "plain (decimal n)"
  by (rule plain_digits [OF decimal_digits])

lemma plain_ll: "LLONG_MIN \<le> v \<Longrightarrow> v \<le> LLONG_MAX \<Longrightarrow> plain (ll_to_str v)"
proof (rule plain_no_CR)
  assume v: "LLONG_MIN \<le> v" "v \<le> LLONG_MAX"
  have "CR \<notin> set (decimal n)" for n
    using decimal_digits [of n] by (auto simp: list_all_iff is_digit_def CR_def)
  then show "CR \<notin> set (ll_to_str v)" using v by (auto simp: ll_to_str_eq CR_def)
qed

lemma line_length [simp]: "length (line ty s) = length s + 3"
  by (simp add: line_def)

lemma encode_length: "3 \<le> length (encode D v)" and encodes_length: "3 * length vs \<le> length (encodes D vs)"
  by (induction D v and D vs rule: encode_encodes.induct) auto

lemma general_line:
  assumes "d \<le> RESP_MAX_DEPTH" and "ty \<in> set line_types" and "plain s"
    and "parse_line D mem ty s = Some v"
  shows "parse_general D mem d (line ty s @ rest) = Ok v rest"
  using assms by (simp add: parse_general.simps [of D mem d] line_def header_then_plain)

lemma general_blob:
  assumes "d \<le> RESP_MAX_DEPTH" and "ty \<in> set blob_types" and "length s \<le> RESP_MAX_ARRAY_LEN"
  shows "parse_general D mem d ((line ty (decimal (length s)) @ s @ [CR, LF]) @ rest) =
    Ok (blob_value ty s) rest"
proof -
  have "ty \<notin> set line_types" using assms(2) by (auto simp: blob_types_def line_types_def)
  with assms show ?thesis
    by (simp add: parse_general.simps [of D mem d] line_def parse_blob_eq header_then_plain
        plain_decimal parse_bulk_len_decimal payload_then_def nth_append)
qed

lemma general_items:
  assumes "\<And>v rest. v \<in> set vs \<Longrightarrow> parse_general D mem d (encode D v @ rest) = Ok v rest"
  shows "parse_items (\<lambda>cur. parse_general D mem d cur) (length vs) (encodes D vs @ rest) = Ok vs rest"
  using assms
proof (induction vs)
  case (Cons v vs)
  then show ?case by (simp add: parse_items_bind del: parse_items.simps)
qed simp

lemma general_aggregate:
  assumes d: "d \<le> RESP_MAX_DEPTH" and ty: "ty \<in> set aggregate_types" and mem: "\<forall>n. mem n"
    and len: "length vs \<le> RESP_MAX_ARRAY_LEN"
    and n: "n = (if ty = 37 then length vs div 2 else length vs)" "ty = 37 \<longrightarrow> even (length vs)"
    and kids: "\<And>v rest. v \<in> set vs \<Longrightarrow> parse_general D mem (d + 1) (encode D v @ rest) = Ok v rest"
  shows "parse_general D mem d ((line ty (decimal n) @ encodes D vs) @ rest) = Ok (aggregate ty vs) rest"
proof -
  have t: "ty \<notin> set line_types" "ty \<notin> set blob_types"
    using ty by (auto simp: aggregate_types_def line_types_def blob_types_def)
  have slots: "(if ty = 37 then n * 2 else n) = length vs" using n by auto
  have nle: "n \<le> RESP_MAX_ARRAY_LEN" "ty = 37 \<longrightarrow> n \<le> RESP_MAX_ARRAY_LEN div 2"
    using n len div_le_mono [OF len, of 2] by auto
  have enough: "length vs \<le> (length (encodes D vs) + length rest) div 3"
    using encodes_length [of vs D] by linarith
  have "resp_aggregate_bytes (length vs) = Some (length vs * RESP_VALUE_SIZE)"
    using len by (simp add: resp_aggregate_bytes_def RESP_VALUE_SIZE_def RESP_MAX_ARRAY_LEN_def c_limits)
  then have "children mem ty (\<lambda>k. parse_items (\<lambda>cur. parse_general D mem (d + 1) cur) k) (length vs)
      (encodes D vs @ rest) = Ok (aggregate ty vs) rest"
    using enough mem general_items [of vs D mem "d + 1" rest, OF kids] by (simp add: children_def)
  with d ty t nle slots show ?thesis
    by (auto simp: parse_general.simps [of D mem d] line_def counted_def header_then_plain
        plain_decimal parse_bulk_len_decimal)
qed

lemma general_null:
  assumes "d \<le> RESP_MAX_DEPTH"
  shows "parse_general D mem d (line 36 (ascii ''-1'') @ rest) = Ok (BulkString None) rest"
    and "parse_general D mem d (line 42 (ascii ''-1'') @ rest) = Ok (Array None) rest"
proof -
  have ht: "header_then f (45 # 49 # CR # LF # rest) = f [45, 49] rest"
    for f :: "bytes \<Rightarrow> bytes \<Rightarrow> 'a resp_value pres"
    using header_then_plain [of "[45, 49]" f rest] plain_no_CR [of "[45, 49]"] by (simp add: CR_def)
  have len: "parse_bulk_len [45, 49] = Some (-1)" by (simp add: parse_bulk_len_def)
  show "parse_general D mem d (line 36 (ascii ''-1'') @ rest) = Ok (BulkString None) rest"
    "parse_general D mem d (line 42 (ascii ''-1'') @ rest) = Ok (Array None) rest"
    using assms
    by (simp_all add: parse_general.simps [of D mem d] line_def parse_blob_eq counted_def ht len
        ascii_Cons ascii_Nil line_types_def blob_types_def aggregate_types_def)
qed

lemma general_double:
  assumes d: "d \<le> RESP_MAX_DEPTH" and mem: "\<forall>n. mem n" and v: "double_ok D v"
  shows "parse_general D mem d (encode D (Double v) @ rest) = Ok (Double v) rest"
proof -
  let ?s = "if d_isinf D v then if d_positive D v then ascii ''inf'' else ascii ''-inf''
            else if d_isnan D v then ascii ''nan'' else d_fmt17g D v"
  have p: "plain (ascii ''inf'')" "plain (ascii ''-inf'')" "plain (ascii ''nan'')"
    by (rule plain_no_CR, simp add: ascii_Cons ascii_Nil CR_def)+
  have ne: "ascii ''-inf'' \<noteq> ascii ''inf''" "ascii ''nan'' \<noteq> ascii ''inf''" "ascii ''nan'' \<noteq> ascii ''-inf''"
    by (simp_all add: ascii_Cons ascii_Nil)
  have "plain ?s" using v p by (auto simp: double_ok_def split: if_splits)
  moreover have "parse_double D mem ?s = Some v"
    using v mem ne by (auto simp: double_ok_def parse_double_def split: if_splits)
  then have "parse_line D mem 44 ?s = Some (Double v)" by (simp add: parse_line_def)
  ultimately show ?thesis
    unfolding encode.simps using d by (intro general_line) (simp_all add: line_types_def)
qed

lemma general_encode:
  assumes "writable D d v" and mem: "\<forall>n. mem n"
  shows "parse_general D mem d (encode D v @ rest) = Ok v rest"
  using assms(1)
proof (induction D d v arbitrary: rest rule: writable.induct)
  case (8 D d v)
  then show ?case by (intro general_double [OF _ mem]) auto
next
  case (5 D d s)
  then show ?case
    using general_blob [of d 36 s D mem rest] by (simp add: blob_types_def blob_value_def)
next
  case (11 D d s)
  then show ?case
    using general_blob [of d 61 s D mem rest] by (simp add: blob_types_def blob_value_def)
next
  case (13 D d vs)
  have "parse_general D mem d ((line 42 (decimal (length vs)) @ encodes D vs) @ rest) =
      Ok (aggregate 42 vs) rest"
    by (rule general_aggregate [OF _ _ mem]) (use 13 in \<open>auto simp: aggregate_types_def\<close>)
  then show ?case by (simp add: aggregate_def)
next
  case (14 D d vs)
  have "parse_general D mem d ((line 37 (decimal (length vs div 2)) @ encodes D vs) @ rest) =
      Ok (aggregate 37 vs) rest"
    by (rule general_aggregate [OF _ _ mem]) (use 14 in \<open>auto simp: aggregate_types_def\<close>)
  then show ?case by (simp add: aggregate_def)
next
  case (15 D d vs)
  have "parse_general D mem d ((line 126 (decimal (length vs)) @ encodes D vs) @ rest) =
      Ok (aggregate 126 vs) rest"
    by (rule general_aggregate [OF _ _ mem]) (use 15 in \<open>auto simp: aggregate_types_def\<close>)
  then show ?case by (simp add: aggregate_def)
next
  case (16 D d vs)
  have "parse_general D mem d ((line 62 (decimal (length vs)) @ encodes D vs) @ rest) =
      Ok (aggregate 62 vs) rest"
    by (rule general_aggregate [OF _ _ mem]) (use 16 in \<open>auto simp: aggregate_types_def\<close>)
  then show ?case by (simp add: aggregate_def)
next
  case (3 D d v)
  then have "parse_line D mem 58 (ll_to_str v) = Some (Integer v)"
    by (simp add: parse_line_def parse_ll_print)
  with 3 plain_ll [of v] show ?case
    unfolding encode.simps by (intro general_line) (simp_all add: line_types_def)
next
  case (7 D d v)
  have "plain [if v then 116 else 102]" by (rule plain_no_CR) (simp add: CR_def)
  with 7 show ?case
    unfolding encode.simps by (intro general_line) (simp_all add: line_types_def parse_line_def)
next
  case (6 D d)
  have "plain []" by (rule plain_no_CR) simp
  with 6 show ?case
    unfolding encode.simps by (intro general_line) (simp_all add: line_types_def parse_line_def)
qed (auto simp: general_null intro!: general_line simp: line_types_def parse_line_def)

lemma parse_encode:
  assumes "writable D 0 v" and "\<forall>n. mem n"
  shows "parse_at D mem 0 (encode D v @ rest) = Ok v rest"
  using general_encode [OF assms, of rest] parse_at_agrees [of D mem 0 "encode D v @ rest"] by simp

section \<open>Connections\<close>

lemma drain_agrees:
  assumes agree: "\<And>bs. ref bs \<noteq> Bad \<Longrightarrow> f bs = ref bs" and "drain ref buf = (vs, r, False)"
  shows "drain f buf = (vs, r, False)"
  using assms(2)
proof (induction "length buf" arbitrary: buf vs rule: less_induct)
  case less
  then have nb: "ref buf \<noteq> Bad" by (auto simp: drain.simps [of ref buf])
  show ?case
  proof (cases "ref buf")
    case (Ok v rest)
    with less.prems obtain ws where "length rest < length buf" "drain ref rest = (ws, r, False)" "vs = v # ws"
      by (auto simp: drain.simps [of ref buf] split: if_splits prod.splits)
    with less.hyps [of rest ws] Ok agree [OF nb] show ?thesis by (simp add: drain.simps [of f buf])
  next
    case More
    then have "drain f buf = ([], buf, False)" "drain ref buf = ([], buf, False)"
      using agree [OF nb] by (simp_all add: drain.simps [of f buf] drain.simps [of ref buf])
    with less.prems show ?thesis by simp
  next
    case Bad
    with nb show ?thesis by simp
  qed
qed

lemma feed_agrees:
  assumes agree: "\<And>bs. ref bs \<noteq> Bad \<Longrightarrow> f bs = ref bs" and "feed ref buf cs = (vs, r, False)"
  shows "feed f buf cs = (vs, r, False)"
  using assms(2)
proof (induction cs arbitrary: buf vs)
  case (Cons c cs)
  obtain ws r1 e where d: "drain ref (buf @ c) = (ws, r1, e)" by (metis prod_cases3)
  with Cons.prems have e: "e = False" by (auto split: if_splits)
  obtain ws' r2 e2 where f: "feed ref r1 cs = (ws', r2, e2)" by (metis prod_cases3)
  with d e Cons.prems have "vs = ws @ ws'" "r2 = r" "e2 = False" by auto
  with drain_agrees [of ref f, OF agree d [unfolded e]] Cons.IH [of r1 ws'] f show ?case by simp
qed simp

lemma drain_encodes:
  assumes "\<forall>v \<in> set vs. writable D 0 v" and mem: "\<forall>n. mem n"
  shows "drain (parse_general D mem 0) (encodes D vs) = (vs, [], False)"
  using assms(1)
proof (induction vs)
  case Nil
  have "parse_general D mem 0 [] = More" by (simp add: parse_general.simps [of D mem 0])
  then show ?case by (simp add: drain.simps [of _ "[]"])
next
  case (Cons v vs)
  have "parse_general D mem 0 (encode D v @ encodes D vs) = Ok v (encodes D vs)"
    using Cons.prems by (intro general_encode mem) simp
  moreover have "0 < length (encode D v)" using encode_length [of D v] by linarith
  ultimately show ?case using Cons by (simp add: drain.simps [of _ "encode D v @ encodes D vs"])
qed

section \<open>Nesting\<close>

definition one_array :: bytes where "one_array = line 42 [49]"

lemma parse_one_array:
  assumes d: "d \<le> RESP_MAX_DEPTH" and mem: "\<forall>n. mem n" and s: "3 \<le> length s" "hd s \<noteq> 36"
  shows "parse_at D mem d (one_array @ s) =
    bind_pres (parse_at D mem (d + 1) s) (\<lambda>v. Ok (Array (Some [v])))"
proof -
  have "plain [49]" by (rule plain_no_CR) (simp add: CR_def)
  then have ht: "header_then f (49 # CR # LF # s) = f [49] s" for f :: "bytes \<Rightarrow> bytes \<Rightarrow> 'a resp_value pres"
    using header_then_plain [of "[49]" f s] by simp
  have len: "parse_bulk_len [49] = Some 1"
    by (simp add: parse_bulk_len_def is_digit_def digit_val_def RESP_MAX_ARRAY_LEN_def)
  have run: "fast_run 42 (parse_at D mem (d + 1)) 1 s = bind_pres (parse_at D mem (d + 1) s) (\<lambda>v. Ok [v])"
    using s(2) by (simp add: fast_run_def bulk_run_other parse_items_bind bind_pres_assoc
        del: parse_items.simps(2))
  have "\<not> length s div 3 < 1" using s(1) by linarith
  then have kids: "children mem 42 (fast_run 42 (parse_at D mem (d + 1))) 1 s =
      bind_pres (parse_at D mem (d + 1) s) (\<lambda>v. Ok (Array (Some [v])))"
    using mem unfolding children_def run
    by (simp add: resp_aggregate_bytes_def RESP_VALUE_SIZE_def c_limits bind_pres_assoc aggregate_def)
  have "parse_at D mem d (one_array @ s) =
      counted mem 42 (fast_run 42 (parse_at D mem (d + 1))) (49 # CR # LF # s)"
    using d by (simp add: parse_at_eq [of D mem d] one_array_def line_def line_types_def
        blob_types_def aggregate_types_def)
  also have "\<dots> = children mem 42 (fast_run 42 (parse_at D mem (d + 1))) 1 s"
    by (simp add: counted_def ht len RESP_MAX_ARRAY_LEN_def)
  finally show ?thesis using kids by simp
qed

lemma parse_nested:
  assumes mem: "\<forall>n. mem n" and s: "3 \<le> length s" "hd s \<noteq> 36" and "d + k \<le> RESP_MAX_DEPTH"
  shows "(parse_at D mem (d + k) s = Bad \<longrightarrow> parse_at D mem d (concat (replicate k one_array) @ s) = Bad) \<and>
    (parse_at D mem (d + k) s = Ok v rest \<longrightarrow>
      (\<exists>w. parse_at D mem d (concat (replicate k one_array) @ s) = Ok w rest))"
  using assms(4)
proof (induction k arbitrary: d)
  case (Suc k)
  let ?t = "concat (replicate k one_array) @ s"
  have t: "3 \<le> length ?t" "hd ?t \<noteq> 36" using s by (cases k; simp add: one_array_def line_def)+
  have "parse_at D mem d (concat (replicate (Suc k) one_array) @ s) =
      bind_pres (parse_at D mem (d + 1) ?t) (\<lambda>v. Ok (Array (Some [v])))"
    using parse_one_array [OF _ mem t, of d D] Suc.prems by simp
  with Suc.IH [of "d + 1"] Suc.prems show ?case by auto
qed simp

text \<open>An array of two bulk strings whose second element has not arrived yet.\<close>

definition two_bulks_head :: bytes where
  "two_bulks_head = line 42 [50] @ line 36 [49] @ [97, CR, LF]"

definition two_bulks_tail :: bytes where
  "two_bulks_tail = line 36 [49] @ [98, CR, LF]"

lemma deepest_level:
  assumes mem: "\<forall>n. mem n"
  shows "parse_at D mem 512 two_bulks_head = Bad"
    and "parse_at D mem 512 (two_bulks_head @ two_bulks_tail) =
      Ok (Array (Some [BulkString (Some [97]), BulkString (Some [98])])) []"
proof -
  have len: "parse_bulk_len [50] = Some 2" "parse_bulk_len [49] = Some 1"
    by (simp_all add: parse_bulk_len_def is_digit_def digit_val_def RESP_MAX_ARRAY_LEN_def)
  have deep: "parse_at D mem 513 bs = Bad" for bs
    by (simp add: parse_at.simps [of D mem 513] RESP_MAX_DEPTH_def)
  note ev = parse_at.simps [of D mem 512] parse_aggregate_def crlf_scalar_eq len two_bulks_head_def
    two_bulks_tail_def line_def CR_def LF_def line_types_def blob_types_def aggregate_types_def
    RESP_MAX_DEPTH_def RESP_MAX_ARRAY_LEN_def resp_aggregate_bytes_def RESP_VALUE_SIZE_def
    c_limits Let_def aggregate_def deep
  have two: "bulk_run 2 = bulk_run (Suc (Suc 0))" by (simp add: numeral_2_eq_2)
  show "parse_at D mem 512 two_bulks_head = Bad"
    using mem by (simp add: ev two)
  show "parse_at D mem 512 (two_bulks_head @ two_bulks_tail) =
      Ok (Array (Some [BulkString (Some [97]), BulkString (Some [98])])) []"
    using mem by (simp add: ev two)
qed

section \<open>Properties\<close>

text \<open>Doubles in printed form, an instance of the C library's operations for the examples.\<close>

definition printed_doubles :: "bytes double_ops" where
  "printed_doubles =
     \<lparr>d_inf = ascii ''inf'', d_ninf = ascii ''-inf'', d_nan = ascii ''nan'',
      d_strtod = (\<lambda>s. (s, length s)), d_isinf = (\<lambda>v. v = ascii ''inf'' \<or> v = ascii ''-inf''),
      d_positive = (\<lambda>v. v = ascii ''inf''), d_isnan = (\<lambda>v. v = ascii ''nan''), d_fmt17g = id\<rparr>"

text \<open>
  C2: Round trip. When memory is available, \<open>resp_write_value\<close> appends some bytes \<open>w\<close> to the
  buffer, keeps what was there, stays within the capacity, and \<open>resp_parse\<close> on these bytes,
  whatever follows them, consumes exactly them and gives the value back. \<open>writable\<close> excludes
  the values the protocol cannot carry: line breaks in line types, lengths above the limits,
  nesting deeper than the limit, odd maps, and blob errors.
\<close>
theorem resp_write_parse:
  assumes "writable D 0 v" and "grants malloc" and "\<forall>n. mem n"
    and "length (rb_data b) + length (encode D v) \<le> SIZE_MAX"
  shows "\<exists>b' w. resp_write_value D malloc v b = Some b' \<and> rb_data b' = rb_data b @ w \<and>
    length (rb_data b') \<le> rb_cap b' \<and>
    resp_parse D mem (w @ rest) = (int (length w), Some v)"
proof -
  have "wrote (encode D v) b (resp_write_value D malloc v b)"
    by (rule write_value_ok) (use assms in auto)
  moreover have "resp_parse D mem (encode D v @ rest) = (int (length (encode D v)), Some v)"
    using parse_encode [OF assms(1,3), of rest] by (simp add: resp_parse_def)
  ultimately show ?thesis by (auto simp: wrote_def buf_ok_def)
qed

theorem resp_write_parse_witness:
  "\<exists>b' w. resp_write_value printed_doubles (\<lambda>n. Some n)
      (RespMap [SimpleString [107], Array (Some [Integer (-5), Double (ascii ''1.5'')])])
      resp_buf_init = Some b' \<and> rb_data b' = rb_data resp_buf_init @ w \<and>
    length (rb_data b') \<le> rb_cap b' \<and>
    resp_parse printed_doubles (\<lambda>_. True) (w @ [58]) =
      (int (length w), Some (RespMap [SimpleString [107], Array (Some [Integer (-5), Double (ascii ''1.5'')])]))"
  by (rule resp_write_parse)
    (simp_all add: grants_def plain_def double_ok_def printed_doubles_def ascii_Cons ascii_Nil CR_def
      LF_def c_limits RESP_MAX_DEPTH_def RESP_MAX_ARRAY_LEN_def ll_to_str_eq decimal.simps
      resp_buf_init_def)



text \<open>
  Incomplete input. On every strict prefix of what the writer produces for a value,
  \<open>resp_parse\<close> answers 0: it asks for more bytes and never reports a protocol error or a
  shorter value.
\<close>
theorem resp_prefix_incomplete:
  assumes "writable D 0 v" and "\<forall>n. mem n" and "encode D v = p @ q" and "q \<noteq> []"
  shows "resp_parse D mem p = (0, None)"
proof -
  have "parse_general D mem 0 (p @ q) = Ok v []"
    using general_encode [OF assms(1,2), of "[]"] assms(3) by simp
  then have "parse_general D mem 0 p = More"
    by (rule general.strict_prefix_incomplete [OF _ assms(4)])
  with parse_at_agrees [of D mem 0 p] show ?thesis by (simp add: resp_parse_def)
qed

text \<open>
  C26: Fast path. The inlined loop for arrays of bulk strings is an optimisation of the
  element-by-element recursion: wherever the recursion does not report a protocol error, the
  parser with the fast path gives the same answer, value and remaining bytes.
\<close>
theorem resp_fast_path_equivalent:
  assumes "parse_general D mem depth bs \<noteq> Bad"
  shows "parse_at D mem depth bs = parse_general D mem depth bs"
  by (rule parse_at_agrees [OF assms])

theorem resp_fast_path_equivalent_witness:
  "parse_at printed_doubles (\<lambda>_. True) 0 (encode printed_doubles (Array (Some [BulkString (Some [97])]))) =
   Ok (Array (Some [BulkString (Some [97])])) []"
proof -
  have g: "parse_general printed_doubles (\<lambda>_. True) 0
      (encode printed_doubles (Array (Some [BulkString (Some [97])])) @ []) =
    Ok (Array (Some [BulkString (Some [97])])) []"
    by (rule general_encode) (simp_all add: RESP_MAX_DEPTH_def RESP_MAX_ARRAY_LEN_def)
  then show ?thesis using resp_fast_path_equivalent [of printed_doubles "\<lambda>_. True" 0] by simp
qed

text \<open>
  C27: At the deepest level the two paths differ, and the answer depends on segmentation. A
  two-element array of bulk strings inside 512 arrays is accepted when it is received whole,
  although its elements are one level too deep for the recursion; when the read ends between
  the two elements, the same connection gets a protocol error.
\<close>
theorem resp_depth_limit_depends_on_segmentation:
  "\<exists>v. resp_parse D (\<lambda>_. True) (concat (replicate 512 one_array) @ two_bulks_head @ two_bulks_tail) =
     (int (length (concat (replicate 512 one_array) @ two_bulks_head @ two_bulks_tail)), Some v) \<and>
   resp_parse D (\<lambda>_. True) (concat (replicate 512 one_array) @ two_bulks_head) = (-1, None)"
proof -
  let ?m = "\<lambda>_::nat. True" and ?n = "concat (replicate 512 one_array)"
  have h: "3 \<le> length two_bulks_head" "hd two_bulks_head \<noteq> 36"
    "3 \<le> length (two_bulks_head @ two_bulks_tail)" "hd (two_bulks_head @ two_bulks_tail) \<noteq> 36"
    by (simp_all add: two_bulks_head_def line_def)
  have lim: "0 + 512 \<le> RESP_MAX_DEPTH" by (simp add: RESP_MAX_DEPTH_def)
  have bad: "parse_at D ?m 0 (?n @ two_bulks_head) = Bad"
    using parse_nested [OF _ h(1,2) lim, of ?m D] deepest_level(1) [of ?m D] by simp
  obtain v where "parse_at D ?m 0 (?n @ two_bulks_head @ two_bulks_tail) = Ok v []"
    using parse_nested [OF _ h(3,4) lim, of ?m D _ "[]"] deepest_level(2) [of ?m D]
    by (simp del: append_assoc) blast
  with bad show ?thesis by (simp add: resp_parse_def)
qed


end
