(* ===== verification/Glob.thy ===== *)
theory Glob
  imports Prelude
begin

text \<open>
  Glob patterns (\<open>ds/glob.c\<close>): the matcher as the code runs it, the language a pattern
  denotes, and their agreement.

  The matcher walks two pointers with remaining lengths; the model walks the two remaining
  byte lists. The result \<open>None\<close> stands for moving the string pointer beyond the end of the
  string, which has no defined result in C: the length wraps around to its largest value.
\<close>

section \<open>The matcher\<close>

text \<open>
  The class loop: \<open>c\<close> is the current character (\<open>None\<close> at the end of the string), \<open>m\<close> the
  flag \<open>match\<close>. The result is the flag and the pattern after the closing bracket, \<open>None\<close>
  when the class is not closed.
\<close>

fun glob_class :: "byte option \<Rightarrow> bool \<Rightarrow> bytes \<Rightarrow> (bool \<times> bytes) option" where
  "glob_class c m [] = None"
| "glob_class c m (x # xs) =
     (if x = 92 \<and> xs \<noteq> [] then glob_class c (m \<or> c = Some (hd xs)) (tl xs)
      else if x = 93 then Some (m, xs)
      else if 2 \<le> length xs \<and> hd xs = 45
      then glob_class c (m \<or> (case c of None \<Rightarrow> False | Some y \<Rightarrow> x \<le> y \<and> y \<le> xs ! 1)) (drop 2 xs)
      else glob_class c (m \<or> c = Some x) xs)"

definition first_char :: "bytes \<Rightarrow> byte option" where
  "first_char s = (case s of [] \<Rightarrow> None | x # _ \<Rightarrow> Some x)"

lemma glob_class_shorter: "glob_class c m cls = Some (m', rest) \<Longrightarrow> length rest < length cls"
  by (induction c m cls rule: glob_class.induct) (fastforce split: if_splits)+

function (sequential) ddup_glob_match :: "bytes \<Rightarrow> bytes \<Rightarrow> bool option"
  and glob_suffixes :: "bytes \<Rightarrow> bytes \<Rightarrow> bool option" where
  "ddup_glob_match pat str =
     (case pat of
        [] \<Rightarrow> Some (str = [])
      | p # ps \<Rightarrow>
          if p = 42
          then (let rest = dropWhile (\<lambda>x. x = 42) ps
                in if rest = [] then Some True else glob_suffixes rest str)
          else if p = 63
          then (if str = [] then Some False else ddup_glob_match ps (tl str))
          else if p = 91
          then (let neg = (ps \<noteq> [] \<and> hd ps = 94)
                in case glob_class (first_char str) False (if neg then tl ps else ps) of
                     None \<Rightarrow> Some False
                   | Some (m, rest) \<Rightarrow>
                       if neg = m then Some False
                       else if str = [] then None
                       else ddup_glob_match rest (tl str))
          else let (c, rest) = (if p = 92 \<and> ps \<noteq> [] then (hd ps, tl ps) else (p, ps))
               in if str = [] \<or> c \<noteq> hd str then Some False
                  else ddup_glob_match rest (tl str))"
| "glob_suffixes pat str =
     (case ddup_glob_match pat str of
        None \<Rightarrow> None
      | Some b \<Rightarrow>
          if b then Some True
          else if str = [] then Some False
          else glob_suffixes pat (tl str))"
  by pat_completeness auto

termination
  by (relation "measures [\<lambda>x. case x of Inl (p, s) \<Rightarrow> length p | Inr (p, s) \<Rightarrow> length p,
        \<lambda>x. case x of Inl _ \<Rightarrow> 0 | Inr _ \<Rightarrow> 1,
        \<lambda>x. case x of Inl (p, s) \<Rightarrow> length s | Inr (p, s) \<Rightarrow> length s]")
    (auto simp: less_Suc_eq_le length_dropWhile_le split: if_splits dest!: glob_class_shorter
      intro: le_imp_less_Suc)

declare ddup_glob_match.simps [simp del] glob_suffixes.simps [simp del]

lemmas glob_Cons = ddup_glob_match.simps [of "p # ps" for p ps, unfolded list.case]

section \<open>The language of a pattern\<close>

datatype class_item = One byte | Range byte byte

datatype glob_token = Star | AnyChar | Lit byte | CharClass bool "class_item list" | Unclosed

fun class_items :: "bytes \<Rightarrow> (class_item list \<times> bytes) option" where
  "class_items [] = None"
| "class_items (x # xs) =
     (if x = 92 \<and> xs \<noteq> [] then map_option (apfst (Cons (One (hd xs)))) (class_items (tl xs))
      else if x = 93 then Some ([], xs)
      else if 2 \<le> length xs \<and> hd xs = 45
      then map_option (apfst (Cons (Range x (xs ! 1)))) (class_items (drop 2 xs))
      else map_option (apfst (Cons (One x))) (class_items xs))"

fun item_has :: "class_item \<Rightarrow> byte \<Rightarrow> bool" where
  "item_has (One x) y \<longleftrightarrow> y = x"
| "item_has (Range x z) y \<longleftrightarrow> x \<le> y \<and> y \<le> z"

text \<open>The class loop is the parse of the class followed by a membership test.\<close>

lemma glob_class_items:
  "glob_class c m cls =
     map_option (apfst (\<lambda>items. m \<or> (\<exists>y. c = Some y \<and> (\<exists>it \<in> set items. item_has it y)))) (class_items cls)"
proof (induction c m cls rule: glob_class.induct)
  case (2 c m x xs)
  consider "x = 92 \<and> xs \<noteq> []" | "\<not> (x = 92 \<and> xs \<noteq> [])" "x = 93"
    | "\<not> (x = 92 \<and> xs \<noteq> [])" "x \<noteq> 93" "2 \<le> length xs \<and> hd xs = 45"
    | "\<not> (x = 92 \<and> xs \<noteq> [])" "x \<noteq> 93" "\<not> (2 \<le> length xs \<and> hd xs = 45)" by blast
  then show ?case
  proof cases
    case 1
    from "2.IH"(1) [OF 1] 1 show ?thesis
      by (cases "class_items (tl xs)") auto
  next
    case 2
    then show ?thesis by auto
  next
    case 3
    from "2.IH"(2) [OF 3] 3 show ?thesis
      by (cases "class_items (drop 2 xs)") (auto split: option.splits)
  next
    case 4
    from "2.IH"(3) [OF 4] 4 show ?thesis
      by (cases "class_items xs") auto
  qed
qed simp

lemma class_items_shorter: "class_items cls = Some (items, rest) \<Longrightarrow> length rest < length cls"
  by (induction cls arbitrary: items rule: class_items.induct) (fastforce split: if_splits)+

function glob_tokens :: "bytes \<Rightarrow> glob_token list" where
  "glob_tokens [] = []"
| "glob_tokens (p # ps) =
     (if p = 42 then Star # glob_tokens ps
      else if p = 63 then AnyChar # glob_tokens ps
      else if p = 91
      then (let neg = (ps \<noteq> [] \<and> hd ps = 94)
            in case class_items (if neg then tl ps else ps) of
                 None \<Rightarrow> [Unclosed]
               | Some (items, rest) \<Rightarrow> CharClass neg items # glob_tokens rest)
      else if p = 92 \<and> ps \<noteq> [] then Lit (hd ps) # glob_tokens (tl ps)
      else Lit p # glob_tokens ps)"
  by pat_completeness auto
termination
  by (relation "measure length") (auto split: if_splits dest!: class_items_shorter)

fun tokens_match :: "glob_token list \<Rightarrow> bytes \<Rightarrow> bool" where
  "tokens_match [] s \<longleftrightarrow> s = []"
| "tokens_match (Star # ts) s \<longleftrightarrow> (\<exists>i \<in> set [0..<length s + 1]. tokens_match ts (drop i s))"
| "tokens_match (AnyChar # ts) s \<longleftrightarrow> s \<noteq> [] \<and> tokens_match ts (tl s)"
| "tokens_match (Lit c # ts) s \<longleftrightarrow> s \<noteq> [] \<and> hd s = c \<and> tokens_match ts (tl s)"
| "tokens_match (CharClass neg items # ts) s \<longleftrightarrow>
     s \<noteq> [] \<and> (\<exists>it \<in> set items. item_has it (hd s)) \<noteq> neg \<and> tokens_match ts (tl s)"
| "tokens_match (Unclosed # ts) s \<longleftrightarrow> False"

definition negates :: "glob_token \<Rightarrow> bool" where
  "negates t = (case t of CharClass neg _ \<Rightarrow> neg | _ \<Rightarrow> False)"

lemma match_Star: "tokens_match (Star # ts) s \<longleftrightarrow> (\<exists>i \<le> length s. tokens_match ts (drop i s))"
proof -
  have "set [0..<length s + 1] = {..length s}" by auto
  then show ?thesis unfolding tokens_match.simps by (simp only:) auto
qed

lemma match_Star_unfold:
  "tokens_match (Star # ts) s \<longleftrightarrow> tokens_match ts s \<or> (s \<noteq> [] \<and> tokens_match (Star # ts) (tl s))"
proof (cases s)
  case (Cons x xs)
  have "(\<exists>i \<le> length s. tokens_match ts (drop i s)) \<longleftrightarrow>
      tokens_match ts s \<or> (\<exists>i \<le> length xs. tokens_match ts (drop i xs))"
    unfolding Cons by (metis Suc_le_mono drop0 drop_Suc_Cons le0 length_Cons not0_implies_Suc)
  then show ?thesis unfolding match_Star Cons by simp
qed simp

lemma match_Star_Star: "tokens_match (Star # Star # ts) s \<longleftrightarrow> tokens_match (Star # ts) s"
proof -
  have "tokens_match (Star # ts) (drop i s) \<Longrightarrow> tokens_match (Star # ts) s" for i
  proof (induction i arbitrary: s)
    case (Suc i)
    with match_Star_unfold [of ts s] show ?case by (cases s) (auto simp del: tokens_match.simps)
  qed simp
  moreover have "tokens_match (Star # ts) s \<Longrightarrow> tokens_match (Star # Star # ts) s"
    using match_Star_unfold [of "Star # ts" s] by blast
  ultimately show ?thesis unfolding match_Star [of "Star # ts"] by blast
qed

lemma tokens_stars:
  "tokens_match (Star # glob_tokens ps) s \<longleftrightarrow> tokens_match (Star # glob_tokens (dropWhile (\<lambda>x. x = 42) ps)) s"
  by (induction ps) (auto simp: match_Star_Star simp del: tokens_match.simps)

lemma tokens_stars_neg:
  "set (glob_tokens (dropWhile (\<lambda>x. x = 42) ps)) \<subseteq> set (glob_tokens ps)"
  by (induction ps) auto

section \<open>Agreement\<close>

definition agrees :: "bool option \<Rightarrow> glob_token list \<Rightarrow> bytes \<Rightarrow> bool" where
  "agrees r ts s \<longleftrightarrow> (case r of Some b \<Rightarrow> b = tokens_match ts s | None \<Rightarrow> \<exists>t \<in> set ts. negates t)"

lemma agrees_Some [simp]: "agrees (Some b) ts s \<longleftrightarrow> b = tokens_match ts s"
  by (simp add: agrees_def)

lemma agrees_step:
  assumes "agrees r ts s'" and "tokens_match (t # ts) s = tokens_match ts s'"
  shows "agrees r (t # ts) s"
  using assms by (auto simp: agrees_def split: option.splits)

lemma glob_agrees:
  "agrees (ddup_glob_match pat str) (glob_tokens pat) str"
  "agrees (glob_suffixes pat str) (Star # glob_tokens pat) str"
proof (induction pat str and pat str rule: ddup_glob_match_glob_suffixes.induct)
  case (1 pat str)
  show ?case
  proof (cases pat)
    case (Cons p ps)
    note ev = glob_Cons Cons
    consider "p = 42" | "p = 63" | "p = 91" | "p \<noteq> 42" "p \<noteq> 63" "p \<noteq> 91" by blast
    then show ?thesis
    proof cases
      case 1
      let ?rest = "dropWhile (\<lambda>x. x = 42) ps"
      show ?thesis
      proof (cases "?rest = []")
        case True
        have "tokens_match (Star # glob_tokens []) str"
          unfolding match_Star by (intro exI [of _ "length str"]) simp
        then have "tokens_match (Star # glob_tokens ps) str" by (simp only: tokens_stars [of ps] True)
        with 1 True show ?thesis by (simp add: ev del: tokens_match.simps)
      next
        case False
        have "agrees (glob_suffixes ?rest str) (Star # glob_tokens ?rest) str"
          using "1.IH"(1) [OF Cons 1 refl False] .
        then have "agrees (glob_suffixes ?rest str) (Star # glob_tokens ps) str"
          using tokens_stars_neg [of ps]
          by (auto simp: agrees_def tokens_stars [of ps] simp del: tokens_match.simps split: option.splits)
        with 1 False show ?thesis by (auto simp: ev simp del: tokens_match.simps)
      qed
    next
      case 2
      with "1.IH"(2) [OF Cons] show ?thesis
        by (auto simp: ev intro: agrees_step)
    next
      case 3
      define neg where "neg = (ps \<noteq> [] \<and> hd ps = 94)"
      define cls where "cls = (if neg then tl ps else ps)"
      show ?thesis
      proof (cases "class_items cls")
        case None
        with 3 show ?thesis
          by (simp add: ev Let_def glob_class_items flip: neg_def cls_def)
      next
        case (Some ir)
        obtain items rest where ir: "ir = (items, rest)" by fastforce
        let ?m = "\<exists>y. first_char str = Some y \<and> (\<exists>it \<in> set items. item_has it y)"
        have gc: "glob_class (first_char str) False cls = Some (?m, rest)"
          by (simp add: glob_class_items Some ir)
        have tok: "glob_tokens pat = CharClass neg items # glob_tokens rest"
          using 3 Some ir by (simp add: Cons Let_def flip: neg_def cls_def)
        have run: "ddup_glob_match pat str =
            (if neg = ?m then Some False else if str = [] then None else ddup_glob_match rest (tl str))"
          using 3 gc by (simp add: ev Let_def flip: neg_def cls_def)
        have IH: "agrees (ddup_glob_match rest (tl str)) (glob_tokens rest) (tl str)"
          if "neg \<noteq> ?m" "str \<noteq> []"
          using "1.IH"(3) [OF Cons _ _ _ neg_def gc [unfolded cls_def] refl that] 3 by simp
        show ?thesis
        proof (cases str)
          case Nil
          then show ?thesis unfolding tok run by (simp add: first_char_def agrees_def negates_def)
        next
          case (Cons x xs)
          then show ?thesis unfolding tok run using IH
            by (auto simp: first_char_def intro: agrees_step)
        qed
      qed
    next
      case 4
      with "1.IH"(4) [OF Cons 4 refl] show ?thesis
        by (auto simp: ev intro: agrees_step)
    qed
  qed (simp add: ddup_glob_match.simps)
next
  case (2 pat str)
  show ?case
  proof (cases "ddup_glob_match pat str")
    case None
    with "2.IH"(1) show ?thesis by (auto simp: glob_suffixes.simps [of pat str] agrees_def)
  next
    case (Some b)
    with "2.IH"(1) have b: "b = tokens_match (glob_tokens pat) str" by simp
    show ?thesis
    proof (cases "b \<or> str = []")
      case True
      with Some b show ?thesis
        using match_Star_unfold [of "glob_tokens pat" str]
        by (auto simp: glob_suffixes.simps [of pat str] simp del: tokens_match.simps)
    next
      case False
      with "2.IH"(2) [OF Some] have "agrees (glob_suffixes pat (tl str)) (Star # glob_tokens pat) (tl str)" by simp
      with Some b False show ?thesis
        using match_Star_unfold [of "glob_tokens pat" str]
        by (auto simp: glob_suffixes.simps [of pat str] agrees_def simp del: tokens_match.simps
            split: option.splits)
    qed
  qed
qed

section \<open>Properties\<close>

text \<open>
  C16: The matcher decides the language of the pattern: whenever it returns, its answer is
  whether the string is in the language that the tokens of the pattern denote (stars match
  any string, classes one character of or outside their items, an unclosed class nothing),
  and the only patterns for which it can run off the string are those with a negated class.
\<close>
theorem glob_decides_language:
  "case ddup_glob_match pat str of
     Some b \<Rightarrow> b = tokens_match (glob_tokens pat) str
   | None \<Rightarrow> \<exists>t \<in> set (glob_tokens pat). negates t"
  using glob_agrees(1) [of pat str] by (simp add: agrees_def)


end
