(* ===== verification/Repl.thy ===== *)
theory Repl
  imports Prelude
begin

text \<open>
  The replication backlog (\<open>server/repl.c\<close>): a ring buffer that keeps the newest bytes of the
  command stream of a master. The specification is the stream itself, the concatenation of
  everything appended: the ring always holds its newest bytes, and reads by absolute offset
  return the bytes of the stream at that offset.

  \<open>malloc n\<close> gives the initial content of a fresh block, of any content, or \<open>None\<close>. An output
  buffer is the list of bytes written to it; its length is the return value.
\<close>

record repl_backlog =
  bl_buf :: "bytes option"
  bl_cap :: nat
  bl_start :: nat
  bl_len :: nat
  bl_offset :: nat

definition ring_advance :: "nat \<Rightarrow> nat \<Rightarrow> nat \<Rightarrow> nat" where
  "ring_advance pos n cap = (let tail = cap - pos in if tail \<le> n then n - tail else pos + n)"

definition backlog_state_valid :: "repl_backlog \<Rightarrow> bool" where
  "backlog_state_valid b \<longleftrightarrow>
     bl_buf b \<noteq> None \<and> bl_cap b \<noteq> 0 \<and> bl_start b < bl_cap b \<and> bl_len b \<le> bl_cap b"

definition repl_backlog_init :: "(nat \<Rightarrow> bytes option) \<Rightarrow> nat \<Rightarrow> bool \<times> repl_backlog" where
  "repl_backlog_init malloc cap =
     (let b = \<lparr>bl_buf = None, bl_cap = 0, bl_start = 0, bl_len = 0, bl_offset = 0\<rparr>
      in if cap = 0 then (False, b)
         else case malloc cap of
                None \<Rightarrow> (False, b)
              | Some block \<Rightarrow> (True, b\<lparr>bl_buf := Some block, bl_cap := cap\<rparr>))"

definition repl_backlog_free :: "repl_backlog \<Rightarrow> repl_backlog" where
  "repl_backlog_free b =
     b\<lparr>bl_buf := None, bl_cap := 0, bl_start := 0, bl_len := 0, bl_offset := 0\<rparr>"

text \<open>The two \<open>memcpy\<close> calls that store \<open>data\<close> at \<open>pos\<close> and on from the start of the ring.\<close>

definition ring_store :: "bytes \<Rightarrow> nat \<Rightarrow> nat \<Rightarrow> bytes \<Rightarrow> bytes" where
  "ring_store buf cap pos data =
     (let tail = min (cap - pos) (length data);
          buf' = memcpy_at buf pos (take tail data)
      in if tail < length data then memcpy_at buf' 0 (drop tail data) else buf')"

definition ring_load :: "bytes \<Rightarrow> nat \<Rightarrow> nat \<Rightarrow> nat \<Rightarrow> bytes" where
  "ring_load buf cap pos n =
     (let tail = min (cap - pos) n
      in take tail (drop pos buf) @ (if tail < n then take (n - tail) buf else []))"

definition repl_backlog_append :: "repl_backlog \<Rightarrow> bytes \<Rightarrow> repl_backlog" where
  "repl_backlog_append b data =
     (if bl_buf b \<noteq> None \<and> \<not> backlog_state_valid b then b
      else
        let n = length data;
            b1 = b\<lparr>bl_offset := (if UINT64_MAX - bl_offset b < n then UINT64_MAX else bl_offset b + n)\<rparr>
        in case bl_buf b of
             None \<Rightarrow> b1
           | Some buf \<Rightarrow>
               if bl_cap b = 0 \<or> n = 0 then b1
               else
                 let (data, start, len) =
                       (if bl_cap b \<le> n then (drop (n - bl_cap b) data, 0, 0)
                        else (data, bl_start b, bl_len b));
                     n = length data;
                     (start, len) =
                       (if bl_cap b - len < n
                        then let dropped = n - (bl_cap b - len)
                             in (ring_advance start dropped (bl_cap b), len - dropped)
                        else (start, len));
                     pos = ring_advance start len (bl_cap b)
                 in b1\<lparr>bl_buf := Some (ring_store buf (bl_cap b) pos data),
                       bl_start := start, bl_len := len + n\<rparr>)"

definition repl_backlog_read :: "repl_backlog \<Rightarrow> nat \<Rightarrow> bytes" where
  "repl_backlog_read b limit =
     (case bl_buf b of
        None \<Rightarrow> []
      | Some buf \<Rightarrow>
          if \<not> backlog_state_valid b \<or> bl_len b = 0 \<or> limit = 0 then []
          else ring_load buf (bl_cap b) (bl_start b) (min (bl_len b) limit))"

definition repl_backlog_read_from :: "repl_backlog \<Rightarrow> nat \<Rightarrow> nat \<Rightarrow> bytes" where
  "repl_backlog_read_from b from_offset limit =
     (case bl_buf b of
        None \<Rightarrow> []
      | Some buf \<Rightarrow>
          if \<not> backlog_state_valid b \<or> bl_len b = 0 \<or> limit = 0 then []
          else if bl_offset b \<le> from_offset then []
          else
            let base = bl_offset b - bl_len b;
                distance = from_offset - base
            in if base < from_offset \<and> bl_len b \<le> distance then []
               else
                 let skip = (if from_offset \<le> base then 0 else distance);
                     n = min (bl_len b - skip) limit
                 in ring_load buf (bl_cap b) (ring_advance (bl_start b) skip (bl_cap b)) n)"

section \<open>The ring holds the newest bytes of the stream\<close>

definition newest :: "nat \<Rightarrow> 'a list \<Rightarrow> 'a list" where
  "newest n s = drop (length s - n) s"

lemma length_newest [simp]: "length (newest n s) = min n (length s)"
  by (simp add: newest_def)

lemma newest_append: "newest n (s @ t) = newest (n - length t) s @ newest n t"
  by (cases "length t \<le> n") (auto simp: newest_def)

definition backlog_holds :: "repl_backlog \<Rightarrow> bytes \<Rightarrow> bool" where
  "backlog_holds b s \<longleftrightarrow>
     (\<exists>buf. bl_buf b = Some buf \<and> length buf = bl_cap b \<and> 0 < bl_cap b \<and> bl_start b < bl_cap b \<and>
        bl_len b = min (bl_cap b) (length s) \<and> bl_offset b = min UINT64_MAX (length s) \<and>
        window buf (bl_start b) (bl_len b) = newest (bl_cap b) s)"

lemma ring_advance_mod:
  assumes "pos < cap" and "n \<le> cap"
  shows "ring_advance pos n cap = (pos + n) mod cap"
proof (cases "pos + n < cap")
  case True
  then show ?thesis by (auto simp: ring_advance_def Let_def)
next
  case False
  with assms have "(pos + n) mod cap = pos + n - cap" by (subst mod_if) (simp add: le_mod_geq)
  with assms False show ?thesis by (auto simp: ring_advance_def Let_def)
qed

lemma ring_load_window:
  assumes "pos < length buf" and "n \<le> length buf"
  shows "ring_load buf (length buf) pos n = window buf pos n"
  using window_split [OF assms] by (auto simp: ring_load_def Let_def)

lemma ring_store_length:
  assumes "pos < length buf" and "length data \<le> length buf"
  shows "length (ring_store buf (length buf) pos data) = length buf"
  using assms by (simp add: ring_store_def Let_def)

lemma ring_store_nth:
  assumes "pos < length buf" and "length data \<le> length buf" and "i < length buf"
  shows "ring_store buf (length buf) pos data ! ((pos + i) mod length buf) =
    (if i < length data then data ! i else buf ! ((pos + i) mod length buf))"
proof (cases "pos + i < length buf")
  case True
  with assms show ?thesis by (auto simp: ring_store_def Let_def nth_memcpy_at)
next
  case False
  with assms have "(pos + i) mod length buf = pos + i - length buf"
    by (subst mod_if) (simp add: le_mod_geq)
  with assms False show ?thesis by (auto simp: ring_store_def Let_def nth_memcpy_at)
qed

lemma ring_store_window:
  assumes "start < length buf" and "len + length data \<le> length buf"
  shows "window (ring_store buf (length buf) ((start + len) mod length buf) data) start (len + length data) =
    window buf start len @ data"
proof -
  let ?c = "length buf" and ?pos = "(start + len) mod length buf"
  let ?buf = "ring_store buf ?c ?pos data"
  have p: "?pos < ?c" using assms(1) by (intro mod_less_divisor) linarith
  have l: "length ?buf = ?c" using ring_store_length [OF p] assms by simp
  have old: "window ?buf start len = window buf start len"
  proof (rule window_cong [OF l])
    fix i assume "i < len"
    have "(?pos + (?c - len + i)) mod ?c = (start + len + (?c - len + i)) mod ?c"
      by (rule mod_add_left_eq)
    also have "start + len + (?c - len + i) = start + i + ?c" using assms(2) by simp
    finally have "(start + i) mod ?c = (?pos + (?c - len + i)) mod ?c" by simp
    moreover have "?c - len + i < ?c" "\<not> ?c - len + i < length data" using \<open>i < len\<close> assms(2) by auto
    ultimately show "?buf ! ((start + i) mod ?c) = buf ! ((start + i) mod ?c)"
      using ring_store_nth [OF p, of data "?c - len + i"] assms(2) by simp
  qed
  have new: "window ?buf (start + len) (length data) = data"
  proof (rule nth_equalityI)
    fix i assume "i < length (window ?buf (start + len) (length data))"
    then show "window ?buf (start + len) (length data) ! i = data ! i"
      using ring_store_nth [OF p, of data i] assms(2) l by (simp add: nth_window mod_simps)
  qed simp
  from old new show ?thesis by (simp add: window_append)
qed

text \<open>Making room: after dropping the oldest bytes the ring holds what is kept of the stream.\<close>

definition make_room :: "nat \<Rightarrow> nat \<Rightarrow> nat \<Rightarrow> nat \<Rightarrow> nat \<times> nat" where
  "make_room cap start len n =
     (if cap - len < n
      then let dropped = n - (cap - len) in (ring_advance start dropped cap, len - dropped)
      else (start, len))"

lemma make_room_keeps:
  assumes "start < length buf" and len: "len = min (length buf) (length s)" and n: "n \<le> length buf"
    and w: "window buf start len = newest (length buf) s"
    and room: "make_room (length buf) start len n = (start', len')"
  shows "start' < length buf" and "len' = min (length buf - n) (length s)"
    and "window buf start' len' = newest (length buf - n) s"
proof -
  let ?c = "length buf"
  have "start' < ?c \<and> len' = min (?c - n) (length s) \<and> window buf start' len' = newest (?c - n) s"
  proof (cases "?c - len < n")
    case True
    define d where "d = n - (?c - len)"
    have d: "d \<le> ?c" "d \<le> len" "d \<le> length s" using n len by (auto simp: d_def)
    have st: "start' = (start + d) mod ?c" "len' = len - d"
      using room True ring_advance_mod [OF assms(1) d(1)] by (auto simp: make_room_def d_def)
    have "window buf start' len' = drop d (newest ?c s)"
      by (simp add: st window_mod drop_window flip: w)
    moreover have "drop d (newest ?c s) = newest (?c - n) s"
    proof -
      have "length s - ?c + d = length s - (?c - n)" using len True n by (auto simp: d_def)
      then show ?thesis by (simp add: newest_def add.commute)
    qed
    moreover have "len' = min (?c - n) (length s)" using len True n by (auto simp: st d_def)
    moreover have "start' < ?c" unfolding st using assms(1) by (intro mod_less_divisor) linarith
    ultimately show ?thesis by simp
  next
    case False
    then have "start' = start" "len' = len" using room by (auto simp: make_room_def)
    moreover from False have "?c - n \<ge> length s \<or> n = 0" using len by auto
    ultimately show ?thesis using assms(1) len w by (auto simp: newest_def)
  qed
  then show "start' < ?c" "len' = min (?c - n) (length s)" "window buf start' len' = newest (?c - n) s"
    by auto
qed

lemma append_eq:
  assumes "bl_buf b = Some buf" and "backlog_state_valid b"
  shows "repl_backlog_append b data =
    (let b1 = b\<lparr>bl_offset := (if UINT64_MAX - bl_offset b < length data then UINT64_MAX
                              else bl_offset b + length data)\<rparr>;
         (start, len) = (if bl_cap b \<le> length data then (0, 0) else (bl_start b, bl_len b));
         kept = newest (bl_cap b) data;
         (start, len) = make_room (bl_cap b) start len (length kept)
     in if data = [] then b1
        else b1\<lparr>bl_buf := Some (ring_store buf (bl_cap b) (ring_advance start len (bl_cap b)) kept),
                bl_start := start, bl_len := len + length kept\<rparr>)"
  using assms
  by (auto simp: repl_backlog_append_def backlog_state_valid_def make_room_def newest_def Let_def
      split: if_splits)

lemma append_holds:
  assumes "backlog_holds b s"
  shows "backlog_holds (repl_backlog_append b data) (s @ data)"
proof -
  obtain buf where buf: "bl_buf b = Some buf" "bl_cap b = length buf" "buf \<noteq> []"
      "bl_start b < length buf" and len: "bl_len b = min (length buf) (length s)"
    and off: "bl_offset b = min UINT64_MAX (length s)"
    and w: "window buf (bl_start b) (bl_len b) = newest (length buf) s"
    using assms unfolding backlog_holds_def by (metis length_greater_0_conv)
  let ?c = "length buf"
  let ?t = "if ?c \<le> length data then [] else s"
  let ?kept = "newest ?c data"
  obtain start len where start: "(start, len) = (if ?c \<le> length data then (0, 0) else (bl_start b, bl_len b))"
    by (cases "?c \<le> length data") auto
  have st: "start < ?c" "len = min ?c (length ?t)" "window buf start len = newest ?c ?t"
    using start buf len w by (auto split: if_splits simp: newest_def)
  obtain start' len' where room: "make_room ?c start len (length ?kept) = (start', len')" by fastforce
  have k: "length ?kept \<le> ?c" by simp
  note mr = make_room_keeps [OF st(1,2) k st(3) room]
  have fit: "len' + length ?kept \<le> ?c" using mr(2) by auto
  have keep: "newest (?c - length ?kept) ?t = newest (?c - length data) s"
    by (auto simp: newest_def)
  have "newest ?c (s @ data) = newest (?c - length ?kept) ?t @ ?kept"
    unfolding keep by (rule newest_append)
  then have win: "window (ring_store buf ?c (ring_advance start' len' ?c) ?kept) start' (len' + length ?kept) =
      newest ?c (s @ data)"
    using ring_store_window [OF mr(1) fit] mr(3) ring_advance_mod [OF mr(1), of len'] fit by simp
  have "bl_offset (repl_backlog_append b data) = min UINT64_MAX (length (s @ data))"
    using buf len off by (auto simp: append_eq [OF buf(1)] backlog_state_valid_def Let_def split: prod.splits)
  moreover have "len' + length ?kept = min ?c (length (s @ data))"
    using arg_cong [OF win, of length] by simp
  moreover have "length (ring_store buf ?c (ring_advance start' len' ?c) ?kept) = ?c"
    using ring_store_length [of "ring_advance start' len' ?c" buf ?kept] ring_advance_mod [OF mr(1), of len'] fit buf(3)
    by simp
  moreover have "backlog_state_valid b" using buf len by (simp add: backlog_state_valid_def)
  moreover have "(if ?c \<le> length data then (0, 0) else (bl_start b, bl_len b)) = (start, len)"
    using start by simp
  ultimately show ?thesis
    using assms buf mr(1) win room
    by (cases "data = []") (auto simp: backlog_holds_def append_eq [OF buf(1)] Let_def)
qed

lemma init_holds:
  assumes "repl_backlog_init malloc cap = (True, b)" and "\<And>n m. malloc n = Some m \<Longrightarrow> length m = n"
  shows "backlog_holds b []"
  using assms by (auto simp: repl_backlog_init_def backlog_holds_def newest_def Let_def split: if_splits option.splits)

lemma appends_hold: "backlog_holds b s \<Longrightarrow> backlog_holds (foldl repl_backlog_append b ds) (s @ concat ds)"
proof (induction ds arbitrary: b s)
  case (Cons d ds)
  from Cons.IH [OF append_holds [OF Cons.prems, of d]] show ?case by simp
qed simp

lemma append_cap [simp]: "bl_cap (repl_backlog_append b data) = bl_cap b"
  by (simp add: repl_backlog_append_def Let_def split: option.split prod.split)

lemma appends_cap: "bl_cap (foldl repl_backlog_append b ds) = bl_cap b"
  by (induction ds arbitrary: b) simp_all

lemma holds_facts:
  assumes "backlog_holds b s"
  shows "bl_buf b = Some (the (bl_buf b))" and "backlog_state_valid b" and "bl_start b < bl_cap b"
    and "bl_len b = min (bl_cap b) (length s)" and "bl_offset b = min UINT64_MAX (length s)"
  using assms by (auto simp: backlog_holds_def backlog_state_valid_def)

lemma load_holds:
  assumes "backlog_holds b s" and "bl_buf b = Some buf" and "skip \<le> bl_len b"
  shows "ring_load buf (bl_cap b) (ring_advance (bl_start b) skip (bl_cap b)) (min (bl_len b - skip) limit) =
    take limit (drop skip (newest (bl_cap b) s))"
proof -
  have c: "bl_cap b = length buf" "bl_start b < length buf" "bl_len b \<le> length buf"
    and w: "window buf (bl_start b) (bl_len b) = newest (length buf) s"
    using assms(1,2) by (auto simp: backlog_holds_def)
  have adv: "ring_advance (bl_start b) skip (length buf) = (bl_start b + skip) mod length buf"
    using c assms(3) by (intro ring_advance_mod) auto
  have "(bl_start b + skip) mod length buf < length buf"
    using c by (intro mod_less_divisor) linarith
  moreover have "min (bl_len b - skip) limit \<le> length buf" using c by linarith
  ultimately show ?thesis
    by (simp add: c(1) adv ring_load_window window_mod drop_window take_window min.commute flip: w)
qed

lemma read_holds:
  assumes "backlog_holds b s"
  shows "repl_backlog_read b limit = take limit (newest (bl_cap b) s)"
proof -
  note h = holds_facts [OF assms]
  have adv: "ring_advance (bl_start b) 0 (bl_cap b) = bl_start b"
    using h(3) by (simp add: ring_advance_def Let_def)
  obtain buf where buf: "bl_buf b = Some buf" using h(1) by blast
  from adv have l: "ring_load buf (bl_cap b) (bl_start b) (min (bl_len b) limit) =
      take limit (newest (bl_cap b) s)"
    using load_holds [OF assms buf, of 0 limit] by simp
  show ?thesis
  proof (cases "bl_len b = 0")
    case True
    then have "newest (bl_cap b) s = []" using h(4) by (intro length_0_conv [THEN iffD1]) simp
    then show ?thesis using True by (simp add: repl_backlog_read_def split: option.split)
  next
    case False
    then show ?thesis using h(2) l by (simp add: repl_backlog_read_def buf)
  qed
qed

lemma read_from_holds:
  assumes "backlog_holds b s" and "length s \<le> UINT64_MAX" and "length s \<le> from + bl_cap b"
  shows "repl_backlog_read_from b from limit = take limit (drop from s)"
proof -
  note h = holds_facts [OF assms(1)]
  obtain buf where buf: "bl_buf b = Some buf" "backlog_state_valid b" "bl_offset b = length s"
    "bl_len b = min (bl_cap b) (length s)"
    using h assms(2) by (intro that [OF h(1) h(2) _ h(4)]) simp
  show ?thesis
  proof (cases "from < length s \<and> limit \<noteq> 0")
    case True
    define skip where "skip = from - (length s - bl_len b)"
    have skip: "skip \<le> bl_len b" "(if from \<le> length s - bl_len b then 0 else from - (length s - bl_len b)) = skip"
      "\<not> (length s - bl_len b < from \<and> bl_len b \<le> from - (length s - bl_len b))" "bl_len b \<noteq> 0"
      using True buf(4) assms(3) backlog_state_valid_def [of b] buf(2) by (auto simp: skip_def)
    have "\<not> length s \<le> from" "limit \<noteq> 0" using True by auto
    then have "repl_backlog_read_from b from limit = take limit (drop skip (newest (bl_cap b) s))"
      unfolding load_holds [OF assms(1) buf(1) skip(1), of limit, symmetric]
      by (simp only: repl_backlog_read_from_def Let_def buf(1-3) skip option.case if_False not_True_eq_False simp_thms)
    moreover have "skip + (length s - bl_cap b) = from"
      using buf(4) assms(3) by (auto simp: skip_def)
    ultimately show ?thesis by (simp add: newest_def)
  qed (use buf in \<open>auto simp: repl_backlog_read_from_def\<close>)
qed

section \<open>Properties\<close>

text \<open>
  C15: After any sequence of appends to a fresh backlog, the ring reads back as the newest
  bytes of the concatenation of everything appended, as many as the capacity holds, and the
  replication offset is the total number of bytes appended (stopping at its largest value).
\<close>
theorem backlog_is_newest_of_stream:
  assumes "\<And>n m. malloc n = Some m \<Longrightarrow> length m = n"
    and "repl_backlog_init malloc cap = (True, b)"
  shows "repl_backlog_read (foldl repl_backlog_append b ds) limit = take limit (newest cap (concat ds)) \<and>
    bl_offset (foldl repl_backlog_append b ds) = min UINT64_MAX (length (concat ds))"
proof -
  have h: "backlog_holds (foldl repl_backlog_append b ds) (concat ds)"
    using appends_hold [OF init_holds [OF assms(2,1)], of ds] by simp
  have "bl_cap b = cap"
    using assms(2) by (auto simp: repl_backlog_init_def Let_def split: if_splits option.splits)
  then have "bl_cap (foldl repl_backlog_append b ds) = cap" by (simp add: appends_cap)
  with read_holds [OF h, of limit] holds_facts(5) [OF h] show ?thesis by simp
qed

theorem backlog_is_newest_of_stream_witness:
  "repl_backlog_read (foldl repl_backlog_append
      (snd (repl_backlog_init (\<lambda>n. Some (replicate n 0)) 4)) [[1, 2, 3], [4, 5], [], [6]]) 3 = [3, 4, 5]"
  using backlog_is_newest_of_stream [of "\<lambda>n. Some (replicate n 0)" 4
      "snd (repl_backlog_init (\<lambda>n. Some (replicate n 0)) 4)" "[[1, 2, 3], [4, 5], [], [6]]" 3]
  by (simp add: repl_backlog_init_def newest_def)

text \<open>
  A partial resynchronisation reads the right bytes: from every absolute offset that is
  still covered by the ring, the read returns the bytes of the stream at that offset, and
  nothing at or past its end.
\<close>
theorem backlog_read_from_stream:
  assumes "\<And>n m. malloc n = Some m \<Longrightarrow> length m = n"
    and "repl_backlog_init malloc cap = (True, b)"
    and "length (concat ds) \<le> UINT64_MAX" and "length (concat ds) \<le> from + cap"
  shows "repl_backlog_read_from (foldl repl_backlog_append b ds) from limit =
    take limit (drop from (concat ds))"
proof -
  have h: "backlog_holds (foldl repl_backlog_append b ds) (concat ds)"
    using appends_hold [OF init_holds [OF assms(2,1)], of ds] by simp
  have "bl_cap b = cap"
    using assms(2) by (auto simp: repl_backlog_init_def Let_def split: if_splits option.splits)
  with assms(4) show ?thesis by (intro read_from_holds [OF h assms(3)]) (simp add: appends_cap)
qed

end
