(* ===== verification/Spsc.thy ===== *)
theory Spsc
  imports Prelude
begin

text \<open>
  The single-producer single-consumer ring of the worker threads (\<open>server/mt_spsc.h\<close>), and
  the wake-up protocol around it (\<open>mt_kick\<close>, \<open>mt_push_task\<close> and \<open>worker_on_wakeup\<close> in
  \<open>server/mt_server.c\<close>).

  The first part has the operations as a single thread runs them (the build with a mutex).
  The second part has the atomic accesses of the lock-free build as the actions of a
  transition system: every load, store and exchange is one action, and a schedule is any
  sequence of them. Memory is sequentially consistent; pointers are numbers and 0 is \<open>NULL\<close>.
\<close>

section \<open>The ring\<close>

record mt_spsc =
  q_buf :: "nat list"
  q_mask :: nat
  q_head :: nat
  q_tail :: nat

text \<open>The capacity loop of \<open>mt_spsc_init\<close>.\<close>

function ring_cap :: "nat \<Rightarrow> nat \<Rightarrow> nat" where
  "ring_cap min_cap cap = (if 0 < cap \<and> cap < min_cap then ring_cap min_cap (cap * 2) else cap)"
  by pat_completeness auto
termination by (relation "measure (\<lambda>(m, c). m - c)") auto

declare ring_cap.simps [simp del]

definition mt_spsc_init :: "nat \<Rightarrow> mt_spsc" where
  "mt_spsc_init min_cap =
     (let cap = ring_cap min_cap 16
      in \<lparr>q_buf = replicate cap 0, q_mask = cap - 1, q_head = 0, q_tail = 0\<rparr>)"

definition mt_spsc_push :: "mt_spsc \<Rightarrow> nat \<Rightarrow> int \<times> mt_spsc" where
  "mt_spsc_push q ptr =
     (let next = (q_tail q + 1) AND q_mask q
      in if next = q_head q then (-1, q)
         else (if q_tail q = q_head q then 1 else 0,
               q\<lparr>q_buf := (q_buf q)[q_tail q := ptr], q_tail := next\<rparr>))"

definition mt_spsc_pop :: "mt_spsc \<Rightarrow> nat \<times> mt_spsc" where
  "mt_spsc_pop q =
     (if q_head q = q_tail q then (0, q)
      else (q_buf q ! q_head q, q\<lparr>q_head := (q_head q + 1) AND q_mask q\<rparr>))"

definition mt_spsc_nonempty :: "mt_spsc \<Rightarrow> bool" where
  "mt_spsc_nonempty q \<longleftrightarrow> q_head q \<noteq> q_tail q"

section \<open>The threads\<close>

text \<open>
  Where the producer is in \<open>mt_push_task\<close>: the fields are its local variables. \<open>PStored\<close> is
  after the store into the slot, \<open>PKick\<close> before the exchange of \<open>mt_kick\<close> and \<open>PByte\<close> before
  the write to the wake-up pipe.
\<close>

datatype prod_pc =
    PIdle
  | PTail nat nat
  | PHead nat nat nat
  | PStored nat nat bool
  | PKick
  | PByte

text \<open>
  Where the consumer is in \<open>worker_on_wakeup\<close>: asleep in the event loop, after draining the
  pipe, in the pop loop, in the final test for leftovers, and in its own \<open>mt_kick\<close>.
\<close>

datatype cons_pc =
    CSleep
  | CDrained
  | CPop
  | CHead nat
  | CTail nat nat
  | CGot nat nat
  | CCheck
  | CCheckHead nat
  | CCheckTail nat nat
  | CKick
  | CByte

text \<open>
  The system: the ring, both threads, the latch \<open>kick_pending\<close>, the bytes in the pipe, and
  the number of other threads that have won the latch but not yet written their byte. The
  last two fields record history: the pointers published and those popped.
\<close>

record sys =
  ring :: mt_spsc
  ppc :: prod_pc
  cpc :: cons_pc
  kick_pending :: bool
  pipe :: nat
  others :: nat
  pushed :: "nat list"
  popped :: "nat list"

datatype action =
    Push nat | LoadHead | StoreSlot | PublishTail | ProducerExchange | ProducerByte
  | Wake | ResetLatch | PopLoadHead | PopLoadTail | PopRead | PopPublish | StopDraining
  | CheckLoadHead | CheckLoadTail | CheckDecide | ConsumerExchange | ConsumerByte
  | OtherExchange | OtherByte

fun producer_step :: "action \<Rightarrow> sys \<Rightarrow> sys option" where
  "producer_step (Push ptr) s =
     (case ppc s of PIdle \<Rightarrow> Some (s\<lparr>ppc := PTail ptr (q_tail (ring s))\<rparr>) | _ \<Rightarrow> None)"
| "producer_step LoadHead s =
     (case ppc s of
        PTail ptr tail \<Rightarrow> Some (s\<lparr>ppc := PHead ptr tail (q_head (ring s))\<rparr>)
      | _ \<Rightarrow> None)"
| "producer_step StoreSlot s =
     (case ppc s of
        PHead ptr tail head \<Rightarrow>
          (let next = (tail + 1) AND q_mask (ring s)
           in if next = head then Some (s\<lparr>ppc := PIdle\<rparr>)
              else Some (s\<lparr>ring := (ring s)\<lparr>q_buf := (q_buf (ring s))[tail := ptr]\<rparr>,
                           ppc := PStored ptr next (tail = head)\<rparr>))
      | _ \<Rightarrow> None)"
| "producer_step PublishTail s =
     (case ppc s of
        PStored ptr next was_empty \<Rightarrow>
          Some (s\<lparr>ring := (ring s)\<lparr>q_tail := next\<rparr>, ppc := PKick, pushed := pushed s @ [ptr]\<rparr>)
      | _ \<Rightarrow> None)"
| "producer_step ProducerExchange s =
     (case ppc s of
        PKick \<Rightarrow> Some (s\<lparr>ppc := (if kick_pending s then PIdle else PByte), kick_pending := True\<rparr>)
      | _ \<Rightarrow> None)"
| "producer_step ProducerByte s =
     (case ppc s of PByte \<Rightarrow> Some (s\<lparr>ppc := PIdle, pipe := pipe s + 1\<rparr>) | _ \<Rightarrow> None)"
| "producer_step _ s = None"

fun consumer_step :: "action \<Rightarrow> sys \<Rightarrow> sys option" where
  "consumer_step Wake s =
     (case cpc s of
        CSleep \<Rightarrow> if 0 < pipe s then Some (s\<lparr>cpc := CDrained, pipe := 0\<rparr>) else None
      | _ \<Rightarrow> None)"
| "consumer_step ResetLatch s =
     (case cpc s of CDrained \<Rightarrow> Some (s\<lparr>cpc := CPop, kick_pending := False\<rparr>) | _ \<Rightarrow> None)"
| "consumer_step PopLoadHead s =
     (case cpc s of CPop \<Rightarrow> Some (s\<lparr>cpc := CHead (q_head (ring s))\<rparr>) | _ \<Rightarrow> None)"
| "consumer_step PopLoadTail s =
     (case cpc s of CHead head \<Rightarrow> Some (s\<lparr>cpc := CTail head (q_tail (ring s))\<rparr>) | _ \<Rightarrow> None)"
| "consumer_step PopRead s =
     (case cpc s of
        CTail head tail \<Rightarrow>
          if head = tail then Some (s\<lparr>cpc := CCheck\<rparr>)
          else Some (s\<lparr>cpc := CGot head (q_buf (ring s) ! head)\<rparr>)
      | _ \<Rightarrow> None)"
| "consumer_step PopPublish s =
     (case cpc s of
        CGot head ptr \<Rightarrow>
          Some (s\<lparr>ring := (ring s)\<lparr>q_head := (head + 1) AND q_mask (ring s)\<rparr>,
                  cpc := CPop, popped := popped s @ [ptr]\<rparr>)
      | _ \<Rightarrow> None)"
| "consumer_step StopDraining s =
     (case cpc s of CPop \<Rightarrow> Some (s\<lparr>cpc := CCheck\<rparr>) | _ \<Rightarrow> None)"
| "consumer_step CheckLoadHead s =
     (case cpc s of CCheck \<Rightarrow> Some (s\<lparr>cpc := CCheckHead (q_head (ring s))\<rparr>) | _ \<Rightarrow> None)"
| "consumer_step CheckLoadTail s =
     (case cpc s of
        CCheckHead head \<Rightarrow> Some (s\<lparr>cpc := CCheckTail head (q_tail (ring s))\<rparr>)
      | _ \<Rightarrow> None)"
| "consumer_step CheckDecide s =
     (case cpc s of
        CCheckTail head tail \<Rightarrow> Some (s\<lparr>cpc := (if head \<noteq> tail then CKick else CSleep)\<rparr>)
      | _ \<Rightarrow> None)"
| "consumer_step ConsumerExchange s =
     (case cpc s of
        CKick \<Rightarrow> Some (s\<lparr>cpc := (if kick_pending s then CSleep else CByte), kick_pending := True\<rparr>)
      | _ \<Rightarrow> None)"
| "consumer_step ConsumerByte s =
     (case cpc s of CByte \<Rightarrow> Some (s\<lparr>cpc := CSleep, pipe := pipe s + 1\<rparr>) | _ \<Rightarrow> None)"
| "consumer_step _ s = None"

text \<open>Threads that kick this worker for another of its rings.\<close>

fun other_step :: "action \<Rightarrow> sys \<Rightarrow> sys option" where
  "other_step OtherExchange s =
     Some (s\<lparr>others := (if kick_pending s then others s else others s + 1), kick_pending := True\<rparr>)"
| "other_step OtherByte s =
     (if 0 < others s then Some (s\<lparr>others := others s - 1, pipe := pipe s + 1\<rparr>) else None)"
| "other_step _ s = None"

definition sys_init :: "nat \<Rightarrow> sys" where
  "sys_init min_cap =
     \<lparr>ring = mt_spsc_init min_cap, ppc = PIdle, cpc = CSleep, kick_pending = False, pipe = 0,
      others = 0, pushed = [], popped = []\<rparr>"

inductive reachable :: "nat \<Rightarrow> sys \<Rightarrow> bool" for min_cap where
  start: "reachable min_cap (sys_init min_cap)"
| producer: "reachable min_cap s \<Longrightarrow> producer_step a s = Some s' \<Longrightarrow> reachable min_cap s'"
| consumer: "reachable min_cap s \<Longrightarrow> consumer_step a s = Some s' \<Longrightarrow> reachable min_cap s'"
| other: "reachable min_cap s \<Longrightarrow> other_step a s = Some s' \<Longrightarrow> reachable min_cap s'"

section \<open>Invariants\<close>

abbreviation cap_of :: "sys \<Rightarrow> nat" where "cap_of s \<equiv> q_mask (ring s) + 1"
abbreviation npushed :: "sys \<Rightarrow> nat" where "npushed s \<equiv> length (pushed s)"
abbreviation npopped :: "sys \<Rightarrow> nat" where "npopped s \<equiv> length (popped s)"

text \<open>
  The indices are the history counters modulo the capacity, and the slots between them hold
  the published pointers that are not popped yet.
\<close>

definition ring_ok :: "sys \<Rightarrow> bool" where
  "ring_ok s \<longleftrightarrow>
     pow2 (cap_of s) \<and> length (q_buf (ring s)) = cap_of s \<and>
     q_head (ring s) = npopped s mod cap_of s \<and> q_tail (ring s) = npushed s mod cap_of s \<and>
     npopped s \<le> npushed s \<and> npushed s - npopped s < cap_of s \<and>
     popped s = take (npopped s) (pushed s) \<and>
     (\<forall>i. npopped s \<le> i \<and> i < npushed s \<longrightarrow> q_buf (ring s) ! (i mod cap_of s) = pushed s ! i)"

text \<open>A head the producer has loaded may be old, but the ring is not fuller than it says.\<close>

definition prod_ok :: "sys \<Rightarrow> bool" where
  "prod_ok s \<longleftrightarrow>
     (case ppc s of
        PTail ptr tail \<Rightarrow> tail = q_tail (ring s)
      | PHead ptr tail head \<Rightarrow>
          tail = q_tail (ring s) \<and>
          (\<exists>k \<le> npopped s. head = k mod cap_of s \<and> npushed s - k < cap_of s)
      | PStored ptr next was_empty \<Rightarrow>
          next = (npushed s + 1) mod cap_of s \<and> npushed s + 1 - npopped s < cap_of s \<and>
          q_buf (ring s) ! (npushed s mod cap_of s) = ptr
      | _ \<Rightarrow> True)"

definition cons_ok :: "sys \<Rightarrow> bool" where
  "cons_ok s \<longleftrightarrow>
     (case cpc s of
        CHead head \<Rightarrow> head = q_head (ring s)
      | CTail head tail \<Rightarrow>
          head = q_head (ring s) \<and> (\<exists>k. npopped s \<le> k \<and> k \<le> npushed s \<and> tail = k mod cap_of s)
      | CGot head ptr \<Rightarrow>
          head = q_head (ring s) \<and> npopped s < npushed s \<and> ptr = pushed s ! npopped s
      | CCheckHead head \<Rightarrow> head = q_head (ring s)
      | CCheckTail head tail \<Rightarrow> head = q_head (ring s)
      | _ \<Rightarrow> True)"

text \<open>A byte is in the pipe or some thread is on its way to write one.\<close>

definition coming :: "sys \<Rightarrow> bool" where
  "coming s \<longleftrightarrow> 0 < pipe s \<or> ppc s = PByte \<or> 0 < others s \<or> cpc s = CByte"

definition wake_ok :: "sys \<Rightarrow> bool" where
  "wake_ok s \<longleftrightarrow>
     (kick_pending s \<longrightarrow> coming s \<or> cpc s = CDrained) \<and>
     ((cpc s = CSleep \<or> (\<exists>h. cpc s = CCheckTail h h)) \<and> mt_spsc_nonempty (ring s) \<longrightarrow>
        coming s \<or> ppc s = PKick)"

definition sys_ok :: "sys \<Rightarrow> bool" where
  "sys_ok s \<longleftrightarrow> ring_ok s \<and> prod_ok s \<and> cons_ok s \<and> wake_ok s"

lemma ring_cap_pow2: "pow2 cap \<Longrightarrow> pow2 (ring_cap min_cap cap)"
proof (induction min_cap cap rule: ring_cap.induct)
  case (1 m c)
  then show ?case using pow2_double [of c] by (subst ring_cap.simps) (simp add: mult.commute)
qed

lemma init_ok: "sys_ok (sys_init min_cap)"
proof -
  have "pow2 16" using pow2_exp [of 4] by simp
  then have p: "pow2 (ring_cap min_cap 16)" by (rule ring_cap_pow2)
  then have "0 < ring_cap min_cap 16" by (rule pow2_pos)
  with p show ?thesis
    by (simp add: sys_ok_def ring_ok_def prod_ok_def cons_ok_def wake_ok_def coming_def sys_init_def
        mt_spsc_init_def mt_spsc_nonempty_def Let_def)
qed

lemma not_full:
  assumes "k \<le> n" and "n - k < c" and "(n + 1) mod c \<noteq> k mod c"
  shows "n + 1 - k < (c::nat)"
proof (rule ccontr)
  assume "\<not> n + 1 - k < c"
  with assms(1,2) have "n + 1 = k + c" by linarith
  with assms(3) show False by simp
qed

lemma mod_neq:
  assumes "a \<le> i" and "i < b" and "b - a < (c::nat)"
  shows "i mod c \<noteq> b mod c"
proof
  assume "i mod c = b mod c"
  then have "c dvd b - i" using assms by (metis less_imp_le mod_eq_dvd_iff_nat)
  then show False using assms by (auto dest: dvd_imp_le)
qed

lemma mask_mod: "ring_ok s \<Longrightarrow> i AND q_mask (ring s) = i mod cap_of s"
  using and_mask_mod [of "cap_of s" i] by (simp add: ring_ok_def)

lemma store_slot_ok:
  fixes e :: bool
  assumes ok: "ring_ok s" and p: "ppc s = PHead ptr tail head" "prod_ok s"
    and nf: "(tail + 1) AND q_mask (ring s) \<noteq> head"
  defines "s' \<equiv> s\<lparr>ring := (ring s)\<lparr>q_buf := (q_buf (ring s))[tail := ptr]\<rparr>,
                  ppc := PStored ptr ((tail + 1) AND q_mask (ring s)) e\<rparr>"
  shows "ring_ok s'" and "prod_ok s'"
proof -
  let ?c = "cap_of s"
  obtain k where k: "tail = npushed s mod ?c" "k \<le> npopped s" "head = k mod ?c" "npushed s - k < ?c"
    using p ok by (auto simp: prod_ok_def ring_ok_def)
  have next_eq: "(tail + 1) AND q_mask (ring s) = (npushed s + 1) mod ?c"
    unfolding mask_mod [OF ok] k(1) by (simp only: mod_simps)
  have le: "npopped s \<le> npushed s" using ok by (simp add: ring_ok_def)
  have room: "npushed s + 1 - npopped s < ?c"
    using not_full [of k "npushed s" ?c] k nf le unfolding next_eq by simp
  have "npushed s mod ?c \<noteq> i mod ?c" if "npopped s \<le> i" "i < npushed s" for i
    using mod_neq [OF that, of ?c] room by fastforce
  then show "ring_ok s'" using ok unfolding s'_def ring_ok_def k(1) by auto
  show "prod_ok s'"
    using room ok unfolding s'_def prod_ok_def next_eq by (simp add: ring_ok_def k(1))
qed

lemma publish_tail_ok:
  assumes ok: "ring_ok s" and p: "ppc s = PStored ptr next e" "prod_ok s"
  shows "ring_ok (s\<lparr>ring := (ring s)\<lparr>q_tail := next\<rparr>, ppc := PKick, pushed := pushed s @ [ptr]\<rparr>)"
proof -
  have "q_buf (ring s) ! (i mod cap_of s) = (pushed s @ [ptr]) ! i"
    if "npopped s \<le> i" "i < npushed s + 1" for i
    using that ok p by (cases "i = npushed s") (auto simp: ring_ok_def prod_ok_def nth_append)
  then show ?thesis using ok p by (auto simp: ring_ok_def prod_ok_def)
qed

lemma pop_publish_ok:
  assumes ok: "ring_ok s" and c: "cpc s = CGot head ptr" "cons_ok s"
  shows "ring_ok (s\<lparr>ring := (ring s)\<lparr>q_head := (head + 1) AND q_mask (ring s)\<rparr>,
                    cpc := CPop, popped := popped s @ [ptr]\<rparr>)"
proof -
  have h: "head = npopped s mod cap_of s" "npopped s < npushed s" "ptr = pushed s ! npopped s"
    using ok c by (auto simp: ring_ok_def cons_ok_def)
  have "(head + 1) AND q_mask (ring s) = (npopped s + 1) mod cap_of s"
    unfolding mask_mod [OF ok] h(1) by (simp only: mod_simps)
  moreover have "popped s @ [ptr] = take (npopped s + 1) (pushed s)"
    using ok h by (simp add: ring_ok_def take_Suc_conv_app_nth)
  moreover have "npushed s - (npopped s + 1) < cap_of s" using ok unfolding ring_ok_def by linarith
  ultimately show ?thesis using ok h(2) by (simp add: ring_ok_def)
qed

lemma pop_read_ok:
  assumes ok: "ring_ok s" and c: "cpc s = CTail head tail" "cons_ok s" and ne: "head \<noteq> tail"
  shows "npopped s < npushed s" and "q_buf (ring s) ! head = pushed s ! npopped s"
proof -
  obtain k where k: "npopped s \<le> k" "k \<le> npushed s" "tail = k mod cap_of s" "head = npopped s mod cap_of s"
    using c ok by (auto simp: cons_ok_def ring_ok_def)
  with ne have "npopped s \<noteq> k" by auto
  with k show lt: "npopped s < npushed s" by simp
  then show "q_buf (ring s) ! head = pushed s ! npopped s"
    using ok k(4) by (simp add: ring_ok_def)
qed

lemma producer_cases:
  assumes "producer_step a s = Some s'"
  obtains (push) ptr where "ppc s = PIdle" "s' = s\<lparr>ppc := PTail ptr (q_tail (ring s))\<rparr>"
  | (load) ptr tail where "ppc s = PTail ptr tail" "s' = s\<lparr>ppc := PHead ptr tail (q_head (ring s))\<rparr>"
  | (full) ptr tail head where "ppc s = PHead ptr tail head" "s' = s\<lparr>ppc := PIdle\<rparr>"
  | (store) ptr tail head where "ppc s = PHead ptr tail head" "(tail + 1) AND q_mask (ring s) \<noteq> head"
      "s' = s\<lparr>ring := (ring s)\<lparr>q_buf := (q_buf (ring s))[tail := ptr]\<rparr>,
              ppc := PStored ptr ((tail + 1) AND q_mask (ring s)) (tail = head)\<rparr>"
  | (publish) ptr nxt e where "ppc s = PStored ptr nxt e"
      "s' = s\<lparr>ring := (ring s)\<lparr>q_tail := nxt\<rparr>, ppc := PKick, pushed := pushed s @ [ptr]\<rparr>"
  | (skip) "ppc s = PKick" "kick_pending s" "s' = s\<lparr>ppc := PIdle, kick_pending := True\<rparr>"
  | (win) "ppc s = PKick" "\<not> kick_pending s" "s' = s\<lparr>ppc := PByte, kick_pending := True\<rparr>"
  | (byte) "ppc s = PByte" "s' = s\<lparr>ppc := PIdle, pipe := pipe s + 1\<rparr>"
proof (cases a)
  case (Push ptr)
  with assms push show ?thesis by (auto split: prod_pc.splits)
next
  case LoadHead
  with assms load show ?thesis by (auto split: prod_pc.splits)
next
  case StoreSlot
  with assms full store show ?thesis by (auto simp: Let_def split: prod_pc.splits if_splits)
next
  case PublishTail
  with assms publish show ?thesis by (auto split: prod_pc.splits)
next
  case ProducerExchange
  with assms skip win show ?thesis by (auto split: prod_pc.splits if_splits)
next
  case ProducerByte
  with assms byte show ?thesis by (auto split: prod_pc.splits)
qed (insert assms, simp_all)

lemma consumer_cases:
  assumes "consumer_step a s = Some s'"
  obtains (wake) "cpc s = CSleep" "0 < pipe s" "s' = s\<lparr>cpc := CDrained, pipe := 0\<rparr>"
  | (reset) "cpc s = CDrained" "s' = s\<lparr>cpc := CPop, kick_pending := False\<rparr>"
  | (head) "cpc s = CPop" "s' = s\<lparr>cpc := CHead (q_head (ring s))\<rparr>"
  | (tail) h where "cpc s = CHead h" "s' = s\<lparr>cpc := CTail h (q_tail (ring s))\<rparr>"
  | (null) h where "cpc s = CTail h h" "s' = s\<lparr>cpc := CCheck\<rparr>"
  | (read) h t where "cpc s = CTail h t" "h \<noteq> t" "s' = s\<lparr>cpc := CGot h (q_buf (ring s) ! h)\<rparr>"
  | (publish) h ptr where "cpc s = CGot h ptr"
      "s' = s\<lparr>ring := (ring s)\<lparr>q_head := (h + 1) AND q_mask (ring s)\<rparr>, cpc := CPop, popped := popped s @ [ptr]\<rparr>"
  | (stop) "cpc s = CPop" "s' = s\<lparr>cpc := CCheck\<rparr>"
  | (check) "cpc s = CCheck" "s' = s\<lparr>cpc := CCheckHead (q_head (ring s))\<rparr>"
  | (check2) h where "cpc s = CCheckHead h" "s' = s\<lparr>cpc := CCheckTail h (q_tail (ring s))\<rparr>"
  | (leftover) h t where "cpc s = CCheckTail h t" "h \<noteq> t" "s' = s\<lparr>cpc := CKick\<rparr>"
  | (sleep) h where "cpc s = CCheckTail h h" "s' = s\<lparr>cpc := CSleep\<rparr>"
  | (skip) "cpc s = CKick" "kick_pending s" "s' = s\<lparr>cpc := CSleep, kick_pending := True\<rparr>"
  | (win) "cpc s = CKick" "\<not> kick_pending s" "s' = s\<lparr>cpc := CByte, kick_pending := True\<rparr>"
  | (byte) "cpc s = CByte" "s' = s\<lparr>cpc := CSleep, pipe := pipe s + 1\<rparr>"
proof (cases a)
  case Wake
  with assms wake show ?thesis by (auto split: cons_pc.splits if_splits)
next
  case ResetLatch
  with assms reset show ?thesis by (auto split: cons_pc.splits if_splits)
next
  case PopLoadHead
  with assms head show ?thesis by (auto split: cons_pc.splits if_splits)
next
  case PopLoadTail
  with assms tail show ?thesis by (auto split: cons_pc.splits if_splits)
next
  case PopRead
  with assms null read show ?thesis by (auto split: cons_pc.splits if_splits)
next
  case PopPublish
  with assms publish show ?thesis by (auto split: cons_pc.splits if_splits)
next
  case StopDraining
  with assms stop show ?thesis by (auto split: cons_pc.splits if_splits)
next
  case CheckLoadHead
  with assms check show ?thesis by (auto split: cons_pc.splits if_splits)
next
  case CheckLoadTail
  with assms check2 show ?thesis by (auto split: cons_pc.splits if_splits)
next
  case CheckDecide
  with assms leftover sleep show ?thesis by (auto split: cons_pc.splits if_splits)
next
  case ConsumerExchange
  with assms skip win show ?thesis by (auto split: cons_pc.splits if_splits)
next
  case ConsumerByte
  with assms byte show ?thesis by (auto split: cons_pc.splits if_splits)
qed (insert assms, simp_all)

lemmas ok_defs = ring_ok_def prod_ok_def cons_ok_def wake_ok_def coming_def mt_spsc_nonempty_def

lemma producer_ring_ok:
  assumes "sys_ok s" and "producer_step a s = Some s'"
  shows "ring_ok s' \<and> prod_ok s'"
  using assms(2)
proof (cases rule: producer_cases)
  case (store ptr tail head)
  with assms(1) show ?thesis
    using store_slot_ok [of s ptr tail head] by (simp add: sys_ok_def)
next
  case (publish ptr nxt e)
  with assms(1) have "ring_ok s'" by (auto simp: sys_ok_def intro: publish_tail_ok)
  with publish show ?thesis by (simp add: prod_ok_def)
next
  case (load ptr tail)
  with assms(1) have "ring_ok s" "tail = q_tail (ring s)" by (auto simp: sys_ok_def prod_ok_def)
  with load show ?thesis by (auto simp: ok_defs)
qed (use assms(1) in \<open>simp_all add: sys_ok_def ring_ok_def prod_ok_def\<close>)

lemma producer_cons_ok:
  assumes "sys_ok s" and "producer_step a s = Some s'"
  shows "cons_ok s'"
  using assms(2)
proof (cases rule: producer_cases)
  case (publish ptr nxt e)
  then show ?thesis using assms(1)
    by (auto simp: sys_ok_def cons_ok_def nth_append le_SucI split: cons_pc.splits)
qed (use assms(1) in \<open>simp_all add: sys_ok_def cons_ok_def split: cons_pc.splits\<close>)

lemma producer_wake_ok:
  assumes "sys_ok s" and "producer_step a s = Some s'"
  shows "wake_ok s'"
  using assms(2) by (cases rule: producer_cases)
    (use assms(1) in \<open>auto simp: sys_ok_def wake_ok_def coming_def mt_spsc_nonempty_def\<close>)

lemma consumer_ring_ok:
  assumes "sys_ok s" and "consumer_step a s = Some s'"
  shows "ring_ok s' \<and> prod_ok s'"
  using assms(2)
proof (cases rule: consumer_cases)
  case (publish h ptr)
  have ok: "ring_ok s" "prod_ok s" "cons_ok s" using assms(1) by (auto simp: sys_ok_def)
  have "ring_ok s'" using pop_publish_ok [OF ok(1) publish(1) ok(3)] publish(2) by simp
  moreover have "npushed s - (npopped s + 1) < cap_of s" using ok(1) unfolding ring_ok_def by linarith
  then have "prod_ok s'" using ok(2) publish(2)
    by (auto simp: prod_ok_def split: prod_pc.splits intro: le_SucI)
  ultimately show ?thesis ..
qed (use assms(1) in \<open>simp_all add: sys_ok_def ring_ok_def prod_ok_def split: prod_pc.splits\<close>)

lemma consumer_cons_ok:
  assumes "sys_ok s" and "consumer_step a s = Some s'"
  shows "cons_ok s'"
  using assms(2)
proof (cases rule: consumer_cases)
  case (read h t)
  have ok: "ring_ok s" "cons_ok s" using assms(1) by (auto simp: sys_ok_def)
  from pop_read_ok [OF ok(1) read(1) ok(2) read(2)] ok read show ?thesis by (simp add: cons_ok_def)
next
  case (tail h)
  with assms(1) show ?thesis by (auto simp: sys_ok_def cons_ok_def ring_ok_def)
qed (use assms(1) in \<open>simp_all add: sys_ok_def cons_ok_def\<close>)

lemma consumer_wake_ok:
  assumes "sys_ok s" and "consumer_step a s = Some s'"
  shows "wake_ok s'"
  using assms(2) by (cases rule: consumer_cases)
    (use assms(1) in \<open>auto simp: sys_ok_def wake_ok_def coming_def mt_spsc_nonempty_def cons_ok_def\<close>)

lemma other_step_ok:
  assumes "sys_ok s" and "other_step a s = Some s'"
  shows "sys_ok s'"
proof -
  have eqs: "ring s' = ring s" "ppc s' = ppc s" "cpc s' = cpc s" "pushed s' = pushed s" "popped s' = popped s"
    using assms(2) by (cases a; auto split: if_splits)+
  have "wake_ok s'"
    using assms by (cases a) (auto simp: sys_ok_def wake_ok_def coming_def split: if_splits)
  with assms(1) show ?thesis unfolding sys_ok_def ring_ok_def prod_ok_def cons_ok_def eqs by simp
qed

lemma reachable_ok: "reachable min_cap s \<Longrightarrow> sys_ok s"
proof (induction rule: reachable.induct)
  case (producer s a s')
  then show ?case
    using producer_ring_ok producer_cons_ok producer_wake_ok unfolding sys_ok_def [of s'] by blast
next
  case (consumer s a s')
  then show ?case
    using consumer_ring_ok consumer_cons_ok consumer_wake_ok unfolding sys_ok_def [of s'] by blast
qed (auto intro: init_ok other_step_ok)

section \<open>The ring as a bounded queue\<close>

definition queue_len :: "mt_spsc \<Rightarrow> nat" where
  "queue_len q = (q_tail q + (q_mask q + 1) - q_head q) mod (q_mask q + 1)"

definition contents :: "mt_spsc \<Rightarrow> nat list" where
  "contents q = window (q_buf q) (q_head q) (queue_len q)"

definition spsc_inv :: "mt_spsc \<Rightarrow> bool" where
  "spsc_inv q \<longleftrightarrow> pow2 (q_mask q + 1) \<and> length (q_buf q) = q_mask q + 1 \<and>
     q_head q < q_mask q + 1 \<and> q_tail q < q_mask q + 1"

lemma ring_distance:
  assumes "h < c" and "n < (c::nat)"
  shows "((h + n) mod c + c - h) mod c = n"
proof (cases "h + n < c")
  case False
  with assms have "(h + n) mod c = h + n - c" by (subst mod_if) (simp add: le_mod_geq)
  with assms False show ?thesis by simp
qed (use assms in simp)

lemma tail_from_head:
  assumes "spsc_inv q"
  shows "queue_len q < q_mask q + 1" and "q_tail q = (q_head q + queue_len q) mod (q_mask q + 1)"
proof -
  let ?c = "q_mask q + 1"
  have "(q_head q + queue_len q) mod ?c = (q_head q + (q_tail q + ?c - q_head q)) mod ?c"
    unfolding queue_len_def by (rule mod_add_right_eq)
  also have "q_head q + (q_tail q + ?c - q_head q) = q_tail q + ?c" using assms by (simp add: spsc_inv_def)
  also have "(q_tail q + ?c) mod ?c = q_tail q mod ?c" by (rule mod_add_self2)
  also have "\<dots> = q_tail q" using assms by (simp add: spsc_inv_def)
  finally show "q_tail q = (q_head q + queue_len q) mod ?c" ..
  show "queue_len q < ?c" by (simp add: queue_len_def)
qed

lemma queue_len_zero: "spsc_inv q \<Longrightarrow> q_head q = q_tail q \<longleftrightarrow> queue_len q = 0"
proof
  assume inv: "spsc_inv q" and "queue_len q = 0"
  then show "q_head q = q_tail q" using tail_from_head(2) [OF inv] by (simp add: spsc_inv_def)
qed (simp add: queue_len_def)

lemma spsc_push_ok:
  assumes inv: "spsc_inv q"
  shows "fst (mt_spsc_push q ptr) =
      (if length (contents q) = q_mask q then -1 else if contents q = [] then 1 else 0) \<and>
    spsc_inv (snd (mt_spsc_push q ptr)) \<and> q_mask (snd (mt_spsc_push q ptr)) = q_mask q \<and>
    contents (snd (mt_spsc_push q ptr)) = (if length (contents q) = q_mask q then contents q else contents q @ [ptr])"
proof -
  let ?c = "q_mask q + 1" and ?n = "queue_len q"
  define nxt where "nxt = (q_tail q + 1) mod ?c"
  have masked: "(q_tail q + 1) AND q_mask q = nxt"
    using and_mask_mod [of ?c] inv by (simp add: spsc_inv_def nxt_def)
  have hd: "q_head q < ?c" "length (q_buf q) = ?c" using inv by (auto simp: spsc_inv_def)
  note t = tail_from_head [OF inv]
  have nxt: "nxt = (q_head q + (?n + 1)) mod ?c" unfolding nxt_def t(2) by (simp add: mod_simps)
  have full: "nxt = q_head q \<longleftrightarrow> ?n = q_mask q"
  proof
    assume "?n = q_mask q"
    then have "nxt = (q_head q + ?c) mod ?c" unfolding nxt by simp
    then show "nxt = q_head q" using hd(1) by (metis mod_add_self2 mod_less)
  next
    assume eq: "nxt = q_head q"
    show "?n = q_mask q"
    proof (rule ccontr)
      assume "?n \<noteq> q_mask q"
      then have "?n + 1 < ?c" using t(1) by simp
      then show False using ring_distance [OF hd(1), of "?n + 1"] eq nxt hd(1) by simp
    qed
  qed
  show ?thesis
  proof (cases "?n = q_mask q")
    case True
    then show ?thesis using inv masked full by (simp add: mt_spsc_push_def contents_def Let_def)
  next
    case False
    let ?q = "q\<lparr>q_buf := (q_buf q)[q_tail q := ptr], q_tail := nxt\<rparr>"
    have lt: "?n + 1 < ?c" using False t(1) by simp
    have push: "mt_spsc_push q ptr = (if q_tail q = q_head q then 1 else 0, ?q)"
      using False masked full by (simp add: mt_spsc_push_def Let_def)
    have len: "queue_len ?q = ?n + 1"
      using ring_distance [OF hd(1) lt] by (simp add: queue_len_def nxt)
    have "window (q_buf ?q) (q_head q) (?n + 1) = window (q_buf q) (q_head q) ?n @ [ptr]"
    proof (rule nth_equalityI)
      fix i assume "i < length (window (q_buf ?q) (q_head q) (?n + 1))"
      then have i: "i < ?n + 1" by simp
      show "window (q_buf ?q) (q_head q) (?n + 1) ! i = (window (q_buf q) (q_head q) ?n @ [ptr]) ! i"
      proof (cases "i = ?n")
        case True
        then show ?thesis using t(2) hd by (simp add: nth_window nth_append)
      next
        case neq: False
        then have "i < ?n" using i by simp
        then have "(q_head q + i) mod ?c \<noteq> (q_head q + ?n) mod ?c"
          using mod_neq [of "q_head q" "q_head q + i" "q_head q + ?n" ?c] t(1) by simp
        then have "q_tail q \<noteq> (q_head q + i) mod ?c" unfolding t(2) by simp
        then show ?thesis using \<open>i < ?n\<close> hd by (simp add: nth_window nth_append)
      qed
    qed simp
    then have "contents ?q = contents q @ [ptr]" by (simp add: contents_def len)
    moreover have "spsc_inv ?q" using inv by (simp add: spsc_inv_def nxt_def)
    moreover have "q_tail q = q_head q \<longleftrightarrow> contents q = []"
      using queue_len_zero [OF inv] by (auto simp: contents_def simp flip: length_0_conv)
    ultimately show ?thesis using False push by (simp add: contents_def)
  qed
qed

lemma spsc_pop_ok:
  assumes inv: "spsc_inv q"
  shows "fst (mt_spsc_pop q) = (case contents q of [] \<Rightarrow> 0 | x # _ \<Rightarrow> x) \<and>
    spsc_inv (snd (mt_spsc_pop q)) \<and> q_mask (snd (mt_spsc_pop q)) = q_mask q \<and>
    contents (snd (mt_spsc_pop q)) = tl (contents q)"
proof (cases "queue_len q")
  case 0
  then show ?thesis using inv queue_len_zero [OF inv] by (simp add: mt_spsc_pop_def contents_def)
next
  case (Suc n)
  let ?c = "q_mask q + 1"
  define nxt where "nxt = (q_head q + 1) mod ?c"
  have masked: "(q_head q + 1) AND q_mask q = nxt"
    using and_mask_mod [of ?c] inv by (simp add: spsc_inv_def nxt_def)
  have hd: "q_head q < ?c" "length (q_buf q) = ?c" using inv by (auto simp: spsc_inv_def)
  note t = tail_from_head [OF inv]
  have pop: "mt_spsc_pop q = (q_buf q ! q_head q, q\<lparr>q_head := nxt\<rparr>)"
    using Suc queue_len_zero [OF inv] masked by (simp add: mt_spsc_pop_def)
  have nlt: "nxt < ?c" unfolding nxt_def by (rule mod_less_divisor) simp
  have "q_tail q = (nxt + n) mod ?c" unfolding t(2) nxt_def Suc by (simp add: mod_simps)
  then have len: "queue_len (q\<lparr>q_head := nxt\<rparr>) = n"
    using ring_distance [OF nlt, of n] t(1) Suc by (simp add: queue_len_def)
  have "contents q = q_buf q ! q_head q # window (q_buf q) (q_head q + 1) n"
    using window_append [of "q_buf q" "q_head q" 1 n] hd by (simp add: contents_def Suc window_def)
  moreover have "contents (q\<lparr>q_head := nxt\<rparr>) = window (q_buf q) (q_head q + 1) n"
    using window_mod [of "q_buf q" "q_head q + 1" n] hd unfolding contents_def len by (simp add: nxt_def)
  ultimately show ?thesis using inv nlt by (simp add: pop spsc_inv_def)
qed

datatype queue_op = QPush nat | QPop

fun spsc_exec :: "mt_spsc \<Rightarrow> queue_op \<Rightarrow> (int \<times> mt_spsc) option" where
  "spsc_exec q (QPush ptr) = Some (mt_spsc_push q ptr)"
| "spsc_exec q QPop = Some (apfst int (mt_spsc_pop q))"

fun queue_spec :: "nat \<times> nat list \<Rightarrow> queue_op \<Rightarrow> int \<times> (nat \<times> nat list)" where
  "queue_spec (m, xs) (QPush ptr) =
     (if length xs = m then (-1, m, xs) else (if xs = [] then 1 else 0, m, xs @ [ptr]))"
| "queue_spec (m, xs) QPop = (case xs of [] \<Rightarrow> (0, m, []) | x # ys \<Rightarrow> (int x, m, ys))"

interpretation spsc: data_refinement spsc_inv "\<lambda>q. (q_mask q, contents q)" "\<lambda>_ _. True" spsc_exec queue_spec
proof (unfold_locales, goal_cases)
  case (1 q op)
  show ?case
  proof (cases op)
    case (QPush ptr)
    with spsc_push_ok [OF 1(1), of ptr] show ?thesis
      by (cases "mt_spsc_push q ptr") auto
  next
    case QPop
    with spsc_pop_ok [OF 1(1)] show ?thesis
      by (cases "mt_spsc_pop q"; cases "contents q") auto
  qed
qed

lemma spsc_init_inv: "spsc_inv (mt_spsc_init n)" and spsc_init_contents: "contents (mt_spsc_init n) = []"
proof -
  have "pow2 16" using pow2_exp [of 4] by simp
  then have p: "pow2 (ring_cap n 16)" by (rule ring_cap_pow2)
  with pow2_pos [OF p] show "spsc_inv (mt_spsc_init n)"
    by (simp add: spsc_inv_def mt_spsc_init_def Let_def)
  show "contents (mt_spsc_init n) = []"
    by (simp add: contents_def queue_len_def mt_spsc_init_def Let_def)
qed

lemma run_always_safe: "run_safe (\<lambda>_ _. True) exec s ops"
  by (induction ops arbitrary: s) (auto split: option.splits)

section \<open>Properties\<close>

text \<open>
  C13: First in, first out, under every interleaving of the loads and stores of the two
  threads: what the consumer has taken, followed by what is in the ring between head and
  tail, is exactly what the producer has published, in order. Nothing is lost, duplicated
  or overwritten.
\<close>
theorem spsc_fifo:
  assumes "reachable min_cap s"
  shows "popped s @ contents (ring s) = pushed s"
proof -
  have ok: "ring_ok s" using reachable_ok [OF assms] by (simp add: sys_ok_def)
  let ?n = "npushed s - npopped s"
  have c: "length (q_buf (ring s)) = cap_of s" "npopped s \<le> npushed s" "?n < cap_of s"
    using ok by (auto simp: ring_ok_def)
  have h: "q_head (ring s) = npopped s mod cap_of s" "q_tail (ring s) = (npopped s + ?n) mod cap_of s"
    using ok by (auto simp: ring_ok_def)
  have "q_tail (ring s) = (q_head (ring s) + ?n) mod cap_of s" unfolding h by (rule mod_add_left_eq [symmetric])
  moreover have "q_head (ring s) < cap_of s" unfolding h by (rule mod_less_divisor) simp
  ultimately have len: "queue_len (ring s) = ?n"
    using ring_distance [of "q_head (ring s)" "cap_of s" ?n] c by (simp add: queue_len_def)
  have "contents (ring s) = drop (npopped s) (pushed s)"
  proof (rule nth_equalityI)
    fix i assume "i < length (contents (ring s))"
    then have i: "i < ?n" by (simp add: contents_def len)
    then have "contents (ring s) ! i = q_buf (ring s) ! ((npopped s + i) mod cap_of s)"
      using ok by (simp add: contents_def len nth_window ring_ok_def mod_simps)
    with i ok show "contents (ring s) ! i = drop (npopped s) (pushed s) ! i" by (simp add: ring_ok_def)
  qed (simp add: contents_def len)
  moreover have "popped s = take (npopped s) (pushed s)" using ok by (simp add: ring_ok_def)
  ultimately show ?thesis by (metis append_take_drop_id)
qed

text \<open>One push with its kick, run alone from the start.\<close>

definition after_push :: sys where
  "after_push = (sys_init 16)\<lparr>ring := (mt_spsc_init 16)\<lparr>q_buf := (replicate 16 0)[0 := 7], q_tail := 1\<rparr>,
     kick_pending := True, pipe := 1, pushed := [7]\<rparr>"

lemma reachable_run:
  assumes "reachable min_cap s" and "foldl (\<lambda>r a. Option.bind r (producer_step a)) (Some s) as = Some s'"
  shows "reachable min_cap s'"
proof -
  have none: "foldl (\<lambda>r a. Option.bind r (producer_step a)) None as = None" for as
    by (induction as) simp_all
  from assms show ?thesis
  proof (induction as arbitrary: s)
    case (Cons a as)
    then obtain t where "producer_step a s = Some t" using none [of as] by (cases "producer_step a s") auto
    with Cons show ?case by (auto intro: reachable.producer)
  qed simp
qed

lemma reachable_after_push: "reachable 16 after_push"
proof (rule reachable_run [OF reachable.start])
  have "ring_cap 16 16 = 16" by (simp add: ring_cap.simps)
  moreover have "(1 AND 15 :: nat) = 1" using and_mask_mod [of 16 1] pow2_exp [of 4] by simp
  ultimately show "foldl (\<lambda>r a. Option.bind r (producer_step a)) (Some (sys_init 16))
      [Push 7, LoadHead, StoreSlot, PublishTail, ProducerExchange, ProducerByte] = Some after_push"
    by (simp add: sys_init_def mt_spsc_init_def after_push_def Let_def)
qed

theorem spsc_fifo_witness: "popped after_push @ contents (ring after_push) = [7]"
  using spsc_fifo [OF reachable_after_push] by (simp add: after_push_def)

text \<open>
  C12: No wake-up is lost. Whenever the worker is asleep with work in its ring, a byte is in
  its wake-up pipe, so the event loop returns, as soon as no thread is in the middle of a
  push or a kick. This holds although kicks are deduplicated by the latch \<open>kick_pending\<close>.
\<close>
theorem spsc_no_lost_wakeup:
  assumes "reachable min_cap s" and "cpc s = CSleep" and "mt_spsc_nonempty (ring s)"
    and "ppc s = PIdle" and "others s = 0"
  shows "0 < pipe s"
  using reachable_ok [OF assms(1)] assms(2-5) by (simp add: sys_ok_def wake_ok_def coming_def)

theorem spsc_no_lost_wakeup_witness:
  "mt_spsc_nonempty (ring after_push) \<and> 0 < pipe after_push"
proof -
  have "mt_spsc_nonempty (ring after_push)" "cpc after_push = CSleep" "ppc after_push = PIdle" "others after_push = 0"
    by (simp_all add: mt_spsc_nonempty_def after_push_def sys_init_def mt_spsc_init_def Let_def)
  with spsc_no_lost_wakeup [OF reachable_after_push] show ?thesis by simp
qed

text \<open>
  Used by one thread at a time, the ring is a bounded queue of \<open>cap - 1\<close> elements: every
  sequence of pushes and pops on a fresh ring returns, result by result, what the queue
  returns (1, 0 or -1 for a push, the oldest element or \<open>NULL\<close> for a pop).
\<close>
theorem spsc_refines_bounded_queue:
  "\<exists>rs q. run_ops spsc_exec (mt_spsc_init n) ops = Some (rs, q) \<and>
     run_spec queue_spec (q_mask (mt_spsc_init n), []) ops = (rs, q_mask q, contents q)"
  using spsc.run_refines [OF spsc_init_inv [of n] run_always_safe, of ops] spsc_init_contents [of n]
  by auto

end
