(* ===== verification/Listpack.thy ===== *)
theory Listpack
  imports Resp_Numbers
begin

text \<open>
  Listpacks (\<open>ds/listpack.c\<close>): a list of strings in one block of memory, with a header,
  variable-length entries that can be walked in both directions, and small integers in a
  compact form.

  A listpack is the list of its bytes. A pointer into it is an offset, \<open>None\<close> is \<open>NULL\<close>; the
  decoder, which gets a pointer only, takes the bytes from there on. Operations that end the
  process (\<open>exit\<close> on an oversized listpack or a deletion at the end marker) return \<open>None\<close>.
\<close>

definition LP_HDR_SIZE :: nat where "LP_HDR_SIZE = 6"
definition LP_NUMELE_UNKNOWN :: nat where "LP_NUMELE_UNKNOWN = 65535"
definition LP_EOF :: byte where "LP_EOF = 255"

section \<open>Header\<close>

definition lp_load_total :: "bytes \<Rightarrow> nat" where
  "lp_load_total lp = le_nat (take 4 lp)"

definition lp_store_total :: "bytes \<Rightarrow> nat \<Rightarrow> bytes" where
  "lp_store_total lp n = le_bytes 4 n @ drop 4 lp"

definition lp_load_numele :: "bytes \<Rightarrow> nat" where
  "lp_load_numele lp = le_nat (take 2 (drop 4 lp))"

definition lp_store_numele :: "bytes \<Rightarrow> nat \<Rightarrow> bytes" where
  "lp_store_numele lp n = take 4 lp @ le_bytes 2 n @ drop 6 lp"

section \<open>Entry sizes\<close>

definition lp_entry_payload_size :: "bytes \<Rightarrow> nat \<Rightarrow> nat" where
  "lp_entry_payload_size lp p =
     (let total = lp_load_total lp; b = lp ! p; avail = total - p
      in if b AND 0x80 = 0 then 1
         else if b AND 0xC0 = 0x80 then 1 + unat (b AND 0x3F)
         else if b AND 0xE0 = 0xC0 then 2
         else if b AND 0xF0 = 0xE0
         then (if avail < 2 then UINT64_MAX
               else 2 + (unat (b AND 0x0F) * 256 + unat (lp ! (p + 1))))
         else if b = 0xF0
         then (if avail < 5 then UINT64_MAX else 5 + le_nat (take 4 (drop (p + 1) lp)))
         else if b = 0xF1 then 3
         else if b = 0xF2 then 4
         else if b = 0xF3 then 5
         else if b = 0xF4 then 9
         else UINT64_MAX)"

definition lp_backlen_size :: "nat \<Rightarrow> nat" where
  "lp_backlen_size entrylen =
     (if entrylen \<le> 127 then 1
      else if entrylen < 16383 then 2
      else if entrylen < 2097151 then 3
      else if entrylen < 268435455 then 4
      else 5)"

text \<open>One continuation byte of a backlen: the low seven bits with the top bit set.\<close>

definition cont_byte :: "nat \<Rightarrow> byte" where
  "cont_byte n = (of_nat n AND 127) OR 128"

definition lp_encode_backlen :: "nat \<Rightarrow> bytes" where
  "lp_encode_backlen l =
     (if l \<le> 127 then [of_nat l]
      else if l < 16383 then [of_nat (l div 2 ^ 7), cont_byte l]
      else if l < 2097151 then [of_nat (l div 2 ^ 14), cont_byte (l div 2 ^ 7), cont_byte l]
      else if l < 268435455
      then [of_nat (l div 2 ^ 21), cont_byte (l div 2 ^ 14), cont_byte (l div 2 ^ 7), cont_byte l]
      else [of_nat (l div 2 ^ 28), cont_byte (l div 2 ^ 21), cont_byte (l div 2 ^ 14),
            cont_byte (l div 2 ^ 7), cont_byte l])"

function backlen_loop :: "bytes \<Rightarrow> nat \<Rightarrow> nat \<Rightarrow> nat \<Rightarrow> nat" where
  "backlen_loop lp q val shift =
     (if q < LP_HDR_SIZE then UINT64_MAX
      else
        let b = lp ! q; val = val + unat (b AND 127) * 2 ^ shift
        in if b AND 128 = 0 then val
           else if 28 < shift + 7 then UINT64_MAX
           else backlen_loop lp (q - 1) val (shift + 7))"
  by pat_completeness auto
termination by (relation "measure (\<lambda>(lp, q, val, shift). 35 - shift)") auto

declare backlen_loop.simps [simp del]

definition lp_decode_backlen :: "bytes \<Rightarrow> nat \<Rightarrow> nat" where
  "lp_decode_backlen lp p = backlen_loop lp (p - 1) 0 0"

section \<open>Canonical integers\<close>

fun int64_digits :: "nat \<Rightarrow> nat \<Rightarrow> bytes \<Rightarrow> nat option" where
  "int64_digits limit v [] = Some v"
| "int64_digits limit v (c # cs) =
     (if \<not> is_digit c then None
      else if (limit - digit_val c) div 10 < v then None
      else int64_digits limit (v * 10 + digit_val c) cs)"

definition lp_str_to_int64 :: "bytes \<Rightarrow> int option" where
  "lp_str_to_int64 s =
     (if length s = 0 \<or> 20 < length s then None
      else
        let neg = (hd s = 45); body = (if neg then tl s else s)
        in if neg \<and> length s = 1 then None
           else if hd body = 48 \<and> 1 < length body then None
           else
             case int64_digits (nat LLONG_MAX + (if neg then 1 else 0)) 0 body of
               None \<Rightarrow> None
             | Some v \<Rightarrow>
                 if neg \<and> v = 0 then None
                 else if neg
                 then Some (if v = nat LLONG_MAX + 1 then LLONG_MIN else - int v)
                 else Some (int v))"

section \<open>Navigation\<close>

definition lp_new :: bytes where
  "lp_new = le_bytes 4 (LP_HDR_SIZE + 1) @ le_bytes 2 0 @ [LP_EOF]"

definition lp_bytes :: "bytes \<Rightarrow> nat" where
  "lp_bytes lp = lp_load_total lp"

definition lp_first :: "bytes \<Rightarrow> nat option" where
  "lp_first lp = (if lp ! LP_HDR_SIZE = LP_EOF then None else Some LP_HDR_SIZE)"

definition lp_next :: "bytes \<Rightarrow> nat \<Rightarrow> nat option" where
  "lp_next lp p =
     (let total = lp_load_total lp; esz = lp_entry_payload_size lp p
      in if esz = UINT64_MAX then None
         else
           let entry_total = esz + lp_backlen_size esz
           in if total \<le> p + entry_total then None
              else if lp ! (p + entry_total) = LP_EOF then None
              else Some (p + entry_total))"

definition lp_prev :: "bytes \<Rightarrow> nat \<Rightarrow> nat option" where
  "lp_prev lp p =
     (if p \<le> LP_HDR_SIZE then None
      else
        let backlen = lp_decode_backlen lp p
        in if backlen = UINT64_MAX then None
           else
             let blen_size = lp_backlen_size backlen
             in if p < backlen + blen_size then None
                else if p - backlen - blen_size < LP_HDR_SIZE then None
                else Some (p - backlen - blen_size))"

definition lp_last :: "bytes \<Rightarrow> nat option" where
  "lp_last lp =
     (let eof = lp_load_total lp - 1
      in if eof = LP_HDR_SIZE then None else lp_prev lp eof)"

text \<open>The scan of \<open>lp_length\<close> when the count in the header is saturated.\<close>

function lp_count :: "bytes \<Rightarrow> nat option \<Rightarrow> nat" where
  "lp_count lp None = 0"
| "lp_count lp (Some p) = Suc (lp_count lp (lp_next lp p))"
  by pat_completeness auto
termination
  by (relation "measure (\<lambda>(lp, p). case p of None \<Rightarrow> 0 | Some p \<Rightarrow> Suc (lp_load_total lp - p))")
    (auto simp: lp_next_def lp_backlen_size_def Let_def split: option.splits if_splits)

definition lp_length :: "bytes \<Rightarrow> nat" where
  "lp_length lp =
     (let n = lp_load_numele lp
      in if n \<noteq> LP_NUMELE_UNKNOWN then n else lp_count lp (lp_first lp))"

text \<open>The loops of \<open>lp_seek\<close>: \<open>n\<close> steps from a position, stopping at \<open>NULL\<close>.\<close>

fun walk :: "(nat \<Rightarrow> nat option) \<Rightarrow> nat \<Rightarrow> nat option \<Rightarrow> nat option" where
  "walk step 0 p = p"
| "walk step (Suc n) p = (case p of None \<Rightarrow> None | Some q \<Rightarrow> walk step n (step q))"

definition lp_seek :: "bytes \<Rightarrow> int \<Rightarrow> nat option" where
  "lp_seek lp index =
     (let numele = lp_load_numele lp
      in if numele \<noteq> LP_NUMELE_UNKNOWN
         then
           let index = (if index < 0 then index + int numele else index)
           in if index < 0 then None
              else if int numele \<le> index then None
              else if int (numele div 2) < index
              then walk (lp_prev lp) (nat (int numele - index - 1)) (lp_last lp)
              else walk (lp_next lp) (nat index) (lp_first lp)
         else if index < 0 then walk (lp_prev lp) (nat (- index - 1)) (lp_last lp)
         else walk (lp_next lp) (nat index) (lp_first lp))"

section \<open>Decoding\<close>

datatype lp_value = LStr bytes | LInt int

definition lp_get :: "bytes \<Rightarrow> lp_value" where
  "lp_get p =
     (let b = p ! 0
      in if b AND 0x80 = 0 then LInt (int (unat (b AND 0x7F)))
         else if b AND 0xC0 = 0x80 then LStr (take (unat (b AND 0x3F)) (drop 1 p))
         else if b AND 0xE0 = 0xC0 then LInt (sext 13 (unat (b AND 0x1F) * 256 + unat (p ! 1)))
         else if b AND 0xF0 = 0xE0
         then LStr (take (unat (b AND 0x0F) * 256 + unat (p ! 1)) (drop 2 p))
         else if b = 0xF0 then LStr (take (le_nat (take 4 (drop 1 p))) (drop 5 p))
         else if b = 0xF1 then LInt (sext 16 (le_nat (take 2 (drop 1 p))))
         else if b = 0xF2 then LInt (sext 24 (le_nat (take 3 (drop 1 p))))
         else if b = 0xF3 then LInt (sext 32 (le_nat (take 4 (drop 1 p))))
         else if b = 0xF4 then LInt (sext 64 (le_nat (take 8 (drop 1 p))))
         else LInt 0)"

text \<open>The decimal form \<open>%lld\<close> of the C library.\<close>

definition print_lld :: "int \<Rightarrow> bytes" where
  "print_lld v = (if v < 0 then 45 # decimal (nat (- v)) else decimal (nat v))"

definition lp_get_str :: "bytes \<Rightarrow> bytes" where
  "lp_get_str p = (case lp_get p of LStr s \<Rightarrow> s | LInt v \<Rightarrow> print_lld v)"

section \<open>Encoding and mutation\<close>

definition encode_int :: "int \<Rightarrow> bytes" where
  "encode_int iv =
     (if 0 \<le> iv \<and> iv \<le> 127 then [of_int iv]
      else if -4096 \<le> iv \<and> iv \<le> 4095
      then (let u = nat (iv mod 8192) in [0xC0 OR (of_nat (u div 256) AND 0x1F), of_nat (u mod 256)])
      else if -32768 \<le> iv \<and> iv \<le> 32767 then 0xF1 # le_bytes 2 (nat (iv mod 2 ^ 16))
      else if -8388608 \<le> iv \<and> iv \<le> 8388607 then 0xF2 # le_bytes 3 (nat (iv mod 2 ^ 32))
      else if -2147483648 \<le> iv \<and> iv \<le> 2147483647 then 0xF3 # le_bytes 4 (nat (iv mod 2 ^ 32))
      else 0xF4 # le_bytes 8 (nat (iv mod 2 ^ 64)))"

definition encode_str :: "bytes \<Rightarrow> bytes" where
  "encode_str s =
     (let slen = length s
      in if slen \<le> 63 then (0x80 OR of_nat slen) # s
         else if slen \<le> 4095 then [0xE0 OR of_nat (slen div 256), of_nat (slen mod 256)] @ s
         else 0xF0 # le_bytes 4 slen @ s)"

definition encode_payload :: "bytes \<Rightarrow> bytes" where
  "encode_payload s = (case lp_str_to_int64 s of Some iv \<Rightarrow> encode_int iv | None \<Rightarrow> encode_str s)"

definition lp_encode_entry :: "bytes \<Rightarrow> bytes" where
  "lp_encode_entry s = (let enc = encode_payload s in enc @ lp_encode_backlen (length enc))"

definition lp_bump_numele :: "bytes \<Rightarrow> bool \<Rightarrow> bytes" where
  "lp_bump_numele lp up =
     (let n = lp_load_numele lp
      in if n = LP_NUMELE_UNKNOWN then lp
         else if up
         then (if LP_NUMELE_UNKNOWN \<le> n + 1 then lp_store_numele lp LP_NUMELE_UNKNOWN
               else lp_store_numele lp (n + 1))
         else lp_store_numele lp (n - 1))"

definition lp_insert :: "bytes \<Rightarrow> bytes \<Rightarrow> nat option \<Rightarrow> bool \<Rightarrow> (bytes \<times> nat) option" where
  "lp_insert lp s p after =
     (let total = lp_load_total lp;
          (p, after) = (case p of None \<Rightarrow> (total - 1, False) | Some p \<Rightarrow> (p, after));
          off = (if after
                 then let esz = lp_entry_payload_size lp p
                      in (p + (esz + lp_backlen_size esz)) mod (SIZE_MAX + 1)
                 else p);
          enc = lp_encode_entry s;
          newtotal = total + length enc
      in if UINT32_MAX < newtotal then None
         else
           let lp = take off lp @ enc @ drop off lp
           in Some (lp_bump_numele (lp_store_total lp newtotal) True, off))"

definition lp_append :: "bytes \<Rightarrow> bytes \<Rightarrow> bytes option" where
  "lp_append lp s = map_option fst (lp_insert lp s None False)"

definition lp_prepend :: "bytes \<Rightarrow> bytes \<Rightarrow> bytes option" where
  "lp_prepend lp s = map_option fst (lp_insert lp s (Some LP_HDR_SIZE) False)"

definition lp_delete :: "bytes \<Rightarrow> nat \<Rightarrow> (bytes \<times> nat option) option" where
  "lp_delete lp p =
     (let total = lp_load_total lp; esz = lp_entry_payload_size lp p
      in if lp ! p = LP_EOF \<or> esz = UINT64_MAX then None
         else
           let entry_bytes = esz + lp_backlen_size esz;
               newtotal = total - entry_bytes;
               lp = take p lp @ drop (p + entry_bytes) lp
           in Some (lp_bump_numele (lp_store_total lp newtotal) False,
                    if newtotal - 1 \<le> p then None else Some p))"

definition lp_replace :: "bytes \<Rightarrow> nat \<Rightarrow> bytes \<Rightarrow> bytes option" where
  "lp_replace lp p s =
     (case lp_delete lp p of
        None \<Rightarrow> None
      | Some (lp, np) \<Rightarrow> map_option fst (lp_insert lp s np False))"

section \<open>Search\<close>

definition lp_entry_equal :: "bytes \<Rightarrow> bytes \<Rightarrow> bool" where
  "lp_entry_equal p s =
     (case lp_get p of
        LStr e \<Rightarrow> e = s
      | LInt iv \<Rightarrow> lp_str_to_int64 s = Some iv)"

function find_loop :: "bytes \<Rightarrow> bytes \<Rightarrow> nat option \<Rightarrow> nat option" where
  "find_loop lp s None = None"
| "find_loop lp s (Some p) =
     (if lp_entry_equal (drop p lp) s then Some p else find_loop lp s (lp_next lp p))"
  by pat_completeness auto
termination
  by (relation "measure (\<lambda>(lp, s, p). case p of None \<Rightarrow> 0 | Some p \<Rightarrow> Suc (lp_load_total lp - p))")
    (auto simp: lp_next_def lp_backlen_size_def Let_def split: option.splits if_splits)

definition lp_find :: "bytes \<Rightarrow> nat option \<Rightarrow> bytes \<Rightarrow> nat option" where
  "lp_find lp p s =
     find_loop lp s (case p of None \<Rightarrow> lp_first lp | Some p \<Rightarrow> lp_next lp p)"

end
