(* ===== verification/Listpack_Codec.thy ===== *)
theory Listpack_Codec
  imports Listpack
begin

text \<open>
  The entry codec of listpacks: integers are recognised exactly in their canonical decimal
  form, every encoding is decoded to what it encodes, and its size can be read off from
  both ends.
\<close>

section \<open>Canonical integers\<close>

lemma int64_digits_eq:
  assumes "9 \<le> limit"
  shows "int64_digits limit v bs =
    (if list_all is_digit bs \<and> foldl (\<lambda>v b. v * 10 + digit_val b) v bs \<le> limit \<or> bs = []
     then Some (foldl (\<lambda>v b. v * 10 + digit_val b) v bs) else None)"
proof (induction bs arbitrary: v)
  case (Cons b bs)
  let ?w = "v * 10 + digit_val b"
  have over: "(limit - digit_val b) div 10 < v \<longleftrightarrow> limit < ?w" if "is_digit b"
  proof -
    define q r where "q = (limit - digit_val b) div 10" and "r = (limit - digit_val b) mod 10"
    have "limit - digit_val b = 10 * q + r" "r < 10" by (simp_all add: q_def r_def)
    with digit_val_le [OF that] assms show ?thesis unfolding q_def [symmetric] by auto
  qed
  have grow: "?w \<le> foldl (\<lambda>v b. v * 10 + digit_val b) ?w bs"
    by (simp add: foldl_digits_split trans_le_add1)
  show ?case
  proof (cases "is_digit b \<and> ?w \<le> limit")
    case True
    with over Cons.IH [of ?w] show ?thesis by (cases "bs = []") auto
  next
    case False
    with over grow show ?thesis by auto
  qed
qed simp

lemma decimal_not_Nil: "decimal n \<noteq> []"
  by (subst decimal.simps) auto

lemma digit_of_val: "is_digit b \<Longrightarrow> 48 + of_nat (digit_val b) = b"
proof -
  assume "is_digit b"
  then have "48 \<le> unat b" by (simp add: is_digit_def word_le_nat_alt)
  then have "48 + of_nat (digit_val b) = (of_nat (unat b) :: byte)"
    unfolding digit_val_def by (simp add: of_nat_diff)
  then show ?thesis by simp
qed

lemma decimal_of_digits:
  assumes "list_all is_digit bs" and "bs \<noteq> []" and "hd bs \<noteq> 48 \<or> length bs = 1"
  shows "decimal (num_value bs) = bs"
  using assms
proof (induction bs rule: rev_induct)
  case (snoc b bs)
  have b: "digit_val b \<le> 9" "48 + of_nat (digit_val b) = b"
    using snoc.prems digit_val_le digit_of_val by auto
  show ?case
  proof (cases "bs = []")
    case True
    with b show ?thesis by (subst decimal.simps) (simp add: num_value_def)
  next
    case False
    with snoc.prems have h: "hd bs \<noteq> 48" "list_all is_digit bs" by auto
    have "(10::nat) ^ (length bs - 1) \<le> num_value bs" using num_value_ge [OF False h] .
    then have "1 \<le> num_value bs" by (metis le_trans one_le_numeral one_le_power)
    with snoc.IH h False b show ?thesis by (subst decimal.simps) simp
  qed
qed simp

lemma decimal_canonical: "hd (decimal n) \<noteq> 48 \<or> length (decimal n) = 1"
proof (induction n rule: decimal.induct)
  case (1 n)
  show ?case
  proof (cases "n < 10")
    case True
    then show ?thesis by (subst decimal.simps) simp
  next
    case False
    then have d: "decimal n = decimal (n div 10) @ [48 + of_nat (n mod 10)]" by (subst decimal.simps) simp
    show ?thesis
    proof (cases "n div 10 < 10")
      case True
      then have "decimal (n div 10) = [48 + of_nat (n div 10)]" by (subst decimal.simps) simp
      moreover have "0 < n div 10" using False by (simp add: div_greater_zero_iff)
      then have "digit_val (48 + of_nat (n div 10)) \<noteq> digit_val 48"
        using digit_byte [of "n div 10"] True by (simp add: digit_val_def)
      ultimately show ?thesis unfolding d by auto
    next
      case ge: False
      have "length (decimal (n div 10)) \<noteq> 1" using ge decimal_not_Nil by (subst decimal.simps) auto
      with 1 False show ?thesis unfolding d using decimal_not_Nil [of "n div 10"] by auto
    qed
  qed
qed

lemma decimal_length:
  assumes "n < 10 ^ k" and "0 < k"
  shows "length (decimal n) \<le> k"
proof (cases "length (decimal n) = 1")
  case False
  then have "hd (decimal n) \<noteq> 48" using decimal_canonical [of n] by auto
  then have "10 ^ (length (decimal n) - 1) \<le> n"
    using num_value_ge [OF decimal_not_Nil _ decimal_digits, of n] by (simp add: decimal_value)
  then have "(10::nat) ^ (length (decimal n) - 1) < 10 ^ k" using assms by linarith
  then show ?thesis using power_less_imp_less_exp [of "10::nat" "length (decimal n) - 1" k] by simp
qed (use assms in simp)

lemma str_to_int64_print:
  assumes "LLONG_MIN \<le> v" and "v \<le> LLONG_MAX"
  shows "lp_str_to_int64 (print_lld v) = Some v"
proof -
  define m where "m = nat (if v < 0 then - v else v)"
  have m: "m \<le> nat LLONG_MAX + (if v < 0 then 1 else 0)" "m < 10 ^ 19"
    using assms by (auto simp: m_def c_limits)
  have d: "hd (decimal m) \<noteq> 45"
    using decimal_digits [of m] decimal_not_Nil [of m] by (cases "decimal m") (auto simp: is_digit_def)
  have loop: "int64_digits (nat LLONG_MAX + (if v < 0 then 1 else 0)) 0 (decimal m) = Some m"
    using m(1) decimal_digits [of m] decimal_value [of m]
    by (subst int64_digits_eq) (auto simp: num_value_def c_limits)
  have len: "length (decimal m) \<le> 19" using m(2) by (intro decimal_length) auto
  have z: "\<not> (hd (decimal m) = 48 \<and> 1 < length (decimal m))" using decimal_canonical [of m] by auto
  show ?thesis
  proof (cases "v < 0")
    case True
    have "print_lld v = 45 # decimal m" using True by (simp add: print_lld_def m_def)
    moreover have "m \<noteq> 0" using True by (simp add: m_def)
    moreover have "(if m = nat LLONG_MAX + 1 then LLONG_MIN else - int m) = v"
      using True by (auto simp: m_def c_limits)
    ultimately show ?thesis using True loop len z decimal_not_Nil [of m]
      unfolding lp_str_to_int64_def by (auto simp: Let_def)
  next
    case False
    have "print_lld v = decimal m" using False by (simp add: print_lld_def m_def)
    moreover have "int m = v" using False by (simp add: m_def)
    ultimately show ?thesis using False loop len z d decimal_not_Nil [of m]
      unfolding lp_str_to_int64_def by (auto simp: Let_def)
  qed
qed

lemma str_to_int64_Some:
  assumes "lp_str_to_int64 s = Some v"
  shows "LLONG_MIN \<le> v \<and> v \<le> LLONG_MAX \<and> print_lld v = s"
proof -
  define neg where "neg = (hd s = 45)"
  define body where "body = (if neg then tl s else s)"
  define limit where "limit = nat LLONG_MAX + (if neg then 1 else 0)"
  have l: "9 \<le> limit" by (simp add: limit_def c_limits)
  have s: "s \<noteq> []" "\<not> (neg \<and> length s = 1)" "\<not> (hd body = 48 \<and> 1 < length body)"
    and r: "(case int64_digits limit 0 body of None \<Rightarrow> None | Some v \<Rightarrow>
        if neg \<and> v = 0 then None
        else if neg then Some (if v = nat LLONG_MAX + 1 then LLONG_MIN else - int v) else Some (int v)) = Some v"
    using assms unfolding lp_str_to_int64_def Let_def neg_def [symmetric] body_def [symmetric] limit_def [symmetric]
    by (auto split: if_splits)
  have sb: "s = (if neg then 45 # body else body)"
    using s(1) by (cases s) (auto simp: body_def neg_def)
  have ne: "body \<noteq> []" using s sb by (auto split: if_splits)
  have body: "list_all is_digit body" "num_value body \<le> limit" "int64_digits limit 0 body = Some (num_value body)"
    using r ne int64_digits_eq [OF l, of 0 body]
    by (auto simp: num_value_def split: option.splits if_splits)
  have "length body = 1 \<or> hd body \<noteq> 48" using s(3) ne by (cases body) auto
  then have dec: "decimal (num_value body) = body" using decimal_of_digits [OF body(1) ne] by auto
  have v: "v = (if neg then - int (num_value body) else int (num_value body))" "neg \<Longrightarrow> num_value body \<noteq> 0"
    using r body(3) by (auto simp: c_limits split: if_splits)
  have "LLONG_MIN \<le> v \<and> v \<le> LLONG_MAX" using v body(2) by (auto simp: limit_def c_limits)
  moreover have "print_lld v = s" using v sb dec by (auto simp: print_lld_def)
  ultimately show ?thesis by simp
qed

section \<open>First bytes\<close>

text \<open>The tag bits of each encoding, checked for all values of the length bits.\<close>

lemma byte_7bit:
  assumes "n < 128"
  shows "(of_nat n :: byte) AND 0x80 = 0 \<and> unat ((of_nat n :: byte) AND 0x7F) = n"
proof -
  have "list_all (\<lambda>n. (of_nat n :: byte) AND 0x80 = 0 \<and> unat ((of_nat n :: byte) AND 0x7F) = n) [0..<128]"
    by code_simp
  with assms show ?thesis by (simp add: list_all_iff)
qed

lemma byte_6bit_str:
  assumes "n < 64"
  shows "(0x80 OR of_nat n :: byte) AND 0x80 \<noteq> 0 \<and> (0x80 OR of_nat n :: byte) AND 0xC0 = 0x80 \<and>
    unat ((0x80 OR of_nat n :: byte) AND 0x3F) = n"
proof -
  have "list_all (\<lambda>n. (0x80 OR of_nat n :: byte) AND 0x80 \<noteq> 0 \<and> (0x80 OR of_nat n :: byte) AND 0xC0 = 0x80 \<and>
    unat ((0x80 OR of_nat n :: byte) AND 0x3F) = n) [0..<64]"
    by code_simp
  with assms show ?thesis by (simp add: list_all_iff)
qed

lemma byte_13bit:
  assumes "n < 32"
  shows "(0xC0 OR (of_nat n AND 0x1F) :: byte) AND 0x80 \<noteq> 0 \<and> (0xC0 OR (of_nat n AND 0x1F) :: byte) AND 0xC0 \<noteq> 0x80 \<and>
    (0xC0 OR (of_nat n AND 0x1F) :: byte) AND 0xE0 = 0xC0 \<and> unat ((0xC0 OR (of_nat n AND 0x1F) :: byte) AND 0x1F) = n"
proof -
  have "list_all (\<lambda>n. (0xC0 OR (of_nat n AND 0x1F) :: byte) AND 0x80 \<noteq> 0 \<and> (0xC0 OR (of_nat n AND 0x1F) :: byte) AND 0xC0 \<noteq> 0x80 \<and>
    (0xC0 OR (of_nat n AND 0x1F) :: byte) AND 0xE0 = 0xC0 \<and> unat ((0xC0 OR (of_nat n AND 0x1F) :: byte) AND 0x1F) = n) [0..<32]"
    by code_simp
  with assms show ?thesis by (simp add: list_all_iff)
qed

lemma byte_12bit_str:
  assumes "n < 16"
  shows "(0xE0 OR of_nat n :: byte) AND 0x80 \<noteq> 0 \<and> (0xE0 OR of_nat n :: byte) AND 0xC0 \<noteq> 0x80 \<and>
    (0xE0 OR of_nat n :: byte) AND 0xE0 \<noteq> 0xC0 \<and> (0xE0 OR of_nat n :: byte) AND 0xF0 = 0xE0 \<and>
    unat ((0xE0 OR of_nat n :: byte) AND 0x0F) = n"
proof -
  have "list_all (\<lambda>n. (0xE0 OR of_nat n :: byte) AND 0x80 \<noteq> 0 \<and> (0xE0 OR of_nat n :: byte) AND 0xC0 \<noteq> 0x80 \<and>
    (0xE0 OR of_nat n :: byte) AND 0xE0 \<noteq> 0xC0 \<and> (0xE0 OR of_nat n :: byte) AND 0xF0 = 0xE0 \<and>
    unat ((0xE0 OR of_nat n :: byte) AND 0x0F) = n) [0..<16]"
    by code_simp
  with assms show ?thesis by (simp add: list_all_iff)
qed

lemma cont_byte_bits: "cont_byte n AND 128 \<noteq> 0 \<and> unat (cont_byte n AND 127) = n mod 128"
proof -
  have "list_all (\<lambda>n. cont_byte n AND 128 \<noteq> 0 \<and> unat (cont_byte n AND 127) = n) [0..<128]"
    unfolding cont_byte_def by code_simp
  then have "cont_byte (n mod 128) AND 128 \<noteq> 0 \<and> unat (cont_byte (n mod 128) AND 127) = n mod 128"
    by (simp add: list_all_iff)
  moreover have "cont_byte (n mod 128) = cont_byte n"
  proof -
    have m: "(127::byte) = mask 7" by (simp add: mask_eq_exp_minus_1)
    have "(of_nat (n mod 128) :: byte) AND 127 = of_nat n AND 127"
      unfolding m by (simp add: take_bit_eq_mask [symmetric] take_bit_of_nat flip: take_bit_nat_eq_self)
        (simp add: take_bit_eq_mod)
    then show ?thesis by (simp add: cont_byte_def)
  qed
  ultimately show ?thesis by simp
qed

section \<open>Back lengths\<close>

lemma length_encode_backlen [simp]: "length (lp_encode_backlen l) = lp_backlen_size l"
  by (simp add: lp_encode_backlen_def lp_backlen_size_def)

lemma backlen_size_pos [simp]: "0 < lp_backlen_size l"
  by (simp add: lp_backlen_size_def)

lemma backlen_cont:
  assumes "LP_HDR_SIZE \<le> q" and "lp ! q = cont_byte n" and "shift \<le> 21"
  shows "backlen_loop lp q v shift = backlen_loop lp (q - 1) (v + n mod 128 * 2 ^ shift) (shift + 7)"
  using assms cont_byte_bits [of n] by (subst backlen_loop.simps) (simp add: Let_def)

lemma backlen_final:
  assumes "LP_HDR_SIZE \<le> q" and "lp ! q = of_nat n" and "n < 128"
  shows "backlen_loop lp q v shift = v + n * 2 ^ shift"
  using assms byte_7bit [OF assms(3)] by (subst backlen_loop.simps) (simp add: Let_def)

lemma backlen_digits:
  assumes "LP_HDR_SIZE \<le> length pre" and "n < 128" and "shift + 7 * length ns \<le> 28"
  shows "backlen_loop (pre @ (of_nat n # map cont_byte ns) @ rest) (length pre + length ns) v shift =
    v + 2 ^ shift * foldl (\<lambda>a m. a * 128 + m mod 128) n ns"
  using assms(3)
proof (induction ns arbitrary: v shift rest rule: rev_induct)
  case Nil
  show ?case by (subst backlen_final [OF _ _ assms(2)]) (use assms(1) in \<open>simp_all add: nth_append\<close>)
next
  case (snoc m ns)
  let ?lp = "pre @ (of_nat n # map cont_byte (ns @ [m])) @ rest"
  have "backlen_loop ?lp (length pre + length (ns @ [m])) v shift =
      backlen_loop ?lp (length pre + length (ns @ [m]) - 1) (v + m mod 128 * 2 ^ shift) (shift + 7)"
    by (rule backlen_cont) (use assms(1) snoc.prems in \<open>simp_all add: nth_append\<close>)
  also have "\<dots> = backlen_loop (pre @ (of_nat n # map cont_byte ns) @ cont_byte m # rest)
      (length pre + length ns) (v + m mod 128 * 2 ^ shift) (shift + 7)" by simp
  also have "\<dots> = v + m mod 128 * 2 ^ shift + 2 ^ (shift + 7) * foldl (\<lambda>a m. a * 128 + m mod 128) n ns"
    using snoc.prems by (intro snoc.IH) simp
  also have "\<dots> = v + 2 ^ shift * foldl (\<lambda>a m. a * 128 + m mod 128) n (ns @ [m])"
    by (simp add: algebra_simps power_add)
  finally show ?case .
qed

lemma encode_backlen_digits:
  assumes "l < 2 ^ 35"
  obtains n ns where "lp_encode_backlen l = of_nat n # map cont_byte ns" and "n < 128" and "length ns \<le> 4"
    and "foldl (\<lambda>a m. a * 128 + m mod 128) n ns = l"
proof -
  define d1 d2 d3 d4 where d: "d1 = l div 128" "d2 = d1 div 128" "d3 = d2 div 128" "d4 = d3 div 128"
  have div: "l div 2 ^ 7 = d1" "l div 2 ^ 14 = d2" "l div 2 ^ 21 = d3" "l div 2 ^ 28 = d4"
    by (simp_all add: d div_mult2_eq [symmetric])
  have sum: "l mod 128 + 128 * d1 = l" "d1 mod 128 + 128 * d2 = d1" "d2 mod 128 + 128 * d3 = d2"
      "d3 mod 128 + 128 * d4 = d3"
    by (simp_all add: d)
  consider "l \<le> 127" | "127 < l" "l < 16383" | "16383 \<le> l" "l < 2097151"
    | "2097151 \<le> l" "l < 268435455" | "268435455 \<le> l" by linarith
  then show thesis
  proof cases
    case 1
    then show thesis by (intro that [of l "[]"]) (simp_all add: lp_encode_backlen_def)
  next
    case 2
    with sum show thesis
      by (intro that [of d1 "[l]"]) (simp_all add: lp_encode_backlen_def div del: One_nat_def power_numeral)
  next
    case 3
    with sum show thesis
      by (intro that [of d2 "[d1, l]"]) (simp_all add: lp_encode_backlen_def div del: power_numeral)
  next
    case 4
    with sum show thesis
      by (intro that [of d3 "[d2, d1, l]"]) (simp_all add: lp_encode_backlen_def div del: power_numeral)
  next
    case 5
    have "d4 < 128" using assms sum by simp
    with 5 sum show thesis
      by (intro that [of d4 "[d3, d2, d1, l]"]) (simp_all add: lp_encode_backlen_def div del: power_numeral)
  qed
qed

lemma decode_backlen:
  assumes "l < 2 ^ 35" and "LP_HDR_SIZE \<le> length pre"
  shows "lp_decode_backlen (pre @ lp_encode_backlen l @ rest) (length pre + lp_backlen_size l) = l"
proof -
  obtain n ns where e: "lp_encode_backlen l = of_nat n # map cont_byte ns" "n < 128" "length ns \<le> 4"
    "foldl (\<lambda>a m. a * 128 + m mod 128) n ns = l"
    using encode_backlen_digits [OF assms(1)] .
  have "lp_backlen_size l = Suc (length ns)" using arg_cong [OF e(1), of length] by simp
  then show ?thesis
    using backlen_digits [OF assms(2) e(2), of 0 ns rest 0] e unfolding lp_decode_backlen_def e(1) by simp
qed

section \<open>Payloads\<close>

definition value_of :: "bytes \<Rightarrow> lp_value" where
  "value_of s = (case lp_str_to_int64 s of Some v \<Rightarrow> LInt v | None \<Rightarrow> LStr s)"

text \<open>The size test of an entry on the bytes from its start.\<close>

definition suffix_size :: "bytes \<Rightarrow> nat" where
  "suffix_size q =
     (let b = q ! 0
      in if b AND 0x80 = 0 then 1
         else if b AND 0xC0 = 0x80 then 1 + unat (b AND 0x3F)
         else if b AND 0xE0 = 0xC0 then 2
         else if b AND 0xF0 = 0xE0 then 2 + (unat (b AND 0x0F) * 256 + unat (q ! 1))
         else if b = 0xF0 then 5 + le_nat (take 4 (drop 1 q))
         else if b = 0xF1 then 3
         else if b = 0xF2 then 4
         else if b = 0xF3 then 5
         else if b = 0xF4 then 9
         else UINT64_MAX)"

lemma entry_size_suffix:
  assumes "p < length lp" and "lp_load_total lp = length lp" and "5 \<le> length lp - p \<or> (lp ! p AND 0xF0 \<noteq> 0xE0 \<and> lp ! p \<noteq> 0xF0)"
  shows "lp_entry_payload_size lp p = suffix_size (drop p lp)"
  using assms by (auto simp: lp_entry_payload_size_def suffix_size_def Let_def)

lemma unat_low_byte: "unat (of_nat (n mod 256) :: byte) = n mod 256"
  by (simp add: unat_of_nat)

lemma int_tags: "(0xF1::byte) AND 0x80 \<noteq> 0" "(0xF1::byte) AND 0xC0 \<noteq> 0x80" "(0xF1::byte) AND 0xE0 \<noteq> 0xC0"
    "(0xF1::byte) AND 0xF0 \<noteq> 0xE0" "(0xF2::byte) AND 0x80 \<noteq> 0" "(0xF2::byte) AND 0xC0 \<noteq> 0x80"
    "(0xF2::byte) AND 0xE0 \<noteq> 0xC0" "(0xF2::byte) AND 0xF0 \<noteq> 0xE0" "(0xF3::byte) AND 0x80 \<noteq> 0"
    "(0xF3::byte) AND 0xC0 \<noteq> 0x80" "(0xF3::byte) AND 0xE0 \<noteq> 0xC0" "(0xF3::byte) AND 0xF0 \<noteq> 0xE0"
    "(0xF4::byte) AND 0x80 \<noteq> 0" "(0xF4::byte) AND 0xC0 \<noteq> 0x80" "(0xF4::byte) AND 0xE0 \<noteq> 0xC0"
    "(0xF4::byte) AND 0xF0 \<noteq> 0xE0" "(0xF0::byte) AND 0x80 \<noteq> 0" "(0xF0::byte) AND 0xC0 \<noteq> 0x80"
    "(0xF0::byte) AND 0xE0 \<noteq> 0xC0" "(0xF0::byte) AND 0xF0 \<noteq> 0xE0"
  by code_simp+

lemma sext_24: "le_nat (le_bytes 3 (nat (iv mod 2 ^ 32))) = nat (iv mod 2 ^ 24)"
proof -
  have "nat (iv mod 2 ^ 32) mod 256 ^ 3 = nat (iv mod 2 ^ 32 mod 2 ^ 24)"
    by (simp add: nat_mod_distrib)
  also have "iv mod 2 ^ 32 mod 2 ^ 24 = iv mod 2 ^ 24"
    by (rule mod_mod_cancel) (simp add: le_imp_power_dvd)
  finally show ?thesis by (simp add: le_nat_bytes)
qed

lemma le_nat_mod: "le_nat (le_bytes k (nat (iv mod 2 ^ (8 * k)))) = nat (iv mod 2 ^ (8 * k))"
proof (rule le_nat_bytes_lt)
  have "iv mod 2 ^ (8 * k) < 2 ^ (8 * k)" by simp
  then have "nat (iv mod 2 ^ (8 * k)) < 2 ^ (8 * k)" by (simp add: nat_less_iff)
  also have "(2::nat) ^ (8 * k) = 256 ^ k" by (simp add: power_mult)
  finally show "nat (iv mod 2 ^ (8 * k)) < 256 ^ k" .
qed

lemma encode_int_codec:
  assumes "LLONG_MIN \<le> iv" and "iv \<le> LLONG_MAX"
  shows "lp_get (encode_int iv @ rest) = LInt iv \<and> suffix_size (encode_int iv @ rest) = length (encode_int iv) \<and>
    hd (encode_int iv) \<noteq> 255 \<and> encode_int iv \<noteq> [] \<and> length (encode_int iv) \<le> 9 \<and>
    hd (encode_int iv) \<noteq> 0xF0 \<and> hd (encode_int iv) AND 0xF0 \<noteq> 0xE0"
proof -
  consider (a) "0 \<le> iv" "iv \<le> 127" | (b) "\<not> (0 \<le> iv \<and> iv \<le> 127)" "-4096 \<le> iv" "iv \<le> 4095"
    | (c) "\<not> (-4096 \<le> iv \<and> iv \<le> 4095)" "-32768 \<le> iv" "iv \<le> 32767"
    | (d) "\<not> (-32768 \<le> iv \<and> iv \<le> 32767)" "-8388608 \<le> iv" "iv \<le> 8388607"
    | (e) "\<not> (-8388608 \<le> iv \<and> iv \<le> 8388607)" "-2147483648 \<le> iv" "iv \<le> 2147483647"
    | (f) "\<not> (-2147483648 \<le> iv \<and> iv \<le> 2147483647)"
    by linarith
  then show ?thesis
  proof cases
    case a
    define n where "n = nat iv"
    have n: "iv = int n" "n < 128" using a by (auto simp: n_def)
    have "(of_nat n :: byte) \<noteq> 255" "(of_nat n :: byte) \<noteq> 0xF0" "(of_nat n :: byte) AND 0xF0 \<noteq> 0xE0"
    proof -
      have "list_all (\<lambda>n. (of_nat n :: byte) \<noteq> 255 \<and> (of_nat n :: byte) \<noteq> 0xF0 \<and> (of_nat n :: byte) AND 0xF0 \<noteq> 0xE0) [0..<128]"
        by code_simp
      with n(2) show "(of_nat n :: byte) \<noteq> 255" "(of_nat n :: byte) \<noteq> 0xF0" "(of_nat n :: byte) AND 0xF0 \<noteq> 0xE0"
        by (simp_all add: list_all_iff)
    qed
    moreover have "encode_int iv = [of_nat n]" using a by (simp add: encode_int_def n)
    ultimately show ?thesis using byte_7bit [OF n(2)] by (simp add: lp_get_def suffix_size_def Let_def n(1))
  next
    case b
    define u where "u = nat (iv mod 8192)"
    have u: "u div 256 < 32"
    proof -
      have "iv mod 8192 < 8192" by simp
      then have "u < 8192" by (simp add: u_def nat_less_iff)
      then show ?thesis by (intro less_mult_imp_div_less) simp
    qed
    let ?b = "0xC0 OR (of_nat (u div 256) AND 0x1F) :: byte"
    have e: "encode_int iv = [?b, of_nat (u mod 256)]" using b by (auto simp: encode_int_def u_def Let_def)
    have s: "sext 13 u = iv" using sext_mod [of 13 iv] b by (simp add: u_def)
    have t: "?b \<noteq> 255" "?b \<noteq> 0xF0" "?b AND 0xF0 \<noteq> 0xE0"
    proof -
      have "list_all (\<lambda>n. (0xC0 OR (of_nat n AND 0x1F) :: byte) \<noteq> 255 \<and> (0xC0 OR (of_nat n AND 0x1F) :: byte) \<noteq> 0xF0 \<and>
          (0xC0 OR (of_nat n AND 0x1F) :: byte) AND 0xF0 \<noteq> 0xE0) [0..<32]"
        by code_simp
      with u show "?b \<noteq> 255" "?b \<noteq> 0xF0" "?b AND 0xF0 \<noteq> 0xE0" by (simp_all add: list_all_iff)
    qed
    define bb where "bb = ?b"
    note k = byte_13bit [OF u, folded bb_def]
    have "u div 256 * 256 + u mod 256 = u" by simp
    with k t s show ?thesis unfolding e bb_def [symmetric]
      by (simp add: lp_get_def suffix_size_def Let_def unat_low_byte)
  next
    case c
    then have e: "encode_int iv = 0xF1 # le_bytes 2 (nat (iv mod 2 ^ 16))" by (auto simp: encode_int_def)
    have "sext 16 (nat (iv mod 2 ^ 16)) = iv" using c by (intro sext_mod) auto
    then show ?thesis using le_nat_mod [of 2 iv] int_tags
      unfolding e by (simp add: lp_get_def suffix_size_def Let_def del: le_bytes.simps)
  next
    case d
    then have e: "encode_int iv = 0xF2 # le_bytes 3 (nat (iv mod 2 ^ 32))" by (auto simp: encode_int_def)
    have "sext 24 (nat (iv mod 2 ^ 24)) = iv" using d by (intro sext_mod) auto
    then show ?thesis using sext_24 [of iv] int_tags
      unfolding e by (simp add: lp_get_def suffix_size_def Let_def del: le_bytes.simps)
  next
    case e
    then have e: "encode_int iv = 0xF3 # le_bytes 4 (nat (iv mod 2 ^ 32))" by (auto simp: encode_int_def)
    have "sext 32 (nat (iv mod 2 ^ 32)) = iv" using \<open>-2147483648 \<le> iv\<close> \<open>iv \<le> 2147483647\<close> by (intro sext_mod) auto
    then show ?thesis using le_nat_mod [of 4 iv] int_tags
      unfolding e by (simp add: lp_get_def suffix_size_def Let_def del: le_bytes.simps)
  next
    case f
    then have e: "encode_int iv = 0xF4 # le_bytes 8 (nat (iv mod 2 ^ 64))" by (auto simp: encode_int_def)
    have "sext 64 (nat (iv mod 2 ^ 64)) = iv" using assms by (intro sext_mod) (auto simp: c_limits)
    then show ?thesis using le_nat_mod [of 8 iv] int_tags
      unfolding e by (simp add: lp_get_def suffix_size_def Let_def del: le_bytes.simps)
  qed
qed

lemma byte_6bit_tags:
  assumes "n < 64"
  shows "(0x80 OR of_nat n :: byte) \<noteq> 255 \<and> (0x80 OR of_nat n :: byte) \<noteq> 0xF0 \<and> (0x80 OR of_nat n :: byte) AND 0xF0 \<noteq> 0xE0"
proof -
  have "list_all (\<lambda>n. (0x80 OR of_nat n :: byte) \<noteq> 255 \<and> (0x80 OR of_nat n :: byte) \<noteq> 0xF0 \<and>
      (0x80 OR of_nat n :: byte) AND 0xF0 \<noteq> 0xE0) [0..<64]"
    by code_simp
  with assms show ?thesis by (simp add: list_all_iff)
qed

lemma encode_str_codec:
  assumes "length s \<le> UINT32_MAX"
  shows "lp_get (encode_str s @ rest) = LStr s \<and> suffix_size (encode_str s @ rest) = length (encode_str s) \<and>
    hd (encode_str s) \<noteq> 255 \<and> encode_str s \<noteq> [] \<and> length (encode_str s) \<le> length s + 5 \<and>
    (5 \<le> length (encode_str s) \<or> hd (encode_str s) \<noteq> 0xF0 \<and> hd (encode_str s) AND 0xF0 \<noteq> 0xE0)"
proof -
  consider (a) "length s \<le> 63" | (b) "63 < length s" "length s \<le> 4095" | (c) "4095 < length s" by linarith
  then show ?thesis
  proof cases
    case a
    then have n: "length s < 64" by simp
    define b where "b = (0x80 OR of_nat (length s) :: byte)"
    have "encode_str s = b # s" using a by (simp add: encode_str_def b_def)
    then show ?thesis using byte_6bit_str [OF n, folded b_def] byte_6bit_tags [OF n, folded b_def]
      by (simp add: lp_get_def suffix_size_def Let_def)
  next
    case b
    then have n: "length s div 256 < 16" by (intro less_mult_imp_div_less) simp
    define c where "c = (0xE0 OR of_nat (length s div 256) :: byte)"
    have e: "encode_str s = [c, of_nat (length s mod 256)] @ s" using b by (simp add: encode_str_def c_def Let_def)
    have ne: "c \<noteq> 255" using byte_12bit_str [OF n, folded c_def] by auto
    have "length s div 256 * 256 + length s mod 256 = length s" by simp
    then show ?thesis using byte_12bit_str [OF n, folded c_def] ne b
      unfolding e by (simp add: lp_get_def suffix_size_def Let_def unat_low_byte)
  next
    case c
    then have e: "encode_str s = 0xF0 # le_bytes 4 (length s) @ s" by (simp add: encode_str_def Let_def)
    have "le_nat (le_bytes 4 (length s)) = length s"
      using assms by (intro le_nat_bytes_lt) (simp add: c_limits)
    then show ?thesis using int_tags unfolding e
      by (simp add: lp_get_def suffix_size_def Let_def del: le_bytes.simps)
  qed
qed

lemma encode_payload_codec:
  assumes "length s \<le> UINT32_MAX"
  shows "lp_get (encode_payload s @ rest) = value_of s \<and> suffix_size (encode_payload s @ rest) = length (encode_payload s) \<and>
    hd (encode_payload s) \<noteq> 255 \<and> encode_payload s \<noteq> [] \<and> length (encode_payload s) \<le> length s + 9 \<and>
    (5 \<le> length (encode_payload s) \<or> hd (encode_payload s) \<noteq> 0xF0 \<and> hd (encode_payload s) AND 0xF0 \<noteq> 0xE0)"
proof (cases "lp_str_to_int64 s")
  case None
  then show ?thesis using encode_str_codec [OF assms, of rest] by (auto simp: encode_payload_def value_of_def)
next
  case (Some v)
  with str_to_int64_Some [OF Some] encode_int_codec [of v rest] show ?thesis
    by (auto simp: encode_payload_def value_of_def)
qed

lemma payload_shorter_than_2_35: "length s \<le> UINT32_MAX \<Longrightarrow> length (encode_payload s) < 2 ^ 35"
  using encode_payload_codec [of s "[]"] by (auto simp: c_limits)

text \<open>An entry in place: its size from the front, its string, and the back length from behind.\<close>

lemma entry_at:
  fixes s pre rest :: bytes
  defines "lp \<equiv> pre @ lp_encode_entry s @ rest"
  assumes "length s \<le> UINT32_MAX" and "lp_load_total lp = length lp"
  shows "lp_entry_payload_size lp (length pre) = length (encode_payload s)"
    and "lp ! length pre \<noteq> LP_EOF"
    and "lp_get (drop (length pre) lp) = value_of s"
proof -
  define rest' where "rest' = lp_encode_backlen (length (encode_payload s)) @ rest"
  have lp: "lp = pre @ encode_payload s @ rest'" by (simp add: lp_def rest'_def lp_encode_entry_def Let_def)
  note c = encode_payload_codec [OF assms(2), of rest']
  have hd: "lp ! length pre = hd (encode_payload s)" using c by (simp add: lp nth_append hd_conv_nth)
  have "lp_entry_payload_size lp (length pre) = suffix_size (drop (length pre) lp)"
    by (rule entry_size_suffix) (use c assms(3) in \<open>auto simp: lp hd [unfolded lp]\<close>)
  then show "lp_entry_payload_size lp (length pre) = length (encode_payload s)" using c by (simp add: lp)
  show "lp ! length pre \<noteq> LP_EOF" using c by (simp add: hd LP_EOF_def)
  show "lp_get (drop (length pre) lp) = value_of s" using c by (simp add: lp)
qed

lemma length_encode_entry:
  "length (lp_encode_entry s) = length (encode_payload s) + lp_backlen_size (length (encode_payload s))"
  by (simp add: lp_encode_entry_def Let_def)

lemma entry_behind:
  assumes "length s \<le> UINT32_MAX" and "LP_HDR_SIZE \<le> length pre"
  shows "lp_prev (pre @ lp_encode_entry s @ rest) (length pre + length (lp_encode_entry s)) = Some (length pre)"
proof -
  let ?l = "length (encode_payload s)"
  have "lp_decode_backlen ((pre @ encode_payload s) @ lp_encode_backlen ?l @ rest)
      (length (pre @ encode_payload s) + lp_backlen_size ?l) = ?l"
    by (rule decode_backlen) (use payload_shorter_than_2_35 [OF assms(1)] assms(2) in auto)
  then have d: "lp_decode_backlen (pre @ lp_encode_entry s @ rest) (length pre + length (lp_encode_entry s)) = ?l"
    by (simp add: lp_encode_entry_def Let_def add.assoc)
  have "?l \<noteq> UINT64_MAX" using payload_shorter_than_2_35 [OF assms(1)] by (auto simp: c_limits)
  moreover have "\<not> length pre + length (lp_encode_entry s) \<le> LP_HDR_SIZE"
    using assms(2) backlen_size_pos [of ?l] unfolding length_encode_entry by linarith
  ultimately show ?thesis
    using assms(2) unfolding lp_prev_def d by (simp add: length_encode_entry Let_def)
qed

lemma get_str_value_of: "(case value_of s of LStr t \<Rightarrow> t | LInt v \<Rightarrow> print_lld v) = s"
  using str_to_int64_Some [of s] by (auto simp: value_of_def split: option.splits)

lemma entry_equal_value: "lp_get p = value_of t \<Longrightarrow> lp_entry_equal p s \<longleftrightarrow> t = s"
  using str_to_int64_Some [of s] str_to_int64_Some [of t] 
  by (auto simp: lp_entry_equal_def value_of_def split: option.splits)

end
