(* ===== verification/Listpack_List.thy ===== *)
theory Listpack_List
  imports Listpack_Codec
begin

text \<open>
  Listpacks as lists of strings: what a well-formed listpack looks like, and what every
  operation does to the list it holds.
\<close>

section \<open>Well-formed listpacks\<close>

definition lp_image :: "bytes list \<Rightarrow> bytes" where
  "lp_image xs = concat (map lp_encode_entry xs)"

definition lp_frame :: "nat \<Rightarrow> bytes \<Rightarrow> bytes" where
  "lp_frame n body = le_bytes 4 (7 + length body) @ le_bytes 2 n @ body @ [LP_EOF]"

definition count_ok :: "nat \<Rightarrow> nat \<Rightarrow> bool" where
  "count_ok n len \<longleftrightarrow> n = LP_NUMELE_UNKNOWN \<or> (n = len \<and> n < LP_NUMELE_UNKNOWN)"

definition lp_rep :: "bytes \<Rightarrow> bytes list \<Rightarrow> bool" where
  "lp_rep lp xs \<longleftrightarrow>
     (\<exists>n. lp = lp_frame n (lp_image xs) \<and> count_ok n (length xs)) \<and>
     7 + length (lp_image xs) \<le> UINT32_MAX \<and> (\<forall>x \<in> set xs. length x \<le> UINT32_MAX)"

definition lp_off :: "bytes list \<Rightarrow> nat \<Rightarrow> nat" where
  "lp_off xs i = LP_HDR_SIZE + length (lp_image (take i xs))"

lemma image_simps [simp]:
  "lp_image [] = []" "lp_image (x # xs) = lp_encode_entry x @ lp_image xs"
  "lp_image (xs @ ys) = lp_image xs @ lp_image ys"
  by (simp_all add: lp_image_def)

lemma length_frame [simp]: "length (lp_frame n body) = 7 + length body"
  by (simp add: lp_frame_def)

lemma frame_total: "7 + length body \<le> UINT32_MAX \<Longrightarrow> lp_load_total (lp_frame n body) = 7 + length body"
  by (simp add: lp_load_total_def lp_frame_def c_limits)

lemma frame_numele: "n \<le> LP_NUMELE_UNKNOWN \<Longrightarrow> lp_load_numele (lp_frame n body) = n"
  by (simp add: lp_load_numele_def lp_frame_def LP_NUMELE_UNKNOWN_def)

lemma count_le: "count_ok n len \<Longrightarrow> n \<le> LP_NUMELE_UNKNOWN"
  by (auto simp: count_ok_def)

lemma rep_total: "lp_rep lp xs \<Longrightarrow> lp_load_total lp = 7 + length (lp_image xs) \<and> length lp = 7 + length (lp_image xs)"
  by (auto simp: lp_rep_def frame_total)

lemma rep_numele: "lp_rep lp xs \<Longrightarrow> count_ok (lp_load_numele lp) (length xs)"
  by (auto simp: lp_rep_def frame_numele count_le)

lemma off_0 [simp]: "lp_off xs 0 = LP_HDR_SIZE"
  by (simp add: lp_off_def)

lemma off_Suc: "i < length xs \<Longrightarrow> lp_off xs (Suc i) = lp_off xs i + length (lp_encode_entry (xs ! i))"
  by (simp add: lp_off_def take_Suc_conv_app_nth)

lemma off_end: "lp_off xs (length xs) = LP_HDR_SIZE + length (lp_image xs)"
  by (simp add: lp_off_def)

lemma off_ge: "LP_HDR_SIZE \<le> lp_off xs i"
  by (simp add: lp_off_def)

lemma encode_entry_pos: "0 < length (lp_encode_entry s)"
  by (simp add: length_encode_entry)

text \<open>The bytes around the entry at an index.\<close>

lemma frame_at:
  assumes "i \<le> length xs"
  shows "take (lp_off xs i) (lp_frame n (lp_image xs)) =
      le_bytes 4 (7 + length (lp_image xs)) @ le_bytes 2 n @ lp_image (take i xs)"
    and "drop (lp_off xs i) (lp_frame n (lp_image xs)) = lp_image (drop i xs) @ [LP_EOF]"
proof -
  define a b where ab: "a = lp_image (take i xs)" "b = lp_image (drop i xs)"
  have s: "lp_image xs = a @ b" by (simp add: ab flip: image_simps(3))
  show "take (lp_off xs i) (lp_frame n (lp_image xs)) =
      le_bytes 4 (7 + length (lp_image xs)) @ le_bytes 2 n @ lp_image (take i xs)"
    by (simp add: lp_frame_def lp_off_def LP_HDR_SIZE_def s flip: ab)
  show "drop (lp_off xs i) (lp_frame n (lp_image xs)) = lp_image (drop i xs) @ [LP_EOF]"
    by (simp add: lp_frame_def lp_off_def LP_HDR_SIZE_def s flip: ab)
qed

lemma rep_entry:
  assumes "lp_rep lp xs" and "i < length xs"
  obtains pre rest where "lp = pre @ lp_encode_entry (xs ! i) @ rest" and "length pre = lp_off xs i"
    and "length (xs ! i) \<le> UINT32_MAX" and "lp_load_total lp = length lp"
proof -
  obtain n where n: "lp = lp_frame n (lp_image xs)" using assms(1) by (auto simp: lp_rep_def)
  have "drop i xs = xs ! i # drop (Suc i) xs" using assms(2) by (simp add: Cons_nth_drop_Suc)
  then have "drop (lp_off xs i) lp = lp_encode_entry (xs ! i) @ lp_image (drop (Suc i) xs) @ [LP_EOF]"
    using frame_at(2) [of i xs n] assms(2) n by simp
  then have "lp = take (lp_off xs i) lp @ lp_encode_entry (xs ! i) @ lp_image (drop (Suc i) xs) @ [LP_EOF]"
    by (metis append_take_drop_id)
  moreover have "length (take (lp_off xs i) lp) = lp_off xs i"
    using frame_at(1) [of i xs n] assms(2) n by (simp add: lp_off_def LP_HDR_SIZE_def)
  moreover have "length (xs ! i) \<le> UINT32_MAX" using assms by (simp add: lp_rep_def)
  moreover have "lp_load_total lp = length lp" using rep_total [OF assms(1)] by simp
  ultimately show thesis by (rule that)
qed

section \<open>Walking\<close>

lemma next_rep:
  assumes "lp_rep lp xs" and "i < length xs"
  shows "lp_next lp (lp_off xs i) = (if Suc i < length xs then Some (lp_off xs (Suc i)) else None)"
proof -
  obtain pre rest where e: "lp = pre @ lp_encode_entry (xs ! i) @ rest" "length pre = lp_off xs i"
    "length (xs ! i) \<le> UINT32_MAX" "lp_load_total lp = length lp"
    using rep_entry [OF assms] .
  have sz: "lp_entry_payload_size lp (lp_off xs i) = length (encode_payload (xs ! i))"
    using entry_at(1) [of "xs ! i" pre rest] e by simp
  have nm: "length (encode_payload (xs ! i)) \<noteq> UINT64_MAX"
    using payload_shorter_than_2_35 [OF e(3)] by (auto simp: c_limits)
  have step: "lp_off xs i + (length (encode_payload (xs ! i)) + lp_backlen_size (length (encode_payload (xs ! i)))) =
      lp_off xs (Suc i)"
    using off_Suc [OF assms(2)] by (simp add: length_encode_entry)
  show ?thesis
  proof (cases "Suc i < length xs")
    case True
    obtain pre' rest' where e': "lp = pre' @ lp_encode_entry (xs ! Suc i) @ rest'" "length pre' = lp_off xs (Suc i)"
      "length (xs ! Suc i) \<le> UINT32_MAX"
      using rep_entry [OF assms(1) True] by metis
    have "lp ! lp_off xs (Suc i) \<noteq> LP_EOF" using entry_at(2) [of "xs ! Suc i" pre' rest'] e' e(4) by simp
    moreover have "lp_off xs (Suc i) < length lp"
      using e' encode_entry_pos [of "xs ! Suc i"] by (metis add.right_neutral length_append nat_add_left_cancel_less trans_less_add1)
    ultimately show ?thesis using True nm e(4) by (simp add: lp_next_def sz step Let_def)
  next
    case False
    then have "Suc i = length xs" using assms(2) by simp
    then have off: "lp_off xs (Suc i) = LP_HDR_SIZE + length (lp_image xs)" using off_end by metis
    obtain n where "lp = lp_frame n (lp_image xs)" using assms(1) by (auto simp: lp_rep_def)
    then have "lp ! lp_off xs (Suc i) = LP_EOF"
      by (simp add: off lp_frame_def nth_append LP_HDR_SIZE_def)
    then show ?thesis using False nm by (simp add: lp_next_def sz step Let_def)
  qed
qed

lemma first_rep:
  assumes "lp_rep lp xs"
  shows "lp_first lp = (if xs = [] then None else Some (lp_off xs 0))"
proof (cases "xs = []")
  case True
  obtain n where "lp = lp_frame n (lp_image xs)" using assms by (auto simp: lp_rep_def)
  with True show ?thesis by (simp add: lp_first_def lp_frame_def nth_append LP_HDR_SIZE_def)
next
  case False
  then obtain pre rest where "lp = pre @ lp_encode_entry (xs ! 0) @ rest" "length pre = lp_off xs 0"
    "length (xs ! 0) \<le> UINT32_MAX" "lp_load_total lp = length lp"
    using rep_entry [OF assms, of 0] by auto
  with entry_at(2) [of "xs ! 0" pre rest] False show ?thesis by (simp add: lp_first_def)
qed

lemma prev_rep:
  assumes "lp_rep lp xs" and "i < length xs"
  shows "lp_prev lp (lp_off xs (Suc i)) = Some (lp_off xs i)"
proof -
  obtain pre rest where e: "lp = pre @ lp_encode_entry (xs ! i) @ rest" "length pre = lp_off xs i"
    "length (xs ! i) \<le> UINT32_MAX"
    using rep_entry [OF assms] by metis
  show ?thesis
    using entry_behind [of "xs ! i" pre rest] e off_Suc [OF assms(2)] off_ge [of xs i] by simp
qed

lemma prev_first: "lp_prev lp (lp_off xs 0) = None"
  by (simp add: lp_prev_def)

lemma last_rep:
  assumes "lp_rep lp xs"
  shows "lp_last lp = (if xs = [] then None else Some (lp_off xs (length xs - 1)))"
proof -
  have "lp_load_total lp - 1 = lp_off xs (length xs)"
    using rep_total [OF assms] by (simp add: off_end LP_HDR_SIZE_def)
  moreover have "lp_off xs (length xs) = LP_HDR_SIZE \<longleftrightarrow> xs = []"
    unfolding off_end using encode_entry_pos by (cases xs) auto
  ultimately show ?thesis
    using prev_rep [OF assms, of "length xs - 1"] by (auto simp: lp_last_def)
qed

lemma walk_None [simp]: "walk step n None = None"
  by (cases n) auto

lemma walk_next:
  assumes "lp_rep lp xs"
  shows "i < length xs \<Longrightarrow>
    walk (lp_next lp) n (Some (lp_off xs i)) = (if i + n < length xs then Some (lp_off xs (i + n)) else None)"
proof (induction n arbitrary: i)
  case (Suc n)
  then show ?case using next_rep [OF assms Suc.prems] Suc.IH [of "Suc i"] by auto
qed simp

lemma walk_prev:
  assumes "lp_rep lp xs"
  shows "i < length xs \<Longrightarrow>
    walk (lp_prev lp) n (Some (lp_off xs i)) = (if n \<le> i then Some (lp_off xs (i - n)) else None)"
proof (induction n arbitrary: i)
  case (Suc n)
  then show ?case
    using prev_rep [OF assms, of "i - 1"] prev_first [of lp xs] Suc.IH [of "i - 1"] by (cases i) auto
qed simp

lemma count_rep:
  assumes "lp_rep lp xs"
  shows "i < length xs \<Longrightarrow> lp_count lp (Some (lp_off xs i)) = length xs - i"
proof (induction "length xs - i" arbitrary: i)
  case (Suc k)
  then show ?case using next_rep [OF assms Suc.prems] Suc.hyps(1) [of "Suc i"]
    by (cases "Suc i < length xs") auto
qed simp

lemma length_rep: "lp_rep lp xs \<Longrightarrow> lp_length lp = length xs"
  using rep_numele [of lp xs] count_rep [of lp xs 0] first_rep [of lp xs]
  by (auto simp: lp_length_def count_ok_def Let_def)

definition norm_index :: "int \<Rightarrow> nat \<Rightarrow> nat option" where
  "norm_index i n =
     (if 0 \<le> i \<and> i < int n then Some (nat i)
      else if i < 0 \<and> - int n \<le> i then Some (nat (i + int n)) else None)"

lemma seek_rep:
  assumes "lp_rep lp xs"
  shows "lp_seek lp i = map_option (lp_off xs) (norm_index i (length xs))"
proof -
  let ?n = "length xs"
  have fwd: "walk (lp_next lp) k (lp_first lp) = (if k < ?n then Some (lp_off xs k) else None)" for k
    using walk_next [OF assms, of 0 k] first_rep [OF assms] by (cases "xs = []") auto
  have bwd: "walk (lp_prev lp) k (lp_last lp) = (if k < ?n then Some (lp_off xs (?n - 1 - k)) else None)" for k
    using walk_prev [OF assms, of "?n - 1" k] last_rep [OF assms] by (cases xs) auto
  show ?thesis
  proof (cases "lp_load_numele lp = LP_NUMELE_UNKNOWN")
    case True
    have "lp_seek lp i = (if i < 0 then walk (lp_prev lp) (nat (- i - 1)) (lp_last lp)
        else walk (lp_next lp) (nat i) (lp_first lp))"
      using True by (simp add: lp_seek_def)
    also have "\<dots> = map_option (lp_off xs) (norm_index i ?n)"
      unfolding fwd bwd by (auto simp: norm_index_def nat_less_iff intro: arg_cong [where f = "lp_off xs"])
    finally show ?thesis .
  next
    case False
    then have n: "lp_load_numele lp = ?n" using rep_numele [OF assms] by (auto simp: count_ok_def)
    define j where "j = (if i < 0 then i + int ?n else i)"
    have "lp_seek lp i = (if j < 0 then None else if int ?n \<le> j then None
        else if int (?n div 2) < j then walk (lp_prev lp) (nat (int ?n - j - 1)) (lp_last lp)
        else walk (lp_next lp) (nat j) (lp_first lp))"
      using False unfolding lp_seek_def n by (simp add: Let_def j_def)
    also have "\<dots> = (if j < 0 \<or> int ?n \<le> j then None else Some (lp_off xs (nat j)))"
      unfolding fwd bwd by (auto simp: nat_less_iff intro!: arg_cong [where f = "lp_off xs"])
    also have "\<dots> = map_option (lp_off xs) (norm_index i ?n)"
      by (auto simp: norm_index_def j_def)
    finally show ?thesis .
  qed
qed

lemma get_rep:
  assumes "lp_rep lp xs" and "i < length xs"
  shows "lp_get (drop (lp_off xs i) lp) = value_of (xs ! i)" and "lp_get_str (drop (lp_off xs i) lp) = xs ! i"
proof -
  obtain pre rest where e: "lp = pre @ lp_encode_entry (xs ! i) @ rest" "length pre = lp_off xs i"
    "length (xs ! i) \<le> UINT32_MAX" "lp_load_total lp = length lp"
    using rep_entry [OF assms] .
  show g: "lp_get (drop (lp_off xs i) lp) = value_of (xs ! i)"
    using entry_at(3) [of "xs ! i" pre rest] e by simp
  then show "lp_get_str (drop (lp_off xs i) lp) = xs ! i" by (simp add: lp_get_str_def get_str_value_of)
qed

section \<open>Changing\<close>

lemma store_total_frame:
  "lp_store_total (le_bytes 4 m @ le_bytes 2 n @ body @ [LP_EOF]) (7 + length body) = lp_frame n body"
  by (simp add: lp_store_total_def lp_frame_def)

lemma bump_frame:
  assumes "count_ok n len" and "up \<or> 0 < len"
  shows "\<exists>n'. lp_bump_numele (lp_frame n body) up = lp_frame n' body \<and>
    count_ok n' (if up then len + 1 else len - 1)"
proof -
  have st: "lp_store_numele (lp_frame n body) k = lp_frame k body" for k
    by (simp add: lp_store_numele_def lp_frame_def)
  have ld: "lp_load_numele (lp_frame n body) = n" using frame_numele count_le [OF assms(1)] by blast
  have "lp_bump_numele (lp_frame n body) up = lp_frame (if n = LP_NUMELE_UNKNOWN then n else if up
      then (if LP_NUMELE_UNKNOWN \<le> n + 1 then LP_NUMELE_UNKNOWN else n + 1) else n - 1) body"
    unfolding lp_bump_numele_def Let_def ld by (simp add: st)
  then show ?thesis
    by (intro exI [of _ "if n = LP_NUMELE_UNKNOWN then n else if up
          then (if LP_NUMELE_UNKNOWN \<le> n + 1 then LP_NUMELE_UNKNOWN else n + 1) else n - 1"])
      (use assms in \<open>auto simp: count_ok_def\<close>)
qed

lemma insert_rep:
  assumes "lp_rep lp xs" and "length s \<le> UINT32_MAX" and "i \<le> length xs"
    and fit: "lp_load_total lp + length (lp_encode_entry s) \<le> UINT32_MAX"
    and p: "p = Some (lp_off xs i) \<and> \<not> after \<or> p = None \<and> i = length xs \<or>
      (\<exists>j. p = Some (lp_off xs j) \<and> after \<and> i = Suc j)"
  shows "\<exists>lp'. lp_insert lp s p after = Some (lp', lp_off xs i) \<and> lp_rep lp' (take i xs @ s # drop i xs)"
proof -
  obtain n where lp: "lp = lp_frame n (lp_image xs)" "count_ok n (length xs)" using assms(1) by (auto simp: lp_rep_def)
  note tot = rep_total [OF assms(1)]
  have off: "(case (case p of None \<Rightarrow> (lp_load_total lp - 1, False) | Some p \<Rightarrow> (p, after)) of (p, after) \<Rightarrow>
      if after then let esz = lp_entry_payload_size lp p in (p + (esz + lp_backlen_size esz)) mod (SIZE_MAX + 1) else p) =
      lp_off xs i"
    using p
  proof (elim disjE exE)
    fix j assume j: "p = Some (lp_off xs j) \<and> after \<and> i = Suc j"
    then have lt: "j < length xs" using assms(3) by simp
    obtain pre rest where e: "lp = pre @ lp_encode_entry (xs ! j) @ rest" "length pre = lp_off xs j"
      "length (xs ! j) \<le> UINT32_MAX" "lp_load_total lp = length lp"
      using rep_entry [OF assms(1) lt] .
    have "lp_off xs (Suc j) \<le> length lp" using e off_Suc [OF lt] by simp
    then have "lp_off xs (Suc j) < SIZE_MAX + 1" using assms(1) tot by (simp add: lp_rep_def c_limits)
    moreover have "lp_entry_payload_size lp (lp_off xs j) = length (encode_payload (xs ! j))"
      using entry_at(1) [of "xs ! j" pre rest] e by simp
    ultimately show ?thesis
      using j off_Suc [OF lt] by (simp add: Let_def length_encode_entry)
  qed (use tot in \<open>auto simp: off_end LP_HDR_SIZE_def\<close>)
  let ?ys = "take i xs @ s # drop i xs"
  have img: "lp_image ?ys = lp_image (take i xs) @ lp_encode_entry s @ lp_image (drop i xs)" by simp
  have "length (lp_image (take i xs)) + length (lp_image (drop i xs)) = length (lp_image xs)"
    by (metis append_take_drop_id image_simps(3) length_append)
  then have len: "lp_load_total lp + length (lp_encode_entry s) = 7 + length (lp_image ?ys)"
    using tot by simp
  have body: "take (lp_off xs i) lp @ lp_encode_entry s @ drop (lp_off xs i) lp =
      le_bytes 4 (7 + length (lp_image xs)) @ le_bytes 2 n @ lp_image ?ys @ [LP_EOF]"
    using frame_at [OF assms(3), of n] by (simp add: lp(1))
  obtain n' where n': "lp_bump_numele (lp_frame n (lp_image ?ys)) True = lp_frame n' (lp_image ?ys)"
    "count_ok n' (length xs + 1)"
    using bump_frame [OF lp(2), of True "lp_image ?ys"] by auto
  have "lp_insert lp s p after = Some (lp_frame n' (lp_image ?ys), lp_off xs i)"
    using fit off unfolding lp_insert_def
    by (auto simp: Let_def body len store_total_frame n' split: prod.splits simp del: image_simps)
  moreover have "lp_rep (lp_frame n' (lp_image ?ys)) ?ys"
  proof -
    have "set ?ys = insert s (set xs)" by (metis append_take_drop_id set_append Un_insert_right list.simps(15))
    then show ?thesis
      using assms n' fit unfolding len lp_rep_def by (auto simp del: image_simps)
  qed
  ultimately show ?thesis by blast
qed

lemma delete_rep:
  assumes "lp_rep lp xs" and "i < length xs"
  shows "\<exists>lp'. lp_delete lp (lp_off xs i) =
      Some (lp', if Suc i = length xs then None else Some (lp_off xs i)) \<and>
    lp_rep lp' (take i xs @ drop (Suc i) xs)"
proof -
  obtain n where lp: "lp = lp_frame n (lp_image xs)" "count_ok n (length xs)" using assms(1) by (auto simp: lp_rep_def)
  obtain pre rest where e: "lp = pre @ lp_encode_entry (xs ! i) @ rest" "length pre = lp_off xs i"
    "length (xs ! i) \<le> UINT32_MAX" "lp_load_total lp = length lp"
    using rep_entry [OF assms] .
  note tot = rep_total [OF assms(1)]
  let ?ys = "take i xs @ drop (Suc i) xs" and ?e = "lp_encode_entry (xs ! i)"
  have xs: "xs = take i xs @ xs ! i # drop (Suc i) xs" by (rule id_take_nth_drop [OF assms(2)])
  have "lp_image xs = lp_image (take i xs) @ ?e @ lp_image (drop (Suc i) xs)"
    by (subst xs) (simp only: image_simps)
  then have len: "lp_load_total lp - length ?e = 7 + length (lp_image ?ys)"
      "length (lp_image ?ys) \<le> length (lp_image xs)"
    using tot by simp_all
  have sz: "lp_entry_payload_size lp (lp_off xs i) = length (encode_payload (xs ! i))"
    and ne: "lp ! lp_off xs i \<noteq> LP_EOF"
    using entry_at(1,2) [of "xs ! i" pre rest] e by simp_all
  have "drop (Suc i) xs = [] \<longleftrightarrow> Suc i = length xs" using assms(2) by auto
  moreover have "lp_image (drop (Suc i) xs) = [] \<longleftrightarrow> drop (Suc i) xs = []"
    using encode_entry_pos by (cases "drop (Suc i) xs") auto
  ultimately have tail: "6 + length (lp_image ?ys) \<le> lp_off xs i \<longleftrightarrow> Suc i = length xs"
    by (auto simp: lp_off_def LP_HDR_SIZE_def)
  have step: "lp_off xs i + length ?e = lp_off xs (Suc i)" using off_Suc [OF assms(2)] by simp
  have body: "take (lp_off xs i) lp @ drop (lp_off xs (Suc i)) lp =
      le_bytes 4 (7 + length (lp_image xs)) @ le_bytes 2 n @ lp_image ?ys @ [LP_EOF]"
    using frame_at(1) [of i xs n] frame_at(2) [of "Suc i" xs n] assms(2) by (simp add: lp(1))
  obtain n' where n': "lp_bump_numele (lp_frame n (lp_image ?ys)) False = lp_frame n' (lp_image ?ys)"
    "count_ok n' (length xs - 1)"
    using bump_frame [OF lp(2), of False "lp_image ?ys"] assms(2) by (cases xs) auto
  have nm: "length (encode_payload (xs ! i)) \<noteq> UINT64_MAX"
    using payload_shorter_than_2_35 [OF e(3)] by (auto simp: c_limits)
  have esz: "length (encode_payload (xs ! i)) + lp_backlen_size (length (encode_payload (xs ! i))) = length ?e"
    by (simp add: length_encode_entry)
  have "lp_delete lp (lp_off xs i) =
      Some (lp_frame n' (lp_image ?ys), if Suc i = length xs then None else Some (lp_off xs i))"
    unfolding lp_delete_def Let_def sz esz step len(1) body store_total_frame n'(1)
    using ne nm tail by simp
  moreover have "lp_rep (lp_frame n' (lp_image ?ys)) ?ys"
  proof -
    have "set ?ys \<subseteq> set xs" by (auto dest: in_set_takeD in_set_dropD)
    moreover have "length ?ys = length xs - 1" using assms(2) by simp
    ultimately show ?thesis using assms(1) n' len(2) unfolding lp_rep_def by (auto simp del: image_simps)
  qed
  ultimately show ?thesis by blast
qed

lemma find_rep:
  assumes "lp_rep lp xs"
  shows "i < length xs \<Longrightarrow>
    find_loop lp s (Some (lp_off xs i)) = map_option (lp_off xs) (List.find (\<lambda>j. xs ! j = s) [i..<length xs])"
proof (induction "length xs - i" arbitrary: i)
  case (Suc k)
  have eq: "lp_entry_equal (drop (lp_off xs i) lp) s \<longleftrightarrow> xs ! i = s"
    using entry_equal_value [OF get_rep(1) [OF assms Suc.prems]] .
  have up: "[i..<length xs] = i # [Suc i..<length xs]" using Suc.prems by (simp add: upt_conv_Cons)
  show ?case
  proof (cases "Suc i < length xs")
    case True
    with next_rep [OF assms Suc.prems] Suc.hyps(1) [of "Suc i"] Suc.hyps(2) eq show ?thesis by (simp add: up)
  next
    case False
    with next_rep [OF assms Suc.prems] eq show ?thesis by (simp add: up)
  qed
qed simp

lemma new_rep: "lp_rep lp_new []"
  by (auto simp: lp_rep_def lp_new_def lp_frame_def LP_HDR_SIZE_def count_ok_def LP_NUMELE_UNKNOWN_def c_limits)

lemma replace_rep:
  assumes "lp_rep lp xs" and "length s \<le> UINT32_MAX" and "i < length xs"
    and fit: "lp_load_total lp + length (lp_encode_entry s) \<le> UINT32_MAX"
  shows "\<exists>lp'. lp_replace lp (lp_off xs i) s = Some lp' \<and> lp_rep lp' (xs[i := s])"
proof -
  let ?ys = "take i xs @ drop (Suc i) xs"
  obtain lp1 where d: "lp_delete lp (lp_off xs i) =
      Some (lp1, if Suc i = length xs then None else Some (lp_off xs i))" "lp_rep lp1 ?ys"
    using delete_rep [OF assms(1,3)] by blast
  have "length (lp_image ?ys) \<le> length (lp_image xs)"
    by (subst (3) id_take_nth_drop [OF assms(3)]) (simp only: image_simps length_append)
  then have fit': "lp_load_total lp1 + length (lp_encode_entry s) \<le> UINT32_MAX"
    using rep_total [OF assms(1)] rep_total [OF d(2)] fit by linarith
  have off: "lp_off ?ys i = lp_off xs i" and ys: "take i ?ys @ s # drop i ?ys = xs[i := s]"
    using assms(3) by (simp_all add: lp_off_def upd_conv_take_nth_drop)
  define q where "q = (if Suc i = length xs then None else Some (lp_off xs i))"
  have i: "i \<le> length ?ys" using assms(3) by simp
  have "q = Some (lp_off ?ys i) \<and> \<not> False \<or> q = None \<and> i = length ?ys \<or>
      (\<exists>j. q = Some (lp_off ?ys j) \<and> False \<and> i = Suc j)"
    using off assms(3) unfolding q_def by (cases "Suc i = length xs") auto
  from insert_rep [OF d(2) assms(2) i fit' this] have "\<exists>lp'. lp_insert lp1 s q False = Some (lp', lp_off ?ys i) \<and>
      lp_rep lp' (xs[i := s])"
    unfolding ys .
  then show ?thesis using d(1) by (auto simp: lp_replace_def q_def)
qed

section \<open>The listpack as a list of strings\<close>

function lp_scan :: "bytes \<Rightarrow> nat option \<Rightarrow> bytes list" where
  "lp_scan lp None = []"
| "lp_scan lp (Some p) = lp_get_str (drop p lp) # lp_scan lp (lp_next lp p)"
  by pat_completeness auto
termination
  by (relation "measure (\<lambda>(lp, p). case p of None \<Rightarrow> 0 | Some p \<Rightarrow> Suc (lp_load_total lp - p))")
    (auto simp: lp_next_def lp_backlen_size_def Let_def split: option.splits if_splits)

definition lp_elems :: "bytes \<Rightarrow> bytes list" where
  "lp_elems lp = lp_scan lp (lp_first lp)"

definition lp_inv :: "bytes \<Rightarrow> bool" where
  "lp_inv lp \<longleftrightarrow> lp_rep lp (lp_elems lp)"

lemma scan_rep:
  assumes "lp_rep lp xs"
  shows "i < length xs \<Longrightarrow> lp_scan lp (Some (lp_off xs i)) = drop i xs"
proof (induction "length xs - i" arbitrary: i)
  case (Suc k)
  with next_rep [OF assms Suc.prems] Suc.hyps(1) [of "Suc i"] get_rep(2) [OF assms Suc.prems] show ?case
    by (cases "Suc i < length xs") (auto simp: Cons_nth_drop_Suc [symmetric])
qed simp

lemma elems_rep: "lp_rep lp xs \<Longrightarrow> lp_elems lp = xs"
  using scan_rep [of lp xs 0] first_rep [of lp xs] by (cases xs) (auto simp: lp_elems_def)

lemma rep_inv: "lp_rep lp xs \<Longrightarrow> lp_inv lp \<and> lp_elems lp = xs"
  using elems_rep by (auto simp: lp_inv_def)

datatype lp_op =
    LpAppend bytes
  | LpPrepend bytes
  | LpInsert int bool bytes
  | LpDelete int
  | LpReplace int bytes
  | LpGet int
  | LpLength
  | LpFind bytes

datatype lp_res = RNone | RNat nat | RStr bytes

text \<open>Clients address entries by index: they seek a position and then operate on it.\<close>

fun lp_exec :: "bytes \<Rightarrow> lp_op \<Rightarrow> (lp_res \<times> bytes) option" where
  "lp_exec lp (LpAppend s) = map_option (Pair RNone) (lp_append lp s)"
| "lp_exec lp (LpPrepend s) = map_option (Pair RNone) (lp_prepend lp s)"
| "lp_exec lp (LpInsert i after s) =
     (case lp_seek lp i of
        None \<Rightarrow> Some (RNone, lp)
      | Some p \<Rightarrow>
          (case lp_insert lp s (Some p) after of
             None \<Rightarrow> None
           | Some (lp', q) \<Rightarrow> Some (RStr (lp_get_str (drop q lp')), lp')))"
| "lp_exec lp (LpDelete i) =
     (case lp_seek lp i of
        None \<Rightarrow> Some (RNone, lp)
      | Some p \<Rightarrow>
          (case lp_delete lp p of
             None \<Rightarrow> None
           | Some (lp', q) \<Rightarrow>
               Some (case q of None \<Rightarrow> RNone | Some q \<Rightarrow> RStr (lp_get_str (drop q lp')), lp')))"
| "lp_exec lp (LpReplace i s) =
     (case lp_seek lp i of
        None \<Rightarrow> Some (RNone, lp)
      | Some p \<Rightarrow> map_option (Pair RNone) (lp_replace lp p s))"
| "lp_exec lp (LpGet i) =
     Some (case lp_seek lp i of None \<Rightarrow> RNone | Some p \<Rightarrow> RStr (lp_get_str (drop p lp)), lp)"
| "lp_exec lp LpLength = Some (RNat (lp_length lp), lp)"
| "lp_exec lp (LpFind s) =
     Some (case lp_find lp None s of None \<Rightarrow> RNone | Some p \<Rightarrow> RStr (lp_get_str (drop p lp)), lp)"

fun lp_spec :: "bytes list \<Rightarrow> lp_op \<Rightarrow> lp_res \<times> bytes list" where
  "lp_spec xs (LpAppend s) = (RNone, xs @ [s])"
| "lp_spec xs (LpPrepend s) = (RNone, s # xs)"
| "lp_spec xs (LpInsert i after s) =
     (case norm_index i (length xs) of
        None \<Rightarrow> (RNone, xs)
      | Some k \<Rightarrow> let k = (if after then Suc k else k) in (RStr s, take k xs @ s # drop k xs))"
| "lp_spec xs (LpDelete i) =
     (case norm_index i (length xs) of
        None \<Rightarrow> (RNone, xs)
      | Some k \<Rightarrow> (if Suc k = length xs then RNone else RStr (xs ! Suc k), take k xs @ drop (Suc k) xs))"
| "lp_spec xs (LpReplace i s) =
     (case norm_index i (length xs) of None \<Rightarrow> (RNone, xs) | Some k \<Rightarrow> (RNone, xs[k := s]))"
| "lp_spec xs (LpGet i) =
     (case norm_index i (length xs) of None \<Rightarrow> RNone | Some k \<Rightarrow> RStr (xs ! k), xs)"
| "lp_spec xs LpLength = (RNat (length xs), xs)"
| "lp_spec xs (LpFind s) = (if s \<in> set xs then RStr s else RNone, xs)"

text \<open>The new entry fits the 32-bit sizes.\<close>

fun lp_safe :: "bytes \<Rightarrow> lp_op \<Rightarrow> bool" where
  "lp_safe lp (LpAppend s) \<longleftrightarrow> length s \<le> UINT32_MAX \<and> lp_bytes lp + length (lp_encode_entry s) \<le> UINT32_MAX"
| "lp_safe lp (LpPrepend s) \<longleftrightarrow> length s \<le> UINT32_MAX \<and> lp_bytes lp + length (lp_encode_entry s) \<le> UINT32_MAX"
| "lp_safe lp (LpInsert i after s) \<longleftrightarrow>
     length s \<le> UINT32_MAX \<and> lp_bytes lp + length (lp_encode_entry s) \<le> UINT32_MAX"
| "lp_safe lp (LpReplace i s) \<longleftrightarrow>
     length s \<le> UINT32_MAX \<and> lp_bytes lp + length (lp_encode_entry s) \<le> UINT32_MAX"
| "lp_safe lp _ \<longleftrightarrow> True"

lemma norm_index_lt: "norm_index i n = Some k \<Longrightarrow> k < n"
  by (auto simp: norm_index_def split: if_splits)

lemma off_cong: "take i ys = take i xs \<Longrightarrow> lp_off ys i = lp_off xs i"
  by (simp add: lp_off_def)

lemma lp_exec_refines:
  assumes inv: "lp_rep lp xs" and "lp_safe lp op"
  shows "\<exists>r lp'. lp_exec lp op = Some (r, lp') \<and> lp_rep lp' (snd (lp_spec xs op)) \<and> fst (lp_spec xs op) = r"
proof (cases op)
  case (LpAppend s)
  then show ?thesis
    using insert_rep [OF inv, of s "length xs" None False] assms(2) by (auto simp: lp_append_def lp_bytes_def)
next
  case (LpPrepend s)
  then show ?thesis
    using insert_rep [OF inv, of s 0 "Some (lp_off xs 0)" False] assms(2)
    by (auto simp: lp_prepend_def lp_bytes_def)
next
  case (LpInsert i after s)
  show ?thesis
  proof (cases "norm_index i (length xs)")
    case None
    with LpInsert inv show ?thesis by (simp add: seek_rep [OF inv])
  next
    case (Some k)
    let ?k = "if after then Suc k else k"
    have k: "k < length xs" by (rule norm_index_lt [OF Some])
    have "\<exists>lp'. lp_insert lp s (Some (lp_off xs k)) after = Some (lp', lp_off xs ?k) \<and>
        lp_rep lp' (take ?k xs @ s # drop ?k xs)"
      by (rule insert_rep [OF inv]) (use assms(2) LpInsert k in \<open>auto simp: lp_bytes_def\<close>)
    then obtain lp' where ins: "lp_insert lp s (Some (lp_off xs k)) after = Some (lp', lp_off xs ?k)"
        "lp_rep lp' (take ?k xs @ s # drop ?k xs)" by blast
    define m where "m = ?k"
    have "m \<le> length xs" using k by (simp add: m_def)
    then have "lp_get_str (drop (lp_off xs m) lp') = s"
      using get_rep(2) [OF ins(2) [folded m_def], of m] off_cong [of m "take m xs @ s # drop m xs" xs]
      by (simp add: nth_append)
    then have "lp_get_str (drop (lp_off xs ?k) lp') = s" unfolding m_def .
    then show ?thesis using LpInsert Some ins by (simp add: seek_rep [OF inv] Let_def)
  qed
next
  case (LpDelete i)
  show ?thesis
  proof (cases "norm_index i (length xs)")
    case None
    with LpDelete inv show ?thesis by (simp add: seek_rep [OF inv])
  next
    case (Some k)
    have k: "k < length xs" by (rule norm_index_lt [OF Some])
    let ?ys = "take k xs @ drop (Suc k) xs"
    obtain lp' where del: "lp_delete lp (lp_off xs k) = Some (lp', if Suc k = length xs then None else Some (lp_off xs k))"
        "lp_rep lp' ?ys"
      using delete_rep [OF inv k] by blast
    have "Suc k \<noteq> length xs \<Longrightarrow> lp_get_str (drop (lp_off xs k) lp') = xs ! Suc k"
      using get_rep(2) [OF del(2), of k] off_cong [of k ?ys xs] k by (simp add: nth_append)
    then show ?thesis using LpDelete Some del by (simp add: seek_rep [OF inv])
  qed
next
  case (LpReplace i s)
  show ?thesis
  proof (cases "norm_index i (length xs)")
    case None
    with LpReplace inv show ?thesis by (simp add: seek_rep [OF inv])
  next
    case (Some k)
    have k: "k < length xs" by (rule norm_index_lt [OF Some])
    with replace_rep [OF inv _ k, of s] assms(2) LpReplace Some show ?thesis
      by (auto simp: seek_rep [OF inv] lp_bytes_def)
  qed
next
  case (LpGet i)
  then show ?thesis
    using inv get_rep(2) [OF inv] norm_index_lt [of i "length xs"]
    by (auto simp: seek_rep [OF inv] split: option.splits)
next
  case LpLength
  with inv show ?thesis by (simp add: length_rep)
next
  case (LpFind s)
  have "lp_find lp None s = map_option (lp_off xs) (List.find (\<lambda>j. xs ! j = s) [0..<length xs])"
    using find_rep [OF inv, of 0 s] first_rep [OF inv] by (cases xs) (auto simp: lp_find_def)
  moreover have "List.find (\<lambda>j. xs ! j = s) [0..<length xs] = None \<longleftrightarrow> s \<notin> set xs"
    by (auto simp: find_None_iff in_set_conv_nth)
  moreover have "List.find (\<lambda>j. xs ! j = s) [0..<length xs] = Some j \<Longrightarrow> j < length xs \<and> xs ! j = s" for j
    by (auto simp: find_Some_iff)
  ultimately show ?thesis
    using LpFind inv get_rep(2) [OF inv]
    by (cases "List.find (\<lambda>j. xs ! j = s) [0..<length xs]") auto
qed

interpretation lp: data_refinement lp_inv lp_elems lp_safe lp_exec lp_spec
proof (unfold_locales, goal_cases)
  case (1 lp op)
  then obtain r lp' where e: "lp_exec lp op = Some (r, lp')" "lp_rep lp' (snd (lp_spec (lp_elems lp) op))"
    "fst (lp_spec (lp_elems lp) op) = r"
    using lp_exec_refines [of lp "lp_elems lp" op] by (auto simp: lp_inv_def)
  with rep_inv [OF e(2)] show ?case by (cases "lp_spec (lp_elems lp) op") auto
qed

section \<open>Properties\<close>

text \<open>
  C4: A listpack is a list of strings. Every sequence of appends, prepends, insertions before
  or after an index, deletions, replacements, reads, length queries and searches on a fresh
  listpack returns, result by result, what the same operations return on a list, as long as
  the new entries fit the 32-bit sizes; indices may count from the end, and the answers do
  not depend on how entries are encoded or on the saturation of the entry count.
\<close>
theorem listpack_refines_list:
  assumes "run_safe lp_safe lp_exec lp_new ops"
  shows "\<exists>rs lp. run_ops lp_exec lp_new ops = Some (rs, lp) \<and> run_spec lp_spec [] ops = (rs, lp_elems lp)"
  using lp.run_refines [OF _ assms] rep_inv [OF new_rep] by auto

theorem listpack_refines_list_witness:
  "\<exists>rs lp. run_ops lp_exec lp_new [LpAppend [97], LpGet (-1)] = Some (rs, lp) \<and>
     ([RNone, RStr [97]], [[97]]) = (rs, lp_elems lp)"
proof -
  have "run_safe lp_safe lp_exec lp_new [LpAppend [97], LpGet (-1)]"
    by (simp add: lp_bytes_def lp_new_def lp_load_total_def LP_HDR_SIZE_def c_limits lp_encode_entry_def
        encode_payload_def lp_str_to_int64_def is_digit_def encode_str_def lp_backlen_size_def Let_def
        split: option.split prod.split)
  then show ?thesis using listpack_refines_list [of "[LpAppend [97], LpGet (-1)]"] by (simp add: norm_index_def)
qed

text \<open>
  Entry round trip. The decoder gives back every string that the encoder stores, in one
  of the nine encodings, and the size of the entry can be read both from its first bytes and,
  walking backwards, from the length that trails it.
\<close>
theorem listpack_entry_roundtrip:
  assumes "length s \<le> UINT32_MAX" and "LP_HDR_SIZE \<le> length pre"
  shows "lp_get_str (lp_encode_entry s @ rest) = s \<and>
    lp_prev (pre @ lp_encode_entry s @ rest) (length pre + length (lp_encode_entry s)) = Some (length pre)"
  using entry_behind [OF assms, of rest] encode_payload_codec [OF assms(1)]
  by (simp add: lp_get_str_def lp_encode_entry_def get_str_value_of Let_def)

text \<open>
  Integer recognition. A string is stored as an integer exactly when it is the canonical
  decimal form of a 64-bit integer: no leading zeros, no plus sign, no \<open>-0\<close>, in range.
\<close>
theorem listpack_canonical_integers:
  "lp_str_to_int64 s = Some v \<longleftrightarrow> LLONG_MIN \<le> v \<and> v \<le> LLONG_MAX \<and> s = print_lld v"
  using str_to_int64_Some [of s v] str_to_int64_print [of v] by auto

end
