(* ===== verification/Quicklist.thy ===== *)
theory Quicklist
  imports Listpack_List
begin

text \<open>
  Quicklists (\<open>ds/quicklist.c\<close>): a doubly linked list of listpack nodes with cached counts
  and sizes, splitting at full end nodes and merging sparse ones.

  The chain of nodes is the list of its nodes, and a node pointer is an index into it; the
  index one past the end is \<open>NULL\<close>. The fill limit, a global variable of the code, is an
  argument. Operations return \<open>None\<close> where the code ends the process because a listpack
  outgrows its 32-bit size.
\<close>

record ql_node =
  n_lp :: bytes
  n_count :: nat
  n_bytes :: nat

record quicklist =
  q_nodes :: "ql_node list"
  q_len :: nat
  q_mem :: nat

record ql_iter =
  it_node :: nat
  it_entry :: "nat option"

definition SIZEOF_QUICKLIST :: nat where "SIZEOF_QUICKLIST = 32"
definition SIZEOF_QL_NODE :: nat where "SIZEOF_QL_NODE = 40"
definition QL_NODE_OVERHEAD :: nat where "QL_NODE_OVERHEAD = SIZEOF_QL_NODE + 16"
definition DDUP_QL_FILL :: nat where "DDUP_QL_FILL = 128"

definition quicklist_set_fill :: "int \<Rightarrow> nat \<Rightarrow> nat" where
  "quicklist_set_fill fill g_ql_fill = (if 1 \<le> fill then nat fill else g_ql_fill)"

section \<open>Nodes\<close>

definition ql_node_new :: ql_node where
  "ql_node_new = \<lparr>n_lp = lp_new, n_count = 0, n_bytes = lp_bytes lp_new\<rparr>"

text \<open>\<open>ql_node_new\<close> and \<open>ql_node_free\<close> charge the memory counter.\<close>

definition node_cost :: "ql_node \<Rightarrow> nat" where
  "node_cost n = QL_NODE_OVERHEAD + n_bytes n"

definition ql_node_link :: "quicklist \<Rightarrow> ql_node \<Rightarrow> bool \<Rightarrow> quicklist" where
  "ql_node_link ql n left =
     ql\<lparr>q_nodes := (if left then n # q_nodes ql else q_nodes ql @ [n]), q_mem := q_mem ql + node_cost n\<rparr>"

definition ql_node_unlink :: "quicklist \<Rightarrow> nat \<Rightarrow> quicklist" where
  "ql_node_unlink ql i =
     ql\<lparr>q_nodes := take i (q_nodes ql) @ drop (Suc i) (q_nodes ql),
        q_mem := q_mem ql - node_cost (q_nodes ql ! i)\<rparr>"

text \<open>Store a changed listpack in a node and account its size (\<open>ql_node_mem_sync\<close>).\<close>

definition node_update :: "quicklist \<Rightarrow> nat \<Rightarrow> bytes \<Rightarrow> nat \<Rightarrow> quicklist" where
  "node_update ql i lp count =
     (let old = q_nodes ql ! i;
          n = old\<lparr>n_lp := lp, n_count := count, n_bytes := lp_bytes lp\<rparr>
      in ql\<lparr>q_nodes := (q_nodes ql)[i := n], q_mem := q_mem ql - n_bytes old + n_bytes n\<rparr>)"

function entry_index_loop :: "bytes \<Rightarrow> nat \<Rightarrow> nat option \<Rightarrow> nat" where
  "entry_index_loop lp entry None = 0"
| "entry_index_loop lp entry (Some p) =
     (if p = entry then 0 else Suc (entry_index_loop lp entry (lp_next lp p)))"
  by pat_completeness auto
termination
  by (relation "measure (\<lambda>(lp, e, p). case p of None \<Rightarrow> 0 | Some p \<Rightarrow> Suc (lp_load_total lp - p))")
    (auto simp: lp_next_def lp_backlen_size_def Let_def split: option.splits if_splits)

definition ql_entry_index :: "ql_node \<Rightarrow> nat \<Rightarrow> nat" where
  "ql_entry_index n entry = entry_index_loop (n_lp n) entry (lp_first (n_lp n))"

function merge_loop :: "bytes \<Rightarrow> bytes \<Rightarrow> nat option \<Rightarrow> bytes option" where
  "merge_loop dst src None = Some dst"
| "merge_loop dst src (Some p) =
     (case lp_append dst (lp_get_str (drop p src)) of
        None \<Rightarrow> None
      | Some dst' \<Rightarrow> merge_loop dst' src (lp_next src p))"
  by pat_completeness auto
termination
  by (relation "measure (\<lambda>(d, lp, p). case p of None \<Rightarrow> 0 | Some p \<Rightarrow> Suc (lp_load_total lp - p))")
    (auto simp: lp_next_def lp_backlen_size_def Let_def split: option.splits if_splits)

text \<open>Fold node \<open>i + 1\<close> into node \<open>i\<close>.\<close>

definition ql_node_merge_into :: "quicklist \<Rightarrow> nat \<Rightarrow> quicklist option" where
  "ql_node_merge_into ql i =
     (let dst = q_nodes ql ! i; src = q_nodes ql ! Suc i
      in case merge_loop (n_lp dst) (n_lp src) (lp_first (n_lp src)) of
           None \<Rightarrow> None
         | Some lp \<Rightarrow>
             Some (ql_node_unlink (node_update ql i lp (n_count dst + n_count src)) (Suc i)))"

definition ql_maybe_merge :: "nat \<Rightarrow> quicklist \<Rightarrow> nat \<Rightarrow> (nat \<times> quicklist) option" where
  "ql_maybe_merge fill ql i =
     (let nodes = q_nodes ql; n = nodes ! i
      in if fill div 4 \<le> n_count n then Some (0, ql)
         else if Suc i < length nodes \<and> n_count n + n_count (nodes ! Suc i) \<le> 2 * fill
         then map_option (Pair 1) (ql_node_merge_into ql i)
         else if 0 < i \<and> n_count n + n_count (nodes ! (i - 1)) \<le> 2 * fill
         then map_option (Pair 2) (ql_node_merge_into ql (i - 1))
         else Some (0, ql))"

section \<open>Lists\<close>

definition ql_init :: quicklist where
  "ql_init = \<lparr>q_nodes = [], q_len = 0, q_mem = SIZEOF_QUICKLIST\<rparr>"

definition ql_release :: "quicklist \<Rightarrow> quicklist" where
  "ql_release ql = ql\<lparr>q_nodes := [], q_len := 0, q_mem := SIZEOF_QUICKLIST\<rparr>"

definition ql_push :: "nat \<Rightarrow> quicklist \<Rightarrow> bool \<Rightarrow> bytes \<Rightarrow> (int \<times> quicklist) option" where
  "ql_push fill ql left data =
     (if UINT32_MAX < length data then Some (-1, ql)
      else
        let end_node = (if left then hd (q_nodes ql) else last (q_nodes ql));
            ql = (if q_nodes ql = [] \<or> fill \<le> n_count end_node
                  then ql_node_link ql ql_node_new left else ql);
            i = (if left then 0 else length (q_nodes ql) - 1);
            n = q_nodes ql ! i
        in case (if left then lp_prepend (n_lp n) data else lp_append (n_lp n) data) of
             None \<Rightarrow> None
           | Some lp \<Rightarrow>
               let ql = node_update ql i lp (n_count n + 1)
               in Some (0, ql\<lparr>q_len := q_len ql + 1\<rparr>))"

definition ql_pop :: "nat \<Rightarrow> quicklist \<Rightarrow> bool \<Rightarrow> (bytes option \<times> quicklist) option" where
  "ql_pop fill ql left =
     (if q_nodes ql = [] then Some (None, ql)
      else
        let i = (if left then 0 else length (q_nodes ql) - 1);
            n = q_nodes ql ! i
        in case (if left then lp_first (n_lp n) else lp_last (n_lp n)) of
             None \<Rightarrow> None
           | Some entry \<Rightarrow>
               let data = lp_get_str (drop entry (n_lp n))
               in case lp_delete (n_lp n) entry of
                    None \<Rightarrow> None
                  | Some (lp, _) \<Rightarrow>
                      let r = (if n_count n - 1 = 0 then Some (ql_node_unlink ql i)
                               else map_option snd
                                      (ql_maybe_merge fill (node_update ql i lp (n_count n - 1)) i))
                      in map_option (\<lambda>ql. (Some data, ql\<lparr>q_len := q_len ql - 1\<rparr>)) r)"

text \<open>The node loops of \<open>ql_seek\<close>, from the head and from the tail.\<close>

fun seek_fwd :: "ql_node list \<Rightarrow> nat \<Rightarrow> nat \<Rightarrow> nat \<times> nat" where
  "seek_fwd [] i idx = (i, idx)"
| "seek_fwd (n # ns) i idx =
     (if n_count n \<le> idx then seek_fwd ns (Suc i) (idx - n_count n) else (i, idx))"

fun seek_bwd :: "ql_node list \<Rightarrow> nat \<Rightarrow> nat \<Rightarrow> nat \<times> nat" where
  "seek_bwd nodes 0 from_end = (0, from_end)"
| "seek_bwd nodes (Suc i) from_end =
     (if n_count (nodes ! Suc i) \<le> from_end then seek_bwd nodes i (from_end - n_count (nodes ! Suc i))
      else (Suc i, from_end))"

definition ql_seek :: "quicklist \<Rightarrow> nat \<Rightarrow> ql_iter option" where
  "ql_seek ql idx =
     (if q_len ql \<le> idx then None
      else
        let (i, j) =
              (if idx < q_len ql div 2 then seek_fwd (q_nodes ql) 0 idx
               else
                 let (i, from_end) = seek_bwd (q_nodes ql) (length (q_nodes ql) - 1) (q_len ql - 1 - idx)
                 in (i, n_count (q_nodes ql ! i) - 1 - from_end))
        in case lp_seek (n_lp (q_nodes ql ! i)) (int j) of
             None \<Rightarrow> None
           | Some p \<Rightarrow> Some \<lparr>it_node = i, it_entry = Some p\<rparr>)"

text \<open>The first entry of the node at an index, \<open>NULL\<close> past the end.\<close>

definition enter_node :: "quicklist \<Rightarrow> nat \<Rightarrow> ql_iter" where
  "enter_node ql i =
     \<lparr>it_node = i, it_entry = (if i < length (q_nodes ql) then lp_first (n_lp (q_nodes ql ! i)) else None)\<rparr>"

definition ql_first :: "quicklist \<Rightarrow> ql_iter" where
  "ql_first ql = enter_node ql 0"

definition ql_last :: "quicklist \<Rightarrow> ql_iter" where
  "ql_last ql =
     (if q_nodes ql = [] then \<lparr>it_node = 0, it_entry = None\<rparr>
      else \<lparr>it_node = length (q_nodes ql) - 1, it_entry = lp_last (n_lp (last (q_nodes ql)))\<rparr>)"

definition ql_iter_next :: "quicklist \<Rightarrow> ql_iter \<Rightarrow> ql_iter" where
  "ql_iter_next ql it =
     (case it_entry it of
        None \<Rightarrow> it
      | Some p \<Rightarrow>
          (case lp_next (n_lp (q_nodes ql ! it_node it)) p of
             Some q \<Rightarrow> it\<lparr>it_entry := Some q\<rparr>
           | None \<Rightarrow> enter_node ql (Suc (it_node it))))"

definition ql_iter_prev :: "quicklist \<Rightarrow> ql_iter \<Rightarrow> ql_iter" where
  "ql_iter_prev ql it =
     (case it_entry it of
        None \<Rightarrow> it
      | Some p \<Rightarrow>
          (case lp_prev (n_lp (q_nodes ql ! it_node it)) p of
             Some q \<Rightarrow> it\<lparr>it_entry := Some q\<rparr>
           | None \<Rightarrow>
               if it_node it = 0 then \<lparr>it_node = length (q_nodes ql), it_entry = None\<rparr>
               else \<lparr>it_node = it_node it - 1, it_entry = lp_last (n_lp (q_nodes ql ! (it_node it - 1)))\<rparr>))"

definition ql_iter_value :: "quicklist \<Rightarrow> ql_iter \<Rightarrow> bytes option" where
  "ql_iter_value ql it =
     map_option (\<lambda>p. lp_get_str (drop p (n_lp (q_nodes ql ! it_node it)))) (it_entry it)"

definition ql_set :: "quicklist \<Rightarrow> ql_iter \<Rightarrow> bytes \<Rightarrow> (int \<times> quicklist \<times> ql_iter) option" where
  "ql_set ql it data =
     (case it_entry it of
        None \<Rightarrow> Some (-1, ql, it)
      | Some p \<Rightarrow>
          if UINT32_MAX < length data then Some (-1, ql, it)
          else
            let n = q_nodes ql ! it_node it
            in case lp_replace (n_lp n) p data of
                 None \<Rightarrow> None
               | Some lp \<Rightarrow> Some (1, node_update ql (it_node it) lp (n_count n), it))"

definition ql_insert :: "quicklist \<Rightarrow> ql_iter \<Rightarrow> bool \<Rightarrow> bytes \<Rightarrow> (int \<times> quicklist \<times> ql_iter) option" where
  "ql_insert ql it after data =
     (case it_entry it of
        None \<Rightarrow> Some (-1, ql, it)
      | Some p \<Rightarrow>
          if UINT32_MAX < length data then Some (-1, ql, it)
          else
            let n = q_nodes ql ! it_node it
            in case lp_insert (n_lp n) data (Some p) after of
                 None \<Rightarrow> None
               | Some (lp, newp) \<Rightarrow>
                   let ql = node_update ql (it_node it) lp (n_count n + 1)
                   in Some (1, ql\<lparr>q_len := q_len ql + 1\<rparr>, it\<lparr>it_entry := Some newp\<rparr>))"

definition ql_remove :: "nat \<Rightarrow> quicklist \<Rightarrow> ql_iter \<Rightarrow> (quicklist \<times> ql_iter) option" where
  "ql_remove fill ql it =
     (case it_entry it of
        None \<Rightarrow> Some (ql, it)
      | Some p \<Rightarrow>
          let i = it_node it; n = q_nodes ql ! i
          in case lp_delete (n_lp n) p of
               None \<Rightarrow> None
             | Some (lp, np) \<Rightarrow>
                 let count = n_count n - 1; len = q_len ql - 1
                 in case np of
                      Some q \<Rightarrow>
                        let ql = (node_update ql i lp count)\<lparr>q_len := len\<rparr>
                        in if count < fill div 4
                           then
                             let prev_cnt = (if 0 < i then n_count (q_nodes ql ! (i - 1)) else 0);
                                 idx = ql_entry_index (q_nodes ql ! i) q
                             in case ql_maybe_merge fill ql i of
                                  None \<Rightarrow> None
                                | Some (r, ql) \<Rightarrow>
                                    Some (ql,
                                      if r = 2
                                      then \<lparr>it_node = i - 1,
                                            it_entry = lp_seek (n_lp (q_nodes ql ! (i - 1))) (int (prev_cnt + idx))\<rparr>
                                      else \<lparr>it_node = i,
                                            it_entry = lp_seek (n_lp (q_nodes ql ! i)) (int idx)\<rparr>)
                           else Some (ql, \<lparr>it_node = i, it_entry = Some q\<rparr>)
                    | None \<Rightarrow>
                        if count = 0
                        then
                          let ql = (ql_node_unlink ql i)\<lparr>q_len := len\<rparr>
                          in Some (ql, enter_node ql i)
                        else
                          let ql = (node_update ql i lp count)\<lparr>q_len := len\<rparr>
                          in if count < fill div 4
                             then
                               case ql_maybe_merge fill ql i of
                                 None \<Rightarrow> None
                               | Some (r, ql') \<Rightarrow>
                                   Some (ql',
                                     if r = 1
                                     then \<lparr>it_node = i, it_entry = lp_seek (n_lp (q_nodes ql' ! i)) (int count)\<rparr>
                                     else if r = 2 then enter_node ql' i
                                     else enter_node ql' (Suc i))
                             else Some (ql, enter_node ql (Suc i)))"

end
