(* ===== verification/Quicklist_List.thy ===== *)
theory Quicklist_List
  imports Quicklist
begin

text \<open>
  Quicklists as lists of strings: the invariant of the chain of nodes, what each operation
  does to the list it holds, and where it leaves the iterator.
\<close>

section \<open>Invariant\<close>

definition elems :: "ql_node \<Rightarrow> bytes list" where
  "elems n = lp_elems (n_lp n)"

definition node_rep :: "ql_node \<Rightarrow> bytes list \<Rightarrow> bool" where
  "node_rep n xs \<longleftrightarrow> lp_rep (n_lp n) xs \<and> n_count n = length xs \<and> n_bytes n = lp_bytes (n_lp n)"

definition node_ok :: "ql_node \<Rightarrow> bool" where
  "node_ok n \<longleftrightarrow> node_rep n (elems n) \<and> elems n \<noteq> []"

definition flat :: "ql_node list \<Rightarrow> bytes list" where
  "flat ns = concat (map elems ns)"

definition mem_ok :: "quicklist \<Rightarrow> bool" where
  "mem_ok ql \<longleftrightarrow> q_mem ql = SIZEOF_QUICKLIST + sum_list (map node_cost (q_nodes ql))"

definition ql_inv :: "quicklist \<Rightarrow> bool" where
  "ql_inv ql \<longleftrightarrow> (\<forall>n \<in> set (q_nodes ql). node_ok n) \<and> q_len ql = length (flat (q_nodes ql)) \<and> mem_ok ql"

definition ql_elems :: "quicklist \<Rightarrow> bytes list" where
  "ql_elems ql = flat (q_nodes ql)"

text \<open>All entries together fit the 32-bit sizes of a listpack, with \<open>k\<close> bytes to spare.\<close>

definition ql_fits :: "quicklist \<Rightarrow> nat \<Rightarrow> bool" where
  "ql_fits ql k \<longleftrightarrow> sum_list (map n_bytes (q_nodes ql)) + k \<le> UINT32_MAX"

lemma flat_simps [simp]:
  "flat [] = []" "flat (n # ns) = elems n @ flat ns" "flat (ms @ ns) = flat ms @ flat ns"
  by (simp_all add: flat_def)

lemma node_rep_elems: "node_rep n xs \<Longrightarrow> elems n = xs"
  by (simp add: node_rep_def elems_def elems_rep)

lemma node_okD:
  assumes "node_ok n"
  shows "lp_rep (n_lp n) (elems n)" and "n_count n = length (elems n)" and "n_bytes n = lp_bytes (n_lp n)"
    and "elems n \<noteq> []" and "0 < n_count n"
  using assms by (auto simp: node_ok_def node_rep_def)

lemma node_okI: "node_rep n xs \<Longrightarrow> xs \<noteq> [] \<Longrightarrow> node_ok n"
  using node_rep_elems [of n xs] by (simp add: node_ok_def)

lemma node_ok_length: "node_ok n \<Longrightarrow> n_count n = lp_length (n_lp n)"
  using length_rep [OF node_okD(1)] node_okD(2) by simp

section \<open>Changing one node\<close>

lemma update_node:
  assumes "q_nodes ql = us @ n # vs" and "mem_ok ql" and "lp_rep lp ys"
  obtains n' where "q_nodes (node_update ql (length us) lp (length ys)) = us @ n' # vs" and "node_rep n' ys"
    and "mem_ok (node_update ql (length us) lp (length ys))" and "n_bytes n' = lp_bytes lp"
    and "q_len (node_update ql (length us) lp (length ys)) = q_len ql"
proof (rule that [of "n\<lparr>n_lp := lp, n_count := length ys, n_bytes := lp_bytes lp\<rparr>"])
  show "mem_ok (node_update ql (length us) lp (length ys))"
    using assms(1,2) by (simp add: mem_ok_def node_update_def node_cost_def Let_def)
qed (use assms in \<open>simp_all add: node_update_def node_rep_def Let_def\<close>)

lemma node_update_len [simp]: "q_len (node_update ql i lp c) = q_len ql"
  by (simp add: node_update_def Let_def)

lemma unlink_node:
  assumes "q_nodes ql = us @ n # vs" and "mem_ok ql"
  shows "q_nodes (ql_node_unlink ql (length us)) = us @ vs" and "mem_ok (ql_node_unlink ql (length us))"
    and "q_len (ql_node_unlink ql (length us)) = q_len ql"
  using assms by (simp_all add: ql_node_unlink_def mem_ok_def)

lemma merge_loop_rep:
  assumes src: "lp_rep src ys"
  shows "lp_rep dst xs \<Longrightarrow> j < length ys \<Longrightarrow> 7 + length (lp_image xs) + length (lp_image (drop j ys)) \<le> UINT32_MAX \<Longrightarrow>
    \<exists>lp. merge_loop dst src (Some (lp_off ys j)) = Some lp \<and> lp_rep lp (xs @ drop j ys)"
proof (induction "length ys - j" arbitrary: dst xs j)
  case (Suc k)
  have y: "drop j ys = ys ! j # drop (Suc j) ys" using Suc.prems(2) by (simp add: Cons_nth_drop_Suc)
  have len: "length (ys ! j) \<le> UINT32_MAX" using src Suc.prems(2) by (simp add: lp_rep_def)
  have "lp_load_total dst + length (lp_encode_entry (ys ! j)) \<le> UINT32_MAX"
    using Suc.prems(3) rep_total [OF Suc.prems(1)] by (simp add: y)
  then obtain d where d: "lp_append dst (ys ! j) = Some d" "lp_rep d (xs @ [ys ! j])"
    using insert_rep [OF Suc.prems(1) len, of "length xs" None False] by (auto simp: lp_append_def)
  show ?case
  proof (cases "Suc j < length ys")
    case True
    have "\<exists>lp. merge_loop d src (Some (lp_off ys (Suc j))) = Some lp \<and> lp_rep lp ((xs @ [ys ! j]) @ drop (Suc j) ys)"
      using Suc.prems(3) True Suc.hyps(2) by (intro Suc.hyps(1) d(2)) (auto simp: y)
    then show ?thesis
      using d(1) next_rep [OF src Suc.prems(2)] True get_rep(2) [OF src Suc.prems(2)] by (simp add: y)
  next
    case False
    then show ?thesis
      using d next_rep [OF src Suc.prems(2)] get_rep(2) [OF src Suc.prems(2)] by (simp add: y)
  qed
qed simp

lemma merge_nodes:
  assumes q: "q_nodes ql = us @ n # m # vs" and ok: "node_ok n" "node_ok m" and "mem_ok ql" and "ql_fits ql 0"
  obtains ql' n' where "ql_node_merge_into ql (length us) = Some ql'" and "q_nodes ql' = us @ n' # vs"
    and "node_rep n' (elems n @ elems m)" and "mem_ok ql'" and "q_len ql' = q_len ql"
proof -
  note n = node_okD [OF ok(1)] and m = node_okD [OF ok(2)]
  have "n_bytes n + n_bytes m \<le> UINT32_MAX" using assms(5) q by (simp add: ql_fits_def)
  then have "7 + length (lp_image (elems n)) + length (lp_image (drop 0 (elems m))) \<le> UINT32_MAX"
    using n(3) m(3) rep_total [OF n(1)] rep_total [OF m(1)] by (simp add: lp_bytes_def)
  then obtain lp where lp: "merge_loop (n_lp n) (n_lp m) (lp_first (n_lp m)) = Some lp" "lp_rep lp (elems n @ elems m)"
    using merge_loop_rep [OF m(1) n(1), of 0] first_rep [OF m(1)] m(4) by auto
  obtain n' where n': "q_nodes (node_update ql (length us) lp (length (elems n @ elems m))) = us @ n' # m # vs"
    "node_rep n' (elems n @ elems m)" "mem_ok (node_update ql (length us) lp (length (elems n @ elems m)))"
    "q_len (node_update ql (length us) lp (length (elems n @ elems m))) = q_len ql"
    using update_node [OF q assms(4) lp(2)] by metis
  have split: "us @ n' # m # vs = (us @ [n']) @ m # vs" by simp
  note u = unlink_node [OF n'(1) [unfolded split] n'(3)]
  show thesis
  proof (rule that)
    show "ql_node_merge_into ql (length us) =
        Some (ql_node_unlink (node_update ql (length us) lp (length (elems n @ elems m))) (length (us @ [n'])))"
      using lp(1) n(2) m(2) by (simp add: ql_node_merge_into_def q nth_append)
  qed (use u n' in auto)
qed

lemma maybe_merge_cases:
  assumes q: "q_nodes ql = us @ n # vs"
  shows "ql_maybe_merge fill ql (length us) = Some (0, ql) \<or>
    (vs \<noteq> [] \<and> ql_maybe_merge fill ql (length us) = map_option (Pair 1) (ql_node_merge_into ql (length us))) \<or>
    (us \<noteq> [] \<and> ql_maybe_merge fill ql (length us) = map_option (Pair 2) (ql_node_merge_into ql (length us - 1)))"
proof -
  have "Suc (length us) < length (q_nodes ql) \<longleftrightarrow> vs \<noteq> []" by (auto simp: q)
  moreover have "0 < length us \<longleftrightarrow> us \<noteq> []" by auto
  ultimately show ?thesis unfolding ql_maybe_merge_def Let_def by (simp split: if_split)
qed

text \<open>
  The merge pass keeps the list; the result tells where the element at position \<open>j\<close> of the
  node went.
\<close>

lemma maybe_merge:
  assumes q: "q_nodes ql = us @ n # vs" and ok: "\<forall>m \<in> set (q_nodes ql). node_ok m" and "mem_ok ql" and "ql_fits ql 0"
  obtains r ql' where "ql_maybe_merge fill ql (length us) = Some (r, ql')"
    and "\<forall>m \<in> set (q_nodes ql'). node_ok m" and "mem_ok ql'" and "q_len ql' = q_len ql"
    and "flat (q_nodes ql') = flat (q_nodes ql)"
    and "r = 0 \<and> ql' = ql \<or>
      r = 1 \<and> (\<exists>m ws n'. vs = m # ws \<and> q_nodes ql' = us @ n' # ws \<and> elems n' = elems n @ elems m) \<or>
      r = 2 \<and> (\<exists>m ws n'. us = ws @ [m] \<and> q_nodes ql' = ws @ n' # vs \<and> elems n' = elems m @ elems n)"
proof -
  have n: "node_ok n" "0 < n_count n" using ok q node_okD(5) by auto
  consider (none) "ql_maybe_merge fill ql (length us) = Some (0, ql)"
    | (right) m ws where "vs = m # ws" "ql_maybe_merge fill ql (length us) = map_option (Pair 1) (ql_node_merge_into ql (length us))"
    | (left) m ws where "us = ws @ [m]" "ql_maybe_merge fill ql (length us) = map_option (Pair 2) (ql_node_merge_into ql (length ws))"
    using maybe_merge_cases [OF q, of fill]
  proof (elim disjE conjE)
    assume "vs \<noteq> []" and "ql_maybe_merge fill ql (length us) = map_option (Pair 1) (ql_node_merge_into ql (length us))"
    then show thesis by (cases vs) (auto intro: right)
  next
    assume "us \<noteq> []" and "ql_maybe_merge fill ql (length us) = map_option (Pair 2) (ql_node_merge_into ql (length us - 1))"
    then show thesis by (cases us rule: rev_cases) (auto intro: left)
  qed (rule none)
  then show thesis
  proof cases
    case none
    with assms show thesis by (intro that) auto
  next
    case right
    obtain ql' n' where m: "ql_node_merge_into ql (length us) = Some ql'" "q_nodes ql' = us @ n' # ws"
      "node_rep n' (elems n @ elems m)" "mem_ok ql'" "q_len ql' = q_len ql"
      using merge_nodes [of ql us n m ws] q right(1) ok assms(3,4) by auto
    have e: "elems n' = elems n @ elems m" "node_ok n'"
      using node_rep_elems [OF m(3)] node_okI [OF m(3)] node_okD(4) [OF n(1)] by auto
    show thesis
    proof (rule that [of 1 ql'])
      show "ql_maybe_merge fill ql (length us) = Some (1, ql')" using right(2) m(1) by simp
    qed (use m e right(1) q ok in auto)
  next
    case left
    have q': "q_nodes ql = ws @ m # n # vs" using q left(1) by simp
    obtain ql' n' where mm: "ql_node_merge_into ql (length ws) = Some ql'" "q_nodes ql' = ws @ n' # vs"
      "node_rep n' (elems m @ elems n)" "mem_ok ql'" "q_len ql' = q_len ql"
      using merge_nodes [OF q'] ok q' assms(3,4) by auto
    have e: "elems n' = elems m @ elems n" "node_ok n'"
      using node_rep_elems [OF mm(3)] node_okI [OF mm(3)] node_okD(4) [OF n(1)] by auto
    show thesis
    proof (rule that [of 2 ql'])
      show "ql_maybe_merge fill ql (length us) = Some (2, ql')" using left(2) mm(1) by simp
    qed (use mm e left(1) q' ok in auto)
  qed
qed

section \<open>Iterators\<close>

definition at :: "quicklist \<Rightarrow> ql_iter \<Rightarrow> nat \<Rightarrow> bool" where
  "at ql it k \<longleftrightarrow>
     (\<exists>us n vs j. q_nodes ql = us @ n # vs \<and> it_node it = length us \<and>
        it_entry it = Some (lp_off (elems n) j) \<and> j < length (elems n) \<and> k = length (flat us) + j)"

lemma atI:
  assumes "q_nodes ql = us @ n # vs" and "it_node it = length us" and "it_entry it = Some (lp_off (elems n) j)"
    and "j < length (elems n)" and "k = length (flat us) + j"
  shows "at ql it k"
  using assms by (auto simp: at_def)

lemma inv_node:
  assumes "ql_inv ql" and "q_nodes ql = us @ n # vs"
  shows "node_ok n" and "lp_rep (n_lp n) (elems n)"
  using assms node_okD(1) by (auto simp: ql_inv_def)

lemma at_value:
  assumes "ql_inv ql" and "at ql it k"
  shows "k < length (ql_elems ql)" and "ql_iter_value ql it = Some (ql_elems ql ! k)"
proof -
  obtain us n vs j where a: "q_nodes ql = us @ n # vs" "it_node it = length us"
    "it_entry it = Some (lp_off (elems n) j)" "j < length (elems n)" "k = length (flat us) + j"
    using assms(2) by (auto simp: at_def)
  show "k < length (ql_elems ql)" using a by (simp add: ql_elems_def)
  have "lp_get_str (drop (lp_off (elems n) j) (n_lp n)) = elems n ! j"
    using get_rep(2) [OF inv_node(2) [OF assms(1) a(1)] a(4)] .
  then show "ql_iter_value ql it = Some (ql_elems ql ! k)"
    using a by (simp add: ql_iter_value_def ql_elems_def nth_append)
qed

lemma enter_at:
  assumes "ql_inv ql" and "q_nodes ql = us @ vs"
  shows "vs \<noteq> [] \<Longrightarrow> at ql (enter_node ql (length us)) (length (flat us))"
    and "vs = [] \<Longrightarrow> it_entry (enter_node ql (length us)) = None"
proof -
  assume "vs \<noteq> []"
  then obtain n ws where vs: "vs = n # ws" by (cases vs) auto
  have ok: "lp_rep (n_lp n) (elems n)" "elems n \<noteq> []"
    using inv_node [OF assms(1), of us n ws] assms(2) vs by (auto simp: node_ok_def)
  have "enter_node ql (length us) = \<lparr>it_node = length us, it_entry = Some (lp_off (elems n) 0)\<rparr>"
    using first_rep [OF ok(1)] ok(2) assms(2) vs by (simp add: enter_node_def)
  then show "at ql (enter_node ql (length us)) (length (flat us))"
    using assms(2) vs ok(2) unfolding at_def
    by (intro exI [of _ us] exI [of _ n] exI [of _ ws] exI [of _ 0]) simp
next
  assume "vs = []"
  then show "it_entry (enter_node ql (length us)) = None" using assms(2) by (simp add: enter_node_def)
qed

lemma seek_fwd_at:
  assumes "\<forall>n \<in> set ns. node_ok n" and "idx < length (flat ns)"
  shows "\<exists>us n vs j. ns = us @ n # vs \<and> seek_fwd ns i idx = (i + length us, j) \<and>
    idx = length (flat us) + j \<and> j < length (elems n)"
  using assms
proof (induction ns arbitrary: i idx)
  case (Cons n ns)
  have c: "n_count n = length (elems n)" using Cons.prems(1) node_okD(2) by auto
  show ?case
  proof (cases "n_count n \<le> idx")
    case True
    then have lt: "idx - n_count n < length (flat ns)" using Cons.prems(2) c by simp
    have ns: "\<forall>n \<in> set ns. node_ok n" using Cons.prems(1) by simp
    obtain us m vs j where "ns = us @ m # vs" "seek_fwd ns (Suc i) (idx - n_count n) = (Suc i + length us, j)"
      "idx - n_count n = length (flat us) + j" "j < length (elems m)"
      using Cons.IH [OF ns lt, of "Suc i"] by blast
    with True c show ?thesis
      by (intro exI [of _ "n # us"] exI [of _ m] exI [of _ vs] exI [of _ j]) auto
  next
    case False
    with c show ?thesis by (intro exI [of _ "[]"] exI [of _ n] exI [of _ ns] exI [of _ idx]) auto
  qed
qed simp

lemma seek_bwd_at:
  assumes "\<forall>n \<in> set ns. node_ok n" and "i < length ns" and "f < length (flat (take (Suc i) ns))"
  shows "\<exists>us n vs g. take (Suc i) ns = us @ n # vs \<and> seek_bwd ns i f = (length us, g) \<and>
    f = length (flat vs) + g \<and> g < length (elems n)"
  using assms(2,3)
proof (induction i arbitrary: f)
  case 0
  then obtain n ms where ns: "ns = n # ms" by (cases ns) auto
  with 0 show ?case by (intro exI [of _ "[]"] exI [of _ n] exI [of _ "[]"] exI [of _ f]) auto
next
  case (Suc i)
  let ?n = "ns ! Suc i"
  have c: "n_count ?n = length (elems ?n)" using assms(1) Suc.prems(1) node_okD(2) by auto
  have t: "take (Suc (Suc i)) ns = take (Suc i) ns @ [?n]" using Suc.prems(1) by (rule take_Suc_conv_app_nth)
  show ?case
  proof (cases "n_count ?n \<le> f")
    case True
    then have "f - n_count ?n < length (flat (take (Suc i) ns))" using Suc.prems(2) c by (simp add: t)
    then obtain us m vs g where "take (Suc i) ns = us @ m # vs" "seek_bwd ns i (f - n_count ?n) = (length us, g)"
      "f - n_count ?n = length (flat vs) + g" "g < length (elems m)"
      using Suc.IH [of "f - n_count ?n"] Suc.prems(1) by (meson Suc_lessD)
    with True c t show ?thesis
      by (intro exI [of _ us] exI [of _ m] exI [of _ "vs @ [?n]"] exI [of _ g]) auto
  next
    case False
    with c t Suc.prems(1) show ?thesis
      by (intro exI [of _ "take (Suc i) ns"] exI [of _ ?n] exI [of _ "[]"] exI [of _ f]) auto
  qed
qed

lemma seek_at:
  assumes inv: "ql_inv ql" and k: "k < length (ql_elems ql)"
  obtains it where "ql_seek ql k = Some it" and "at ql it k"
proof -
  have ok: "\<forall>n \<in> set (q_nodes ql). node_ok n" and len: "q_len ql = length (flat (q_nodes ql))"
    using inv by (auto simp: ql_inv_def)
  let ?pos = "if k < q_len ql div 2 then seek_fwd (q_nodes ql) 0 k
      else (let (i, from_end) = seek_bwd (q_nodes ql) (length (q_nodes ql) - 1) (q_len ql - 1 - k)
            in (i, n_count (q_nodes ql ! i) - 1 - from_end))"
  have "\<exists>us n vs j. q_nodes ql = us @ n # vs \<and> ?pos = (length us, j) \<and> k = length (flat us) + j \<and> j < length (elems n)"
  proof (cases "k < q_len ql div 2")
    case True
    then show ?thesis using seek_fwd_at [OF ok, of k 0] k by (simp add: ql_elems_def)
  next
    case False
    have ne: "q_nodes ql \<noteq> []" using k by (auto simp: ql_elems_def)
    then have t: "take (Suc (length (q_nodes ql) - 1)) (q_nodes ql) = q_nodes ql" by (cases "q_nodes ql") auto
    have f: "q_len ql - 1 - k < length (flat (q_nodes ql))" using k len by (simp add: ql_elems_def)
    obtain us n vs g where b: "q_nodes ql = us @ n # vs"
      "seek_bwd (q_nodes ql) (length (q_nodes ql) - 1) (q_len ql - 1 - k) = (length us, g)"
      "q_len ql - 1 - k = length (flat vs) + g" "g < length (elems n)"
      using seek_bwd_at [OF ok, of "length (q_nodes ql) - 1" "q_len ql - 1 - k"] ne f unfolding t by auto
    have "n_count n = length (elems n)" using ok b(1) node_okD(2) by auto
    moreover have "q_len ql = length (flat us) + length (elems n) + length (flat vs)" using len b(1) by simp
    ultimately show ?thesis
      using False b k by (intro exI [of _ us] exI [of _ n] exI [of _ vs] exI [of _ "n_count n - 1 - g"])
        (auto simp: ql_elems_def)
  qed
  then obtain us n vs j where p: "q_nodes ql = us @ n # vs" "?pos = (length us, j)" "k = length (flat us) + j"
    "j < length (elems n)" by blast
  have "lp_seek (n_lp n) (int j) = Some (lp_off (elems n) j)"
    using seek_rep [OF inv_node(2) [OF inv p(1)], of "int j"] p(4) by (simp add: norm_index_def)
  then have "ql_seek ql k = Some \<lparr>it_node = length us, it_entry = Some (lp_off (elems n) j)\<rparr>"
    using p k len unfolding ql_seek_def Let_def [of ?pos] by (simp add: p(2) ql_elems_def)
  moreover have "at ql \<lparr>it_node = length us, it_entry = Some (lp_off (elems n) j)\<rparr> k"
    using p unfolding at_def by auto
  ultimately show thesis by (rule that)
qed

lemma seek_out: "ql_inv ql \<Longrightarrow> length (ql_elems ql) \<le> k \<Longrightarrow> ql_seek ql k = None"
  by (simp add: ql_seek_def ql_inv_def ql_elems_def)

lemma iter_next_at:
  assumes inv: "ql_inv ql" and "at ql it k"
  shows "if Suc k < length (ql_elems ql) then at ql (ql_iter_next ql it) (Suc k)
    else it_entry (ql_iter_next ql it) = None"
proof -
  obtain us n vs j where a: "q_nodes ql = us @ n # vs" "it_node it = length us"
    "it_entry it = Some (lp_off (elems n) j)" "j < length (elems n)" "k = length (flat us) + j"
    using assms(2) by (auto simp: at_def)
  note nx = next_rep [OF inv_node(2) [OF inv a(1)] a(4)]
  show ?thesis
  proof (cases "Suc j < length (elems n)")
    case True
    then have "ql_iter_next ql it = it\<lparr>it_entry := Some (lp_off (elems n) (Suc j))\<rparr>"
      using nx a by (simp add: ql_iter_next_def)
    with a True have "at ql (ql_iter_next ql it) (Suc k)" unfolding at_def
      by (intro exI [of _ us] exI [of _ n] exI [of _ vs] exI [of _ "Suc j"]) simp
    with at_value(1) [OF inv this] show ?thesis by simp
  next
    case False
    then have e: "ql_iter_next ql it = enter_node ql (length (us @ [n]))" "Suc k = length (flat (us @ [n]))"
      using nx a by (simp_all add: ql_iter_next_def)
    have q: "q_nodes ql = (us @ [n]) @ vs" using a by simp
    show ?thesis
    proof (cases vs)
      case Nil
      then have "\<not> Suc k < length (ql_elems ql)" using e(2) a(1) by (simp add: ql_elems_def)
      then show ?thesis using enter_at(2) [OF inv q Nil] e(1) by simp
    next
      case (Cons m ws)
      then have "elems m \<noteq> []" using inv a(1) by (auto simp: ql_inv_def node_ok_def)
      then have "Suc k < length (ql_elems ql)" using e(2) a(1) Cons by (simp add: ql_elems_def)
      then show ?thesis using enter_at(1) [OF inv q] Cons e by simp
    qed
  qed
qed

lemma last_at:
  assumes "ql_inv ql" and "q_nodes ql = us @ [n]"
  shows "at ql \<lparr>it_node = length us, it_entry = lp_last (n_lp n)\<rparr> (length (ql_elems ql) - 1)"
proof -
  have n: "lp_rep (n_lp n) (elems n)" "elems n \<noteq> []"
    using inv_node [OF assms(1), of us n "[]"] assms(2) by (auto simp: node_ok_def)
  then show ?thesis
    using last_rep [OF n(1)] assms(2) unfolding at_def
    by (intro exI [of _ us] exI [of _ n] exI [of _ "[]"] exI [of _ "length (elems n) - 1"])
      (auto simp: ql_elems_def Suc_le_eq)
qed

lemma iter_prev_at:
  assumes inv: "ql_inv ql" and "at ql it k"
  shows "if 0 < k then at ql (ql_iter_prev ql it) (k - 1) else it_entry (ql_iter_prev ql it) = None"
proof -
  obtain us n vs j where a: "q_nodes ql = us @ n # vs" "it_node it = length us"
    "it_entry it = Some (lp_off (elems n) j)" "j < length (elems n)" "k = length (flat us) + j"
    using assms(2) by (auto simp: at_def)
  note rep = inv_node(2) [OF inv a(1)]
  show ?thesis
  proof (cases j)
    case (Suc i)
    then have "ql_iter_prev ql it = it\<lparr>it_entry := Some (lp_off (elems n) i)\<rparr>"
      using prev_rep [OF rep, of i] a by (simp add: ql_iter_prev_def)
    with a Suc have "at ql (ql_iter_prev ql it) (k - 1)" unfolding at_def
      by (intro exI [of _ us] exI [of _ n] exI [of _ vs] exI [of _ i]) simp
    with a Suc show ?thesis by simp
  next
    case 0
    have pv: "lp_prev (n_lp n) (lp_off (elems n) 0) = None" by (rule prev_first)
    show ?thesis
    proof (cases us rule: rev_cases)
      case Nil
      with a 0 pv show ?thesis by (simp add: ql_iter_prev_def)
    next
      case (snoc ws m)
      have m: "lp_rep (n_lp m) (elems m)" "elems m \<noteq> []"
        using inv_node [OF inv, of ws m "n # vs"] a(1) snoc by (auto simp: node_ok_def)
      have "ql_iter_prev ql it = \<lparr>it_node = length ws, it_entry = Some (lp_off (elems m) (length (elems m) - 1))\<rparr>"
        using a 0 pv snoc last_rep [OF m(1)] m(2) by (simp add: ql_iter_prev_def nth_append)
      moreover have "k - 1 = length (flat ws) + (length (elems m) - 1)" "0 < k"
        using a(5) 0 snoc m(2) by (cases "elems m"; simp)+
      moreover from calculation have "at ql (ql_iter_prev ql it) (k - 1)"
        using a(1) snoc m(2) by (intro atI [of ql ws m "n # vs"]) simp_all
      ultimately show ?thesis by simp
    qed
  qed
qed

section \<open>Operations\<close>

lemma inv_split:
  assumes "ql_inv ql" and "q_nodes ql = us @ n # vs"
  shows "\<forall>m \<in> set us \<union> set vs. node_ok m" and "node_ok n" and "mem_ok ql"
    and "q_len ql = length (flat us) + length (elems n) + length (flat vs)"
    and "ql_elems ql = flat us @ elems n @ flat vs"
  using assms by (auto simp: ql_inv_def ql_elems_def)

text \<open>Replacing the entries of one node by others.\<close>

lemma update_inv:
  assumes q: "q_nodes ql = us @ n # vs" and ok: "\<forall>m \<in> set us \<union> set vs. node_ok m" and "mem_ok ql"
    and lp: "lp_rep lp ys" and ne: "ys \<noteq> []" and c: "c = length ys"
    and len: "len = length (flat us) + length ys + length (flat vs)"
  obtains n' where "ql_inv ((node_update ql (length us) lp c)\<lparr>q_len := len\<rparr>)"
    and "q_nodes (node_update ql (length us) lp c) = us @ n' # vs" and "elems n' = ys"
    and "n_bytes n' = lp_bytes lp"
proof -
  obtain n' where u: "q_nodes (node_update ql (length us) lp (length ys)) = us @ n' # vs" "node_rep n' ys"
    "mem_ok (node_update ql (length us) lp (length ys))" "n_bytes n' = lp_bytes lp"
    using update_node [OF q assms(3) lp] by metis
  have e: "elems n' = ys" "node_ok n'" using node_rep_elems [OF u(2)] node_okI [OF u(2) ne] by auto
  show thesis
  proof (rule that)
    show "ql_inv ((node_update ql (length us) lp c)\<lparr>q_len := len\<rparr>)"
      using u e ok len unfolding c by (auto simp: ql_inv_def mem_ok_def)
  qed (use u e c in auto)
qed

lemma end_node:
  assumes inv: "ql_inv ql"
  obtains ql1 us n vs where
    "ql1 = (if q_nodes ql = [] \<or> fill \<le> n_count (if left then hd (q_nodes ql) else last (q_nodes ql))
            then ql_node_link ql ql_node_new left else ql)"
    and "q_nodes ql1 = us @ n # vs" and "if left then us = [] else vs = []"
    and "node_rep n (elems n)" and "\<forall>m \<in> set us \<union> set vs. node_ok m" and "mem_ok ql1"
    and "flat us @ elems n @ flat vs = ql_elems ql" and "q_len ql1 = length (ql_elems ql)"
    and "lp_load_total (n_lp n) \<le> 7 + sum_list (map n_bytes (q_nodes ql))"
proof (cases "q_nodes ql = [] \<or> fill \<le> n_count (if left then hd (q_nodes ql) else last (q_nodes ql))")
  case True
  have new: "node_rep ql_node_new []" using new_rep by (simp add: node_rep_def ql_node_new_def)
  have e: "elems ql_node_new = []" by (rule node_rep_elems [OF new])
  have t: "lp_load_total (n_lp ql_node_new) = 7" using rep_total [OF new_rep] by (simp add: ql_node_new_def)
  show thesis
    by (rule that [of "ql_node_link ql ql_node_new left" "if left then [] else q_nodes ql" ql_node_new
          "if left then q_nodes ql else []"])
      (use True inv new e t in \<open>auto simp: ql_node_link_def ql_inv_def mem_ok_def ql_elems_def\<close>)
next
  case False
  then have ne: "q_nodes ql \<noteq> []" by simp
  obtain us n vs where q: "q_nodes ql = us @ n # vs" "if left then us = [] else vs = []"
  proof (cases left)
    case True
    then show thesis using ne that [of "[]"] by (cases "q_nodes ql") auto
  next
    case False
    then show thesis using ne that [of _ _ "[]"] by (cases "q_nodes ql" rule: rev_cases) auto
  qed
  note i = inv_split [OF inv q(1)]
  have "lp_load_total (n_lp n) = n_bytes n" using node_okD(3) [OF i(2)] by (simp add: lp_bytes_def)
  then show thesis
    by (intro that [of ql us n vs]) (use False q i inv in \<open>auto simp: node_ok_def ql_inv_def ql_elems_def\<close>)
qed

lemma push_ok:
  assumes inv: "ql_inv ql" and len: "length data \<le> UINT32_MAX"
    and fit: "ql_fits ql (7 + length (lp_encode_entry data))"
  obtains ql' where "ql_push fill ql left data = Some (0, ql')" and "ql_inv ql'"
    and "ql_elems ql' = (if left then data # ql_elems ql else ql_elems ql @ [data])"
proof -
  obtain ql1 us n vs where e: "ql1 = (if q_nodes ql = [] \<or> fill \<le> n_count (if left then hd (q_nodes ql) else last (q_nodes ql))
            then ql_node_link ql ql_node_new left else ql)"
      "q_nodes ql1 = us @ n # vs" "if left then us = [] else vs = []" "node_rep n (elems n)"
      "\<forall>m \<in> set us \<union> set vs. node_ok m" "mem_ok ql1" "flat us @ elems n @ flat vs = ql_elems ql"
      "q_len ql1 = length (ql_elems ql)" "lp_load_total (n_lp n) \<le> 7 + sum_list (map n_bytes (q_nodes ql))"
    by (rule end_node [OF inv])
  have rep: "lp_rep (n_lp n) (elems n)" "n_count n = length (elems n)" using e(4) by (auto simp: node_rep_def)
  let ?ys = "if left then data # elems n else elems n @ [data]"
  have small: "lp_load_total (n_lp n) + length (lp_encode_entry data) \<le> UINT32_MAX"
    using e(9) fit by (simp add: ql_fits_def)
  obtain lp where lp: "(if left then lp_prepend (n_lp n) data else lp_append (n_lp n) data) = Some lp" "lp_rep lp ?ys"
  proof (cases left)
    case True
    then show thesis
      using insert_rep [OF rep(1) len, of 0 "Some (lp_off (elems n) 0)" False] small that by (auto simp: lp_prepend_def)
  next
    case False
    then show thesis
      using insert_rep [OF rep(1) len, of "length (elems n)" None False] small that by (auto simp: lp_append_def)
  qed
  have i: "(if left then 0 else length (q_nodes ql1) - 1) = length us" using e(2,3) by (auto split: if_splits)
  have nth_us: "q_nodes ql1 ! length us = n" using e(2) by simp
  have l: "q_len ql1 + 1 = length (flat us) + length ?ys + length (flat vs)"
    using arg_cong [OF e(7), of length] e(8) by simp
  obtain n' where u: "ql_inv ((node_update ql1 (length us) lp (n_count n + 1))\<lparr>q_len := q_len ql1 + 1\<rparr>)"
    "q_nodes (node_update ql1 (length us) lp (n_count n + 1)) = us @ n' # vs" "elems n' = ?ys"
  proof -
    have "?ys \<noteq> []" "n_count n + 1 = length ?ys" using rep(2) by auto
    from update_inv [OF e(2,5,6) lp(2) this l] that show thesis by blast
  qed
  let ?ql = "(node_update ql1 (length us) lp (n_count n + 1))\<lparr>q_len := q_len ql1 + 1\<rparr>"
  have "ql_push fill ql left data = Some (0, ?ql)"
    unfolding ql_push_def Let_def e(1) [symmetric] i nth_us lp(1) using len by simp
  moreover have "ql_elems ?ql = (if left then data # ql_elems ql else ql_elems ql @ [data])"
    using u(2,3) e(3,7) by (auto simp: ql_elems_def split: if_splits)
  ultimately show thesis using u(1) that by blast
qed

lemma off_take: "take j ys = take j xs \<Longrightarrow> lp_off ys j = lp_off xs j"
  by (simp add: lp_off_def)

lemma at_node:
  assumes "ql_inv ql" and "at ql it k"
  obtains us n vs j where "q_nodes ql = us @ n # vs" and "it_node it = length us"
    and "it_entry it = Some (lp_off (elems n) j)" and "j < length (elems n)" and "k = length (flat us) + j"
    and "q_nodes ql ! it_node it = n" and "lp_rep (n_lp n) (elems n)" and "n_count n = length (elems n)"
proof -
  obtain us n vs j where a: "q_nodes ql = us @ n # vs" "it_node it = length us"
    "it_entry it = Some (lp_off (elems n) j)" "j < length (elems n)" "k = length (flat us) + j"
    using assms(2) by (auto simp: at_def)
  moreover have "q_nodes ql ! it_node it = n" using a by simp
  moreover have "lp_rep (n_lp n) (elems n)" "n_count n = length (elems n)"
    using inv_node [OF assms(1) a(1)] node_okD(2) by auto
  ultimately show thesis by (rule that)
qed

lemma node_total_le:
  assumes "ql_inv ql" and "q_nodes ql = us @ n # vs" and "ql_fits ql k"
  shows "lp_load_total (n_lp n) + k \<le> UINT32_MAX"
  using assms(2,3) node_okD(3) [OF inv_node(1) [OF assms(1,2)]] by (simp add: ql_fits_def lp_bytes_def)

lemma set_ok:
  assumes inv: "ql_inv ql" and "at ql it k" and len: "length data \<le> UINT32_MAX"
    and fit: "ql_fits ql (length (lp_encode_entry data))"
  obtains ql' where "ql_set ql it data = Some (1, ql', it)" and "ql_inv ql'"
    and "ql_elems ql' = (ql_elems ql)[k := data]" and "at ql' it k"
proof -
  obtain us n vs j where a: "q_nodes ql = us @ n # vs" "it_node it = length us"
    "it_entry it = Some (lp_off (elems n) j)" "j < length (elems n)" "k = length (flat us) + j"
    "q_nodes ql ! it_node it = n" "lp_rep (n_lp n) (elems n)" "n_count n = length (elems n)"
    by (rule at_node [OF inv assms(2)])
  note i = inv_split [OF inv a(1)]
  obtain lp where lp: "lp_replace (n_lp n) (lp_off (elems n) j) data = Some lp" "lp_rep lp ((elems n)[j := data])"
    using replace_rep [OF a(7) len a(4) node_total_le [OF inv a(1) fit]] by blast
  have c: "(elems n)[j := data] \<noteq> []" "n_count n = length ((elems n)[j := data])"
    "q_len ql = length (flat us) + length ((elems n)[j := data]) + length (flat vs)"
    using a(4,8) i(4) by auto
  obtain n' where u: "ql_inv ((node_update ql (length us) lp (n_count n))\<lparr>q_len := q_len ql\<rparr>)"
    "q_nodes (node_update ql (length us) lp (n_count n)) = us @ n' # vs" "elems n' = (elems n)[j := data]"
    using update_inv [OF a(1) i(1,3) lp(2) c] by blast
  let ?ql = "node_update ql (length us) lp (n_count n)"
  have same: "?ql\<lparr>q_len := q_len ql\<rparr> = ?ql" by (simp add: node_update_def Let_def)
  have "at ?ql it k"
    using u a off_take [of j "(elems n)[j := data]" "elems n"] by (intro atI [of _ us n' vs _ j]) auto
  moreover have "ql_elems ?ql = (ql_elems ql)[k := data]"
    using u(2,3) i(5) a(4,5) by (simp add: ql_elems_def list_update_append)
  moreover have "ql_set ql it data = Some (1, ?ql, it)"
    using a len lp(1) by (simp add: ql_set_def Let_def)
  ultimately show thesis using that u(1) unfolding same by blast
qed

lemma insert_ok:
  fixes after :: bool
  assumes inv: "ql_inv ql" and "at ql it k" and len: "length data \<le> UINT32_MAX"
    and fit: "ql_fits ql (length (lp_encode_entry data))"
  defines "k' \<equiv> if after then Suc k else k"
  obtains ql' it' where "ql_insert ql it after data = Some (1, ql', it')" and "ql_inv ql'"
    and "ql_elems ql' = take k' (ql_elems ql) @ data # drop k' (ql_elems ql)" and "at ql' it' k'"
proof -
  obtain us n vs j where a: "q_nodes ql = us @ n # vs" "it_node it = length us"
    "it_entry it = Some (lp_off (elems n) j)" "j < length (elems n)" "k = length (flat us) + j"
    "q_nodes ql ! it_node it = n" "lp_rep (n_lp n) (elems n)" "n_count n = length (elems n)"
    by (rule at_node [OF inv assms(2)])
  note i = inv_split [OF inv a(1)]
  define m where "m = (if after then Suc j else j)"
  have m: "m \<le> length (elems n)" "k' = length (flat us) + m" using a(4,5) by (auto simp: m_def k'_def)
  let ?ys = "take m (elems n) @ data # drop m (elems n)"
  have "\<exists>lp. lp_insert (n_lp n) data (Some (lp_off (elems n) j)) after = Some (lp, lp_off (elems n) m) \<and> lp_rep lp ?ys"
    by (rule insert_rep [OF a(7) len m(1) node_total_le [OF inv a(1) fit]]) (auto simp: m_def)
  then obtain lp where lp: "lp_insert (n_lp n) data (Some (lp_off (elems n) j)) after = Some (lp, lp_off (elems n) m)"
    "lp_rep lp ?ys" by blast
  have c: "?ys \<noteq> []" "n_count n + 1 = length ?ys" "q_len ql + 1 = length (flat us) + length ?ys + length (flat vs)"
    using a(8) i(4) m(1) by auto
  obtain n' where u: "ql_inv ((node_update ql (length us) lp (n_count n + 1))\<lparr>q_len := q_len ql + 1\<rparr>)"
    "q_nodes (node_update ql (length us) lp (n_count n + 1)) = us @ n' # vs" "elems n' = ?ys"
    using update_inv [OF a(1) i(1,3) lp(2) c] by blast
  let ?ql = "(node_update ql (length us) lp (n_count n + 1))\<lparr>q_len := q_len ql + 1\<rparr>"
  have "at ?ql (it\<lparr>it_entry := Some (lp_off (elems n) m)\<rparr>) k'"
    using u a m off_take [of m ?ys "elems n"] by (intro atI [of _ us n' vs _ m]) auto
  moreover have "ql_elems ?ql = take k' (ql_elems ql) @ data # drop k' (ql_elems ql)"
    using u(2,3) i(5) m by (simp add: ql_elems_def)
  moreover have "ql_insert ql it after data = Some (1, ?ql, it\<lparr>it_entry := Some (lp_off (elems n) m)\<rparr>)"
    using a len lp(1) by (simp add: ql_insert_def Let_def)
  ultimately show thesis using that u(1) by blast
qed

text \<open>Taking the element at position \<open>j\<close> out of a node.\<close>

lemma off_less: "i < j \<Longrightarrow> j \<le> length xs \<Longrightarrow> lp_off xs i < lp_off xs j"
proof (induction j)
  case (Suc j)
  then have "lp_off xs j < lp_off xs (Suc j)" using off_Suc [of j xs] encode_entry_pos by simp
  with Suc show ?case by (cases "i = j") auto
qed simp

lemma entry_index_rep:
  assumes "lp_rep lp xs" and "j < length xs"
  shows "i \<le> j \<Longrightarrow> entry_index_loop lp (lp_off xs j) (Some (lp_off xs i)) = j - i"
proof (induction "j - i" arbitrary: i)
  case (Suc d)
  have i: "i < j" using Suc.hyps(2) by linarith
  then have "lp_off xs i \<noteq> lp_off xs j" using off_less [of i j xs] assms(2) by auto
  then show ?case using next_rep [OF assms(1), of i] i assms(2) Suc.hyps by auto
qed simp

lemma shrink_fits:
  assumes inv: "ql_inv ql" and q: "q_nodes ql = us @ n # vs" and "ql_fits ql 0"
    and lp: "lp_rep lp ys" "length (lp_image ys) \<le> length (lp_image (elems n))"
    and q': "q_nodes ql' = us @ n' # vs" and "n_bytes n' = lp_bytes lp"
  shows "ql_fits ql' 0"
proof -
  have "n_bytes n = lp_load_total (n_lp n)" using node_okD(3) [OF inv_node(1) [OF inv q]] by (simp add: lp_bytes_def)
  then have "n_bytes n' \<le> n_bytes n"
    using assms(7) rep_total [OF lp(1)] rep_total [OF inv_node(2) [OF inv q]] lp(2) by (simp add: lp_bytes_def)
  then show ?thesis using assms(3) q q' by (simp add: ql_fits_def)
qed

lemma image_delete_le:
  assumes "j < length xs"
  shows "length (lp_image (take j xs @ drop (Suc j) xs)) \<le> length (lp_image xs)"
proof -
  have "lp_image xs = lp_image (take j xs) @ lp_encode_entry (xs ! j) @ lp_image (drop (Suc j) xs)"
    by (subst id_take_nth_drop [OF assms]) (simp only: image_simps)
  then show ?thesis by simp
qed

text \<open>The node after the deletion, when it is not empty: the list before any merging.\<close>

lemma shrink_node:
  assumes inv: "ql_inv ql" and fit: "ql_fits ql 0" and q: "q_nodes ql = us @ n # vs"
    and j: "j < length (elems n)" and two: "1 < length (elems n)"
  defines "ys \<equiv> take j (elems n) @ drop (Suc j) (elems n)"
  obtains lp n' where
    "lp_delete (n_lp n) (lp_off (elems n) j) = Some (lp, if Suc j = length (elems n) then None else Some (lp_off (elems n) j))"
    and "ql_inv ((node_update ql (length us) lp (n_count n - 1))\<lparr>q_len := q_len ql - 1\<rparr>)"
    and "q_nodes (node_update ql (length us) lp (n_count n - 1)) = us @ n' # vs" and "elems n' = ys"
    and "ql_fits (node_update ql (length us) lp (n_count n - 1)) 0" and "lp_rep (n_lp n') ys"
proof -
  note i = inv_split [OF inv q] and n = node_okD [OF inv_split(2) [OF inv q]]
  obtain lp where lp: "lp_delete (n_lp n) (lp_off (elems n) j) =
      Some (lp, if Suc j = length (elems n) then None else Some (lp_off (elems n) j))" "lp_rep lp ys"
    using delete_rep [OF n(1) j] unfolding ys_def by blast
  have l: "length ys = length (elems n) - 1" using j by (simp add: ys_def)
  then have c: "ys \<noteq> []" "n_count n - 1 = length ys" "q_len ql - 1 = length (flat us) + length ys + length (flat vs)"
    using two n(2) i(4) by auto
  obtain n' where u: "ql_inv ((node_update ql (length us) lp (n_count n - 1))\<lparr>q_len := q_len ql - 1\<rparr>)"
    "q_nodes (node_update ql (length us) lp (n_count n - 1)) = us @ n' # vs" "elems n' = ys" "n_bytes n' = lp_bytes lp"
    using update_inv [OF q i(1,3) lp(2) c] by blast
  have "ql_fits (node_update ql (length us) lp (n_count n - 1)) 0"
    using shrink_fits [OF inv q fit lp(2) _ u(2,4)] image_delete_le [OF j] by (simp add: ys_def)
  moreover have "lp_rep (n_lp n') ys"
    using inv_node(2) [OF u(1), of us n' vs] u(2,3) by simp
  ultimately show thesis using that lp(1) u(1-3) by blast
qed

lemma unlink_inv:
  assumes inv: "ql_inv ql" and q: "q_nodes ql = us @ n # vs" and one: "length (elems n) = 1"
  shows "ql_inv ((ql_node_unlink ql (length us))\<lparr>q_len := q_len ql - 1\<rparr>)"
    and "q_nodes (ql_node_unlink ql (length us)) = us @ vs"
  using unlink_node [OF q inv_split(3) [OF inv q]] inv_split [OF inv q] one
  by (auto simp: ql_inv_def mem_ok_def)

lemma merge_inv:
  assumes inv: "ql_inv ql" and fit: "ql_fits ql 0" and q: "q_nodes ql = us @ n # vs"
  obtains r ql' where "ql_maybe_merge fill ql (length us) = Some (r, ql')"
    and "ql_inv ql'" and "ql_elems ql' = ql_elems ql"
    and "r = 0 \<and> ql' = ql \<or>
      r = 1 \<and> (\<exists>m ws n'. vs = m # ws \<and> q_nodes ql' = us @ n' # ws \<and> elems n' = elems n @ elems m) \<or>
      r = 2 \<and> (\<exists>m ws n'. us = ws @ [m] \<and> q_nodes ql' = ws @ n' # vs \<and> elems n' = elems m @ elems n)"
proof -
  have ok: "\<forall>m \<in> set (q_nodes ql). node_ok m" "mem_ok ql" using inv by (auto simp: ql_inv_def)
  obtain r ql' where m: "ql_maybe_merge fill ql (length us) = Some (r, ql')"
    "\<forall>m \<in> set (q_nodes ql'). node_ok m" "mem_ok ql'" "q_len ql' = q_len ql"
    "flat (q_nodes ql') = flat (q_nodes ql)"
    "r = 0 \<and> ql' = ql \<or>
      r = 1 \<and> (\<exists>m ws n'. vs = m # ws \<and> q_nodes ql' = us @ n' # ws \<and> elems n' = elems n @ elems m) \<or>
      r = 2 \<and> (\<exists>m ws n'. us = ws @ [m] \<and> q_nodes ql' = ws @ n' # vs \<and> elems n' = elems m @ elems n)"
    by (rule maybe_merge [OF q ok fit])
  show thesis
  proof (rule that [OF m(1)])
    show "ql_inv ql'" using m(2-5) inv by (simp add: ql_inv_def)
    show "ql_elems ql' = ql_elems ql" using m(5) by (simp add: ql_elems_def)
  qed (rule m(6))
qed

lemma pop_ok:
  assumes inv: "ql_inv ql" and fit: "ql_fits ql 0" and ne: "ql_elems ql \<noteq> []"
  obtains ql' where "ql_pop fill ql left = Some (Some (if left then hd (ql_elems ql) else last (ql_elems ql)), ql')"
    and "ql_inv ql'" and "ql_elems ql' = (if left then tl (ql_elems ql) else butlast (ql_elems ql))"
proof -
  have nn: "q_nodes ql \<noteq> []" using ne by (auto simp: ql_elems_def)
  obtain us n vs where q: "q_nodes ql = us @ n # vs" "if left then us = [] else vs = []"
  proof (cases left)
    case True
    then show thesis using nn that [of "[]"] by (cases "q_nodes ql") auto
  next
    case False
    then show thesis using nn that [of _ _ "[]"] by (cases "q_nodes ql" rule: rev_cases) auto
  qed
  note i = inv_split [OF inv q(1)] and n = node_okD [OF inv_split(2) [OF inv q(1)]]
  define j where "j = (if left then 0 else length (elems n) - 1)"
  have j: "j < length (elems n)" using n(4) by (simp add: j_def)
  let ?ys = "take j (elems n) @ drop (Suc j) (elems n)" and ?x = "elems n ! j"
  have idx: "(if left then 0 else length (q_nodes ql) - 1) = length us" "q_nodes ql ! length us = n"
    using q by (auto split: if_splits)
  have entry: "(if left then lp_first (n_lp n) else lp_last (n_lp n)) = Some (lp_off (elems n) j)"
    using first_rep [OF n(1)] last_rep [OF n(1)] n(4) by (simp add: j_def)
  have get: "lp_get_str (drop (lp_off (elems n) j) (n_lp n)) = ?x" by (rule get_rep(2) [OF n(1) j])
  have x_rest: "?x = (if left then hd (ql_elems ql) else last (ql_elems ql)) \<and>
      flat us @ ?ys @ flat vs = (if left then tl (ql_elems ql) else butlast (ql_elems ql))"
  proof (cases left)
    case True
    then show ?thesis using q(2) i(5) n(4) by (cases "elems n") (auto simp: j_def)
  next
    case False
    then show ?thesis using q(2) i(5) n(4) by (cases "elems n" rule: rev_cases) (auto simp: j_def butlast_append)
  qed
  then have x: "?x = (if left then hd (ql_elems ql) else last (ql_elems ql))"
    and rest: "flat us @ ?ys @ flat vs = (if left then tl (ql_elems ql) else butlast (ql_elems ql))" by auto
  show thesis
  proof (cases "length (elems n) = 1")
    case True
    obtain lp where "lp_delete (n_lp n) (lp_off (elems n) j) = Some (lp, if Suc j = length (elems n) then None else Some (lp_off (elems n) j))"
      using delete_rep [OF n(1) j] by blast
    then have "ql_pop fill ql left = Some (Some ?x, (ql_node_unlink ql (length us))\<lparr>q_len := q_len ql - 1\<rparr>)"
      using nn n(2) True unfolding ql_pop_def Let_def idx entry option.case get
      by (simp add: ql_node_unlink_def)
    moreover have "?ys = []" using True j by (cases "elems n") auto
    ultimately show thesis
      using unlink_inv [OF inv q(1) True] rest x by (intro that) (auto simp: ql_elems_def)
  next
    case False
    then have two: "1 < length (elems n)" using j by linarith
    obtain lp n' where s: "lp_delete (n_lp n) (lp_off (elems n) j) =
        Some (lp, if Suc j = length (elems n) then None else Some (lp_off (elems n) j))"
      "ql_inv ((node_update ql (length us) lp (n_count n - 1))\<lparr>q_len := q_len ql - 1\<rparr>)"
      "q_nodes (node_update ql (length us) lp (n_count n - 1)) = us @ n' # vs" "elems n' = ?ys"
      "ql_fits (node_update ql (length us) lp (n_count n - 1)) 0" "lp_rep (n_lp n') ?ys"
      by (rule shrink_node [OF inv fit q(1) j two])
    let ?u = "node_update ql (length us) lp (n_count n - 1)"
    have ok: "\<forall>m \<in> set (q_nodes ?u). node_ok m" "mem_ok ?u" using s(2) by (auto simp: ql_inv_def mem_ok_def)
    obtain r ql' where m: "ql_maybe_merge fill ?u (length us) = Some (r, ql')"
      "\<forall>m \<in> set (q_nodes ql'). node_ok m" "mem_ok ql'" "q_len ql' = q_len ?u" "flat (q_nodes ql') = flat (q_nodes ?u)"
      by (rule maybe_merge [OF s(3) ok s(5)])
    have "ql_pop fill ql left = Some (Some ?x, ql'\<lparr>q_len := q_len ql - 1\<rparr>)"
      using nn n(2) two m(1,4) unfolding ql_pop_def Let_def idx entry option.case get s(1) by simp
    moreover have "ql_inv (ql'\<lparr>q_len := q_len ql - 1\<rparr>)" using m s(2,3) by (auto simp: ql_inv_def mem_ok_def)
    moreover have "ql_elems (ql'\<lparr>q_len := q_len ql - 1\<rparr>) = flat us @ ?ys @ flat vs"
      using m(5) s(3,4) by (simp add: ql_elems_def)
    ultimately show thesis using that rest x by auto
  qed
qed

lemma seek_node_at:
  assumes "ql_inv ql" and "q_nodes ql = us @ n # vs" and "j < length (elems n)"
  shows "at ql \<lparr>it_node = length us, it_entry = lp_seek (n_lp n) (int j)\<rparr> (length (flat us) + j)"
  using assms seek_rep [OF inv_node(2) [OF assms(1,2)], of "int j"]
  by (intro atI [of _ us n vs _ j]) (simp_all add: norm_index_def)

definition lands :: "quicklist \<Rightarrow> ql_iter \<Rightarrow> nat \<Rightarrow> bool" where
  "lands ql it k \<longleftrightarrow> (if k < length (ql_elems ql) then at ql it k else it_entry it = None)"

lemma enter_lands:
  assumes "ql_inv ql" and "q_nodes ql = us @ vs"
  shows "lands ql (enter_node ql (length us)) (length (flat us))"
proof (cases "vs = []")
  case True
  with enter_at(2) [OF assms True] assms(2) show ?thesis by (simp add: lands_def ql_elems_def)
next
  case False
  then obtain n ws where "vs = n # ws" by (cases vs) auto
  with enter_at(1) [OF assms False] assms show ?thesis
    by (auto simp: lands_def ql_elems_def ql_inv_def node_ok_def)
qed

lemma at_lands: "ql_inv ql \<Longrightarrow> at ql it k \<Longrightarrow> lands ql it k"
  using at_value(1) by (simp add: lands_def)

text \<open>Removal inside a node: the successor is at the same position.\<close>

lemma remove_inner:
  assumes inv: "ql_inv ql1" and fit: "ql_fits ql1 0" and q: "q_nodes ql1 = us @ n # vs"
    and j: "j < length (elems n)"
  defines "prev_cnt \<equiv> if 0 < length us then n_count (q_nodes ql1 ! (length us - 1)) else 0"
  obtains r ql' where "ql_maybe_merge fill ql1 (length us) = Some (r, ql')" and "ql_inv ql'" and "ql_elems ql' = ql_elems ql1"
    and "at ql' (if r = 2
        then \<lparr>it_node = length us - 1, it_entry = lp_seek (n_lp (q_nodes ql' ! (length us - 1))) (int (prev_cnt + j))\<rparr>
        else \<lparr>it_node = length us, it_entry = lp_seek (n_lp (q_nodes ql' ! length us)) (int j)\<rparr>) (length (flat us) + j)"
proof -
  obtain r ql' where m: "ql_maybe_merge fill ql1 (length us) = Some (r, ql')" "ql_inv ql'" "ql_elems ql' = ql_elems ql1"
    and cases: "r = 0 \<and> ql' = ql1 \<or>
      r = 1 \<and> (\<exists>m ws n'. vs = m # ws \<and> q_nodes ql' = us @ n' # ws \<and> elems n' = elems n @ elems m) \<or>
      r = 2 \<and> (\<exists>m ws n'. us = ws @ [m] \<and> q_nodes ql' = ws @ n' # vs \<and> elems n' = elems m @ elems n)"
    by (rule merge_inv [OF inv fit q])
  have "at ql' (if r = 2
        then \<lparr>it_node = length us - 1, it_entry = lp_seek (n_lp (q_nodes ql' ! (length us - 1))) (int (prev_cnt + j))\<rparr>
        else \<lparr>it_node = length us, it_entry = lp_seek (n_lp (q_nodes ql' ! length us)) (int j)\<rparr>) (length (flat us) + j)"
    using cases
  proof (elim disjE conjE exE)
    assume "r = 0" "ql' = ql1"
    then show ?thesis using seek_node_at [OF inv q j] q by simp
  next
    fix w ws n' assume "r = 1" "q_nodes ql' = us @ n' # ws" "elems n' = elems n @ elems w"
    then show ?thesis using seek_node_at [OF m(2), of us n' ws j] j by simp
  next
    fix w ws n' assume a: "r = 2" "us = ws @ [w]" "q_nodes ql' = ws @ n' # vs" "elems n' = elems w @ elems n"
    have "prev_cnt = length (elems w)"
      using inv_split(1) [OF inv q] node_okD(2) [of w] a(2) q by (simp add: prev_cnt_def nth_append)
    then show ?thesis using seek_node_at [OF m(2) a(3), of "prev_cnt + j"] a j by (simp add: add.assoc)
  qed
  with m show thesis by (rule that)
qed

lemma remove_tail:
  assumes inv: "ql_inv ql1" and fit: "ql_fits ql1 0" and q: "q_nodes ql1 = us @ n # vs"
    and c: "c = length (elems n)"
  obtains r ql' where "ql_maybe_merge fill ql1 (length us) = Some (r, ql')" and "ql_inv ql'" and "ql_elems ql' = ql_elems ql1"
    and "lands ql' (if r = 1 then \<lparr>it_node = length us, it_entry = lp_seek (n_lp (q_nodes ql' ! length us)) (int c)\<rparr>
        else if r = 2 then enter_node ql' (length us) else enter_node ql' (Suc (length us))) (length (flat us) + c)"
proof -
  obtain r ql' where m: "ql_maybe_merge fill ql1 (length us) = Some (r, ql')" "ql_inv ql'" "ql_elems ql' = ql_elems ql1"
    and cases: "r = 0 \<and> ql' = ql1 \<or>
      r = 1 \<and> (\<exists>m ws n'. vs = m # ws \<and> q_nodes ql' = us @ n' # ws \<and> elems n' = elems n @ elems m) \<or>
      r = 2 \<and> (\<exists>m ws n'. us = ws @ [m] \<and> q_nodes ql' = ws @ n' # vs \<and> elems n' = elems m @ elems n)"
    by (rule merge_inv [OF inv fit q])
  have "lands ql' (if r = 1 then \<lparr>it_node = length us, it_entry = lp_seek (n_lp (q_nodes ql' ! length us)) (int c)\<rparr>
        else if r = 2 then enter_node ql' (length us) else enter_node ql' (Suc (length us))) (length (flat us) + c)"
    using cases
  proof (elim disjE conjE exE)
    assume "r = 0" "ql' = ql1"
    then show ?thesis using enter_lands [OF inv, of "us @ [n]" vs] q c by simp
  next
    fix w ws n' assume a: "r = 1" "vs = w # ws" "q_nodes ql' = us @ n' # ws" "elems n' = elems n @ elems w"
    have "elems w \<noteq> []" using inv_split(1) [OF inv q] a(2) node_okD(4) by auto
    then show ?thesis using at_lands [OF m(2) seek_node_at [OF m(2) a(3), of c]] a c by simp
  next
    fix w ws n' assume a: "r = 2" "us = ws @ [w]" "q_nodes ql' = ws @ n' # vs" "elems n' = elems w @ elems n"
    then show ?thesis using enter_lands [OF m(2), of "ws @ [n']" vs] c by (simp add: add.assoc)
  qed
  with m show thesis by (rule that)
qed

lemma remove_ok:
  assumes inv: "ql_inv ql" and fit: "ql_fits ql 0" and "at ql it k"
  obtains ql' it' where "ql_remove fill ql it = Some (ql', it')" and "ql_inv ql'"
    and "ql_elems ql' = take k (ql_elems ql) @ drop (Suc k) (ql_elems ql)" and "lands ql' it' k"
proof -
  obtain us n vs j where a: "q_nodes ql = us @ n # vs" "it_node it = length us"
    "it_entry it = Some (lp_off (elems n) j)" "j < length (elems n)" "k = length (flat us) + j"
    "q_nodes ql ! it_node it = n" "lp_rep (n_lp n) (elems n)" "n_count n = length (elems n)"
    by (rule at_node [OF inv assms(3)])
  note i = inv_split [OF inv a(1)] and nth = a(6) [unfolded a(2)]
  let ?ys = "take j (elems n) @ drop (Suc j) (elems n)"
  have rest: "take k (ql_elems ql) @ drop (Suc k) (ql_elems ql) = flat us @ ?ys @ flat vs"
    using i(5) a(4,5) by simp
  show thesis
  proof (cases "length (elems n) = 1")
    case True
    obtain lp where d: "lp_delete (n_lp n) (lp_off (elems n) j) =
        Some (lp, if Suc j = length (elems n) then None else Some (lp_off (elems n) j))"
      using delete_rep [OF a(7,4)] by blast
    let ?ql = "(ql_node_unlink ql (length us))\<lparr>q_len := q_len ql - 1\<rparr>"
    note u = unlink_inv [OF inv a(1) True]
    have "j = 0" using a(4) True by simp
    then have "ql_remove fill ql it = Some (?ql, enter_node ?ql (length us))"
      using True unfolding ql_remove_def a(2,3) option.case Let_def nth d by (simp add: a(8))
    moreover have "lands ?ql (enter_node ?ql (length us)) k"
      using enter_lands [OF u(1), of us vs] u(2) a(5) \<open>j = 0\<close> by simp
    moreover have "ql_elems ?ql = flat us @ ?ys @ flat vs"
      using u(2) True a(4) by (cases "elems n") (auto simp: ql_elems_def)
    ultimately show thesis using that u(1) rest by simp
  next
    case False
    then have two: "1 < length (elems n)" using a(4) by linarith
    obtain lp n' where s: "lp_delete (n_lp n) (lp_off (elems n) j) =
        Some (lp, if Suc j = length (elems n) then None else Some (lp_off (elems n) j))"
      "ql_inv ((node_update ql (length us) lp (n_count n - 1))\<lparr>q_len := q_len ql - 1\<rparr>)"
      "q_nodes (node_update ql (length us) lp (n_count n - 1)) = us @ n' # vs" "elems n' = ?ys"
      "ql_fits (node_update ql (length us) lp (n_count n - 1)) 0" "lp_rep (n_lp n') ?ys"
      by (rule shrink_node [OF inv fit a(1,4) two])
    define ql1 where "ql1 = (node_update ql (length us) lp (n_count n - 1))\<lparr>q_len := q_len ql - 1\<rparr>"
    have q1: "q_nodes ql1 = us @ n' # vs" "ql_fits ql1 0" "ql_inv ql1"
      using s by (simp_all add: ql1_def ql_fits_def)
    have e1: "ql_elems ql1 = flat us @ ?ys @ flat vs" using q1(1) s(4) by (simp add: ql_elems_def)
    have len: "length ?ys = n_count n - 1" using a(4,8) by simp
    have nth1: "q_nodes ql1 ! length us = n'" using q1(1) by simp
    show thesis
    proof (cases "Suc j = length (elems n)")
      case tail: True
      then have j: "j = n_count n - 1" "k = length (flat us) + (n_count n - 1)" using a(5,8) by auto
      show thesis
      proof (cases "n_count n - 1 < fill div 4")
        case True
        obtain r ql' where m: "ql_maybe_merge fill ql1 (length us) = Some (r, ql')" "ql_inv ql'" "ql_elems ql' = ql_elems ql1"
          "lands ql' (if r = 1 then \<lparr>it_node = length us, it_entry = lp_seek (n_lp (q_nodes ql' ! length us)) (int (n_count n - 1))\<rparr>
            else if r = 2 then enter_node ql' (length us) else enter_node ql' (Suc (length us))) (length (flat us) + (n_count n - 1))"
          using remove_tail [OF q1(3,2,1), of "n_count n - 1" fill] len s(4) by metis
        have "ql_remove fill ql it = Some (ql', if r = 1
            then \<lparr>it_node = length us, it_entry = lp_seek (n_lp (q_nodes ql' ! length us)) (int (n_count n - 1))\<rparr>
            else if r = 2 then enter_node ql' (length us) else enter_node ql' (Suc (length us)))"
          using tail True two a(8) m(1) unfolding ql_remove_def a(2,3) option.case Let_def nth s(1)
          by (simp add: ql1_def)
        then show thesis using that m(2-4) rest e1 j(2) by metis
      next
        case no: False
        have "ql_remove fill ql it = Some (ql1, enter_node ql1 (Suc (length us)))"
          using tail no two a(8) unfolding ql_remove_def a(2,3) option.case Let_def nth s(1)
          by (simp add: ql1_def)
        moreover have "lands ql1 (enter_node ql1 (Suc (length us))) k"
          using enter_lands [OF q1(3), of "us @ [n']" vs] q1(1) s(4) j(2) len by simp
        ultimately show thesis using that q1(3) rest e1 by metis
      qed
    next
      case inner: False
      then have j: "j < length (elems n')" using a(4) len a(8) s(4) by simp
      have del: "lp_delete (n_lp n) (lp_off (elems n) j) = Some (lp, Some (lp_off (elems n) j))"
        using s(1) inner by simp
      have off: "lp_off (elems n) j = lp_off (elems n') j"
        using off_take [of j ?ys "elems n"] a(4) s(4) by simp
      have idx: "ql_entry_index n' (lp_off (elems n) j) = j"
      proof -
        have "lp_rep (n_lp n') (elems n')" "elems n' \<noteq> []" using s(4,6) j by auto
        then show ?thesis using entry_index_rep [of "n_lp n'" "elems n'" j 0] j first_rep [of "n_lp n'" "elems n'"]
          by (simp add: ql_entry_index_def off)
      qed
      show thesis
      proof (cases "n_count n - 1 < fill div 4")
        case True
        define pc where "pc = (if 0 < length us then n_count (q_nodes ql1 ! (length us - 1)) else 0)"
        obtain r ql' where m: "ql_maybe_merge fill ql1 (length us) = Some (r, ql')" "ql_inv ql'" "ql_elems ql' = ql_elems ql1"
          "at ql' (if r = 2
            then \<lparr>it_node = length us - 1, it_entry = lp_seek (n_lp (q_nodes ql' ! (length us - 1))) (int (pc + j))\<rparr>
            else \<lparr>it_node = length us, it_entry = lp_seek (n_lp (q_nodes ql' ! length us)) (int j)\<rparr>) (length (flat us) + j)"
          using remove_inner [OF q1(3,2,1) j] unfolding pc_def by metis
        have "ql_remove fill ql it = Some (ql', if r = 2
            then \<lparr>it_node = length us - 1, it_entry = lp_seek (n_lp (q_nodes ql' ! (length us - 1))) (int (pc + j))\<rparr>
            else \<lparr>it_node = length us, it_entry = lp_seek (n_lp (q_nodes ql' ! length us)) (int j)\<rparr>)"
          unfolding ql_remove_def a(2,3) option.case Let_def nth del prod.case ql1_def [symmetric] nth1 idx
            pc_def [symmetric] m(1)
          using True by simp
        then show thesis using that m(2,3) at_lands [OF m(2,4)] rest e1 a(5) by metis
      next
        case no: False
        have "ql_remove fill ql it = Some (ql1, \<lparr>it_node = length us, it_entry = Some (lp_off (elems n) j)\<rparr>)"
          unfolding ql_remove_def a(2,3) option.case Let_def nth del prod.case ql1_def [symmetric] using no by simp
        moreover have "at ql1 \<lparr>it_node = length us, it_entry = Some (lp_off (elems n) j)\<rparr> k"
          using q1(1) j off a(5) by (intro atI [of _ us n' vs _ j]) auto
        ultimately show thesis using that q1(3) at_lands [OF q1(3)] rest e1 by metis
      qed
    qed
  qed
qed

section \<open>The quicklist as a list of strings\<close>

datatype ql_op =
    QlPush bool bytes
  | QlPop bool
  | QlGet nat
  | QlSet nat bytes
  | QlInsert nat bool bytes
  | QlRemove nat

text \<open>Clients seek an index and work through the iterator; they read the element it is on.\<close>

fun ql_exec :: "nat \<Rightarrow> quicklist \<Rightarrow> ql_op \<Rightarrow> (bytes option \<times> quicklist) option" where
  "ql_exec fill ql (QlPush left s) = map_option (\<lambda>(r, ql). (None, ql)) (ql_push fill ql left s)"
| "ql_exec fill ql (QlPop left) = ql_pop fill ql left"
| "ql_exec fill ql (QlGet i) =
     Some (case ql_seek ql i of None \<Rightarrow> None | Some it \<Rightarrow> ql_iter_value ql it, ql)"
| "ql_exec fill ql (QlSet i s) =
     (case ql_seek ql i of
        None \<Rightarrow> Some (None, ql)
      | Some it \<Rightarrow> map_option (\<lambda>(r, ql, it). (ql_iter_value ql it, ql)) (ql_set ql it s))"
| "ql_exec fill ql (QlInsert i after s) =
     (case ql_seek ql i of
        None \<Rightarrow> Some (None, ql)
      | Some it \<Rightarrow> map_option (\<lambda>(r, ql, it). (ql_iter_value ql it, ql)) (ql_insert ql it after s))"
| "ql_exec fill ql (QlRemove i) =
     (case ql_seek ql i of
        None \<Rightarrow> Some (None, ql)
      | Some it \<Rightarrow> map_option (\<lambda>(ql, it). (ql_iter_value ql it, ql)) (ql_remove fill ql it))"

fun ql_spec :: "bytes list \<Rightarrow> ql_op \<Rightarrow> bytes option \<times> bytes list" where
  "ql_spec xs (QlPush left s) = (None, if left then s # xs else xs @ [s])"
| "ql_spec xs (QlPop left) =
     (if xs = [] then (None, [])
      else if left then (Some (hd xs), tl xs) else (Some (last xs), butlast xs))"
| "ql_spec xs (QlGet i) = (if i < length xs then Some (xs ! i) else None, xs)"
| "ql_spec xs (QlSet i s) = (if i < length xs then (Some s, xs[i := s]) else (None, xs))"
| "ql_spec xs (QlInsert i after s) =
     (if i < length xs
      then let k = (if after then Suc i else i) in (Some s, take k xs @ s # drop k xs)
      else (None, xs))"
| "ql_spec xs (QlRemove i) =
     (if i < length xs
      then (if Suc i < length xs then Some (xs ! Suc i) else None, take i xs @ drop (Suc i) xs)
      else (None, xs))"

fun ql_safe :: "quicklist \<Rightarrow> ql_op \<Rightarrow> bool" where
  "ql_safe ql (QlPush left s) \<longleftrightarrow> length s \<le> UINT32_MAX \<and> ql_fits ql (7 + length (lp_encode_entry s))"
| "ql_safe ql (QlSet i s) \<longleftrightarrow> length s \<le> UINT32_MAX \<and> ql_fits ql (length (lp_encode_entry s))"
| "ql_safe ql (QlInsert i after s) \<longleftrightarrow> length s \<le> UINT32_MAX \<and> ql_fits ql (length (lp_encode_entry s))"
| "ql_safe ql _ \<longleftrightarrow> ql_fits ql 0"

lemma ql_exec_refines:
  assumes inv: "ql_inv ql" and safe: "ql_safe ql op"
  shows "\<exists>r ql'. ql_exec fill ql op = Some (r, ql') \<and> ql_inv ql' \<and> ql_spec (ql_elems ql) op = (r, ql_elems ql')"
proof (cases op)
  case (QlPush left s)
  obtain ql' where "ql_push fill ql left s = Some (0, ql')" "ql_inv ql'"
    "ql_elems ql' = (if left then s # ql_elems ql else ql_elems ql @ [s])"
    using push_ok [OF inv, of s fill left] safe QlPush by auto
  with QlPush show ?thesis by simp
next
  case (QlPop left)
  show ?thesis
  proof (cases "ql_elems ql = []")
    case True
    have "q_nodes ql = []"
    proof (rule ccontr)
      assume "q_nodes ql \<noteq> []"
      then obtain n ns where "q_nodes ql = n # ns" by (cases "q_nodes ql") auto
      with True inv show False by (auto simp: ql_elems_def ql_inv_def node_ok_def)
    qed
    with QlPop True inv show ?thesis by (simp add: ql_pop_def)
  next
    case False
    obtain ql' where "ql_pop fill ql left = Some (Some (if left then hd (ql_elems ql) else last (ql_elems ql)), ql')"
      "ql_inv ql'" "ql_elems ql' = (if left then tl (ql_elems ql) else butlast (ql_elems ql))"
      using pop_ok [OF inv _ False, of fill left] safe QlPop by auto
    with QlPop False show ?thesis by auto
  qed
next
  case (QlGet i)
  show ?thesis
  proof (cases "i < length (ql_elems ql)")
    case True
    obtain it where "ql_seek ql i = Some it" "at ql it i" by (rule seek_at [OF inv True])
    with QlGet True inv at_value(2) [OF inv, of it i] show ?thesis by simp
  next
    case False
    with QlGet inv seek_out [OF inv, of i] show ?thesis by simp
  qed
next
  case (QlSet i s)
  show ?thesis
  proof (cases "i < length (ql_elems ql)")
    case True
    obtain it where it: "ql_seek ql i = Some it" "at ql it i" by (rule seek_at [OF inv True])
    obtain ql' where s: "ql_set ql it s = Some (1, ql', it)" "ql_inv ql'" "ql_elems ql' = (ql_elems ql)[i := s]" "at ql' it i"
      using set_ok [OF inv it(2), of s] safe QlSet by auto
    with QlSet True it at_value(2) [OF s(2,4)] show ?thesis by simp
  next
    case False
    with QlSet inv seek_out [OF inv, of i] show ?thesis by simp
  qed
next
  case (QlInsert i after s)
  show ?thesis
  proof (cases "i < length (ql_elems ql)")
    case True
    obtain it where it: "ql_seek ql i = Some it" "at ql it i" by (rule seek_at [OF inv True])
    let ?k = "if after then Suc i else i"
    obtain ql' it' where s: "ql_insert ql it after s = Some (1, ql', it')" "ql_inv ql'"
      "ql_elems ql' = take ?k (ql_elems ql) @ s # drop ?k (ql_elems ql)" "at ql' it' ?k"
      using insert_ok [OF inv it(2), of s after] safe QlInsert by auto
    have "ql_elems ql' ! ?k = s" using s(3) True by (simp add: nth_append)
    with QlInsert True it s at_value(2) [OF s(2,4)] show ?thesis by (simp add: Let_def)
  next
    case False
    with QlInsert inv seek_out [OF inv, of i] show ?thesis by simp
  qed
next
  case (QlRemove i)
  show ?thesis
  proof (cases "i < length (ql_elems ql)")
    case True
    obtain it where it: "ql_seek ql i = Some it" "at ql it i" by (rule seek_at [OF inv True])
    obtain ql' it' where s: "ql_remove fill ql it = Some (ql', it')" "ql_inv ql'"
      "ql_elems ql' = take i (ql_elems ql) @ drop (Suc i) (ql_elems ql)" "lands ql' it' i"
      using remove_ok [OF inv _ it(2), of fill] safe QlRemove by auto
    have "ql_iter_value ql' it' = (if Suc i < length (ql_elems ql) then Some (ql_elems ql ! Suc i) else None)"
      using s(3,4) True at_value(2) [OF s(2), of it' i]
      by (auto simp: lands_def ql_iter_value_def nth_append split: if_splits)
    with QlRemove True it s show ?thesis by simp
  next
    case False
    with QlRemove inv seek_out [OF inv, of i] show ?thesis by simp
  qed
qed

interpretation qlr: data_refinement ql_inv ql_elems ql_safe "ql_exec fill" ql_spec for fill
  using ql_exec_refines by unfold_locales

lemma ql_init_inv: "ql_inv ql_init" and ql_init_elems: "ql_elems ql_init = []"
  by (simp_all add: ql_init_def ql_inv_def mem_ok_def ql_elems_def)

text \<open>Reading along an iterator, at most \<open>fuel\<close> elements.\<close>

fun ql_collect :: "(quicklist \<Rightarrow> ql_iter \<Rightarrow> ql_iter) \<Rightarrow> quicklist \<Rightarrow> nat \<Rightarrow> ql_iter \<Rightarrow> bytes list" where
  "ql_collect step ql 0 it = []"
| "ql_collect step ql (Suc fuel) it =
     (case ql_iter_value ql it of None \<Rightarrow> [] | Some v \<Rightarrow> v # ql_collect step ql fuel (step ql it))"

lemma collect_next:
  assumes "ql_inv ql"
  shows "lands ql it k \<Longrightarrow> length (ql_elems ql) - k \<le> fuel \<Longrightarrow>
    ql_collect ql_iter_next ql fuel it = drop k (ql_elems ql)"
proof (induction fuel arbitrary: it k)
  case (Suc fuel)
  show ?case
  proof (cases "k < length (ql_elems ql)")
    case True
    then have a: "at ql it k" using Suc.prems(1) by (simp add: lands_def)
    have "lands ql (ql_iter_next ql it) (Suc k)" using iter_next_at [OF assms a] by (simp add: lands_def)
    with Suc at_value(2) [OF assms a] True show ?thesis by (simp add: Cons_nth_drop_Suc)
  next
    case False
    then show ?thesis using Suc.prems(1) by (simp add: lands_def ql_iter_value_def)
  qed
qed simp

lemma collect_prev:
  assumes "ql_inv ql"
  shows "at ql it k \<Longrightarrow> k < fuel \<Longrightarrow>
    ql_collect ql_iter_prev ql fuel it = rev (take (Suc k) (ql_elems ql))"
proof (induction fuel arbitrary: it k)
  case (Suc fuel)
  note v = at_value [OF assms Suc.prems(1)] and p = iter_prev_at [OF assms Suc.prems(1)]
  have t: "rev (take (Suc k) (ql_elems ql)) = ql_elems ql ! k # rev (take k (ql_elems ql))"
    using v(1) by (simp add: take_Suc_conv_app_nth)
  show ?case
  proof (cases k)
    case 0
    then have "ql_collect ql_iter_prev ql fuel (ql_iter_prev ql it) = []"
      using p by (cases fuel) (simp_all add: ql_iter_value_def)
    with v(2) 0 t show ?thesis by simp
  next
    case (Suc i)
    with p have "at ql (ql_iter_prev ql it) i" by simp
    with Suc.IH [of "ql_iter_prev ql it" i] Suc.prems Suc v(2) t show ?thesis by simp
  qed
qed simp

text \<open>Pushing to the tail of a list with a single node that is not full.\<close>

lemma push_single_eq:
  assumes "q_nodes ql = [n]" and "n_count n < fill" and "length s \<le> UINT32_MAX"
  shows "ql_push fill ql False s =
    (case lp_append (n_lp n) s of
       None \<Rightarrow> None
     | Some lp \<Rightarrow> Some (0, (node_update ql 0 lp (n_count n + 1))\<lparr>q_len := q_len ql + 1\<rparr>))"
  using assms by (simp add: ql_push_def Let_def split: option.split)

lemma push_single:
  assumes "q_nodes ql = [n]" and "node_rep n xs" and "length xs < fill" and "length s \<le> UINT32_MAX"
  shows "if 7 + length (lp_image xs) + length (lp_encode_entry s) \<le> UINT32_MAX
    then \<exists>ql' n'. ql_push fill ql False s = Some (0, ql') \<and> q_nodes ql' = [n'] \<and> node_rep n' (xs @ [s])
    else ql_push fill ql False s = None"
proof -
  have rep: "lp_rep (n_lp n) xs" "n_count n = length xs" using assms(2) by (auto simp: node_rep_def)
  have tot: "lp_load_total (n_lp n) = 7 + length (lp_image xs)" using rep_total [OF rep(1)] by simp
  show ?thesis
  proof (cases "7 + length (lp_image xs) + length (lp_encode_entry s) \<le> UINT32_MAX")
    case True
    then obtain lp where "lp_append (n_lp n) s = Some lp" "lp_rep lp (xs @ [s])"
      using insert_rep [OF rep(1) assms(4), of "length xs" None False] tot by (auto simp: lp_append_def)
    with True assms(1,3) rep(2) push_single_eq [OF assms(1) _ assms(4), of fill] show ?thesis
      by (simp add: node_update_def node_rep_def Let_def)
  next
    case False
    then have "lp_append (n_lp n) s = None" using tot by (simp add: lp_append_def lp_insert_def Let_def)
    with False assms(3) rep(2) push_single_eq [OF assms(1) _ assms(4), of fill] show ?thesis by simp
  qed
qed

lemma push_init: "0 < fill \<Longrightarrow> length s \<le> UINT32_MAX \<Longrightarrow> ql_push fill ql_init False s = ql_push fill (ql_node_link ql_init ql_node_new False) False s"
  by (simp add: ql_push_def ql_init_def ql_node_link_def ql_node_new_def Let_def)

section \<open>Properties\<close>


text \<open>One push on an empty list, for the examples.\<close>

lemma one_push:
  obtains ql where "run_safe ql_safe (ql_exec 1) ql_init [QlPush True [97]]"
    and "run_ops (ql_exec 1) ql_init [QlPush True [97]] = Some ([None], ql)" and "ql_elems ql = [[97]]"
proof -
  have e: "length (lp_encode_entry [97]) = 3"
    by (simp add: lp_encode_entry_def encode_payload_def lp_str_to_int64_def is_digit_def encode_str_def
        lp_backlen_size_def)
  have s: "run_safe ql_safe (ql_exec 1) ql_init [QlPush True [97]]"
    by (simp add: e ql_fits_def ql_init_def c_limits split: option.split prod.split)
  from qlr.run_refines [OF ql_init_inv s] show thesis
    using that [OF s] by (auto simp: ql_init_elems simp del: ql_exec.simps run_ops.simps)
qed




text \<open>
  Traversal. Iterating forward from the first entry reads the whole list in order, and
  backward from the last entry reads it in reverse; both end after as many steps as the list
  has elements.
\<close>
theorem quicklist_traversal:
  assumes "run_safe ql_safe (ql_exec fill) ql_init ops" and "run_ops (ql_exec fill) ql_init ops = Some (rs, ql)"
    and "length (ql_elems ql) \<le> fuel"
  shows "ql_collect ql_iter_next ql fuel (ql_first ql) = ql_elems ql \<and>
    ql_collect ql_iter_prev ql fuel (ql_last ql) = rev (ql_elems ql)"
proof
  have inv: "ql_inv ql" using qlr.run_inv [OF ql_init_inv assms(1,2)] .
  have "lands ql (ql_first ql) 0" using enter_lands [OF inv, of "[]"] by (simp add: ql_first_def)
  then show "ql_collect ql_iter_next ql fuel (ql_first ql) = ql_elems ql"
    using collect_next [OF inv, of _ 0 fuel] assms(3) by simp
  show "ql_collect ql_iter_prev ql fuel (ql_last ql) = rev (ql_elems ql)"
  proof (cases "q_nodes ql" rule: rev_cases)
    case Nil
    then show ?thesis by (cases fuel) (simp_all add: ql_last_def ql_iter_value_def ql_elems_def)
  next
    case (snoc us n)
    then have "elems n \<noteq> []" using inv by (auto simp: ql_inv_def node_ok_def)
    then have len: "0 < length (ql_elems ql)" using snoc by (simp add: ql_elems_def)
    have "at ql (ql_last ql) (length (ql_elems ql) - 1)" using last_at [OF inv snoc] snoc by (simp add: ql_last_def)
    moreover have "length (ql_elems ql) - 1 < fuel" using len assms(3) by linarith
    ultimately show ?thesis using collect_prev [OF inv, of _ "length (ql_elems ql) - 1" fuel] len by simp
  qed
qed

text \<open>
  C32: Nodes are limited by entry count, never by bytes. Four elements of 1 GiB each, which the
  protocol accepts, go to the same node under the default fill limit, and the fourth push
  outgrows the 32-bit size of its listpack: the process exits.
\<close>
theorem quicklist_large_elements_exit:
  assumes "length s = RESP_MAX_ARRAY_LEN"
  shows "\<exists>ql. run_ops (ql_exec DDUP_QL_FILL) ql_init (replicate 3 (QlPush False s)) = Some ([None, None, None], ql) \<and>
    ql_elems ql = [s, s, s] \<and> ql_push DDUP_QL_FILL ql False s = None"
proof -
  have "lp_str_to_int64 s = None" using assms by (simp add: lp_str_to_int64_def RESP_MAX_ARRAY_LEN_def)
  then have e: "length (lp_encode_entry s) = RESP_MAX_ARRAY_LEN + 10"
    using assms by (simp add: lp_encode_entry_def encode_payload_def encode_str_def RESP_MAX_ARRAY_LEN_def
        lp_backlen_size_def Let_def)
  have new: "node_rep ql_node_new []" using new_rep by (simp add: node_rep_def ql_node_new_def)
  have len: "length s \<le> UINT32_MAX" "\<And>n. n < 4 \<Longrightarrow> n < DDUP_QL_FILL"
    using assms by (simp_all add: RESP_MAX_ARRAY_LEN_def c_limits DDUP_QL_FILL_def)
  note lim = e RESP_MAX_ARRAY_LEN_def c_limits
  obtain q1 n1 where 1: "ql_push DDUP_QL_FILL ql_init False s = Some (0, q1)" "q_nodes q1 = [n1]" "node_rep n1 [s]"
    using push_single [of "ql_node_link ql_init ql_node_new False" ql_node_new "[]" DDUP_QL_FILL s] new len push_init
    by (auto simp: ql_node_link_def ql_init_def lim DDUP_QL_FILL_def)
  obtain q2 n2 where 2: "ql_push DDUP_QL_FILL q1 False s = Some (0, q2)" "q_nodes q2 = [n2]" "node_rep n2 [s, s]"
    using push_single [OF 1(2,3), of DDUP_QL_FILL s] len by (auto simp: lim DDUP_QL_FILL_def)
  obtain q3 n3 where 3: "ql_push DDUP_QL_FILL q2 False s = Some (0, q3)" "q_nodes q3 = [n3]" "node_rep n3 [s, s, s]"
    using push_single [OF 2(2,3), of DDUP_QL_FILL s] len by (auto simp: lim DDUP_QL_FILL_def)
  have "ql_push DDUP_QL_FILL q3 False s = None"
    using push_single [OF 3(2,3), of DDUP_QL_FILL s] len by (auto simp: lim DDUP_QL_FILL_def)
  moreover have "ql_elems q3 = [s, s, s]" using 3 node_rep_elems by (simp add: ql_elems_def)
  ultimately show ?thesis using 1(1) 2(1) 3(1) by (simp add: numeral_3_eq_3)
qed

theorem quicklist_large_elements_exit_witness:
  "\<exists>ql. ql_elems ql = replicate 3 (replicate RESP_MAX_ARRAY_LEN 0) \<and>
     ql_push DDUP_QL_FILL ql False (replicate RESP_MAX_ARRAY_LEN 0) = None"
  using quicklist_large_elements_exit [of "replicate RESP_MAX_ARRAY_LEN 0"] by (auto simp: numeral_3_eq_3)

end
