(* ===== verification/Obj_Stream.thy ===== *)
theory Obj_Stream
  imports Prelude
begin

text \<open>
  Streams (\<open>ds/stream.c\<close>): an append-only log of entries with ascending IDs, consumer groups,
  their consumers and the pending entries of each consumer.

  A dynamic array is the list of its elements beside its capacity; a pointer into one of the
  arrays is an index. Allocation succeeds (\<open>stream_xmalloc\<close> ends the process otherwise). An
  operation is \<open>None\<close> where the code calls \<open>abort\<close>. Counters are the values of \<open>uint64_t\<close>
  variables, and additions and subtractions the code does not guard wrap around.
\<close>

section \<open>Data\<close>

record stream_entry =
  e_ms :: nat
  e_seq :: nat
  e_nfields :: nat
  e_lens :: "nat list"
  e_data :: bytes
  e_data_len :: nat

record stream_pending =
  p_ms :: nat
  p_seq :: nat
  p_idle :: nat
  p_delivery_count :: nat

record stream_consumer =
  c_name :: bytes
  c_pel :: "stream_pending list"
  c_pel_cap :: nat
  c_seen_time :: nat
  c_active_time :: nat

record stream_group =
  g_name :: bytes
  g_last_ms :: nat
  g_last_seq :: nat
  g_entries_read :: nat
  g_consumers :: "stream_consumer list"
  g_consumers_cap :: nat

record obj_stream =
  s_entries :: "stream_entry list"
  s_cap :: nat
  s_last_ms :: nat
  s_last_seq :: nat
  s_entries_added :: nat
  s_max_deleted_ms :: nat
  s_max_deleted_seq :: nat
  s_mem :: nat
  s_group_mem :: nat
  s_groups :: "stream_group list"
  s_groups_cap :: nat

definition SIZEOF_STREAM_ENTRY :: nat where "SIZEOF_STREAM_ENTRY = 48"
definition SIZEOF_STREAM_PENDING :: nat where "SIZEOF_STREAM_PENDING = 32"
definition SIZEOF_STREAM_CONSUMER :: nat where "SIZEOF_STREAM_CONSUMER = 56"
definition SIZEOF_STREAM_GROUP :: nat where "SIZEOF_STREAM_GROUP = 72"
definition SIZEOF_OBJ_STREAM :: nat where "SIZEOF_OBJ_STREAM = 104"

lemmas [c_limits] = SIZEOF_STREAM_ENTRY_def SIZEOF_STREAM_PENDING_def SIZEOF_STREAM_CONSUMER_def
  SIZEOF_STREAM_GROUP_def SIZEOF_OBJ_STREAM_def

definition OBJ_STREAM_ADD_OK :: int where "OBJ_STREAM_ADD_OK = 0"
definition OBJ_STREAM_ADD_ERR :: int where "OBJ_STREAM_ADD_ERR = -1"
definition OBJ_STREAM_ADD_SMALL :: int where "OBJ_STREAM_ADD_SMALL = -2"

lemmas add_codes = OBJ_STREAM_ADD_OK_def OBJ_STREAM_ADD_ERR_def OBJ_STREAM_ADD_SMALL_def

text \<open>
  The next capacity of a full array whose elements have \<open>elem_size\<close> bytes: \<open>None\<close> when it
  overflows or the block cannot be addressed.
\<close>

definition grown_cap :: "nat \<Rightarrow> nat \<Rightarrow> nat \<Rightarrow> nat option" where
  "grown_cap initial elem_size cap =
     (let ncap = (if cap = 0 then initial else cap * 2 mod 2 ^ 64)
      in if ncap < cap \<or> SIZE_MAX div elem_size < ncap then None else Some ncap)"

section \<open>Entries\<close>

definition stream_entry_bytes :: "nat \<Rightarrow> nat \<Rightarrow> nat option" where
  "stream_entry_bytes nfields data_len =
     (if UINT32_MAX < nfields \<or> (UINT64_MAX - SIZEOF_STREAM_ENTRY) div 8 < nfields then None
      else
        let total = SIZEOF_STREAM_ENTRY + nfields * 8
        in if UINT64_MAX - total < data_len then None
           else
             let total = total + data_len
             in if UINT64_MAX - 32 < total then None else Some (total + 32))"

definition obj_stream_new :: obj_stream where
  "obj_stream_new =
     \<lparr>s_entries = [], s_cap = 0, s_last_ms = 0, s_last_seq = 0, s_entries_added = 0,
      s_max_deleted_ms = 0, s_max_deleted_seq = 0, s_mem = SIZEOF_OBJ_STREAM, s_group_mem = 0,
      s_groups = [], s_groups_cap = 0\<rparr>"

definition obj_stream_mem :: "obj_stream \<Rightarrow> nat" where
  "obj_stream_mem s = u64_add (s_mem s) (s_group_mem s)"

definition obj_stream_len :: "obj_stream \<Rightarrow> nat" where
  "obj_stream_len s = length (s_entries s)"

definition obj_stream_at :: "obj_stream \<Rightarrow> nat \<Rightarrow> stream_entry option" where
  "obj_stream_at s idx = (if idx < length (s_entries s) then Some (s_entries s ! idx) else None)"

text \<open>The binary search for the first entry at or after an ID.\<close>

function lower_bound_loop :: "stream_entry list \<Rightarrow> nat \<Rightarrow> nat \<Rightarrow> nat \<Rightarrow> nat \<Rightarrow> nat" where
  "lower_bound_loop es ms seq lo hi =
     (if lo < hi
      then
        let mid = lo + (hi - lo) div 2; e = es ! mid
        in if e_ms e < ms \<or> (e_ms e = ms \<and> e_seq e < seq)
           then lower_bound_loop es ms seq (mid + 1) hi
           else lower_bound_loop es ms seq lo mid
      else lo)"
  by pat_completeness auto
termination by (relation "measure (\<lambda>(es, ms, seq, lo, hi). hi - lo)") auto

declare lower_bound_loop.simps [simp del]

definition obj_stream_lower_bound :: "obj_stream \<Rightarrow> nat \<Rightarrow> nat \<Rightarrow> nat" where
  "obj_stream_lower_bound s ms seq = lower_bound_loop (s_entries s) ms seq 0 (length (s_entries s))"

text \<open>The size check over the items of a new entry, and the loop that copies them.\<close>

fun append_total :: "(bytes \<times> bytes) list \<Rightarrow> nat \<Rightarrow> nat option" where
  "append_total [] acc = Some acc"
| "append_total ((f, v) # fvs) acc =
     (if UINT32_MAX < length f \<or> UINT32_MAX < length v \<or> SIZE_MAX - acc < length f then None
      else
        let acc = acc + length f
        in if SIZE_MAX - acc < length v then None
           else append_total fvs (acc + length v))"

fun copy_items :: "(bytes \<times> bytes) list \<Rightarrow> nat list \<Rightarrow> bytes \<Rightarrow> nat list \<times> bytes" where
  "copy_items [] lens data = (lens, data)"
| "copy_items ((f, v) # fvs) lens data =
     copy_items fvs (lens @ [length f, length v]) (data @ f @ v)"

definition obj_stream_append ::
  "obj_stream \<Rightarrow> nat \<Rightarrow> nat \<Rightarrow> (bytes \<times> bytes) list \<Rightarrow> (int \<times> obj_stream) option" where
  "obj_stream_append s ms seq fvs =
     (if ms < s_last_ms s \<or> (ms = s_last_ms s \<and> seq \<le> s_last_seq s)
      then Some (OBJ_STREAM_ADD_SMALL, s)
      else if UINT32_MAX < length fvs then Some (OBJ_STREAM_ADD_ERR, s)
      else
        case append_total fvs 0 of
          None \<Rightarrow> Some (OBJ_STREAM_ADD_ERR, s)
        | Some data_len \<Rightarrow>
            (case stream_entry_bytes (length fvs) data_len of
               None \<Rightarrow> Some (OBJ_STREAM_ADD_ERR, s)
             | Some bytes \<Rightarrow>
                 (case (if length (s_entries s) = s_cap s
                        then grown_cap 8 SIZEOF_STREAM_ENTRY (s_cap s) else Some (s_cap s)) of
                    None \<Rightarrow> Some (OBJ_STREAM_ADD_ERR, s)
                  | Some cap \<Rightarrow>
                      let s = s\<lparr>s_cap := cap\<rparr>
                      in if SIZE_MAX div 8 < length fvs then Some (OBJ_STREAM_ADD_ERR, s)
                         else
                           let (lens, data) = copy_items fvs [] [];
                               e = \<lparr>e_ms = ms, e_seq = seq, e_nfields = length fvs, e_lens = lens,
                                    e_data = data, e_data_len = length data\<rparr>
                           in if UINT64_MAX - bytes < s_mem s then None
                              else
                                Some (OBJ_STREAM_ADD_OK,
                                  s\<lparr>s_entries := s_entries s @ [e], s_last_ms := ms, s_last_seq := seq,
                                    s_entries_added := u64_add (s_entries_added s) 1,
                                    s_mem := s_mem s + bytes\<rparr>))))"

definition stream_id_cmp :: "nat \<Rightarrow> nat \<Rightarrow> nat \<Rightarrow> nat \<Rightarrow> int" where
  "stream_id_cmp a_ms a_seq b_ms b_seq =
     (if a_ms < b_ms then -1 else if a_ms > b_ms then 1
      else if a_seq < b_seq then -1 else if a_seq > b_seq then 1 else 0)"

definition stream_update_deleted :: "obj_stream \<Rightarrow> stream_entry \<Rightarrow> obj_stream" where
  "stream_update_deleted s e =
     (if stream_id_cmp (e_ms e) (e_seq e) (s_max_deleted_ms s) (s_max_deleted_seq s) > 0
      then s\<lparr>s_max_deleted_ms := e_ms e, s_max_deleted_seq := e_seq e\<rparr> else s)"

definition obj_stream_delete :: "obj_stream \<Rightarrow> nat \<Rightarrow> nat \<Rightarrow> (bool \<times> obj_stream) option" where
  "obj_stream_delete s ms seq =
     (let idx = obj_stream_lower_bound s ms seq
      in if length (s_entries s) \<le> idx then Some (False, s)
         else
           let e = s_entries s ! idx
           in if e_ms e \<noteq> ms \<or> e_seq e \<noteq> seq then Some (False, s)
              else
                case stream_entry_bytes (e_nfields e) (e_data_len e) of
                  None \<Rightarrow> None
                | Some bytes \<Rightarrow>
                    let s = stream_update_deleted s e
                    in Some (True,
                         s\<lparr>s_entries := take idx (s_entries s) @ drop (Suc idx) (s_entries s),
                           s_mem := u64_sub (s_mem s) bytes\<rparr>))"

text \<open>The accounting loop of \<open>stream_remove_front\<close>.\<close>

fun uncharge :: "stream_entry list \<Rightarrow> nat \<Rightarrow> nat option" where
  "uncharge [] mem = Some mem"
| "uncharge (e # es) mem =
     (case stream_entry_bytes (e_nfields e) (e_data_len e) of
        None \<Rightarrow> None
      | Some bytes \<Rightarrow> uncharge es (u64_sub mem bytes))"

definition stream_remove_front :: "obj_stream \<Rightarrow> nat \<Rightarrow> obj_stream option" where
  "stream_remove_front s n =
     (if n = 0 then Some s
      else
        let s = stream_update_deleted s (s_entries s ! (n - 1))
        in case uncharge (take n (s_entries s)) (s_mem s) of
             None \<Rightarrow> None
           | Some mem \<Rightarrow> Some (s\<lparr>s_entries := drop n (s_entries s), s_mem := mem\<rparr>))"

definition obj_stream_trim_maxlen :: "obj_stream \<Rightarrow> nat \<Rightarrow> nat \<Rightarrow> (nat \<times> obj_stream) option" where
  "obj_stream_trim_maxlen s maxlen limit =
     (if length (s_entries s) \<le> maxlen then Some (0, s)
      else
        let n = length (s_entries s) - maxlen;
            n = (if limit < n then limit else n)
        in map_option (Pair n) (stream_remove_front s n))"

definition obj_stream_trim_minid :: "obj_stream \<Rightarrow> nat \<Rightarrow> nat \<Rightarrow> nat \<Rightarrow> (nat \<times> obj_stream) option" where
  "obj_stream_trim_minid s ms seq limit =
     (let n = obj_stream_lower_bound s ms seq;
          n = (if limit < n then limit else n)
      in map_option (Pair n) (stream_remove_front s n))"

section \<open>Consumer groups\<close>

definition stream_name_eq :: "bytes \<Rightarrow> bytes \<Rightarrow> bool" where
  "stream_name_eq a b \<longleftrightarrow> length a = length b \<and> (length a = 0 \<or> a = b)"

definition stream_mem_add :: "nat \<Rightarrow> nat \<Rightarrow> nat \<Rightarrow> nat \<Rightarrow> nat option" where
  "stream_mem_add base struct_size name_len extra =
     (let total = base
      in if UINT64_MAX - total < struct_size then None
         else
           let total = total + struct_size
           in if UINT64_MAX - total < name_len then None
              else
                let total = total + name_len
                in if UINT64_MAX - total < extra then None
                   else
                     let total = total + extra
                     in if UINT64_MAX - 16 < total then None else Some (total + 16))"

definition stream_group_mem_add :: "obj_stream \<Rightarrow> nat \<Rightarrow> obj_stream option" where
  "stream_group_mem_add s bytes =
     (if UINT64_MAX - s_group_mem s < bytes then None
      else Some (s\<lparr>s_group_mem := s_group_mem s + bytes\<rparr>))"

definition stream_group_mem_sub :: "obj_stream \<Rightarrow> nat \<Rightarrow> obj_stream option" where
  "stream_group_mem_sub s bytes =
     (if s_group_mem s < bytes then None else Some (s\<lparr>s_group_mem := s_group_mem s - bytes\<rparr>))"

text \<open>\<open>memmove\<close> over one element of an array.\<close>

definition remove_at :: "nat \<Rightarrow> 'a list \<Rightarrow> 'a list" where
  "remove_at i xs = take i xs @ drop (Suc i) xs"

definition obj_stream_group_get :: "obj_stream \<Rightarrow> bytes \<Rightarrow> nat option" where
  "obj_stream_group_get s name = index_of (\<lambda>g. stream_name_eq (g_name g) name) (s_groups s)"

text \<open>The result is the index of the group and whether it is new, \<open>None\<close> for \<open>NULL\<close>.\<close>

definition obj_stream_group_create ::
  "obj_stream \<Rightarrow> bytes \<Rightarrow> nat \<Rightarrow> nat \<Rightarrow> ((nat \<times> bool) option \<times> obj_stream) option" where
  "obj_stream_group_create s name last_ms last_seq =
     (case obj_stream_group_get s name of
        Some gi \<Rightarrow> Some (Some (gi, False), s)
      | None \<Rightarrow>
          (case stream_mem_add 0 SIZEOF_STREAM_GROUP (length name) 0 of
             None \<Rightarrow> Some (None, s)
           | Some mem \<Rightarrow>
               if UINT64_MAX - s_group_mem s < mem then Some (None, s)
               else
                 case (if length (s_groups s) = s_groups_cap s
                       then grown_cap 4 SIZEOF_STREAM_GROUP (s_groups_cap s) else Some (s_groups_cap s)) of
                   None \<Rightarrow> Some (None, s)
                 | Some cap \<Rightarrow>
                     let gi = length (s_groups s);
                         g = \<lparr>g_name = name, g_last_ms = last_ms, g_last_seq = last_seq, g_entries_read = 0,
                              g_consumers = [], g_consumers_cap = 0\<rparr>;
                         s = s\<lparr>s_groups_cap := cap, s_groups := s_groups s @ [g]\<rparr>
                     in map_option (Pair (Some (gi, True))) (stream_group_mem_add s mem)))"

text \<open>The bytes charged for a consumer and its pending entries; \<open>None\<close> aborts.\<close>

fun charge_pending :: "stream_pending list \<Rightarrow> nat \<Rightarrow> nat option" where
  "charge_pending [] mem = Some mem"
| "charge_pending (p # ps) mem =
     (if UINT64_MAX - (SIZEOF_STREAM_PENDING + 16) < mem then None
      else charge_pending ps (mem + (SIZEOF_STREAM_PENDING + 16)))"

definition consumer_bytes :: "stream_consumer \<Rightarrow> nat option" where
  "consumer_bytes c =
     (case stream_mem_add 0 SIZEOF_STREAM_CONSUMER (length (c_name c)) 0 of
        None \<Rightarrow> None
      | Some mem \<Rightarrow> charge_pending (c_pel c) mem)"

fun charge_consumers :: "stream_consumer list \<Rightarrow> nat \<Rightarrow> nat option" where
  "charge_consumers [] mem = Some mem"
| "charge_consumers (c # cs) mem =
     (case consumer_bytes c of
        None \<Rightarrow> None
      | Some cmem \<Rightarrow> charge_consumers cs (u64_add mem cmem))"

definition obj_stream_group_destroy :: "obj_stream \<Rightarrow> bytes \<Rightarrow> (bool \<times> obj_stream) option" where
  "obj_stream_group_destroy s name =
     (case obj_stream_group_get s name of
        None \<Rightarrow> Some (False, s)
      | Some i \<Rightarrow>
          let g = s_groups s ! i
          in case stream_mem_add 0 SIZEOF_STREAM_GROUP (length (g_name g)) 0 of
               None \<Rightarrow> None
             | Some mem \<Rightarrow>
                 (case charge_consumers (g_consumers g) mem of
                    None \<Rightarrow> None
                  | Some mem \<Rightarrow>
                      (case stream_group_mem_sub s mem of
                         None \<Rightarrow> None
                       | Some s \<Rightarrow> Some (True, s\<lparr>s_groups := remove_at i (s_groups s)\<rparr>))))"

section \<open>Consumers\<close>

definition obj_stream_consumer_get :: "stream_group \<Rightarrow> bytes \<Rightarrow> nat option" where
  "obj_stream_consumer_get g name = index_of (\<lambda>c. stream_name_eq (c_name c) name) (g_consumers g)"

text \<open>
  Operations on a group take the stream, which \<open>g->stream\<close> points back to, and the index of
  the group; \<open>set_consumers\<close> and \<open>set_consumer\<close> store its changed arrays.
\<close>

definition set_consumers :: "obj_stream \<Rightarrow> nat \<Rightarrow> stream_consumer list \<Rightarrow> obj_stream" where
  "set_consumers s gi cs = s\<lparr>s_groups := (s_groups s)[gi := (s_groups s ! gi)\<lparr>g_consumers := cs\<rparr>]\<rparr>"

definition set_consumer :: "obj_stream \<Rightarrow> nat \<Rightarrow> nat \<Rightarrow> stream_consumer \<Rightarrow> obj_stream" where
  "set_consumer s gi ci c = set_consumers s gi ((g_consumers (s_groups s ! gi))[ci := c])"

definition obj_stream_consumer_create ::
  "obj_stream \<Rightarrow> nat \<Rightarrow> bytes \<Rightarrow> (nat option \<times> obj_stream) option" where
  "obj_stream_consumer_create s gi name =
     (let g = s_groups s ! gi
      in case obj_stream_consumer_get g name of
           Some ci \<Rightarrow> Some (Some ci, s)
         | None \<Rightarrow>
             (case stream_mem_add 0 SIZEOF_STREAM_CONSUMER (length name) 0 of
                None \<Rightarrow> Some (None, s)
              | Some mem \<Rightarrow>
                  if UINT64_MAX - s_group_mem s < mem then Some (None, s)
                  else
                    case (if length (g_consumers g) = g_consumers_cap g
                          then grown_cap 4 SIZEOF_STREAM_CONSUMER (g_consumers_cap g)
                          else Some (g_consumers_cap g)) of
                      None \<Rightarrow> Some (None, s)
                    | Some cap \<Rightarrow>
                        let c = \<lparr>c_name = name, c_pel = [], c_pel_cap = 0, c_seen_time = 0, c_active_time = 0\<rparr>;
                            ci = length (g_consumers g);
                            g = g\<lparr>g_consumers_cap := cap, g_consumers := g_consumers g @ [c]\<rparr>;
                            s = s\<lparr>s_groups := (s_groups s)[gi := g]\<rparr>
                        in map_option (Pair (Some ci)) (stream_group_mem_add s mem)))"

definition obj_stream_consumer_destroy ::
  "obj_stream \<Rightarrow> nat \<Rightarrow> bytes \<Rightarrow> (bool \<times> obj_stream) option" where
  "obj_stream_consumer_destroy s gi name =
     (let g = s_groups s ! gi
      in case obj_stream_consumer_get g name of
           None \<Rightarrow> Some (False, s)
         | Some i \<Rightarrow>
             (case consumer_bytes (g_consumers g ! i) of
                None \<Rightarrow> None
              | Some mem \<Rightarrow>
                  (case stream_group_mem_sub s mem of
                     None \<Rightarrow> None
                   | Some s \<Rightarrow> Some (True, set_consumers s gi (remove_at i (g_consumers g))))))"

section \<open>Pending entries\<close>

definition obj_stream_consumer_pel_find :: "stream_consumer \<Rightarrow> nat \<Rightarrow> nat \<Rightarrow> nat option" where
  "obj_stream_consumer_pel_find c ms seq = index_of (\<lambda>p. p_ms p = ms \<and> p_seq p = seq) (c_pel c)"

text \<open>The result is the index of the pending entry, \<open>None\<close> for \<open>NULL\<close>.\<close>

definition obj_stream_consumer_pel_add ::
  "obj_stream \<Rightarrow> nat \<Rightarrow> nat \<Rightarrow> nat \<Rightarrow> nat \<Rightarrow> nat \<Rightarrow> nat \<Rightarrow> nat option \<times> obj_stream" where
  "obj_stream_consumer_pel_add s gi ci ms seq idle delivery_count =
     (let c = g_consumers (s_groups s ! gi) ! ci
      in case obj_stream_consumer_pel_find c ms seq of
           Some i \<Rightarrow> (Some i, s)
         | None \<Rightarrow>
             (case (if length (c_pel c) = c_pel_cap c then grown_cap 8 SIZEOF_STREAM_PENDING (c_pel_cap c)
                    else Some (c_pel_cap c)) of
                None \<Rightarrow> (None, s)
              | Some cap \<Rightarrow>
                  let c = c\<lparr>c_pel_cap := cap\<rparr>;
                      s = set_consumer s gi ci c
                  in if UINT64_MAX - s_group_mem s < SIZEOF_STREAM_PENDING + 16 then (None, s)
                     else
                       case stream_group_mem_add s (SIZEOF_STREAM_PENDING + 16) of
                         None \<Rightarrow> (None, s)
                       | Some s \<Rightarrow>
                           let p = \<lparr>p_ms = ms, p_seq = seq, p_idle = idle, p_delivery_count = delivery_count\<rparr>
                           in (Some (length (c_pel c)), set_consumer s gi ci (c\<lparr>c_pel := c_pel c @ [p]\<rparr>))))"

definition obj_stream_consumer_pel_remove :: "stream_consumer \<Rightarrow> nat \<Rightarrow> nat \<Rightarrow> stream_consumer option" where
  "obj_stream_consumer_pel_remove c ms seq =
     map_option (\<lambda>i. c\<lparr>c_pel := remove_at i (c_pel c)\<rparr>) (obj_stream_consumer_pel_find c ms seq)"

text \<open>The loop over the consumers: the array with the entry removed from the first that has it.\<close>

fun pel_remove_loop :: "stream_consumer list \<Rightarrow> nat \<Rightarrow> nat \<Rightarrow> stream_consumer list option" where
  "pel_remove_loop [] ms seq = None"
| "pel_remove_loop (c # cs) ms seq =
     (case obj_stream_consumer_pel_remove c ms seq of
        Some c' \<Rightarrow> Some (c' # cs)
      | None \<Rightarrow> map_option (Cons c) (pel_remove_loop cs ms seq))"

definition obj_stream_group_pel_remove :: "obj_stream \<Rightarrow> nat \<Rightarrow> nat \<Rightarrow> nat \<Rightarrow> (bool \<times> obj_stream) option" where
  "obj_stream_group_pel_remove s gi ms seq =
     (case pel_remove_loop (g_consumers (s_groups s ! gi)) ms seq of
        None \<Rightarrow> Some (False, s)
      | Some cs \<Rightarrow>
          map_option (Pair True) (stream_group_mem_sub (set_consumers s gi cs) (SIZEOF_STREAM_PENDING + 16)))"

definition obj_stream_group_pending_count :: "stream_group \<Rightarrow> nat" where
  "obj_stream_group_pending_count g =
     foldl (\<lambda>n c. u64_add n (length (c_pel c))) 0 (g_consumers g)"

end
