(* ===== verification/Stream_Log.thy ===== *)
theory Stream_Log
  imports Obj_Stream "HOL-Library.Product_Lexorder"
begin

text \<open>
  The log of a stream: the invariant of the entry array and what append, delete, trim and the
  binary search do to the list of entries it stands for. IDs are pairs in lexicographic order.
\<close>

type_synonym stream_id = "nat \<times> nat"
type_synonym items = "(bytes \<times> bytes) list"

section \<open>Entries and their items\<close>

definition entry_id :: "stream_entry \<Rightarrow> stream_id" where
  "entry_id e = (e_ms e, e_seq e)"

text \<open>Cutting the data of an entry along its lengths.\<close>

fun split_items :: "nat list \<Rightarrow> bytes \<Rightarrow> items" where
  "split_items (fl # vl # lens) data =
     (take fl data, take vl (drop fl data)) # split_items lens (drop (fl + vl) data)"
| "split_items _ data = []"

definition entry_abs :: "stream_entry \<Rightarrow> stream_id \<times> items" where
  "entry_abs e = (entry_id e, split_items (e_lens e) (e_data e))"

lemma fst_entry_abs [simp]: "fst (entry_abs e) = entry_id e"
  by (simp add: entry_abs_def)

definition item_lens :: "items \<Rightarrow> nat list" where
  "item_lens fvs = concat (map (\<lambda>(f, v). [length f, length v]) fvs)"

definition item_data :: "items \<Rightarrow> bytes" where
  "item_data fvs = concat (map (\<lambda>(f, v). f @ v) fvs)"

lemma item_simps [simp]:
  "item_lens [] = []" "item_data [] = []"
  "item_lens ((f, v) # fvs) = length f # length v # item_lens fvs"
  "item_data ((f, v) # fvs) = f @ v @ item_data fvs"
  by (simp_all add: item_lens_def item_data_def)

lemma copy_items_eq: "copy_items fvs lens data = (lens @ item_lens fvs, data @ item_data fvs)"
  by (induction fvs lens data rule: copy_items.induct) simp_all

lemma split_items_copy: "split_items (item_lens fvs) (item_data fvs) = fvs"
  by (induction fvs) auto

lemma append_total_eq:
  assumes "\<forall>(f, v) \<in> set fvs. length f \<le> UINT32_MAX \<and> length v \<le> UINT32_MAX"
    and "acc + length (item_data fvs) \<le> SIZE_MAX"
  shows "append_total fvs acc = Some (acc + length (item_data fvs))"
  using assms by (induction fvs acc rule: append_total.induct) (auto simp: Let_def add.assoc)

section \<open>Accounting\<close>

definition entry_cost :: "stream_entry \<Rightarrow> nat" where
  "entry_cost e = SIZEOF_STREAM_ENTRY + e_nfields e * 8 + e_data_len e + 32"

lemma stream_entry_bytes_eq:
  assumes "n \<le> UINT32_MAX" and "SIZEOF_STREAM_ENTRY + n * 8 + len + 32 \<le> UINT64_MAX"
  shows "stream_entry_bytes n len = Some (SIZEOF_STREAM_ENTRY + n * 8 + len + 32)"
  using assms by (auto simp: stream_entry_bytes_def c_limits Let_def)

definition log_entry_ok :: "stream_entry \<Rightarrow> bool" where
  "log_entry_ok e \<longleftrightarrow>
     (\<exists>fvs. e_nfields e = length fvs \<and> e_lens e = item_lens fvs \<and> e_data e = item_data fvs) \<and>
     e_data_len e = length (e_data e) \<and> e_nfields e \<le> UINT32_MAX"

lemma entry_bytes_cost:
  "log_entry_ok e \<Longrightarrow> entry_cost e \<le> UINT64_MAX \<Longrightarrow> stream_entry_bytes (e_nfields e) (e_data_len e) = Some (entry_cost e)"
  using stream_entry_bytes_eq [of "e_nfields e" "e_data_len e"] by (simp add: log_entry_ok_def entry_cost_def)

definition entries_cost :: "stream_entry list \<Rightarrow> nat" where
  "entries_cost es = sum_list (map entry_cost es)"

lemma entries_cost_simps [simp]:
  "entries_cost [] = 0" "entries_cost (e # es) = entry_cost e + entries_cost es"
  "entries_cost (es @ fs) = entries_cost es + entries_cost fs"
  by (simp_all add: entries_cost_def)

lemma uncharge_eq:
  assumes "\<forall>e \<in> set es. log_entry_ok e" and "entries_cost es \<le> mem" and "mem \<le> UINT64_MAX"
  shows "uncharge es mem = Some (mem - entries_cost es)"
  using assms
proof (induction es arbitrary: mem)
  case (Cons e es)
  then have "stream_entry_bytes (e_nfields e) (e_data_len e) = Some (entry_cost e)"
    by (intro entry_bytes_cost) auto
  moreover have "u64_sub mem (entry_cost e) = mem - entry_cost e" using Cons.prems by (intro u64_sub_eq) auto
  ultimately show ?case using Cons by simp
qed simp

section \<open>Binary search\<close>

lemma id_less: "(ms, seq) < (ms', seq') \<longleftrightarrow> ms < ms' \<or> (ms = ms' \<and> seq < (seq' :: nat))"
  for ms :: nat by auto

lemma entry_less: "entry_id e < (ms, seq) \<longleftrightarrow> e_ms e < ms \<or> (e_ms e = ms \<and> e_seq e < seq)"
  unfolding entry_id_def id_less ..

lemma lower_bound_loop_spec:
  assumes "sorted_wrt (<) (map entry_id es)" and "lo \<le> hi" and "hi \<le> length es"
    and "\<forall>i < lo. entry_id (es ! i) < (ms, seq)"
    and "\<forall>i. hi \<le> i \<and> i < length es \<longrightarrow> \<not> entry_id (es ! i) < (ms, seq)"
  shows "lower_bound_loop es ms seq lo hi \<le> length es \<and>
    (\<forall>i < lower_bound_loop es ms seq lo hi. entry_id (es ! i) < (ms, seq)) \<and>
    (\<forall>i. lower_bound_loop es ms seq lo hi \<le> i \<and> i < length es \<longrightarrow> \<not> entry_id (es ! i) < (ms, seq))"
  using assms
proof (induction es ms seq lo hi rule: lower_bound_loop.induct)
  case (1 es ms seq lo hi)
  have mono: "entry_id (es ! i) < entry_id (es ! j)" if "i < j" "j < length es" for i j
    using sorted_wrt_nth_less [OF "1.prems"(1), of i j] that by simp
  show ?case
  proof (cases "lo < hi")
    case True
    define mid where "mid = lo + (hi - lo) div 2"
    have m: "lo \<le> mid" "mid < hi" "mid < length es" using True "1.prems" by (auto simp: mid_def)
    show ?thesis
    proof (cases "entry_id (es ! mid) < (ms, seq)")
      case less: True
      have "\<forall>i < mid + 1. entry_id (es ! i) < (ms, seq)"
      proof (intro allI impI)
        fix i assume "i < mid + 1"
        then consider "i = mid" | "i < mid" by linarith
        then show "entry_id (es ! i) < (ms, seq)"
          using less order.strict_trans [OF mono [of i mid] less] m(3) by cases auto
      qed
      note IH = "1.IH"(1) [OF True mid_def refl less [unfolded entry_less] "1.prems"(1) _ "1.prems"(3) this "1.prems"(5)]
      have "lower_bound_loop es ms seq lo hi = lower_bound_loop es ms seq (mid + 1) hi"
        using True less by (subst lower_bound_loop.simps) (simp add: Let_def mid_def entry_less)
      with IH m(2) show ?thesis by simp
    next
      case ge: False
      have "\<forall>i. mid \<le> i \<and> i < length es \<longrightarrow> \<not> entry_id (es ! i) < (ms, seq)"
      proof (intro allI impI)
        fix i assume i: "mid \<le> i \<and> i < length es"
        then consider "i = mid" | "mid < i" by linarith
        then show "\<not> entry_id (es ! i) < (ms, seq)"
        proof cases
          case 2
          with i mono [of mid i] ge show ?thesis by (auto dest: order.strict_trans)
        qed (use ge in simp)
      qed
      note IH = "1.IH"(2) [OF True mid_def refl ge [unfolded entry_less] "1.prems"(1) m(1) _ "1.prems"(4) this]
      have "lower_bound_loop es ms seq lo hi = lower_bound_loop es ms seq lo mid"
        using True ge by (subst lower_bound_loop.simps) (auto simp: Let_def mid_def entry_less)
      with IH m(3) show ?thesis by simp
    qed
  next
    case False
    then have "lower_bound_loop es ms seq lo hi = lo" by (subst lower_bound_loop.simps) simp
    with False "1.prems" show ?thesis by auto
  qed
qed

lemma lower_bound_split:
  assumes "sorted_wrt (<) (map entry_id (s_entries s))"
  obtains xs ys where "s_entries s = xs @ ys" and "obj_stream_lower_bound s ms seq = length xs"
    and "\<forall>e \<in> set xs. entry_id e < (ms, seq)" and "\<forall>e \<in> set ys. \<not> entry_id e < (ms, seq)"
proof -
  define k where "k = obj_stream_lower_bound s ms seq"
  let ?es = "s_entries s"
  have "k \<le> length ?es \<and> (\<forall>i < k. entry_id (?es ! i) < (ms, seq)) \<and>
      (\<forall>i. k \<le> i \<and> i < length ?es \<longrightarrow> \<not> entry_id (?es ! i) < (ms, seq))"
    unfolding k_def obj_stream_lower_bound_def by (intro lower_bound_loop_spec [OF assms] allI impI; (elim conjE)?; linarith?; simp)
  then have k: "k \<le> length ?es" "\<And>i. i < k \<Longrightarrow> entry_id (?es ! i) < (ms, seq)"
    "\<And>i. k \<le> i \<Longrightarrow> i < length ?es \<Longrightarrow> \<not> entry_id (?es ! i) < (ms, seq)"
    by blast+
  have "\<forall>e \<in> set (take k ?es). entry_id e < (ms, seq)" using k(1,2) by (auto simp only: in_set_conv_nth length_take nth_take min_less_iff_conj)
  moreover have "\<forall>e \<in> set (drop k ?es). \<not> entry_id e < (ms, seq)" 
  proof
    fix e assume "e \<in> set (drop k ?es)"
    then obtain i where "i < length ?es - k" "e = ?es ! (k + i)" using k(1) by (auto simp: in_set_conv_nth)
    then show "\<not> entry_id e < (ms, seq)" using k(3) [of "k + i"] by simp
  qed
  moreover have "?es = take k ?es @ drop k ?es" "obj_stream_lower_bound s ms seq = length (take k ?es)"
    using k(1) by (simp_all add: k_def)
  ultimately show ?thesis by (rule that [rotated 2])
qed

section \<open>The log a stream stands for\<close>

abbreviation last_id :: "obj_stream \<Rightarrow> stream_id" where
  "last_id s \<equiv> (s_last_ms s, s_last_seq s)"

abbreviation max_deleted_id :: "obj_stream \<Rightarrow> stream_id" where
  "max_deleted_id s \<equiv> (s_max_deleted_ms s, s_max_deleted_seq s)"

definition log_inv :: "obj_stream \<Rightarrow> bool" where
  "log_inv s \<longleftrightarrow>
     sorted_wrt (<) (map entry_id (s_entries s)) \<and>
     (\<forall>e \<in> set (s_entries s). log_entry_ok e \<and> entry_id e \<le> last_id s) \<and>
     max_deleted_id s \<le> last_id s \<and>
     s_mem s = SIZEOF_OBJ_STREAM + entries_cost (s_entries s) \<and> s_mem s \<le> UINT64_MAX"

record stream_log =
  l_entries :: "(stream_id \<times> items) list"
  l_last :: stream_id
  l_added :: nat
  l_max_deleted :: stream_id

definition log_abs :: "obj_stream \<Rightarrow> stream_log" where
  "log_abs s =
     \<lparr>l_entries = map entry_abs (s_entries s), l_last = last_id s, l_added = s_entries_added s,
      l_max_deleted = max_deleted_id s\<rparr>"

definition log_append :: "stream_log \<Rightarrow> stream_id \<Rightarrow> items \<Rightarrow> int \<times> stream_log" where
  "log_append l i fvs =
     (if i \<le> l_last l then (OBJ_STREAM_ADD_SMALL, l)
      else (OBJ_STREAM_ADD_OK,
        l\<lparr>l_entries := l_entries l @ [(i, fvs)], l_last := i, l_added := u64_add (l_added l) 1\<rparr>))"

definition log_lower_bound :: "stream_log \<Rightarrow> stream_id \<Rightarrow> nat" where
  "log_lower_bound l i = length (filter (\<lambda>e. fst e < i) (l_entries l))"

definition log_delete :: "stream_log \<Rightarrow> stream_id \<Rightarrow> bool \<times> stream_log" where
  "log_delete l i =
     (if i \<in> fst ` set (l_entries l)
      then (True, l\<lparr>l_entries := filter (\<lambda>e. fst e \<noteq> i) (l_entries l), l_max_deleted := max (l_max_deleted l) i\<rparr>)
      else (False, l))"

definition log_drop :: "stream_log \<Rightarrow> nat \<Rightarrow> nat \<times> stream_log" where
  "log_drop l n =
     (n, if n = 0 then l
         else l\<lparr>l_entries := drop n (l_entries l),
                l_max_deleted := max (l_max_deleted l) (fst (l_entries l ! (n - 1)))\<rparr>)"

text \<open>The part of a stream that the operations on the log leave alone.\<close>

definition groups_part :: "obj_stream \<Rightarrow> stream_group list \<times> nat \<times> nat" where
  "groups_part s = (s_groups s, s_groups_cap s, s_group_mem s)"

lemma log_inv_new: "log_inv obj_stream_new"
  by (simp add: log_inv_def obj_stream_new_def c_limits)

text \<open>An array with room for one more element, after growing it if it is full.\<close>

definition array_fits :: "nat \<Rightarrow> nat \<Rightarrow> nat \<Rightarrow> 'a list \<Rightarrow> bool" where
  "array_fits initial elem_size cap xs \<longleftrightarrow> length xs = cap \<longrightarrow> grown_cap initial elem_size cap \<noteq> None"

lemma array_fitsE:
  assumes "array_fits initial elem_size cap xs"
  obtains ncap where "(if length xs = cap then grown_cap initial elem_size cap else Some cap) = Some ncap"
  using assms by (cases "length xs = cap") (auto simp: array_fits_def)

definition append_fits :: "obj_stream \<Rightarrow> items \<Rightarrow> bool" where
  "append_fits s fvs \<longleftrightarrow>
     length fvs \<le> UINT32_MAX \<and>
     (\<forall>(f, v) \<in> set fvs. length f \<le> UINT32_MAX \<and> length v \<le> UINT32_MAX) \<and>
     s_mem s + SIZEOF_STREAM_ENTRY + 8 * length fvs + length (item_data fvs) + 32 \<le> UINT64_MAX \<and>
     array_fits 8 SIZEOF_STREAM_ENTRY (s_cap s) (s_entries s)"

lemma append_refines:
  assumes "log_inv s" and "append_fits s fvs"
  obtains s' where "obj_stream_append s ms seq fvs = Some (fst (log_append (log_abs s) (ms, seq) fvs), s')"
    and "log_inv s'" and "log_abs s' = snd (log_append (log_abs s) (ms, seq) fvs)"
    and "groups_part s' = groups_part s"
proof (cases "(ms, seq) \<le> last_id s")
  case True
  then have "ms < s_last_ms s \<or> (ms = s_last_ms s \<and> seq \<le> s_last_seq s)" by auto
  then have "obj_stream_append s ms seq fvs = Some (OBJ_STREAM_ADD_SMALL, s)"
    by (simp add: obj_stream_append_def)
  with True assms(1) that [of s] show ?thesis by (simp add: log_append_def log_abs_def)
next
  case False
  then have id: "\<not> (ms < s_last_ms s \<or> (ms = s_last_ms s \<and> seq \<le> s_last_seq s))" by auto
  note fits = assms(2) [unfolded append_fits_def]
  obtain cap where cap: "(if length (s_entries s) = s_cap s
      then grown_cap 8 SIZEOF_STREAM_ENTRY (s_cap s) else Some (s_cap s)) = Some cap"
    using fits by (blast elim: array_fitsE)
  define cost where "cost = SIZEOF_STREAM_ENTRY + length fvs * 8 + length (item_data fvs) + 32"
  have "append_total fvs 0 = Some (length (item_data fvs))"
    using append_total_eq [of fvs 0] fits by (auto simp: c_limits)
  moreover have "stream_entry_bytes (length fvs) (length (item_data fvs)) = Some cost"
    using stream_entry_bytes_eq [of "length fvs" "length (item_data fvs)"] fits by (simp add: cost_def)
  moreover have "length fvs \<le> SIZE_MAX div 8" "length fvs \<le> UINT32_MAX" "s_mem s \<le> UINT64_MAX - cost"
    using fits by (auto simp: c_limits cost_def)
  moreover define e where "e = \<lparr>e_ms = ms, e_seq = seq, e_nfields = length fvs, e_lens = item_lens fvs,
      e_data = item_data fvs, e_data_len = length (item_data fvs)\<rparr>"
  moreover define s' where "s' = s\<lparr>s_cap := cap, s_entries := s_entries s @ [e], s_last_ms := ms, s_last_seq := seq,
      s_entries_added := u64_add (s_entries_added s) 1, s_mem := s_mem s + cost\<rparr>"
  ultimately have app: "obj_stream_append s ms seq fvs = Some (OBJ_STREAM_ADD_OK, s')"
    using cap unfolding obj_stream_append_def if_not_P [OF id] by (simp add: Let_def copy_items_eq)
  have e: "log_entry_ok e" "entry_id e = (ms, seq)" "entry_abs e = ((ms, seq), fvs)" "entry_cost e = cost"
    using fits by (auto simp: log_entry_ok_def e_def entry_id_def entry_abs_def split_items_copy entry_cost_def cost_def)
  have new: "entry_id x < (ms, seq)" if "x \<in> set (s_entries s)" for x
    using that assms(1) False by (auto simp: log_inv_def not_le intro: le_less_trans)
  have "log_inv s'"
    using assms(1) e(1,2,4) new fits False
    by (auto simp: log_inv_def s'_def sorted_wrt_append cost_def dest: less_imp_le)
  moreover have "l_last (log_abs s) = last_id s" by (simp add: log_abs_def)
  then have "log_append (log_abs s) (ms, seq) fvs = (OBJ_STREAM_ADD_OK, log_abs s')"
    unfolding log_append_def using False e(3) by (simp add: log_abs_def s'_def del: less_eq_prod_simp)
  moreover have "groups_part s' = groups_part s" by (simp add: groups_part_def s'_def)
  ultimately show ?thesis using app that by simp
qed

lemma log_invD:
  assumes "log_inv s"
  shows "sorted_wrt (<) (map entry_id (s_entries s))" "\<And>e. e \<in> set (s_entries s) \<Longrightarrow> log_entry_ok e"
    "\<And>e. e \<in> set (s_entries s) \<Longrightarrow> entry_id e \<le> last_id s"
    "s_mem s = SIZEOF_OBJ_STREAM + entries_cost (s_entries s)" "s_mem s \<le> UINT64_MAX"
    "max_deleted_id s \<le> last_id s"
  using assms unfolding log_inv_def by blast+

lemma lower_bound_refines:
  assumes "log_inv s"
  shows "obj_stream_lower_bound s ms seq = log_lower_bound (log_abs s) (ms, seq)"
proof -
  obtain xs ys where d: "s_entries s = xs @ ys" "obj_stream_lower_bound s ms seq = length xs"
    "\<forall>e \<in> set xs. entry_id e < (ms, seq)" "\<forall>e \<in> set ys. \<not> entry_id e < (ms, seq)"
    by (rule lower_bound_split [OF log_invD(1) [OF assms]])
  have "filter (\<lambda>e. fst e < (ms, seq)) (map entry_abs xs) = map entry_abs xs"
    using d(3) by (auto intro: filter_True)
  moreover have "filter (\<lambda>e. fst e < (ms, seq)) (map entry_abs ys) = []"
    using d(4) by (auto intro: filter_False)
  ultimately show ?thesis by (simp add: log_lower_bound_def log_abs_def d(1,2))
qed

lemma update_deleted_simps [simp]:
  "max_deleted_id (stream_update_deleted s e) = max (max_deleted_id s) (entry_id e)"
  "s_entries (stream_update_deleted s e) = s_entries s" "s_mem (stream_update_deleted s e) = s_mem s"
  "s_last_ms (stream_update_deleted s e) = s_last_ms s" "s_last_seq (stream_update_deleted s e) = s_last_seq s"
  "s_entries_added (stream_update_deleted s e) = s_entries_added s"
  "s_cap (stream_update_deleted s e) = s_cap s"
  "s_groups (stream_update_deleted s e) = s_groups s" "s_groups_cap (stream_update_deleted s e) = s_groups_cap s"
  "s_group_mem (stream_update_deleted s e) = s_group_mem s"
  by (auto simp: stream_update_deleted_def stream_id_cmp_def entry_id_def max_def)

lemma filter_other_ids:
  assumes "\<And>e. e \<in> set es \<Longrightarrow> entry_id e \<noteq> i"
  shows "filter (\<lambda>x. fst x \<noteq> i) (map entry_abs es) = map entry_abs es"
proof -
  have "filter (\<lambda>e. entry_id e \<noteq> i) es = es" using assms by (auto intro: filter_True)
  then show ?thesis by (simp add: filter_map o_def)
qed

lemma entry_cost_le:
  assumes "log_inv s" and "e \<in> set (s_entries s)"
  shows "entry_cost e \<le> s_mem s"
proof -
  have "entry_cost e \<le> entries_cost (s_entries s)"
    using assms(2) by (simp add: entries_cost_def member_le_sum_list)
  then show ?thesis using log_invD(4) [OF assms(1)] by simp
qed

lemma delete_refines:
  assumes "log_inv s"
  obtains s' where "obj_stream_delete s ms seq = Some (fst (log_delete (log_abs s) (ms, seq)), s')"
    and "log_inv s'" and "log_abs s' = snd (log_delete (log_abs s) (ms, seq))"
    and "groups_part s' = groups_part s"
proof -
  note inv = log_invD [OF assms]
  let ?del = "log_delete (log_abs s) (ms, seq)"
  obtain xs ys where d: "s_entries s = xs @ ys" "obj_stream_lower_bound s ms seq = length xs"
    "\<forall>e \<in> set xs. entry_id e < (ms, seq)" "\<forall>e \<in> set ys. \<not> entry_id e < (ms, seq)"
    by (rule lower_bound_split [OF inv(1)])
  have ids: "fst ` set (l_entries (log_abs s)) = entry_id ` (set xs \<union> set ys)"
    by (auto simp: log_abs_def d(1) image_Un image_image)
  have xs: "(ms, seq) \<notin> entry_id ` set xs" using d(3) by (metis imageE less_irrefl)
  show ?thesis
  proof (cases "ys \<noteq> [] \<and> entry_id (hd ys) = (ms, seq)")
    case True
    then obtain e zs where ys: "ys = e # zs" "entry_id e = (ms, seq)" by (cases ys) auto
    have sorted: "sorted_wrt (<) (map entry_id (xs @ zs))" "\<forall>z \<in> set zs. entry_id e < entry_id z"
      using inv(1) by (auto simp: d(1) ys sorted_wrt_append)
    have cost: "stream_entry_bytes (e_nfields e) (e_data_len e) = Some (entry_cost e)" "entry_cost e \<le> s_mem s"
      using entry_bytes_cost [of e] inv(2) [of e] entry_cost_le [OF assms, of e] inv(5) by (auto simp: d(1) ys)
    define s' where "s' = (stream_update_deleted s e)\<lparr>s_entries := xs @ zs, s_mem := s_mem s - entry_cost e\<rparr>"
    have ok: "obj_stream_delete s ms seq = Some (True, s')"
      using cost ys(2) u64_sub_eq [OF cost(2) inv(5)]
      by (simp add: obj_stream_delete_def d(1,2) ys(1) Let_def entry_id_def s'_def)
    have in_: "(ms, seq) \<in> fst ` set (l_entries (log_abs s))" unfolding ids using ys by auto
    have "filter (\<lambda>x. fst x \<noteq> (ms, seq)) (map entry_abs xs) = map entry_abs xs"
      using xs by (intro filter_other_ids) (metis imageI)
    moreover have "filter (\<lambda>x. fst x \<noteq> (ms, seq)) (map entry_abs zs) = map entry_abs zs"
      using sorted(2) ys(2) by (intro filter_other_ids) (metis less_irrefl)
    ultimately have "filter (\<lambda>x. fst x \<noteq> (ms, seq)) (l_entries (log_abs s)) = map entry_abs (xs @ zs)"
      using ys by (simp add: log_abs_def d(1))
    then have "?del = (True, log_abs s')"
      unfolding log_delete_def if_P [OF in_] using ys(2) by (simp add: log_abs_def s'_def)
    moreover have "log_inv s'"
      using inv sorted(1) inv(3) [of e] cost(2) ys(2)
      by (auto simp: log_inv_def s'_def d(1) ys(1))
    moreover have "groups_part s' = groups_part s" by (simp add: groups_part_def s'_def)
    ultimately show ?thesis using ok that by simp
  next
    case False
    have "(ms, seq) \<notin> entry_id ` set ys"
    proof (cases ys)
      case (Cons e zs)
      have "(ms, seq) < entry_id e" using False d(4) Cons by (auto simp: not_less le_less)
      moreover have "\<forall>z \<in> set zs. entry_id e < entry_id z"
        using inv(1) by (simp add: d(1) Cons sorted_wrt_append)
      ultimately show ?thesis using Cons by force
    qed simp
    with xs have "?del = (False, log_abs s)" using ids by (auto simp: log_delete_def)
    moreover have "obj_stream_delete s ms seq = Some (False, s)"
      using False by (cases ys) (auto simp: obj_stream_delete_def d(1,2) Let_def entry_id_def)
    ultimately show ?thesis using that assms by simp
  qed
qed

lemma remove_front_0 [simp]: "stream_remove_front s 0 = Some s"
  by (simp add: stream_remove_front_def)

lemma remove_front_refines:
  assumes "log_inv s" and "n \<le> length (s_entries s)"
  obtains s' where "stream_remove_front s n = Some s'" and "log_inv s'"
    and "log_drop (log_abs s) n = (n, log_abs s')" and "groups_part s' = groups_part s"
proof (cases "n = 0")
  case True
  with assms(1) that [of s] show ?thesis by (simp add: stream_remove_front_def log_drop_def)
next
  case False
  note inv = log_invD [OF assms(1)]
  let ?es = "s_entries s"
  define e where "e = ?es ! (n - 1)"
  have e: "e \<in> set ?es" using False assms(2) by (simp add: e_def)
  have split: "entries_cost ?es = entries_cost (take n ?es) + entries_cost (drop n ?es)"
    using entries_cost_simps(3) [of "take n ?es" "drop n ?es"] by simp
  define s' where "s' = (stream_update_deleted s e)\<lparr>s_entries := drop n ?es, s_mem := s_mem s - entries_cost (take n ?es)\<rparr>"
  have "uncharge (take n ?es) (s_mem s) = Some (s_mem s - entries_cost (take n ?es))"
    using inv(2,4,5) split by (intro uncharge_eq) (auto dest: in_set_takeD)
  then have "stream_remove_front s n = Some s'"
    using False by (simp add: stream_remove_front_def s'_def e_def Let_def)
  moreover have "sorted_wrt (<) (map entry_id (drop n ?es))"
    using inv(1) by (simp add: drop_map [symmetric] sorted_wrt_drop)
  then have "log_inv s'"
    using inv inv(3) [OF e] split by (auto simp: log_inv_def s'_def dest: in_set_dropD)
  moreover have "fst (l_entries (log_abs s) ! (n - 1)) = entry_id e"
    using False assms(2) by (simp add: log_abs_def e_def)
  then have "log_drop (log_abs s) n = (n, log_abs s')"
    using False by (simp add: log_drop_def log_abs_def s'_def drop_map)
  moreover have "groups_part s' = groups_part s" by (simp add: groups_part_def s'_def)
  ultimately show ?thesis by (rule that)
qed

definition log_trim_maxlen :: "stream_log \<Rightarrow> nat \<Rightarrow> nat \<Rightarrow> nat \<times> stream_log" where
  "log_trim_maxlen l maxlen limit = log_drop l (min limit (length (l_entries l) - maxlen))"

definition log_trim_minid :: "stream_log \<Rightarrow> stream_id \<Rightarrow> nat \<Rightarrow> nat \<times> stream_log" where
  "log_trim_minid l i limit = log_drop l (min limit (log_lower_bound l i))"

lemma trim_maxlen_refines:
  assumes "log_inv s"
  obtains n s' where "obj_stream_trim_maxlen s maxlen limit = Some (n, s')" and "log_inv s'"
    and "log_trim_maxlen (log_abs s) maxlen limit = (n, log_abs s')" and "groups_part s' = groups_part s"
proof -
  define n where "n = min limit (length (s_entries s) - maxlen)"
  obtain s' where s': "stream_remove_front s n = Some s'" "log_inv s'"
    "log_drop (log_abs s) n = (n, log_abs s')" "groups_part s' = groups_part s"
    by (rule remove_front_refines [OF assms, of n]) (auto simp: n_def)
  have "obj_stream_trim_maxlen s maxlen limit = map_option (Pair n) (stream_remove_front s n)"
    by (auto simp: obj_stream_trim_maxlen_def n_def Let_def min_def)
  moreover have "log_trim_maxlen (log_abs s) maxlen limit = log_drop (log_abs s) n"
    by (simp add: log_trim_maxlen_def n_def log_abs_def)
  ultimately show ?thesis using s' that [of n s'] by simp
qed

lemma trim_minid_refines:
  assumes "log_inv s"
  obtains n s' where "obj_stream_trim_minid s ms seq limit = Some (n, s')" and "log_inv s'"
    and "log_trim_minid (log_abs s) (ms, seq) limit = (n, log_abs s')" and "groups_part s' = groups_part s"
proof -
  define n where "n = min limit (obj_stream_lower_bound s ms seq)"
  have "log_lower_bound (log_abs s) (ms, seq) \<le> length (s_entries s)"
    using length_filter_le [of _ "l_entries (log_abs s)"] by (simp add: log_lower_bound_def log_abs_def)
  then have "n \<le> length (s_entries s)" by (simp add: n_def lower_bound_refines [OF assms])
  then obtain s' where s': "stream_remove_front s n = Some s'" "log_inv s'"
    "log_drop (log_abs s) n = (n, log_abs s')" "groups_part s' = groups_part s"
    by (rule remove_front_refines [OF assms])
  have "obj_stream_trim_minid s ms seq limit = map_option (Pair n) (stream_remove_front s n)"
    by (auto simp: obj_stream_trim_minid_def n_def Let_def min_def)
  moreover have "log_trim_minid (log_abs s) (ms, seq) limit = log_drop (log_abs s) n"
    by (simp add: log_trim_minid_def n_def lower_bound_refines [OF assms])
  ultimately show ?thesis using s' that [of n s'] by simp
qed

end
