(* ===== verification/Stream_Groups.thy ===== *)
theory Stream_Groups
  imports Stream_Log
begin

text \<open>
  Consumer groups: the arrays of groups, consumers and pending entries stand for a map from
  group names to the group's cursor and its consumers in order of creation, each with a map
  from IDs to delivery time and count. The memory counter of the groups is exact.
\<close>

section \<open>Lists as maps\<close>

lemma remove_at_append [simp]: "remove_at (length us) (us @ x # vs) = us @ vs"
  by (simp add: remove_at_def)

lemma name_eq [simp]: "stream_name_eq a b \<longleftrightarrow> a = b"
  by (auto simp: stream_name_eq_def)

lemma map_of_fresh: "k \<notin> fst ` set us \<Longrightarrow> map_of us k = None"
  by (simp add: map_of_eq_None_iff)

lemma map_of_mid_upd:
  assumes "distinct (map fst (us @ (k, v) # vs))"
  shows "map_of (us @ (k, v') # vs) = (map_of (us @ (k, v) # vs))(k \<mapsto> v')"
  using assms map_of_fresh [of k us] by (intro ext) (auto simp: map_add_def split: option.splits)

lemma map_of_mid_del:
  assumes "distinct (map fst (us @ (k, v) # vs))"
  shows "map_of (us @ vs) = (map_of (us @ (k, v) # vs))(k := None)"
  using assms map_of_fresh [of k us] map_of_fresh [of k vs]
  by (intro ext) (auto simp: map_add_def split: option.splits)

lemma map_of_snoc: "k \<notin> fst ` set us \<Longrightarrow> map_of (us @ [(k, v)]) = (map_of us)(k \<mapsto> v)"
  using map_of_fresh [of k us] by (intro ext) (auto simp: map_add_def split: option.splits)

lemma map_of_mid: "distinct (map fst (us @ (k, v) # vs)) \<Longrightarrow> map_of (us @ (k, v) # vs) k = Some v"
  using map_of_fresh [of k us] by (simp add: map_add_def)

section \<open>What a group stands for\<close>

type_synonym pel = "stream_id \<rightharpoonup> nat \<times> nat"

record group_view =
  v_last :: stream_id
  v_consumers :: "(bytes \<times> pel) list"

definition pending_id :: "stream_pending \<Rightarrow> stream_id" where
  "pending_id p = (p_ms p, p_seq p)"

definition pending_abs :: "stream_pending \<Rightarrow> stream_id \<times> nat \<times> nat" where
  "pending_abs p = (pending_id p, p_idle p, p_delivery_count p)"

definition pel_abs :: "stream_pending list \<Rightarrow> pel" where
  "pel_abs ps = map_of (map pending_abs ps)"

definition consumer_abs :: "stream_consumer \<Rightarrow> bytes \<times> pel" where
  "consumer_abs c = (c_name c, pel_abs (c_pel c))"

definition group_abs :: "stream_group \<Rightarrow> group_view" where
  "group_abs g = \<lparr>v_last = (g_last_ms g, g_last_seq g), v_consumers = map consumer_abs (g_consumers g)\<rparr>"

definition groups_abs :: "stream_group list \<Rightarrow> (bytes \<rightharpoonup> group_view)" where
  "groups_abs gs = map_of (map (\<lambda>g. (g_name g, group_abs g)) gs)"

lemma fst_pending_abs [simp]: "fst (pending_abs p) = pending_id p" "fst \<circ> pending_abs = pending_id"
  by (auto simp: pending_abs_def)

lemma fst_consumer_abs [simp]: "fst (consumer_abs c) = c_name c" "fst \<circ> consumer_abs = c_name"
  by (auto simp: consumer_abs_def)

lemma dom_pel_abs: "dom (pel_abs ps) = pending_id ` set ps"
  by (force simp: pel_abs_def dom_map_of_conv_image_fst)

section \<open>Invariant and accounting\<close>

definition consumer_ok :: "stream_consumer \<Rightarrow> bool" where
  "consumer_ok c \<longleftrightarrow> distinct (map pending_id (c_pel c))"

definition group_ok :: "stream_group \<Rightarrow> bool" where
  "group_ok g \<longleftrightarrow> distinct (map c_name (g_consumers g)) \<and> list_all consumer_ok (g_consumers g)"

definition pending_cost :: nat where
  "pending_cost = SIZEOF_STREAM_PENDING + 16"

definition consumer_cost :: "stream_consumer \<Rightarrow> nat" where
  "consumer_cost c = SIZEOF_STREAM_CONSUMER + length (c_name c) + 16 + length (c_pel c) * pending_cost"

definition consumers_cost :: "stream_consumer list \<Rightarrow> nat" where
  "consumers_cost cs = sum_list (map consumer_cost cs)"

definition group_cost :: "stream_group \<Rightarrow> nat" where
  "group_cost g = SIZEOF_STREAM_GROUP + length (g_name g) + 16 + consumers_cost (g_consumers g)"

definition groups_cost :: "stream_group list \<Rightarrow> nat" where
  "groups_cost gs = sum_list (map group_cost gs)"

lemma cost_simps [simp]:
  "consumers_cost [] = 0" "consumers_cost (c # cs) = consumer_cost c + consumers_cost cs"
  "consumers_cost (cs @ ds) = consumers_cost cs + consumers_cost ds"
  "groups_cost [] = 0" "groups_cost (g # gs) = group_cost g + groups_cost gs"
  "groups_cost (gs @ hs) = groups_cost gs + groups_cost hs"
  by (simp_all add: consumers_cost_def groups_cost_def)

definition groups_inv :: "obj_stream \<Rightarrow> bool" where
  "groups_inv s \<longleftrightarrow>
     distinct (map g_name (s_groups s)) \<and> list_all group_ok (s_groups s) \<and>
     s_group_mem s = groups_cost (s_groups s) \<and> s_group_mem s \<le> UINT64_MAX"

lemma stream_mem_add_eq:
  "struct_size + n + 16 \<le> UINT64_MAX \<Longrightarrow> stream_mem_add 0 struct_size n 0 = Some (struct_size + n + 16)"
  by (simp add: stream_mem_add_def c_limits Let_def)

lemma charge_pending_eq:
  "mem + length ps * pending_cost \<le> UINT64_MAX \<Longrightarrow> charge_pending ps mem = Some (mem + length ps * pending_cost)"
  by (induction ps arbitrary: mem) (auto simp: pending_cost_def c_limits)

lemma consumer_bytes_eq: "consumer_cost c \<le> UINT64_MAX \<Longrightarrow> consumer_bytes c = Some (consumer_cost c)"
  by (simp add: consumer_bytes_def consumer_cost_def stream_mem_add_eq charge_pending_eq)

lemma charge_consumers_eq:
  "mem + consumers_cost cs \<le> UINT64_MAX \<Longrightarrow> charge_consumers cs mem = Some (mem + consumers_cost cs)"
  by (induction cs arbitrary: mem) (simp_all add: consumer_bytes_eq u64_add_eq add.assoc)

section \<open>Changing one group\<close>

lemma group_get_cases:
  obtains (absent) "obj_stream_group_get s name = None" and "name \<notin> g_name ` set (s_groups s)"
  | (present) us g vs where "obj_stream_group_get s name = Some (length us)"
    and "s_groups s = us @ g # vs" and "g_name g = name"
proof (cases "obj_stream_group_get s name")
  case None
  then have "\<forall>g \<in> set (s_groups s). g_name g \<noteq> name" by (simp add: obj_stream_group_get_def index_of_None)
  then show ?thesis using absent [OF None] by blast
next
  case (Some gi)
  obtain us g vs where "s_groups s = us @ g # vs" "gi = length us" "stream_name_eq (g_name g) name"
    using Some unfolding obj_stream_group_get_def by (rule index_of_SomeE)
  then show ?thesis using present [of us g vs] Some by simp
qed

lemma groups_abs_absent: "name \<notin> g_name ` set gs \<Longrightarrow> groups_abs gs name = None"
  by (force simp: groups_abs_def map_of_eq_None_iff)

lemma groups_abs_present:
  "distinct (map g_name (us @ g # vs)) \<Longrightarrow> groups_abs (us @ g # vs) (g_name g) = Some (group_abs g)"
  using map_of_mid [of "map (\<lambda>g. (g_name g, group_abs g)) us" "g_name g" "group_abs g"
      "map (\<lambda>g. (g_name g, group_abs g)) vs"]
  by (simp add: groups_abs_def o_def)

lemma groups_abs_upd:
  assumes "distinct (map g_name (us @ g # vs))" and "g_name g' = g_name g"
  shows "groups_abs (us @ g' # vs) = (groups_abs (us @ g # vs))(g_name g \<mapsto> group_abs g')"
  using assms map_of_mid_upd [of "map (\<lambda>g. (g_name g, group_abs g)) us" "g_name g" "group_abs g"
      "map (\<lambda>g. (g_name g, group_abs g)) vs" "group_abs g'"]
  by (simp add: groups_abs_def o_def)

lemma groups_abs_del:
  assumes "distinct (map g_name (us @ g # vs))"
  shows "groups_abs (us @ vs) = (groups_abs (us @ g # vs))(g_name g := None)"
  using assms map_of_mid_del [of "map (\<lambda>g. (g_name g, group_abs g)) us" "g_name g" "group_abs g"
      "map (\<lambda>g. (g_name g, group_abs g)) vs"]
  by (simp add: groups_abs_def o_def)

lemma groups_inv_upd:
  assumes "groups_inv s" and "s_groups s = us @ g # vs" and "s_groups s' = us @ g' # vs"
    and "g_name g' = g_name g" and "group_ok g'"
    and "s_group_mem s' + group_cost g = s_group_mem s + group_cost g'" and "s_group_mem s' \<le> UINT64_MAX"
  shows "groups_inv s'" and "groups_abs (s_groups s') = (groups_abs (s_groups s))(g_name g \<mapsto> group_abs g')"
proof -
  show "groups_inv s'" using assms unfolding groups_inv_def by simp
  show "groups_abs (s_groups s') = (groups_abs (s_groups s))(g_name g \<mapsto> group_abs g')"
    using assms(1,4) groups_abs_upd [of us g vs g'] by (simp add: groups_inv_def assms(2,3))
qed

lemma group_cost_le: "groups_inv s \<Longrightarrow> s_groups s = us @ g # vs \<Longrightarrow> group_cost g \<le> s_group_mem s"
  by (simp add: groups_inv_def)

text \<open>The part of a stream that the operations on groups leave alone.\<close>

definition log_part where
  "log_part s = (s_entries s, last_id s, s_entries_added s, max_deleted_id s, s_mem s)"

lemma log_part_frame: "log_part s' = log_part s \<Longrightarrow> log_inv s' = log_inv s \<and> log_abs s' = log_abs s"
  by (simp add: log_part_def log_inv_def log_abs_def)

lemma groups_part_frame: "groups_part s' = groups_part s \<Longrightarrow> groups_inv s' = groups_inv s \<and> s_groups s' = s_groups s"
  by (simp add: groups_part_def groups_inv_def)

lemma groups_invD:
  assumes "groups_inv s" and "s_groups s = us @ g # vs"
  shows "distinct (map g_name (us @ g # vs))" and "group_ok g"
    and "s_group_mem s \<le> UINT64_MAX" and "group_cost g \<le> s_group_mem s"
    and "groups_abs (s_groups s) (g_name g) = Some (group_abs g)"
  using assms groups_abs_present [of us g vs] by (simp_all add: groups_inv_def)

section \<open>Groups\<close>

definition group_fits :: "obj_stream \<Rightarrow> bytes \<Rightarrow> bool" where
  "group_fits s name \<longleftrightarrow>
     s_group_mem s + SIZEOF_STREAM_GROUP + length name + 16 \<le> UINT64_MAX \<and>
     array_fits 4 SIZEOF_STREAM_GROUP (s_groups_cap s) (s_groups s)"

definition new_group :: "stream_id \<Rightarrow> group_view" where
  "new_group i = \<lparr>v_last = i, v_consumers = []\<rparr>"

lemma group_create_refines:
  assumes "groups_inv s" and "group_fits s name"
  obtains gi fresh s' where "obj_stream_group_create s name ms seq = Some (Some (gi, fresh), s')"
    and "fresh \<longleftrightarrow> groups_abs (s_groups s) name = None" and "groups_inv s'"
    and "groups_abs (s_groups s') =
      (if fresh then (groups_abs (s_groups s))(name \<mapsto> new_group (ms, seq)) else groups_abs (s_groups s))"
    and "log_part s' = log_part s"
proof (cases rule: group_get_cases [of s name])
  case (present us g vs)
  then show ?thesis
    using that [of "length us" False s] assms(1) groups_invD(5) [OF assms(1) present(2)]
    by (simp add: obj_stream_group_create_def)
next
  case absent
  note fits = assms(2) [unfolded group_fits_def]
  obtain cap where cap: "(if length (s_groups s) = s_groups_cap s
      then grown_cap 4 SIZEOF_STREAM_GROUP (s_groups_cap s) else Some (s_groups_cap s)) = Some cap"
    using fits by (blast elim: array_fitsE)
  define g where "g = \<lparr>g_name = name, g_last_ms = ms, g_last_seq = seq, g_entries_read = 0,
      g_consumers = [], g_consumers_cap = 0\<rparr>"
  define s' where "s' = s\<lparr>s_groups_cap := cap, s_groups := s_groups s @ [g],
      s_group_mem := s_group_mem s + (SIZEOF_STREAM_GROUP + length name + 16)\<rparr>"
  have "stream_mem_add 0 SIZEOF_STREAM_GROUP (length name) 0 = Some (SIZEOF_STREAM_GROUP + length name + 16)"
    using fits by (intro stream_mem_add_eq) simp
  moreover have "\<not> UINT64_MAX - s_group_mem s < SIZEOF_STREAM_GROUP + length name + 16" using fits by linarith
  ultimately have "obj_stream_group_create s name ms seq = Some (Some (length (s_groups s), True), s')"
    using absent(1) cap
    by (simp add: obj_stream_group_create_def stream_group_mem_add_def Let_def s'_def g_def)
  moreover have "groups_inv s'"
    using assms(1) fits absent(2)
    by (auto simp: groups_inv_def s'_def g_def group_ok_def group_cost_def consumers_cost_def)
  moreover have "groups_abs (s_groups s') = (groups_abs (s_groups s))(name \<mapsto> new_group (ms, seq))"
    using map_of_snoc [of name "map (\<lambda>g. (g_name g, group_abs g)) (s_groups s)" "group_abs g"] absent(2)
    by (simp add: groups_abs_def s'_def image_image) (simp add: g_def group_abs_def new_group_def)
  moreover have "log_part s' = log_part s" by (simp add: log_part_def s'_def)
  ultimately show ?thesis using that [of _ True s'] groups_abs_absent [OF absent(2)] by simp
qed

lemma group_destroy_refines:
  assumes "groups_inv s"
  obtains s' where "obj_stream_group_destroy s name = Some (groups_abs (s_groups s) name \<noteq> None, s')"
    and "groups_inv s'" and "groups_abs (s_groups s') = (groups_abs (s_groups s))(name := None)"
    and "log_part s' = log_part s"
proof (cases rule: group_get_cases [of s name])
  case absent
  then show ?thesis
    using that [of s] assms groups_abs_absent [OF absent(2)]
    by (simp add: obj_stream_group_destroy_def fun_upd_idem)
next
  case (present us g vs)
  note inv = groups_invD [OF assms present(2)]
  define s' where "s' = s\<lparr>s_groups := us @ vs, s_group_mem := s_group_mem s - group_cost g\<rparr>"
  have "stream_mem_add 0 SIZEOF_STREAM_GROUP (length (g_name g)) 0 = Some (SIZEOF_STREAM_GROUP + length (g_name g) + 16)"
    using inv(3,4) by (intro stream_mem_add_eq) (simp add: group_cost_def)
  moreover have "charge_consumers (g_consumers g) (SIZEOF_STREAM_GROUP + length (g_name g) + 16) = Some (group_cost g)"
    using inv(3,4) charge_consumers_eq [of _ "g_consumers g"] by (simp add: group_cost_def)
  moreover have "stream_group_mem_sub s (group_cost g) = Some (s\<lparr>s_group_mem := s_group_mem s - group_cost g\<rparr>)"
    using inv(4) by (simp add: stream_group_mem_sub_def)
  ultimately have "obj_stream_group_destroy s name = Some (True, s')"
    using present by (simp add: obj_stream_group_destroy_def s'_def Let_def)
  moreover have "groups_inv s'" using assms present(2) by (simp add: groups_inv_def s'_def)
  moreover have "groups_abs (s_groups s') = (groups_abs (s_groups s))(name := None)"
    using groups_abs_del [OF inv(1)] present(2,3) by (simp add: s'_def)
  moreover have "log_part s' = log_part s" by (simp add: log_part_def s'_def)
  ultimately show ?thesis using that [of s'] inv(5) present(3) by simp
qed

section \<open>Consumers\<close>

lemma consumer_get_cases:
  obtains (absent) "obj_stream_consumer_get g name = None" and "name \<notin> c_name ` set (g_consumers g)"
  | (present) us c vs where "obj_stream_consumer_get g name = Some (length us)"
    and "g_consumers g = us @ c # vs" and "c_name c = name"
proof (cases "obj_stream_consumer_get g name")
  case None
  then have "\<forall>c \<in> set (g_consumers g). c_name c \<noteq> name" by (simp add: obj_stream_consumer_get_def index_of_None)
  then show ?thesis using absent [OF None] by blast
next
  case (Some ci)
  obtain us c vs where "g_consumers g = us @ c # vs" "ci = length us" "stream_name_eq (c_name c) name"
    using Some unfolding obj_stream_consumer_get_def by (rule index_of_SomeE)
  then show ?thesis using present [of us c vs] Some by simp
qed

definition consumer_fits :: "obj_stream \<Rightarrow> stream_group \<Rightarrow> bytes \<Rightarrow> bool" where
  "consumer_fits s g name \<longleftrightarrow>
     s_group_mem s + SIZEOF_STREAM_CONSUMER + length name + 16 \<le> UINT64_MAX \<and>
     array_fits 4 SIZEOF_STREAM_CONSUMER (g_consumers_cap g) (g_consumers g)"

definition view_add_consumer :: "group_view \<Rightarrow> bytes \<Rightarrow> group_view" where
  "view_add_consumer v name =
     (if name \<in> fst ` set (v_consumers v) then v
      else v\<lparr>v_consumers := v_consumers v @ [(name, Map.empty)]\<rparr>)"

lemma consumer_names: "fst ` set (v_consumers (group_abs g)) = c_name ` set (g_consumers g)"
  by (simp add: group_abs_def image_image)

lemma consumer_create_refines:
  assumes "groups_inv s" and "s_groups s = us @ g # vs" and "consumer_fits s g name"
  obtains ci s' where "obj_stream_consumer_create s (length us) name = Some (Some ci, s')" and "groups_inv s'"
    and "groups_abs (s_groups s') = (groups_abs (s_groups s))(g_name g \<mapsto> view_add_consumer (group_abs g) name)"
    and "log_part s' = log_part s"
proof (cases rule: consumer_get_cases [of g name])
  case (present xs c ys)
  moreover have "view_add_consumer (group_abs g) name = group_abs g"
    using present by (auto simp: view_add_consumer_def consumer_names)
  ultimately show ?thesis
    using that [of "length xs" s] assms(1,2) groups_invD(5) [OF assms(1,2)]
    by (simp add: obj_stream_consumer_create_def Let_def map_upd_triv)
next
  case absent
  note fits = assms(3) [unfolded consumer_fits_def]
  obtain cap where cap: "(if length (g_consumers g) = g_consumers_cap g
      then grown_cap 4 SIZEOF_STREAM_CONSUMER (g_consumers_cap g) else Some (g_consumers_cap g)) = Some cap"
    using fits by (blast elim: array_fitsE)
  define c where "c = \<lparr>c_name = name, c_pel = [], c_pel_cap = 0, c_seen_time = 0, c_active_time = 0\<rparr>"
  define g' where "g' = g\<lparr>g_consumers_cap := cap, g_consumers := g_consumers g @ [c]\<rparr>"
  define s' where "s' = s\<lparr>s_groups := us @ g' # vs,
      s_group_mem := s_group_mem s + (SIZEOF_STREAM_CONSUMER + length name + 16)\<rparr>"
  have "stream_mem_add 0 SIZEOF_STREAM_CONSUMER (length name) 0 = Some (SIZEOF_STREAM_CONSUMER + length name + 16)"
    using fits by (intro stream_mem_add_eq) simp
  moreover have "\<not> UINT64_MAX - s_group_mem s < SIZEOF_STREAM_CONSUMER + length name + 16" using fits by linarith
  ultimately have "obj_stream_consumer_create s (length us) name = Some (Some (length (g_consumers g)), s')"
    using absent(1) cap assms(2)
    by (simp add: obj_stream_consumer_create_def stream_group_mem_add_def Let_def s'_def g'_def c_def)
  moreover have "group_ok g'"
    using groups_invD(2) [OF assms(1,2)] absent(2) by (auto simp: group_ok_def g'_def c_def consumer_ok_def)
  then have "groups_inv s'" "groups_abs (s_groups s') = (groups_abs (s_groups s))(g_name g \<mapsto> group_abs g')"
    using groups_inv_upd [OF assms(1,2), of s' g'] fits
    by (simp_all add: s'_def g'_def group_cost_def consumer_cost_def c_def)
  moreover have "group_abs g' = view_add_consumer (group_abs g) name"
    unfolding view_add_consumer_def consumer_names using absent(2)
    by (simp add: group_abs_def g'_def c_def consumer_abs_def pel_abs_def)
  moreover have "log_part s' = log_part s" by (simp add: log_part_def s'_def)
  ultimately show ?thesis using that by simp
qed

lemma consumer_cost_le: "c \<in> set cs \<Longrightarrow> consumer_cost c \<le> consumers_cost cs"
  by (simp add: consumers_cost_def member_le_sum_list)

lemma filter_consumers:
  assumes "distinct (map c_name (xs @ c # ys))"
  shows "filter (\<lambda>x. fst x \<noteq> c_name c) (map consumer_abs (xs @ c # ys)) = map consumer_abs (xs @ ys)"
proof -
  have "filter (\<lambda>x. c_name x \<noteq> c_name c) xs = xs" "filter (\<lambda>x. c_name x \<noteq> c_name c) ys = ys"
    using assms by (simp_all add: filter_id_conv) (metis imageI)+
  then show ?thesis by (simp add: filter_map o_def)
qed

definition view_del_consumer :: "group_view \<Rightarrow> bytes \<Rightarrow> group_view" where
  "view_del_consumer v name = v\<lparr>v_consumers := filter (\<lambda>x. fst x \<noteq> name) (v_consumers v)\<rparr>"

lemma consumer_destroy_refines:
  assumes "groups_inv s" and "s_groups s = us @ g # vs"
  obtains s' where "obj_stream_consumer_destroy s (length us) name =
      Some (name \<in> fst ` set (v_consumers (group_abs g)), s')" and "groups_inv s'"
    and "groups_abs (s_groups s') = (groups_abs (s_groups s))(g_name g \<mapsto> view_del_consumer (group_abs g) name)"
    and "log_part s' = log_part s"
proof (cases rule: consumer_get_cases [of g name])
  case absent
  then have "filter (\<lambda>x. c_name x \<noteq> name) (g_consumers g) = g_consumers g" by (force intro: filter_True)
  then have "view_del_consumer (group_abs g) name = group_abs g"
    by (simp add: view_del_consumer_def group_abs_def filter_map o_def)
  with absent that [of s] assms(1,2) groups_invD(5) [OF assms] show ?thesis
    by (simp add: obj_stream_consumer_destroy_def Let_def map_upd_triv consumer_names)
next
  case (present xs c ys)
  note inv = groups_invD [OF assms]
  define g' where "g' = g\<lparr>g_consumers := xs @ ys\<rparr>"
  define s' where "s' = s\<lparr>s_groups := us @ g' # vs, s_group_mem := s_group_mem s - consumer_cost c\<rparr>"
  have le: "consumer_cost c \<le> s_group_mem s" using inv(4) present(2) by (simp add: group_cost_def)
  then have "consumer_bytes c = Some (consumer_cost c)" using inv(3) by (intro consumer_bytes_eq) simp
  then have "obj_stream_consumer_destroy s (length us) name = Some (True, s')"
    using present assms(2) le
    by (simp add: obj_stream_consumer_destroy_def Let_def stream_group_mem_sub_def set_consumers_def s'_def g'_def)
  moreover have "group_ok g'" using inv(2) present(2) by (auto simp: group_ok_def g'_def)
  then have "groups_inv s'" "groups_abs (s_groups s') = (groups_abs (s_groups s))(g_name g \<mapsto> group_abs g')"
    using groups_inv_upd [OF assms, of s' g'] le inv(3) present(2)
    by (simp_all add: s'_def g'_def group_cost_def)
  moreover have "distinct (map c_name (xs @ c # ys))" using inv(2) present(2) by (simp add: group_ok_def)
  from filter_consumers [OF this] have "group_abs g' = view_del_consumer (group_abs g) name"
    using present by (simp add: group_abs_def g'_def view_del_consumer_def)
  moreover have "log_part s' = log_part s" by (simp add: log_part_def s'_def)
  moreover have "name \<in> fst ` set (v_consumers (group_abs g))" using present by (simp add: consumer_names)
  ultimately show ?thesis using that by simp
qed

section \<open>Pending entries\<close>

lemma pel_find_cases:
  obtains (absent) "obj_stream_consumer_pel_find c ms seq = None" and "(ms, seq) \<notin> pending_id ` set (c_pel c)"
  | (present) xs p ys where "obj_stream_consumer_pel_find c ms seq = Some (length xs)"
    and "c_pel c = xs @ p # ys" and "pending_id p = (ms, seq)"
proof (cases "obj_stream_consumer_pel_find c ms seq")
  case None
  then have "\<forall>p \<in> set (c_pel c). pending_id p \<noteq> (ms, seq)"
    by (auto simp: obj_stream_consumer_pel_find_def index_of_None pending_id_def)
  then show ?thesis using absent [OF None] by (metis imageE)
next
  case (Some i)
  obtain xs p ys where "c_pel c = xs @ p # ys" "i = length xs" "p_ms p = ms \<and> p_seq p = seq"
    using Some unfolding obj_stream_consumer_pel_find_def by (rule index_of_SomeE)
  then show ?thesis using present [of xs p ys] Some by (simp add: pending_id_def)
qed

lemma pel_abs_absent: "i \<notin> pending_id ` set ps \<Longrightarrow> pel_abs ps i = None"
  using dom_pel_abs [of ps] by auto

lemma pel_abs_present:
  "distinct (map pending_id (xs @ p # ys)) \<Longrightarrow>
    pel_abs (xs @ p # ys) (pending_id p) = Some (p_idle p, p_delivery_count p)"
  using map_of_mid [of "map pending_abs xs" "pending_id p" "(p_idle p, p_delivery_count p)" "map pending_abs ys"]
  by (simp add: pel_abs_def pending_abs_def o_def)

lemma pel_abs_del:
  "distinct (map pending_id (xs @ p # ys)) \<Longrightarrow> pel_abs (xs @ ys) = (pel_abs (xs @ p # ys))(pending_id p := None)"
  using map_of_mid_del [of "map pending_abs xs" "pending_id p" "(p_idle p, p_delivery_count p)" "map pending_abs ys"]
  by (simp add: pel_abs_def pending_abs_def o_def)

lemma pel_abs_snoc:
  "pending_id p \<notin> pending_id ` set ps \<Longrightarrow>
    pel_abs (ps @ [p]) = (pel_abs ps)(pending_id p \<mapsto> (p_idle p, p_delivery_count p))"
  using map_of_snoc [of "pending_id p" "map pending_abs ps"]
  by (simp add: pel_abs_def image_image pending_abs_def)

definition pel_fits :: "obj_stream \<Rightarrow> stream_consumer \<Rightarrow> bool" where
  "pel_fits s c \<longleftrightarrow>
     s_group_mem s + pending_cost \<le> UINT64_MAX \<and> array_fits 8 SIZEOF_STREAM_PENDING (c_pel_cap c) (c_pel c)"

text \<open>Adding keeps an entry that is already pending.\<close>

definition pel_insert :: "pel \<Rightarrow> stream_id \<Rightarrow> nat \<times> nat \<Rightarrow> pel" where
  "pel_insert m i x = (if i \<in> dom m then m else m(i \<mapsto> x))"

definition view_upd_consumer :: "group_view \<Rightarrow> nat \<Rightarrow> (pel \<Rightarrow> pel) \<Rightarrow> group_view" where
  "view_upd_consumer v ci f = v\<lparr>v_consumers := (v_consumers v)[ci := map_prod id f (v_consumers v ! ci)]\<rparr>"

lemma list_update_mid [simp]: "(map f xs @ y # ys)[length xs := z] = map f xs @ z # ys"
  by (metis length_map list_update_length)

lemma pel_add_refines:
  assumes "groups_inv s" and "s_groups s = us @ g # vs" and "g_consumers g = cs @ c # ds" and "pel_fits s c"
  obtains pi s' where "obj_stream_consumer_pel_add s (length us) (length cs) ms seq idle n = (Some pi, s')"
    and "groups_inv s'"
    and "groups_abs (s_groups s') = (groups_abs (s_groups s))
      (g_name g \<mapsto> view_upd_consumer (group_abs g) (length cs) (\<lambda>m. pel_insert m (ms, seq) (idle, n)))"
    and "log_part s' = log_part s"
proof (cases rule: pel_find_cases [of c ms seq])
  case (present xs p ys)
  then have "(ms, seq) \<in> dom (pel_abs (c_pel c))" by (simp add: dom_pel_abs)
  then have "view_upd_consumer (group_abs g) (length cs) (\<lambda>m. pel_insert m (ms, seq) (idle, n)) = group_abs g"
    using assms(3) by (simp add: view_upd_consumer_def group_abs_def consumer_abs_def pel_insert_def nth_append)
  with present that [of "length xs" s] assms(1,2,3) groups_invD(5) [OF assms(1,2)] show ?thesis
    by (simp add: obj_stream_consumer_pel_add_def Let_def map_upd_triv)
next
  case absent
  note fits = assms(4) [unfolded pel_fits_def]
  note inv = groups_invD [OF assms(1,2)]
  obtain cap where cap: "(if length (c_pel c) = c_pel_cap c
      then grown_cap 8 SIZEOF_STREAM_PENDING (c_pel_cap c) else Some (c_pel_cap c)) = Some cap"
    using fits by (blast elim: array_fitsE)
  define p where "p = \<lparr>p_ms = ms, p_seq = seq, p_idle = idle, p_delivery_count = n\<rparr>"
  define c' where "c' = c\<lparr>c_pel_cap := cap, c_pel := c_pel c @ [p]\<rparr>"
  define g' where "g' = g\<lparr>g_consumers := cs @ c' # ds\<rparr>"
  define s' where "s' = s\<lparr>s_groups := us @ g' # vs, s_group_mem := s_group_mem s + pending_cost\<rparr>"
  have "\<not> UINT64_MAX - s_group_mem s < pending_cost" using fits by linarith
  then have "obj_stream_consumer_pel_add s (length us) (length cs) ms seq idle n = (Some (length (c_pel c)), s')"
    using absent(1) cap assms(2,3)
    by (simp add: obj_stream_consumer_pel_add_def stream_group_mem_add_def Let_def set_consumer_def
        set_consumers_def s'_def g'_def c'_def p_def pending_cost_def)
  moreover have p: "pending_id p = (ms, seq)" by (simp add: pending_id_def p_def)
  have "group_ok g'"
    using inv(2) absent(2) assms(3) p by (auto simp: group_ok_def g'_def c'_def consumer_ok_def)
  then have "groups_inv s'" "groups_abs (s_groups s') = (groups_abs (s_groups s))(g_name g \<mapsto> group_abs g')"
    using groups_inv_upd [OF assms(1,2), of s' g'] fits assms(3)
    by (simp_all add: s'_def g'_def group_cost_def consumer_cost_def c'_def)
  moreover have "pel_abs (c_pel c') = pel_insert (pel_abs (c_pel c)) (ms, seq) (idle, n)"
    using pel_abs_snoc [of p "c_pel c"] absent(2) p
    by (simp add: c'_def pel_insert_def dom_pel_abs p_def)
  then have "group_abs g' = view_upd_consumer (group_abs g) (length cs) (\<lambda>m. pel_insert m (ms, seq) (idle, n))"
    using assms(3)
    by (simp add: group_abs_def g'_def view_upd_consumer_def consumer_abs_def nth_append c'_def)
  moreover have "log_part s' = log_part s" by (simp add: log_part_def s'_def)
  ultimately show ?thesis using that by simp
qed

text \<open>Acknowledging removes the entry from the first consumer that has it.\<close>

fun ack_first :: "(bytes \<times> pel) list \<Rightarrow> stream_id \<Rightarrow> (bytes \<times> pel) list option" where
  "ack_first [] i = None"
| "ack_first ((name, m) # cs) i =
     (if i \<in> dom m then Some ((name, m(i := None)) # cs) else map_option (Cons (name, m)) (ack_first cs i))"

lemma ack_first_abs:
  "ack_first (consumer_abs c # cs) i =
     (if i \<in> dom (pel_abs (c_pel c)) then Some ((c_name c, (pel_abs (c_pel c))(i := None)) # cs)
      else map_option (Cons (consumer_abs c)) (ack_first cs i))"
  by (simp add: consumer_abs_def)

lemma consumer_pel_remove_refines:
  assumes "consumer_ok c"
  shows "case obj_stream_consumer_pel_remove c ms seq of
      None \<Rightarrow> (ms, seq) \<notin> dom (pel_abs (c_pel c))
    | Some c' \<Rightarrow> (ms, seq) \<in> dom (pel_abs (c_pel c)) \<and> c_name c' = c_name c \<and> consumer_ok c' \<and>
        pel_abs (c_pel c') = (pel_abs (c_pel c))((ms, seq) := None) \<and>
        consumer_cost c = consumer_cost c' + pending_cost"
proof (cases rule: pel_find_cases [of c ms seq])
  case absent
  then show ?thesis by (simp add: obj_stream_consumer_pel_remove_def dom_pel_abs)
next
  case (present xs p ys)
  then show ?thesis
    using assms pel_abs_del [of xs p ys] dom_pel_abs [of "c_pel c"]
    by (auto simp: obj_stream_consumer_pel_remove_def consumer_ok_def consumer_cost_def)
qed

lemma pel_remove_loop_refines:
  assumes "list_all consumer_ok cs"
  shows "case pel_remove_loop cs ms seq of
      None \<Rightarrow> ack_first (map consumer_abs cs) (ms, seq) = None
    | Some cs' \<Rightarrow> ack_first (map consumer_abs cs) (ms, seq) = Some (map consumer_abs cs') \<and>
        map c_name cs' = map c_name cs \<and> list_all consumer_ok cs' \<and>
        consumers_cost cs = consumers_cost cs' + pending_cost"
  using assms
proof (induction cs)
  case (Cons c cs)
  have "consumer_ok c" using Cons.prems by simp
  note step = consumer_pel_remove_refines [OF this, of ms seq]
  show ?case
  proof (cases "obj_stream_consumer_pel_remove c ms seq")
    case None
    with step Cons show ?thesis by (auto simp: ack_first_abs split: option.splits)
  next
    case (Some c')
    with step Cons.prems show ?thesis by (simp add: ack_first_abs consumer_abs_def [of c'])
  qed
qed simp

definition view_ack :: "group_view \<Rightarrow> stream_id \<Rightarrow> bool \<times> group_view" where
  "view_ack v i =
     (case ack_first (v_consumers v) i of
        None \<Rightarrow> (False, v)
      | Some cs \<Rightarrow> (True, v\<lparr>v_consumers := cs\<rparr>))"

lemma group_pel_remove_refines:
  assumes "groups_inv s" and "s_groups s = us @ g # vs"
  obtains s' where "obj_stream_group_pel_remove s (length us) ms seq =
      Some (fst (view_ack (group_abs g) (ms, seq)), s')" and "groups_inv s'"
    and "groups_abs (s_groups s') = (groups_abs (s_groups s))(g_name g \<mapsto> snd (view_ack (group_abs g) (ms, seq)))"
    and "log_part s' = log_part s"
proof -
  note inv = groups_invD [OF assms]
  have ok: "list_all consumer_ok (g_consumers g)" using inv(2) by (simp add: group_ok_def)
  note loop = pel_remove_loop_refines [OF ok, of ms seq]
  show ?thesis
  proof (cases "pel_remove_loop (g_consumers g) ms seq")
    case None
    with loop have "view_ack (group_abs g) (ms, seq) = (False, group_abs g)"
      by (simp add: view_ack_def group_abs_def)
    with None that [of s] assms inv(5) show ?thesis
      by (simp add: obj_stream_group_pel_remove_def map_upd_triv)
  next
    case (Some cs)
    define g' where "g' = g\<lparr>g_consumers := cs\<rparr>"
    define s' where "s' = s\<lparr>s_groups := us @ g' # vs, s_group_mem := s_group_mem s - pending_cost\<rparr>"
    from loop Some have l: "ack_first (map consumer_abs (g_consumers g)) (ms, seq) = Some (map consumer_abs cs)"
      "map c_name cs = map c_name (g_consumers g)" "list_all consumer_ok cs"
      "consumers_cost (g_consumers g) = consumers_cost cs + pending_cost" by simp_all
    have "obj_stream_group_pel_remove s (length us) ms seq = Some (True, s')"
      using Some assms(2) inv(4) l(4)
      by (simp add: obj_stream_group_pel_remove_def set_consumers_def stream_group_mem_sub_def s'_def g'_def
          pending_cost_def group_cost_def)
    moreover have "group_ok g'" using inv(2) l(2,3) by (simp add: group_ok_def g'_def)
    then have "groups_inv s'" "groups_abs (s_groups s') = (groups_abs (s_groups s))(g_name g \<mapsto> group_abs g')"
      using groups_inv_upd [OF assms, of s' g'] l(4) inv(3,4) by (simp_all add: s'_def g'_def group_cost_def)
    moreover have "view_ack (group_abs g) (ms, seq) = (True, group_abs g')"
      using l(1) by (simp add: view_ack_def group_abs_def g'_def)
    moreover have "log_part s' = log_part s" by (simp add: log_part_def s'_def)
    ultimately show ?thesis using that by simp
  qed
qed

definition view_pending :: "group_view \<Rightarrow> nat" where
  "view_pending v = sum_list (map (\<lambda>c. card (dom (snd c))) (v_consumers v))"

lemma pending_sum_le: "sum_list (map (\<lambda>c. length (c_pel c)) cs) \<le> consumers_cost cs"
  by (induction cs) (auto simp: consumer_cost_def pending_cost_def c_limits)

lemma pending_foldl:
  "n + sum_list (map (\<lambda>c. length (c_pel c)) cs) \<le> UINT64_MAX \<Longrightarrow>
    foldl (\<lambda>n c. u64_add n (length (c_pel c))) n cs = n + sum_list (map (\<lambda>c. length (c_pel c)) cs)"
  by (induction cs arbitrary: n) (simp_all add: u64_add_eq)

lemma pending_count_refines:
  assumes "groups_inv s" and "s_groups s = us @ g # vs"
  shows "obj_stream_group_pending_count g = view_pending (group_abs g)"
proof -
  note inv = groups_invD [OF assms]
  have "card (dom (pel_abs (c_pel c))) = length (c_pel c)" if "c \<in> set (g_consumers g)" for c
    using that inv(2) distinct_card [of "map pending_id (c_pel c)"]
    by (auto simp: group_ok_def list_all_iff consumer_ok_def dom_pel_abs)
  then have "view_pending (group_abs g) = sum_list (map (\<lambda>c. length (c_pel c)) (g_consumers g))"
    by (auto simp: view_pending_def group_abs_def consumer_abs_def o_def intro!: arg_cong [of _ _ sum_list])
  moreover have "sum_list (map (\<lambda>c. length (c_pel c)) (g_consumers g)) \<le> UINT64_MAX"
    using pending_sum_le [of "g_consumers g"] inv(3,4) by (simp add: group_cost_def)
  ultimately show ?thesis by (simp add: obj_stream_group_pending_count_def pending_foldl)
qed

end
