(* ===== verification/Stream_Object.thy ===== *)
theory Stream_Object
  imports Stream_Groups
begin

text \<open>
  The stream object as a whole: any sequence of operations on the log and on its consumer
  groups, the latter found by name as the commands do, agrees with a sorted log beside a map
  of groups.
\<close>

datatype stream_op =
    XAppend stream_id items
  | XDelete stream_id
  | XTrimMaxlen nat nat
  | XTrimMinid stream_id nat
  | XLowerBound stream_id
  | XAt nat
  | XGroupCreate bytes stream_id
  | XGroupDestroy bytes
  | XConsumerCreate bytes bytes
  | XConsumerDestroy bytes bytes
  | XPelAdd bytes bytes stream_id nat nat
  | XAck bytes stream_id
  | XPending bytes

datatype stream_reply = RInt int | RFlag bool | RNat nat | REntry "(stream_id \<times> items) option" | RNone

fun stream_exec :: "obj_stream \<Rightarrow> stream_op \<Rightarrow> (stream_reply \<times> obj_stream) option" where
  "stream_exec s (XAppend i fvs) = map_option (map_prod RInt id) (obj_stream_append s (fst i) (snd i) fvs)"
| "stream_exec s (XDelete i) = map_option (map_prod RFlag id) (obj_stream_delete s (fst i) (snd i))"
| "stream_exec s (XTrimMaxlen n limit) = map_option (map_prod RNat id) (obj_stream_trim_maxlen s n limit)"
| "stream_exec s (XTrimMinid i limit) =
     map_option (map_prod RNat id) (obj_stream_trim_minid s (fst i) (snd i) limit)"
| "stream_exec s (XLowerBound i) = Some (RNat (obj_stream_lower_bound s (fst i) (snd i)), s)"
| "stream_exec s (XAt k) = Some (REntry (map_option entry_abs (obj_stream_at s k)), s)"
| "stream_exec s (XGroupCreate name i) =
     map_option (map_prod (\<lambda>r. case r of None \<Rightarrow> RNone | Some (_, created) \<Rightarrow> RFlag created) id)
       (obj_stream_group_create s name (fst i) (snd i))"
| "stream_exec s (XGroupDestroy name) = map_option (map_prod RFlag id) (obj_stream_group_destroy s name)"
| "stream_exec s (XConsumerCreate name consumer) =
     (case obj_stream_group_get s name of
        None \<Rightarrow> Some (RNone, s)
      | Some gi \<Rightarrow> map_option (map_prod (\<lambda>r. RFlag (r \<noteq> None)) id) (obj_stream_consumer_create s gi consumer))"
| "stream_exec s (XConsumerDestroy name consumer) =
     (case obj_stream_group_get s name of
        None \<Rightarrow> Some (RNone, s)
      | Some gi \<Rightarrow> map_option (map_prod RFlag id) (obj_stream_consumer_destroy s gi consumer))"
| "stream_exec s (XPelAdd name consumer i idle n) =
     (case obj_stream_group_get s name of
        None \<Rightarrow> Some (RNone, s)
      | Some gi \<Rightarrow>
          (case obj_stream_consumer_get (s_groups s ! gi) consumer of
             None \<Rightarrow> Some (RNone, s)
           | Some ci \<Rightarrow>
               Some (map_prod (\<lambda>r. RFlag (r \<noteq> None)) id
                 (obj_stream_consumer_pel_add s gi ci (fst i) (snd i) idle n))))"
| "stream_exec s (XAck name i) =
     (case obj_stream_group_get s name of
        None \<Rightarrow> Some (RNone, s)
      | Some gi \<Rightarrow> map_option (map_prod RFlag id) (obj_stream_group_pel_remove s gi (fst i) (snd i)))"
| "stream_exec s (XPending name) =
     (case obj_stream_group_get s name of
        None \<Rightarrow> Some (RNone, s)
      | Some gi \<Rightarrow> Some (RNat (obj_stream_group_pending_count (s_groups s ! gi)), s))"

text \<open>Sizes stay within what the counters and the address space can represent.\<close>

fun stream_safe :: "obj_stream \<Rightarrow> stream_op \<Rightarrow> bool" where
  "stream_safe s (XAppend i fvs) \<longleftrightarrow> append_fits s fvs"
| "stream_safe s (XGroupCreate name i) \<longleftrightarrow> group_fits s name"
| "stream_safe s (XConsumerCreate name consumer) \<longleftrightarrow>
     (case obj_stream_group_get s name of
        None \<Rightarrow> True
      | Some gi \<Rightarrow> consumer_fits s (s_groups s ! gi) consumer)"
| "stream_safe s (XPelAdd name consumer i idle n) \<longleftrightarrow>
     (case obj_stream_group_get s name of
        None \<Rightarrow> True
      | Some gi \<Rightarrow>
          (case obj_stream_consumer_get (s_groups s ! gi) consumer of
             None \<Rightarrow> True
           | Some ci \<Rightarrow> pel_fits s (g_consumers (s_groups s ! gi) ! ci)))"
| "stream_safe s _ \<longleftrightarrow> True"

record stream_view =
  view_log :: stream_log
  view_groups :: "bytes \<rightharpoonup> group_view"

definition on_group ::
  "stream_view \<Rightarrow> bytes \<Rightarrow> (group_view \<Rightarrow> stream_reply \<times> group_view) \<Rightarrow> stream_reply \<times> stream_view" where
  "on_group v name f =
     (case view_groups v name of
        None \<Rightarrow> (RNone, v)
      | Some g \<Rightarrow> map_prod id (\<lambda>g. v\<lparr>view_groups := (view_groups v)(name \<mapsto> g)\<rparr>) (f g))"

definition on_log :: "stream_view \<Rightarrow> ('r \<Rightarrow> stream_reply) \<Rightarrow> 'r \<times> stream_log \<Rightarrow> stream_reply \<times> stream_view" where
  "on_log v reply = map_prod reply (\<lambda>l. v\<lparr>view_log := l\<rparr>)"

fun stream_spec :: "stream_view \<Rightarrow> stream_op \<Rightarrow> stream_reply \<times> stream_view" where
  "stream_spec v (XAppend i fvs) = on_log v RInt (log_append (view_log v) i fvs)"
| "stream_spec v (XDelete i) = on_log v RFlag (log_delete (view_log v) i)"
| "stream_spec v (XTrimMaxlen n limit) = on_log v RNat (log_trim_maxlen (view_log v) n limit)"
| "stream_spec v (XTrimMinid i limit) = on_log v RNat (log_trim_minid (view_log v) i limit)"
| "stream_spec v (XLowerBound i) = (RNat (log_lower_bound (view_log v) i), v)"
| "stream_spec v (XAt k) =
     (REntry (if k < length (l_entries (view_log v)) then Some (l_entries (view_log v) ! k) else None), v)"
| "stream_spec v (XGroupCreate name i) =
     (if view_groups v name = None
      then (RFlag True, v\<lparr>view_groups := (view_groups v)(name \<mapsto> new_group i)\<rparr>) else (RFlag False, v))"
| "stream_spec v (XGroupDestroy name) =
     (RFlag (view_groups v name \<noteq> None), v\<lparr>view_groups := (view_groups v)(name := None)\<rparr>)"
| "stream_spec v (XConsumerCreate name consumer) =
     on_group v name (\<lambda>g. (RFlag True, view_add_consumer g consumer))"
| "stream_spec v (XConsumerDestroy name consumer) =
     on_group v name (\<lambda>g. (RFlag (consumer \<in> fst ` set (v_consumers g)), view_del_consumer g consumer))"
| "stream_spec v (XPelAdd name consumer i idle n) =
     on_group v name (\<lambda>g.
       case index_of (\<lambda>c. fst c = consumer) (v_consumers g) of
         None \<Rightarrow> (RNone, g)
       | Some ci \<Rightarrow> (RFlag True, view_upd_consumer g ci (\<lambda>m. pel_insert m i (idle, n))))"
| "stream_spec v (XAck name i) = on_group v name (\<lambda>g. map_prod RFlag id (view_ack g i))"
| "stream_spec v (XPending name) = on_group v name (\<lambda>g. (RNat (view_pending g), g))"

definition stream_inv :: "obj_stream \<Rightarrow> bool" where
  "stream_inv s \<longleftrightarrow> log_inv s \<and> groups_inv s"

definition stream_abs :: "obj_stream \<Rightarrow> stream_view" where
  "stream_abs s = \<lparr>view_log = log_abs s, view_groups = groups_abs (s_groups s)\<rparr>"

lemma log_step:
  assumes "stream_inv s" and "log_inv s'" and "groups_part s' = groups_part s"
  shows "stream_inv s'" and "stream_abs s' = (stream_abs s)\<lparr>view_log := log_abs s'\<rparr>"
  using assms groups_part_frame [OF assms(3)] by (simp_all add: stream_inv_def stream_abs_def)

lemma groups_step:
  assumes "stream_inv s" and "groups_inv s'" and "log_part s' = log_part s"
  shows "stream_inv s'" and "stream_abs s' = (stream_abs s)\<lparr>view_groups := groups_abs (s_groups s')\<rparr>"
  using assms log_part_frame [OF assms(3)] by (simp_all add: stream_inv_def stream_abs_def)

lemma on_group_absent:
  "name \<notin> g_name ` set (s_groups s) \<Longrightarrow> on_group (stream_abs s) name f = (RNone, stream_abs s)"
  by (simp add: on_group_def stream_abs_def groups_abs_absent)

lemma on_group_present:
  assumes "stream_inv s" and "s_groups s = us @ g # vs" and "groups_inv s'" and "log_part s' = log_part s"
    and "groups_abs (s_groups s') = (groups_abs (s_groups s))(g_name g \<mapsto> snd (f (group_abs g)))"
  shows "on_group (stream_abs s) (g_name g) f = (fst (f (group_abs g)), stream_abs s')"
proof -
  have "view_groups (stream_abs s) (g_name g) = Some (group_abs g)"
    using groups_invD(5) [OF _ assms(2)] assms(1) by (simp add: stream_abs_def stream_inv_def)
  then show ?thesis
    using groups_step(2) [OF assms(1,3,4)] assms(5) by (simp add: on_group_def stream_abs_def map_prod_def split: prod.splits)
qed

definition simulated :: "obj_stream \<Rightarrow> stream_op \<Rightarrow> bool" where
  "simulated s op \<longleftrightarrow>
     (\<exists>r s'. stream_exec s op = Some (r, s') \<and> stream_inv s' \<and> stream_spec (stream_abs s) op = (r, stream_abs s'))"

lemma simulatedI:
  "stream_exec s op = Some (r, s') \<Longrightarrow> stream_inv s' \<Longrightarrow> stream_spec (stream_abs s) op = (r, stream_abs s') \<Longrightarrow>
    simulated s op"
  unfolding simulated_def by blast

lemma on_log_step:
  assumes "stream_inv s" and "log_inv s'" and "groups_part s' = groups_part s"
  shows "on_log (stream_abs s) reply (r, log_abs s') = (reply r, stream_abs s')"
  using log_step(2) [OF assms] by (simp add: on_log_def)

lemma log_ops_simulated:
  assumes "stream_inv s" and "stream_safe s op"
    and "op \<in> {XAppend i fvs, XDelete i, XTrimMaxlen n limit, XTrimMinid i limit, XLowerBound i, XAt n}"
  shows "simulated s op"
proof -
  obtain ms seq where i: "i = (ms, seq)" by (cases i)
  have log: "log_inv s" and v: "view_log (stream_abs s) = log_abs s"
    using assms(1) by (simp_all add: stream_inv_def stream_abs_def)
  from assms(3) consider "op = XAppend i fvs" | "op = XDelete i" | "op = XTrimMaxlen n limit"
    | "op = XTrimMinid i limit" | "op = XLowerBound i" | "op = XAt n" by blast
  then show ?thesis
  proof cases
    case 1
    have "append_fits s fvs" using 1 assms(2) by simp
    then obtain s' where "obj_stream_append s ms seq fvs = Some (fst (log_append (log_abs s) (ms, seq) fvs), s')"
      "log_inv s'" "log_abs s' = snd (log_append (log_abs s) (ms, seq) fvs)" "groups_part s' = groups_part s"
      by (rule append_refines [OF log])
    then show ?thesis
      using log_step(1) [OF assms(1)] on_log_step [OF assms(1), of s' RInt "fst (log_append (log_abs s) (ms, seq) fvs)"]
      by (intro simulatedI [of s op _ s']) (simp_all add: 1 i v)
  next
    case 2
    obtain s' where "obj_stream_delete s ms seq = Some (fst (log_delete (log_abs s) (ms, seq)), s')"
      "log_inv s'" "log_abs s' = snd (log_delete (log_abs s) (ms, seq))" "groups_part s' = groups_part s"
      by (rule delete_refines [OF log])
    then show ?thesis
      using log_step(1) [OF assms(1)] on_log_step [OF assms(1), of s' RFlag "fst (log_delete (log_abs s) (ms, seq))"]
      by (intro simulatedI [of s op _ s']) (simp_all add: 2 i v)
  next
    case 3
    obtain k s' where "obj_stream_trim_maxlen s n limit = Some (k, s')" "log_inv s'"
      "log_trim_maxlen (log_abs s) n limit = (k, log_abs s')" "groups_part s' = groups_part s"
      by (rule trim_maxlen_refines [OF log])
    then show ?thesis
      using log_step(1) [OF assms(1)] on_log_step [OF assms(1), of s' RNat k]
      by (intro simulatedI [of s op _ s']) (simp_all add: 3 v)
  next
    case 4
    obtain k s' where "obj_stream_trim_minid s ms seq limit = Some (k, s')" "log_inv s'"
      "log_trim_minid (log_abs s) (ms, seq) limit = (k, log_abs s')" "groups_part s' = groups_part s"
      by (rule trim_minid_refines [OF log])
    then show ?thesis
      using log_step(1) [OF assms(1)] on_log_step [OF assms(1), of s' RNat k]
      by (intro simulatedI [of s op _ s']) (simp_all add: 4 i v)
  next
    case 5
    then show ?thesis
      using assms(1) lower_bound_refines [OF log, of ms seq] by (intro simulatedI [of s op _ s]) (simp_all add: i v)
  next
    case 6
    then show ?thesis
      using assms(1) by (intro simulatedI [of s op _ s]) (simp_all add: v obj_stream_at_def log_abs_def)
  qed
qed

lemma group_ops_simulated:
  assumes "stream_inv s" and "stream_safe s op" and "op \<in> {XGroupCreate name i, XGroupDestroy name}"
  shows "simulated s op"
proof -
  obtain ms seq where i: "i = (ms, seq)" by (cases i)
  have inv: "groups_inv s" and v: "view_groups (stream_abs s) = groups_abs (s_groups s)"
    using assms(1) by (simp_all add: stream_inv_def stream_abs_def)
  from assms(3) consider "op = XGroupCreate name i" | "op = XGroupDestroy name" by blast
  then show ?thesis
  proof cases
    case 1
    have "group_fits s name" using 1 assms(2) by simp
    then obtain gi fresh s' where c: "obj_stream_group_create s name ms seq = Some (Some (gi, fresh), s')"
      "fresh \<longleftrightarrow> groups_abs (s_groups s) name = None" "groups_inv s'"
      "groups_abs (s_groups s') =
        (if fresh then (groups_abs (s_groups s))(name \<mapsto> new_group (ms, seq)) else groups_abs (s_groups s))"
      "log_part s' = log_part s"
      by (rule group_create_refines [OF inv])
    note st = groups_step [OF assms(1) c(3,5)]
    have "stream_spec (stream_abs s) op = (RFlag fresh, stream_abs s')"
      using c(2,4) unfolding st(2) by (simp add: 1 i v)
    then show ?thesis using st(1) c(1) by (intro simulatedI [of s op "RFlag fresh" s']) (simp_all add: 1 i)
  next
    case 2
    obtain s' where "obj_stream_group_destroy s name = Some (groups_abs (s_groups s) name \<noteq> None, s')"
      "groups_inv s'" "groups_abs (s_groups s') = (groups_abs (s_groups s))(name := None)" "log_part s' = log_part s"
      by (rule group_destroy_refines [OF inv])
    then show ?thesis
      using groups_step [OF assms(1), of s'] by (intro simulatedI [of s op _ s']) (simp_all add: 2 v)
  qed
qed

lemma member_ops_simulated:
  assumes "stream_inv s" and "stream_safe s op"
    and "op \<in> {XConsumerCreate name consumer, XConsumerDestroy name consumer, XPelAdd name consumer i idle n,
      XAck name i, XPending name}"
  shows "simulated s op"
proof -
  obtain ms seq where i: "i = (ms, seq)" by (cases i)
  have inv: "groups_inv s" using assms(1) by (simp add: stream_inv_def)
  show ?thesis
  proof (cases rule: group_get_cases [of s name])
    case absent
    then show ?thesis
      using assms by (intro simulatedI [of s op RNone s]) (auto simp: on_group_absent)
  next
    case (present us g vs)
    note here = on_group_present [OF assms(1) present(2)]
    have g: "s_groups s ! length us = g" using present(2) by simp
    from assms(3) consider "op = XConsumerCreate name consumer" | "op = XConsumerDestroy name consumer"
      | "op = XPelAdd name consumer i idle n" | "op = XAck name i" | "op = XPending name" by blast
    then show ?thesis
    proof cases
      case 1
      have "consumer_fits s g consumer" using 1 assms(2) present by simp
      then obtain ci s' where c: "obj_stream_consumer_create s (length us) consumer = Some (Some ci, s')" "groups_inv s'"
        "groups_abs (s_groups s') = (groups_abs (s_groups s))(g_name g \<mapsto> view_add_consumer (group_abs g) consumer)"
        "log_part s' = log_part s"
        by (rule consumer_create_refines [OF inv present(2)])
      then show ?thesis
        using here [of s' "\<lambda>g. (RFlag True, view_add_consumer g consumer)"] groups_step(1) [OF assms(1) c(2,4)] present
        by (intro simulatedI [of s op "RFlag True" s']) (simp_all add: 1)
    next
      case 2
      obtain s' where c: "obj_stream_consumer_destroy s (length us) consumer =
          Some (consumer \<in> fst ` set (v_consumers (group_abs g)), s')" "groups_inv s'"
        "groups_abs (s_groups s') = (groups_abs (s_groups s))(g_name g \<mapsto> view_del_consumer (group_abs g) consumer)"
        "log_part s' = log_part s"
        by (rule consumer_destroy_refines [OF inv present(2)])
      then show ?thesis
        using here [of s' "\<lambda>g. (RFlag (consumer \<in> fst ` set (v_consumers g)), view_del_consumer g consumer)"]
          groups_step(1) [OF assms(1) c(2,4)] present
        by (intro simulatedI [of s op _ s']) (simp_all add: 2)
    next
      case 3
      show ?thesis
      proof (cases rule: consumer_get_cases [of g consumer])
        case absent: absent
        then have "index_of (\<lambda>c. fst c = consumer) (v_consumers (group_abs g)) = None"
          by (auto simp: index_of_None group_abs_def)
        then show ?thesis
          using here [of s "\<lambda>g. case index_of (\<lambda>c. fst c = consumer) (v_consumers g) of None \<Rightarrow> (RNone, g)
              | Some ci \<Rightarrow> (RFlag True, view_upd_consumer g ci (\<lambda>m. pel_insert m i (idle, n)))"]
            inv present absent(1) groups_invD(5) [OF inv present(2)] assms(1)
          by (intro simulatedI [of s op RNone s]) (simp_all add: 3 map_upd_triv)
      next
        case con: (present cs c ds)
        have "pel_fits s c" using 3 assms(2) present con by simp
        then obtain pi s' where c: "obj_stream_consumer_pel_add s (length us) (length cs) ms seq idle n = (Some pi, s')"
          "groups_inv s'" "groups_abs (s_groups s') = (groups_abs (s_groups s))
            (g_name g \<mapsto> view_upd_consumer (group_abs g) (length cs) (\<lambda>m. pel_insert m (ms, seq) (idle, n)))"
          "log_part s' = log_part s"
          by (rule pel_add_refines [OF inv present(2) con(2)])
        have "index_of (\<lambda>c. fst c = consumer) (v_consumers (group_abs g)) = Some (length cs)"
          using con(1) by (simp add: group_abs_def index_of_map obj_stream_consumer_get_def)
        then show ?thesis
          using here [of s' "\<lambda>g. case index_of (\<lambda>c. fst c = consumer) (v_consumers g) of None \<Rightarrow> (RNone, g)
              | Some ci \<Rightarrow> (RFlag True, view_upd_consumer g ci (\<lambda>m. pel_insert m (ms, seq) (idle, n)))"]
            c groups_step(1) [OF assms(1) c(2,4)] present con
          by (intro simulatedI [of s op "RFlag True" s']) (simp_all add: 3 i)
      qed
    next
      case 4
      obtain s' where c: "obj_stream_group_pel_remove s (length us) ms seq =
          Some (fst (view_ack (group_abs g) (ms, seq)), s')" "groups_inv s'"
        "groups_abs (s_groups s') = (groups_abs (s_groups s))(g_name g \<mapsto> snd (view_ack (group_abs g) (ms, seq)))"
        "log_part s' = log_part s"
        by (rule group_pel_remove_refines [OF inv present(2)])
      then show ?thesis
        using here [of s' "\<lambda>g. map_prod RFlag id (view_ack g i)"] groups_step(1) [OF assms(1) c(2,4)] present
        by (intro simulatedI [of s op _ s']) (simp_all add: 4 i)
    next
      case 5
      then show ?thesis
        using here [of s "\<lambda>g. (RNat (view_pending g), g)"] inv present assms(1)
          pending_count_refines [OF inv present(2)] groups_invD(5) [OF inv present(2)]
        by (intro simulatedI [of s op _ s]) (simp_all add: map_upd_triv)
    qed
  qed
qed

lemma stream_simulated: "stream_inv s \<Longrightarrow> stream_safe s op \<Longrightarrow> simulated s op"
  by (cases op) (auto intro: log_ops_simulated group_ops_simulated member_ops_simulated)

interpretation stm: data_refinement stream_inv stream_abs stream_safe stream_exec stream_spec
  using stream_simulated by unfold_locales (simp add: simulated_def)

section \<open>Properties\<close>

definition empty_view :: stream_view where
  "empty_view =
     \<lparr>view_log = \<lparr>l_entries = [], l_last = (0, 0), l_added = 0, l_max_deleted = (0, 0)\<rparr>,
      view_groups = Map.empty\<rparr>"

lemma stream_inv_new: "stream_inv obj_stream_new"
  using log_inv_new by (simp add: stream_inv_def groups_inv_def) (simp add: obj_stream_new_def)

lemma stream_abs_new: "stream_abs obj_stream_new = empty_view"
  by (simp add: stream_abs_def empty_view_def log_abs_def groups_abs_def obj_stream_new_def)

definition demo_ops :: "stream_op list" where
  "demo_ops =
     [XAppend (5, 1) [([102], [118, 119])], XAppend (5, 1) [], XGroupCreate [103] (0, 0),
      XConsumerCreate [103] [99], XPelAdd [103] [99] (5, 1) 1000 1, XPelAdd [103] [99] (5, 1) 2000 7,
      XPending [103], XAt 0, XAck [103] (5, 1), XDelete (5, 1), XAck [103] (5, 1), XLowerBound (0, 0)]"

definition demo_replies :: "stream_reply list" where
  "demo_replies =
     [RInt 0, RInt (-2), RFlag True, RFlag True, RFlag True, RFlag True, RNat 1,
      REntry (Some ((5, 1), [([102], [118, 119])])), RFlag True, RFlag True, RFlag False, RNat 0]"

lemmas log_eval = obj_stream_append_def copy_items_eq stream_entry_bytes_def grown_cap_def obj_stream_delete_def
  obj_stream_lower_bound_def lower_bound_loop.simps stream_update_deleted_def stream_id_cmp_def u64_add_def
  u64_sub_def append_fits_def array_fits_def obj_stream_at_def

lemmas group_eval = obj_stream_group_create_def obj_stream_group_get_def stream_mem_add_def stream_group_mem_add_def
  obj_stream_consumer_create_def obj_stream_consumer_get_def obj_stream_consumer_pel_add_def
  obj_stream_consumer_pel_find_def set_consumer_def set_consumers_def obj_stream_group_pel_remove_def
  obj_stream_consumer_pel_remove_def remove_at_def stream_group_mem_sub_def group_fits_def consumer_fits_def
  pel_fits_def pending_cost_def obj_stream_group_pending_count_def

lemma demo_run:
  "\<exists>s. run_safe stream_safe stream_exec obj_stream_new demo_ops \<and>
    run_ops stream_exec obj_stream_new demo_ops = Some (demo_replies, s) \<and> s_entries s = [] \<and>
    map group_cost (s_groups s) = [162]"
  by (simp add: demo_ops_def demo_replies_def obj_stream_new_def log_eval group_eval c_limits Let_def add_codes
     entry_abs_def entry_id_def group_cost_def consumers_cost_def consumer_cost_def)

text \<open>
  C6: A stream is a log beside a map of consumer groups. Any sequence of operations whose sizes
  are representable returns without aborting, and every result is the one of the abstract
  object: appends are refused exactly when the ID is not above the last one, deletion and
  trimming remove exactly the entries they name and keep the highest deleted ID, the binary
  search counts the entries below an ID, adding a pending entry twice keeps the first, and an
  acknowledgement removes it from the first consumer that has it.
\<close>
theorem stream_refines_log_and_groups:
  assumes "run_safe stream_safe stream_exec obj_stream_new ops"
  shows "\<exists>rs s. run_ops stream_exec obj_stream_new ops = Some (rs, s) \<and>
    run_spec stream_spec empty_view ops = (rs, stream_abs s)"
  using stm.run_refines [OF stream_inv_new assms] by (auto simp: stream_abs_new)

theorem stream_refines_log_and_groups_witness:
  "\<exists>s. run_ops stream_exec obj_stream_new demo_ops = Some (demo_replies, s) \<and>
    run_spec stream_spec empty_view demo_ops = (demo_replies, stream_abs s)"
  using stream_refines_log_and_groups [of demo_ops] demo_run by auto

text \<open>
  C33: Accounting and order. After any such sequence the two memory counters are exactly the
  bytes charged for the live entries and for the live groups, consumers and pending entries,
  IDs in the log strictly ascend, and neither a live nor a deleted ID is above the last one.
\<close>
theorem stream_accounting:
  assumes "run_safe stream_safe stream_exec obj_stream_new ops"
    and "run_ops stream_exec obj_stream_new ops = Some (rs, s)"
  shows "s_mem s = SIZEOF_OBJ_STREAM + entries_cost (s_entries s) \<and> s_group_mem s = groups_cost (s_groups s) \<and>
    sorted_wrt (<) (map entry_id (s_entries s)) \<and> max_deleted_id s \<le> last_id s \<and>
    (\<forall>e \<in> set (s_entries s). entry_id e \<le> last_id s)"
  using stm.run_inv [OF stream_inv_new assms]
  by (auto simp: stream_inv_def log_inv_def groups_inv_def simp del: less_eq_prod_simp)

theorem stream_accounting_witness:
  "\<exists>s. run_ops stream_exec obj_stream_new demo_ops = Some (demo_replies, s) \<and> s_mem s = 104 \<and> s_group_mem s = 162"
proof -
  obtain s where s: "run_safe stream_safe stream_exec obj_stream_new demo_ops"
    "run_ops stream_exec obj_stream_new demo_ops = Some (demo_replies, s)"
    "s_entries s = []" "map group_cost (s_groups s) = [162]"
    using demo_run by (elim exE conjE)
  from stream_accounting [OF s(1,2)] s(3,4) have "s_mem s = 104 \<and> s_group_mem s = 162"
    by (simp add: groups_cost_def c_limits)
  with s(2) show ?thesis by blast
qed

end
