(* ===== verification/Skiplist.thy ===== *)
theory Skiplist
  imports Prelude
begin

text \<open>
  The skip list of sorted sets (\<open>ds/skiplist.c\<close>) with its pointers: a store maps addresses to
  nodes, a node has an array of forward links with spans and a backward link.

  Addresses are given out in order and never reused, so \<open>malloc\<close> returns a node that is not in
  use; freeing a node leaves it unreachable. A \<open>double\<close> is its bit pattern. Spans and the
  ranks of an insertion are 32-bit words, positions in the queries \<open>uint64_t\<close> values. The loops
  along a level are \<open>None\<close> when they do not end.
\<close>

section \<open>Doubles\<close>

text \<open>
  The order of IEEE binary64 values: sign and magnitude of the bit pattern, with both zeros
  equal and NaN unordered.
\<close>

type_synonym double = u64

definition dbl_mag :: "double \<Rightarrow> nat" where
  "dbl_mag d = unat (take_bit 63 d)"

definition dbl_isnan :: "double \<Rightarrow> bool" where
  "dbl_isnan d \<longleftrightarrow> 0x7FF0000000000000 < dbl_mag d"

definition dbl_val :: "double \<Rightarrow> int" where
  "dbl_val d = (if bit d 63 then - int (dbl_mag d) else int (dbl_mag d))"

definition dbl_lt :: "double \<Rightarrow> double \<Rightarrow> bool" where
  "dbl_lt a b \<longleftrightarrow> \<not> dbl_isnan a \<and> \<not> dbl_isnan b \<and> dbl_val a < dbl_val b"

definition dbl_le :: "double \<Rightarrow> double \<Rightarrow> bool" where
  "dbl_le a b \<longleftrightarrow> \<not> dbl_isnan a \<and> \<not> dbl_isnan b \<and> dbl_val a \<le> dbl_val b"

section \<open>Data\<close>

definition ZSL_MAX_LEVEL :: nat where "ZSL_MAX_LEVEL = 32"

record zsl_node =
  zn_score :: double
  zn_backward :: "nat option"
  zn_member :: bytes
  zn_level :: "(nat option \<times> u32) list"

record zskiplist =
  z_store :: "nat \<Rightarrow> zsl_node"
  z_brk :: nat
  z_header :: nat
  z_tail :: "nat option"
  z_length :: nat
  z_level :: nat
  z_mem :: nat
  z_rng_state :: u32

definition SIZEOF_ZSL_NODE :: nat where "SIZEOF_ZSL_NODE = 32"
definition SIZEOF_ZSL_LEVEL :: nat where "SIZEOF_ZSL_LEVEL = 16"
definition SIZEOF_ZSKIPLIST :: nat where "SIZEOF_ZSKIPLIST = 48"

lemmas [c_limits] = SIZEOF_ZSL_NODE_def SIZEOF_ZSL_LEVEL_def SIZEOF_ZSKIPLIST_def

definition zsl_lex_cmp :: "bytes \<Rightarrow> bytes \<Rightarrow> int" where
  "zsl_lex_cmp m1 m2 =
     (let c = memcmp m1 m2
      in if c \<noteq> 0 then (if c < 0 then -1 else 1)
         else if length m1 < length m2 then -1 else if length m1 > length m2 then 1 else 0)"

definition zsl_cmp :: "double \<Rightarrow> bytes \<Rightarrow> double \<Rightarrow> bytes \<Rightarrow> int" where
  "zsl_cmp s1 m1 s2 m2 =
     (if dbl_lt s1 s2 then -1 else if dbl_lt s2 s1 then 1
      else
        let c = memcmp m1 m2
        in if c \<noteq> 0 then (if c < 0 then -1 else 1)
           else if length m1 < length m2 then -1 else if length m1 > length m2 then 1 else 0)"

definition node_cmp :: "zsl_node \<Rightarrow> double \<Rightarrow> bytes \<Rightarrow> int" where
  "node_cmp n score member = zsl_cmp (zn_score n) (zn_member n) score member"

section \<open>Levels and nodes\<close>

definition zsl_rand :: "u32 \<Rightarrow> u32" where
  "zsl_rand x =
     (let x = x XOR push_bit 13 x;
          x = x XOR drop_bit 17 x
      in x XOR push_bit 5 x)"

function random_level_loop :: "nat \<Rightarrow> u32 \<Rightarrow> nat \<times> u32" where
  "random_level_loop level rng =
     (if level < ZSL_MAX_LEVEL
      then
        let rng = zsl_rand rng
        in if rng AND 0xFFFF < 0x4000 then random_level_loop (level + 1) rng else (level, rng)
      else (level, rng))"
  by pat_completeness auto
termination by (relation "measure (\<lambda>(level, rng). ZSL_MAX_LEVEL - level)") auto

declare random_level_loop.simps [simp del]

definition zsl_random_level :: "u32 \<Rightarrow> nat \<times> u32" where
  "zsl_random_level rng = random_level_loop 1 rng"

definition zsl_node_new :: "nat \<Rightarrow> double \<Rightarrow> bytes \<Rightarrow> zsl_node option" where
  "zsl_node_new level score member =
     (if UINT32_MAX < length member \<or> (SIZE_MAX - SIZEOF_ZSL_NODE) div SIZEOF_ZSL_LEVEL < level then None
      else Some \<lparr>zn_score = score, zn_backward = None, zn_member = member, zn_level = replicate level (None, 0)\<rparr>)"

definition zsl_node_bytes :: "nat \<Rightarrow> nat \<Rightarrow> nat option" where
  "zsl_node_bytes level mlen =
     (let sz = SIZEOF_ZSL_NODE
      in if UINT32_MAX < mlen \<or> (UINT64_MAX - sz) div SIZEOF_ZSL_LEVEL < level then None
         else
           let sz = sz + level * SIZEOF_ZSL_LEVEL
           in if UINT64_MAX - 32 - mlen < sz then None else Some (sz + 32 + mlen))"

definition zsl_create :: "zskiplist option" where
  "zsl_create =
     (case zsl_node_new ZSL_MAX_LEVEL 0 [] of
        None \<Rightarrow> None
      | Some header \<Rightarrow>
          (case zsl_node_bytes ZSL_MAX_LEVEL 0 of
             None \<Rightarrow> None
           | Some header_bytes \<Rightarrow>
               Some \<lparr>z_store = (\<lambda>_. header), z_brk = 1, z_header = 0, z_tail = None, z_length = 0, z_level = 1,
                     z_mem = SIZEOF_ZSKIPLIST + header_bytes, z_rng_state = 0x2545F491\<rparr>))"

section \<open>Links\<close>

abbreviation zlink :: "zskiplist \<Rightarrow> nat \<Rightarrow> nat \<Rightarrow> nat option \<times> u32" where
  "zlink z x i \<equiv> zn_level (z_store z x) ! i"

definition set_link :: "zskiplist \<Rightarrow> nat \<Rightarrow> nat \<Rightarrow> nat option \<times> u32 \<Rightarrow> zskiplist" where
  "set_link z x i l =
     z\<lparr>z_store := (z_store z)(x := (z_store z x)\<lparr>zn_level := (zn_level (z_store z x))[i := l]\<rparr>)\<rparr>"

definition set_backward :: "zskiplist \<Rightarrow> nat \<Rightarrow> nat option \<Rightarrow> zskiplist" where
  "set_backward z x p = z\<lparr>z_store := (z_store z)(x := (z_store z x)\<lparr>zn_backward := p\<rparr>)\<rparr>"

text \<open>
  The inner loop of every search: along level \<open>i\<close> from node \<open>x\<close>, as long as there is a next node
  and the condition on it holds, accumulating spans.
\<close>

partial_function (option) zsl_walk ::
  "(nat \<Rightarrow> zsl_node) \<Rightarrow> (zsl_node \<Rightarrow> u32 \<Rightarrow> 'a \<Rightarrow> bool) \<Rightarrow> ('a \<Rightarrow> u32 \<Rightarrow> 'a) \<Rightarrow> nat \<Rightarrow> nat \<Rightarrow> 'a \<Rightarrow> (nat \<times> 'a) option" where
  "zsl_walk store cond step i x acc =
     (case zn_level (store x) ! i of
        (None, span) \<Rightarrow> Some (x, acc)
      | (Some y, span) \<Rightarrow>
          if cond (store y) span acc then zsl_walk store cond step i y (step acc span) else Some (x, acc))"

text \<open>
  The loop over the levels from \<open>i - 1\<close> down to 0; the result lists node and accumulator of each
  level, level 0 first: the arrays \<open>update\<close> and \<open>rank\<close>.
\<close>

primrec zsl_descend ::
  "(nat \<Rightarrow> zsl_node) \<Rightarrow> (zsl_node \<Rightarrow> u32 \<Rightarrow> 'a \<Rightarrow> bool) \<Rightarrow> ('a \<Rightarrow> u32 \<Rightarrow> 'a) \<Rightarrow> nat \<Rightarrow> nat \<Rightarrow> 'a \<Rightarrow>
    (nat \<times> 'a) list option" where
  "zsl_descend store cond step 0 x acc = Some []"
| "zsl_descend store cond step (Suc i) x acc =
     (case zsl_walk store cond step i x acc of
        None \<Rightarrow> None
      | Some (x', acc') \<Rightarrow>
          map_option (\<lambda>us. us @ [(x', acc')]) (zsl_descend store cond step i x' acc'))"

section \<open>Insertion\<close>

text \<open>Levels above the current top start at the header, with a span over the whole list.\<close>

fun raise_levels :: "zskiplist \<Rightarrow> nat list \<Rightarrow> zskiplist" where
  "raise_levels z [] = z"
| "raise_levels z (i # is) =
     raise_levels (set_link z (z_header z) i (fst (zlink z (z_header z) i), of_nat (z_length z))) is"

text \<open>Linking the new node \<open>n\<close> behind \<open>update[i]\<close> on its own levels.\<close>

fun link_levels :: "zskiplist \<Rightarrow> (nat \<times> u32) list \<Rightarrow> nat \<Rightarrow> nat list \<Rightarrow> zskiplist" where
  "link_levels z ups n [] = z"
| "link_levels z ups n (i # is) =
     (let u = fst (ups ! i); d = snd (ups ! 0) - snd (ups ! i); l = zlink z u i;
          z = set_link z n i (fst l, snd l - d);
          z = set_link z u i (Some n, d + 1)
      in link_levels z ups n is)"

fun widen_levels :: "zskiplist \<Rightarrow> (nat \<times> u32) list \<Rightarrow> nat list \<Rightarrow> zskiplist" where
  "widen_levels z ups [] = z"
| "widen_levels z ups (i # is) =
     (let u = fst (ups ! i); l = zlink z u i
      in widen_levels (set_link z u i (fst l, snd l + 1)) ups is)"

definition zsl_insert :: "zskiplist \<Rightarrow> double \<Rightarrow> bytes \<Rightarrow> (int \<times> zskiplist) option" where
  "zsl_insert z score member =
     (if UINT32_MAX < length member then Some (-1, z)
      else
        case zsl_descend (z_store z) (\<lambda>y _ _. node_cmp y score member < 0) (+) (z_level z) (z_header z) 0 of
          None \<Rightarrow> None
        | Some ups \<Rightarrow>
            let (level, rng) = zsl_random_level (z_rng_state z);
                z = z\<lparr>z_rng_state := rng\<rparr>;
                (z, ups) =
                  (if level > z_level z
                   then ((raise_levels z [z_level z..<level])\<lparr>z_level := level\<rparr>,
                         ups @ replicate (level - z_level z) (z_header z, 0))
                   else (z, ups))
            in case zsl_node_new level score member of
                 None \<Rightarrow> Some (-1, z)
               | Some node \<Rightarrow>
                   let n = z_brk z;
                       z = z\<lparr>z_store := (z_store z)(n := node), z_brk := n + 1\<rparr>;
                       z = link_levels z ups n [0..<level];
                       z = widen_levels z ups [level..<z_level z];
                       u = fst (ups ! 0);
                       z = set_backward z n (if u = z_header z then None else Some u);
                       z = (case fst (zlink z n 0) of
                              Some y \<Rightarrow> set_backward z y (Some n)
                            | None \<Rightarrow> z\<lparr>z_tail := Some n\<rparr>);
                       z = z\<lparr>z_length := z_length z + 1\<rparr>
                   in (case zsl_node_bytes level (length member) of
                         None \<Rightarrow> None
                       | Some node_bytes \<Rightarrow> Some (0, z\<lparr>z_mem := u64_add (z_mem z) node_bytes\<rparr>)))"

section \<open>Deletion\<close>

text \<open>
  Unlinking node \<open>x\<close> from the levels, counting the levels it takes part in.
\<close>

fun unlink_levels :: "zskiplist \<Rightarrow> (nat \<times> unit) list \<Rightarrow> nat \<Rightarrow> nat list \<Rightarrow> nat \<Rightarrow> zskiplist \<times> nat" where
  "unlink_levels z ups x [] level = (z, level)"
| "unlink_levels z ups x (i # is) level =
     (let u = fst (ups ! i); l = zlink z u i
      in if fst l = Some x
         then unlink_levels (set_link z u i (fst (zlink z x i), snd l + (snd (zlink z x i) - 1))) ups x is (i + 1)
         else unlink_levels (set_link z u i (fst l, snd l - 1)) ups x is level)"

function lower_top :: "zskiplist \<Rightarrow> zskiplist" where
  "lower_top z =
     (if z_level z > 1 \<and> fst (zlink z (z_header z) (z_level z - 1)) = None
      then lower_top (z\<lparr>z_level := z_level z - 1\<rparr>) else z)"
  by pat_completeness auto
termination by (relation "measure z_level") auto

declare lower_top.simps [simp del]

definition zsl_delete :: "zskiplist \<Rightarrow> double \<Rightarrow> bytes \<Rightarrow> (bool \<times> zskiplist) option" where
  "zsl_delete z score member =
     (case zsl_descend (z_store z) (\<lambda>y _ _. node_cmp y score member < 0) (\<lambda>_ _. ()) (z_level z) (z_header z) () of
        None \<Rightarrow> None
      | Some ups \<Rightarrow>
          (case fst (zlink z (fst (ups ! 0)) 0) of
             None \<Rightarrow> Some (False, z)
           | Some x \<Rightarrow>
               if node_cmp (z_store z x) score member \<noteq> 0 then Some (False, z)
               else
                 let (z, level) = unlink_levels z ups x [0..<z_level z] 0;
                     z = (case fst (zlink z x 0) of
                            Some y \<Rightarrow> set_backward z y (zn_backward (z_store z x))
                          | None \<Rightarrow> z\<lparr>z_tail := zn_backward (z_store z x)\<rparr>);
                     z = lower_top z;
                     z = z\<lparr>z_length := z_length z - 1\<rparr>
                 in (case zsl_node_bytes level (length (zn_member (z_store z x))) of
                       None \<Rightarrow> None
                     | Some node_bytes \<Rightarrow> Some (True, z\<lparr>z_mem := u64_sub (z_mem z) node_bytes\<rparr>))))"

section \<open>Rank and index\<close>

text \<open>The outer loops of the span walks stop at the first level that decides the answer.\<close>

primrec rank_levels :: "zskiplist \<Rightarrow> double \<Rightarrow> bytes \<Rightarrow> nat \<Rightarrow> nat \<Rightarrow> nat \<Rightarrow> int option" where
  "rank_levels z score member 0 x r = Some (-1)"
| "rank_levels z score member (Suc i) x r =
     (case zsl_walk (z_store z) (\<lambda>y _ _. node_cmp y score member \<le> 0) (\<lambda>r span. u64_add r (unat span)) i x r of
        None \<Rightarrow> None
      | Some (x, r) \<Rightarrow>
          if x \<noteq> z_header z \<and> node_cmp (z_store z x) score member = 0 then Some (int (u64_sub r 1))
          else rank_levels z score member i x r)"

definition zsl_rank :: "zskiplist \<Rightarrow> double \<Rightarrow> bytes \<Rightarrow> int option" where
  "zsl_rank z score member = rank_levels z score member (z_level z) (z_header z) 0"

primrec at_levels :: "zskiplist \<Rightarrow> nat \<Rightarrow> nat \<Rightarrow> nat \<Rightarrow> nat \<Rightarrow> nat option option" where
  "at_levels z target 0 x traversed = Some None"
| "at_levels z target (Suc i) x traversed =
     (case zsl_walk (z_store z) (\<lambda>_ span t. u64_add t (unat span) \<le> target) (\<lambda>t span. u64_add t (unat span)) i x traversed of
        None \<Rightarrow> None
      | Some (x, traversed) \<Rightarrow>
          if traversed = target then Some (Some x) else at_levels z target i x traversed)"

definition zsl_at :: "zskiplist \<Rightarrow> nat \<Rightarrow> nat option option" where
  "zsl_at z idx = at_levels z (u64_add idx 1) (z_level z) (z_header z) 0"

section \<open>Score ranges\<close>

record zrangespec =
  rs_min :: double
  rs_max :: double
  rs_minex :: bool
  rs_maxex :: bool

definition zsl_gte_min :: "double \<Rightarrow> zrangespec \<Rightarrow> bool" where
  "zsl_gte_min score r \<longleftrightarrow> (if rs_minex r then dbl_lt (rs_min r) score else dbl_le (rs_min r) score)"

definition zsl_lte_max :: "double \<Rightarrow> zrangespec \<Rightarrow> bool" where
  "zsl_lte_max score r \<longleftrightarrow> (if rs_maxex r then dbl_lt score (rs_max r) else dbl_le score (rs_max r))"

text \<open>The node a search without ranks ends at.\<close>

definition search_end :: "zskiplist \<Rightarrow> (zsl_node \<Rightarrow> bool) \<Rightarrow> nat option" where
  "search_end z P =
     map_option (\<lambda>ups. fst (ups ! 0))
       (zsl_descend (z_store z) (\<lambda>y _ _. P y) (\<lambda>_ _. ()) (z_level z) (z_header z) ())"

definition zsl_first_in_range :: "zskiplist \<Rightarrow> zrangespec \<Rightarrow> nat option option" where
  "zsl_first_in_range z r =
     (if zsl_cmp (rs_min r) [] (rs_max r) [] > 0 then Some None
      else map_option (\<lambda>x.
             case fst (zlink z x 0) of
               None \<Rightarrow> None
             | Some y \<Rightarrow> if zsl_lte_max (zn_score (z_store z y)) r then Some y else None)
           (search_end z (\<lambda>y. \<not> zsl_gte_min (zn_score y) r)))"

definition zsl_last_in_range :: "zskiplist \<Rightarrow> zrangespec \<Rightarrow> nat option option" where
  "zsl_last_in_range z r =
     (if zsl_cmp (rs_min r) [] (rs_max r) [] > 0 then Some None
      else map_option (\<lambda>x.
             if x = z_header z \<or> \<not> zsl_gte_min (zn_score (z_store z x)) r then None else Some x)
           (search_end z (\<lambda>y. zsl_lte_max (zn_score y) r)))"

partial_function (option) count_loop :: "zskiplist \<Rightarrow> zrangespec \<Rightarrow> nat option \<Rightarrow> nat \<Rightarrow> nat option" where
  "count_loop z r n count =
     (case n of
        None \<Rightarrow> Some count
      | Some x \<Rightarrow>
          if zsl_lte_max (zn_score (z_store z x)) r then count_loop z r (fst (zlink z x 0)) (count + 1)
          else Some count)"

definition zsl_count_in_range :: "zskiplist \<Rightarrow> zrangespec \<Rightarrow> nat option" where
  "zsl_count_in_range z r =
     (case zsl_first_in_range z r of None \<Rightarrow> None | Some n \<Rightarrow> count_loop z r n 0)"

section \<open>Lexicographic ranges\<close>

record zlexbound =
  lb_s :: bytes
  lb_ex :: bool
  lb_inf :: int

record zlexrangespec =
  lr_min :: zlexbound
  lr_max :: zlexbound

definition zsl_lex_gte_min :: "bytes \<Rightarrow> zlexbound \<Rightarrow> bool" where
  "zsl_lex_gte_min m lo \<longleftrightarrow>
     (if lb_inf lo \<noteq> 0 then lb_inf lo < 0
      else let c = zsl_lex_cmp m (lb_s lo) in if lb_ex lo then c > 0 else c \<ge> 0)"

definition zsl_lex_lte_max :: "bytes \<Rightarrow> zlexbound \<Rightarrow> bool" where
  "zsl_lex_lte_max m hi \<longleftrightarrow>
     (if lb_inf hi \<noteq> 0 then lb_inf hi > 0
      else let c = zsl_lex_cmp m (lb_s hi) in if lb_ex hi then c < 0 else c \<le> 0)"

definition zsl_lex_bound_cmp :: "zlexbound \<Rightarrow> zlexbound \<Rightarrow> int" where
  "zsl_lex_bound_cmp a b =
     (if lb_inf a \<noteq> 0 \<or> lb_inf b \<noteq> 0
      then if lb_inf a = lb_inf b then 0 else if lb_inf a < lb_inf b then -1 else 1
      else zsl_lex_cmp (lb_s a) (lb_s b))"

definition zsl_lex_range_empty :: "zlexrangespec \<Rightarrow> bool" where
  "zsl_lex_range_empty r \<longleftrightarrow>
     (let c = zsl_lex_bound_cmp (lr_min r) (lr_max r)
      in c > 0 \<or> (c = 0 \<and> (lb_ex (lr_min r) \<or> lb_ex (lr_max r))))"

definition zsl_first_in_lex_range :: "zskiplist \<Rightarrow> zlexrangespec \<Rightarrow> nat option option" where
  "zsl_first_in_lex_range z r =
     (if zsl_lex_range_empty r then Some None
      else map_option (\<lambda>x.
             case fst (zlink z x 0) of
               None \<Rightarrow> None
             | Some y \<Rightarrow> if zsl_lex_lte_max (zn_member (z_store z y)) (lr_max r) then Some y else None)
           (search_end z (\<lambda>y. \<not> zsl_lex_gte_min (zn_member y) (lr_min r))))"

definition zsl_last_in_lex_range :: "zskiplist \<Rightarrow> zlexrangespec \<Rightarrow> nat option option" where
  "zsl_last_in_lex_range z r =
     (if zsl_lex_range_empty r then Some None
      else map_option (\<lambda>x.
             if x = z_header z \<or> \<not> zsl_lex_gte_min (zn_member (z_store z x)) (lr_min r) then None else Some x)
           (search_end z (\<lambda>y. zsl_lex_lte_max (zn_member y) (lr_max r))))"

end
