(* ===== verification/Skiplist_Rep.thy ===== *)
theory Skiplist_Rep
  imports Skiplist "HOL-Library.Product_Lexorder" "HOL-Library.List_Lexorder"
begin

text \<open>
  What the nodes of a skip list represent: the list of their addresses in order, with every
  forward link, span, backward link and counter determined by it. The searches along the
  levels find the last node before a cut of this list, whatever the heights of the nodes are.
\<close>

section \<open>Order of the keys\<close>

lemma lex_cmp_eq:
  "zsl_lex_cmp a b = (if a < b then -1 else if b < a then 1 else 0)"
proof (induction a arbitrary: b)
  case Nil
  then show ?case by (cases b) (simp_all add: zsl_lex_cmp_def)
next
  case (Cons x xs)
  show ?case
  proof (cases b)
    case Nil
    then show ?thesis by (simp add: zsl_lex_cmp_def)
  next
    case c: (Cons y ys)
    show ?thesis
    proof (cases "x = y")
      case True
      then have "zsl_lex_cmp (x # xs) b = zsl_lex_cmp xs ys" by (simp add: zsl_lex_cmp_def c Let_def)
      with True Cons [of ys] show ?thesis by (simp add: c)
    next
      case False
      then show ?thesis by (auto simp: zsl_lex_cmp_def c Let_def)
    qed
  qed
qed

type_synonym sort_key = "int \<times> bytes"

definition zkey :: "double \<Rightarrow> bytes \<Rightarrow> sort_key" where
  "zkey score member = (dbl_val score, member)"

lemma zsl_cmp_eq:
  assumes "\<not> dbl_isnan s1" and "\<not> dbl_isnan s2"
  shows "zsl_cmp s1 m1 s2 m2 =
    (if zkey s1 m1 < zkey s2 m2 then -1 else if zkey s2 m2 < zkey s1 m1 then 1 else 0)"
proof -
  have "zsl_cmp s1 m1 s2 m2 =
      (if dbl_val s1 < dbl_val s2 then -1 else if dbl_val s2 < dbl_val s1 then 1 else zsl_lex_cmp m1 m2)"
    using assms by (simp add: zsl_cmp_def zsl_lex_cmp_def dbl_lt_def)
  then show ?thesis by (auto simp: lex_cmp_eq zkey_def)
qed

definition node_key :: "zsl_node \<Rightarrow> sort_key" where
  "node_key n = zkey (zn_score n) (zn_member n)"

lemma node_cmp_iff:
  assumes "\<not> dbl_isnan (zn_score n)" and "\<not> dbl_isnan score"
  shows "node_cmp n score member < 0 \<longleftrightarrow> node_key n < zkey score member"
    and "node_cmp n score member \<le> 0 \<longleftrightarrow> node_key n \<le> zkey score member"
    and "node_cmp n score member = 0 \<longleftrightarrow> node_key n = zkey score member"
  using zsl_cmp_eq [OF assms, of "zn_member n" member]
  by (simp_all add: node_cmp_def node_key_def not_less antisym_conv3) (metis less_le_not_le linorder_linear)+

section \<open>Links determined by the order\<close>

text \<open>
  The next node of height above \<open>i\<close> in a list of nodes and the distance to it, or the length of
  the list when there is none.
\<close>

fun link_to :: "(nat \<Rightarrow> nat) \<Rightarrow> nat \<Rightarrow> nat list \<Rightarrow> nat option \<times> nat" where
  "link_to h i [] = (None, 0)"
| "link_to h i (a # as) = (if i < h a then (Some a, 1) else map_prod id Suc (link_to h i as))"

lemma link_to_skip:
  "\<forall>a \<in> set xs. h a \<le> i \<Longrightarrow> link_to h i (xs @ ys) = map_prod id ((+) (length xs)) (link_to h i ys)"
  by (induction xs) (auto simp: prod.map_comp o_def id_def map_prod_def split: prod.splits)

lemma link_to_found: "\<exists>a \<in> set xs. i < h a \<Longrightarrow> link_to h i (xs @ ys) = link_to h i xs"
proof (induction xs)
  case (Cons a xs)
  show ?case
  proof (cases "i < h a")
    case False
    with Cons.prems have "\<exists>a \<in> set xs. i < h a" by auto
    with Cons.IH show ?thesis by simp
  qed simp
qed simp

lemma link_to_None: "\<forall>a \<in> set xs. h a \<le> i \<Longrightarrow> link_to h i xs = (None, length xs)"
  using link_to_skip [of xs h i "[]"] by simp

lemma link_to_cong: "(\<And>a. a \<in> set xs \<Longrightarrow> h a = h' a) \<Longrightarrow> link_to h i xs = link_to h' i xs"
  by (induction xs) auto

lemma link_to_mem: "fst (link_to h i xs) = Some a \<Longrightarrow> a \<in> set xs"
  by (induction xs) (auto split: if_splits)

lemma link_to_le: "snd (link_to h i xs) \<le> length xs"
  by (induction xs) auto

lemma link_to_split:
  assumes "i < h y" and "\<forall>a \<in> set xs. h a \<le> i"
  shows "link_to h i (xs @ y # ys) = (Some y, Suc (length xs))"
  using link_to_skip [OF assms(2), of "y # ys"] assms(1) by simp

text \<open>The last node of height above \<open>i\<close>.\<close>

lemma last_tall:
  assumes "\<exists>a \<in> set xs. i < h a"
  obtains us a vs where "xs = us @ a # vs" and "i < h a" and "\<forall>b \<in> set vs. h b \<le> (i::nat)"
  using split_list_last_prop [OF assms] that by (auto simp: not_less)

lemma first_tall:
  assumes "\<exists>a \<in> set xs. i < h a"
  obtains us a vs where "xs = us @ a # vs" and "i < h a" and "\<forall>b \<in> set us. h b \<le> (i::nat)"
  using split_list_first_prop [OF assms] that by (auto simp: not_less)

section \<open>Representation\<close>

definition height :: "zskiplist \<Rightarrow> nat \<Rightarrow> nat" where
  "height z a = length (zn_level (z_store z a))"

definition node_bytes :: "nat \<Rightarrow> nat \<Rightarrow> nat" where
  "node_bytes level mlen = SIZEOF_ZSL_NODE + level * SIZEOF_ZSL_LEVEL + 32 + mlen"

definition nodes_bytes :: "zskiplist \<Rightarrow> nat list \<Rightarrow> nat" where
  "nodes_bytes z ns = sum_list (map (\<lambda>a. node_bytes (height z a) (length (zn_member (z_store z a)))) ns)"

definition links_ok :: "zskiplist \<Rightarrow> nat list \<Rightarrow> bool" where
  "links_ok z ns \<longleftrightarrow>
     (\<forall>us a vs. z_header z # ns = us @ a # vs \<longrightarrow>
        (\<forall>i < height z a. i < z_level z \<longrightarrow> zlink z a i = map_prod id of_nat (link_to (height z) i vs)))"

definition backs_ok :: "zskiplist \<Rightarrow> nat list \<Rightarrow> bool" where
  "backs_ok z ns \<longleftrightarrow>
     (\<forall>us a vs. ns = us @ a # vs \<longrightarrow> zn_backward (z_store z a) = (if us = [] then None else Some (last us))) \<and>
     z_tail z = (if ns = [] then None else Some (last ns))"

definition zrep :: "zskiplist \<Rightarrow> nat list \<Rightarrow> bool" where
  "zrep z ns \<longleftrightarrow>
     distinct (z_header z # ns) \<and> (\<forall>a \<in> set (z_header z # ns). a < z_brk z) \<and>
     sorted_wrt (<) (map (\<lambda>a. node_key (z_store z a)) ns) \<and>
     (\<forall>a \<in> set ns. \<not> dbl_isnan (zn_score (z_store z a)) \<and> length (zn_member (z_store z a)) \<le> UINT32_MAX \<and>
        1 \<le> height z a \<and> height z a \<le> z_level z) \<and>
     height z (z_header z) = ZSL_MAX_LEVEL \<and> 1 \<le> z_level z \<and> z_level z \<le> ZSL_MAX_LEVEL \<and>
     (\<forall>i. z_level z \<le> i \<and> i < ZSL_MAX_LEVEL \<longrightarrow> fst (zlink z (z_header z) i) = None) \<and>
     links_ok z ns \<and> backs_ok z ns \<and> z_length z = length ns \<and>
     z_mem z = SIZEOF_ZSKIPLIST + node_bytes ZSL_MAX_LEVEL 0 + nodes_bytes z ns"

lemma zrepD:
  assumes "zrep z ns"
  shows "distinct (z_header z # ns)" "\<And>a. a \<in> set (z_header z # ns) \<Longrightarrow> a < z_brk z"
    "sorted_wrt (<) (map (\<lambda>a. node_key (z_store z a)) ns)"
    "\<And>a. a \<in> set ns \<Longrightarrow> \<not> dbl_isnan (zn_score (z_store z a))"
    "\<And>a. a \<in> set ns \<Longrightarrow> length (zn_member (z_store z a)) \<le> UINT32_MAX"
    "\<And>a. a \<in> set ns \<Longrightarrow> 1 \<le> height z a" "\<And>a. a \<in> set ns \<Longrightarrow> height z a \<le> z_level z"
    "height z (z_header z) = ZSL_MAX_LEVEL" "1 \<le> z_level z" "z_level z \<le> ZSL_MAX_LEVEL"
    "\<And>i. z_level z \<le> i \<Longrightarrow> i < ZSL_MAX_LEVEL \<Longrightarrow> fst (zlink z (z_header z) i) = None"
    "links_ok z ns" "backs_ok z ns" "z_length z = length ns"
    "z_mem z = SIZEOF_ZSKIPLIST + node_bytes ZSL_MAX_LEVEL 0 + nodes_bytes z ns"
  using assms unfolding zrep_def by blast+

lemma links_okD:
  assumes "links_ok z ns" and "z_header z # ns = us @ a # vs" and "i < height z a" and "i < z_level z"
  shows "zlink z a i = map_prod id of_nat (link_to (height z) i vs)"
  using assms unfolding links_ok_def by blast

lemma link_to_nth:
  assumes "link_to h i xs = (Some y, d)"
  shows "0 < d \<and> d \<le> length xs \<and> xs ! (d - 1) = y"
  using assms
proof (induction xs arbitrary: d)
  case (Cons a xs)
  then show ?case by (cases "link_to h i xs"; cases "i < h a") (auto simp: nth_Cons')
qed simp

section \<open>Searching\<close>

text \<open>
  A search for the cut between \<open>pre\<close> and the rest: its condition holds exactly up to the cut,
  and its accumulator follows the position.
\<close>

definition cut_search where
  "cut_search z ns pre cond step acc \<longleftrightarrow>
     (\<forall>p d. 0 < d \<longrightarrow> p \<le> length pre \<longrightarrow> p + d \<le> length ns \<longrightarrow>
        (cond (z_store z (ns ! (p + d - 1))) (of_nat d) (acc p) \<longleftrightarrow> p + d \<le> length pre) \<and>
        step (acc p) (of_nat d) = acc (p + d))"

lemma cut_searchD:
  assumes "cut_search z ns pre cond step acc" and "0 < d" and "p \<le> length pre" and "p + d \<le> length ns"
  shows "cond (z_store z (ns ! (p + d - 1))) (of_nat d) (acc p) \<longleftrightarrow> p + d \<le> length pre"
    and "step (acc p) (of_nat d) = acc (p + d)"
  using assms unfolding cut_search_def by blast+

text \<open>Node \<open>a\<close> at position \<open>p\<close> is the last one before the cut on level \<open>i\<close>.\<close>

definition before :: "zskiplist \<Rightarrow> nat list \<Rightarrow> nat \<Rightarrow> nat \<Rightarrow> nat \<Rightarrow> bool" where
  "before z pre i a p \<longleftrightarrow>
     (\<exists>us ws. z_header z # pre = us @ a # ws \<and> p = length us \<and> i < height z a \<and> (\<forall>b \<in> set ws. height z b \<le> i))"

lemma beforeI:
  "z_header z # pre = us @ a # ws \<Longrightarrow> i < height z a \<Longrightarrow> \<forall>b \<in> set ws. height z b \<le> i \<Longrightarrow> before z pre i a (length us)"
  unfolding before_def by blast

lemma beforeE:
  assumes "before z pre i a p"
  obtains us ws where "z_header z # pre = us @ a # ws" and "p = length us" and "i < height z a"
    and "\<forall>b \<in> set ws. height z b \<le> i"
  using assms unfolding before_def by blast

lemma walk_to:
  assumes rep: "zrep z ns" and ns: "ns = pre @ post" and i: "i < z_level z"
    and cut: "cut_search z ns pre cond step acc"
  shows "z_header z # pre = us @ x # ws \<Longrightarrow> i < height z x \<Longrightarrow>
    \<exists>a p. before z pre i a p \<and> zsl_walk (z_store z) cond step i x (acc (length us)) = Some (a, acc p)"
proof (induction ws arbitrary: us x rule: length_induct)
  case (1 ws)
  note link = links_okD [OF zrepD(12) [OF rep], of us x "ws @ post" i]
  have full: "z_header z # ns = us @ x # ws @ post" using "1.prems"(1) ns by simp
  have len: "length pre = length us + length ws" using arg_cong [OF "1.prems"(1), of length] by simp
  show ?case
  proof (cases "\<exists>a \<in> set ws. i < height z a")
    case True
    then obtain w1 y w2 where w: "ws = w1 @ y # w2" "i < height z y" "\<forall>b \<in> set w1. height z b \<le> i"
      by (rule first_tall)
    have l: "zlink z x i = (Some y, of_nat (Suc (length w1)))"
      using link [OF full "1.prems"(2) i] link_to_split [OF w(2,3), of "w2 @ post"] w(1) by simp
    have y: "ns ! (length us + Suc (length w1) - 1) = y"
    proof -
      have "(z_header z # ns) ! (length us + Suc (length w1)) = y"
        by (simp add: full w(1) nth_append)
      then show ?thesis by simp
    qed
    have bound: "length us \<le> length pre" "length us + Suc (length w1) \<le> length ns" using len ns w(1) by auto
    note c = cut_searchD [OF cut, of "Suc (length w1)" "length us", OF _ bound]
    have "z_header z # pre = (us @ x # w1) @ y # w2" using "1.prems"(1) w(1) by simp
    then obtain a p where ap: "before z pre i a p"
      "zsl_walk (z_store z) cond step i y (acc (length (us @ x # w1))) = Some (a, acc p)"
      using "1.IH" [rule_format, of w2 "us @ x # w1" y] w(1,2) by auto
    have "zsl_walk (z_store z) cond step i x (acc (length us)) =
        zsl_walk (z_store z) cond step i y (acc (length us + Suc (length w1)))"
      using c y len w(1) by (subst zsl_walk.simps) (simp add: l)
    with ap show ?thesis by auto
  next
    case False
    then have short: "\<forall>b \<in> set ws. height z b \<le> i" by (auto simp: not_less)
    have b: "before z pre i x (length us)" using "1.prems" short by (rule beforeI)
    have l: "zlink z x i = map_prod id of_nat (map_prod id ((+) (length ws)) (link_to (height z) i post))"
      using link [OF full "1.prems"(2) i] link_to_skip [OF short, of post] by simp
    have "zsl_walk (z_store z) cond step i x (acc (length us)) = Some (x, acc (length us))"
    proof (cases "fst (link_to (height z) i post)")
      case None
      then show ?thesis using l by (subst zsl_walk.simps) (auto simp: map_prod_def split: prod.splits)
    next
      case (Some y)
      then obtain d where d: "link_to (height z) i post = (Some y, d)" by (cases "link_to (height z) i post") auto
      note nth = link_to_nth [OF d]
      have "ns ! (length us + (length ws + d) - 1) = y" using nth len ns by (cases d) (auto simp: nth_append)
      moreover have "length us + (length ws + d) \<le> length ns" using nth len ns by simp
      ultimately have "\<not> cond (z_store z y) (of_nat (length ws + d)) (acc (length us))"
        using cut_searchD(1) [OF cut, of "length ws + d" "length us"] nth len by auto
      then show ?thesis using l d by (subst zsl_walk.simps) simp
    qed
    with b show ?thesis by blast
  qed
qed

lemma before_mem:
  assumes "before z pre i a p"
  shows "a \<in> set (z_header z # pre)"
proof -
  from assms obtain us ws where "z_header z # pre = us @ a # ws" by (rule beforeE)
  then show ?thesis by (metis in_set_conv_decomp)
qed

lemma descend_to:
  assumes rep: "zrep z ns" and ns: "ns = pre @ post" and cut: "cut_search z ns pre cond step acc"
  shows "k \<le> z_level z \<Longrightarrow> z_header z # pre = us @ x # ws \<Longrightarrow> k \<le> height z x \<Longrightarrow>
    \<exists>ups. zsl_descend (z_store z) cond step k x (acc (length us)) = Some ups \<and> length ups = k \<and>
      (\<forall>i < k. \<exists>a p. before z pre i a p \<and> ups ! i = (a, acc p))"
proof (induction k arbitrary: us x ws)
  case (Suc k)
  obtain a p where ap: "before z pre k a p" "zsl_walk (z_store z) cond step k x (acc (length us)) = Some (a, acc p)"
    using walk_to [OF rep ns _ cut, of k us x ws] Suc.prems by auto
  from ap(1) obtain us' ws' where b: "z_header z # pre = us' @ a # ws'" "p = length us'" "k < height z a"
    by (rule beforeE)
  with Suc.IH [of us' a ws'] Suc.prems obtain ups
    where ups: "zsl_descend (z_store z) cond step k a (acc p) = Some ups" "length ups = k"
      "\<forall>i < k. \<exists>a p. before z pre i a p \<and> ups ! i = (a, acc p)"
    by auto
  have "\<forall>i < Suc k. \<exists>a' p'. before z pre i a' p' \<and> (ups @ [(a, acc p)]) ! i = (a', acc p')"
    using ups(2,3) ap(1) by (auto simp: less_Suc_eq nth_append)
  with ap(2) ups show ?case by auto
qed simp

lemma descend_from_header:
  assumes "zrep z ns" and "ns = pre @ post" and "cut_search z ns pre cond step acc"
  obtains ups where "zsl_descend (z_store z) cond step (z_level z) (z_header z) (acc 0) = Some ups"
    and "length ups = z_level z" and "\<And>i. i < z_level z \<Longrightarrow> \<exists>a p. before z pre i a p \<and> ups ! i = (a, acc p)"
proof -
  have "z_level z \<le> height z (z_header z)" using zrepD(8,10) [OF assms(1)] by simp
  then show ?thesis
    using descend_to [OF assms, of "z_level z" "[]" "z_header z" pre] that by auto
qed

text \<open>On the lowest level every node takes part.\<close>

lemma before_0:
  assumes "zrep z (pre @ post)" and "before z pre 0 a p"
  shows "a = last (z_header z # pre)" and "p = length pre"
proof -
  from assms(2) obtain us ws where b: "z_header z # pre = us @ a # ws" "p = length us"
    "\<forall>b \<in> set ws. height z b \<le> 0" by (auto simp: before_def)
  have "ws = []"
  proof (rule ccontr)
    assume "ws \<noteq> []"
    then have w: "last ws \<in> set ws" by simp
    moreover have "set ws \<subseteq> set pre"
      using arg_cong [OF b(1), of "\<lambda>xs. set (tl xs)"] by (cases us) auto
    ultimately have "1 \<le> height z (last ws)" using zrepD(6) [OF assms(1), of "last ws"] by auto
    with b(3) w show False by auto
  qed
  moreover have "length pre = length us + length ws" using arg_cong [OF b(1), of length] by simp
  ultimately show "a = last (z_header z # pre)" "p = length pre"
    using b(1,2) by simp_all
qed

lemma before_unique:
  assumes "distinct (z_header z # pre)" and "before z pre i a p" and "z_header z # pre = us @ b # ws"
    and "i < height z b" and "\<forall>c \<in> set ws. height z c \<le> i"
  shows "b = a" and "p = length us"
proof -
  from assms(2) obtain us' ws' where b: "z_header z # pre = us' @ a # ws'" "p = length us'" "i < height z a"
    "\<forall>b \<in> set ws'. height z b \<le> i" by (rule beforeE)
  have "us' = us \<and> a = b \<and> ws' = ws"
  proof -
    have e: "us' @ a # ws' = us @ b # ws" using b(1) assms(3) by simp
    consider "length us' < length us" | "length us < length us'" | "length us' = length us" by linarith
    then show ?thesis
    proof cases
      case 1
      then obtain ys where "us = us' @ a # ys" using e by (auto simp: append_eq_append_conv2 Cons_eq_append_conv neq_Nil_conv)
      with e have "b \<in> set ws'" by auto
      with b(4) assms(4) show ?thesis by fastforce
    next
      case 2
      then obtain ys where "us' = us @ b # ys" using e by (auto simp: append_eq_append_conv2 Cons_eq_append_conv neq_Nil_conv)
      with e have "a \<in> set ws" by auto
      with b(3) assms(5) show ?thesis by fastforce
    qed (use e in auto)
  qed
  then show "b = a" "p = length us" using b(2) by simp_all
qed

section \<open>Cuts\<close>

lemma cut_by:
  assumes "\<forall>a \<in> set pre. P (z_store z a)" and "\<forall>a \<in> set post. \<not> P (z_store z a)"
    and "\<And>p d. p + d \<le> length (pre @ post) \<Longrightarrow> step (acc p) (of_nat d) = acc (p + d)"
  shows "cut_search z (pre @ post) pre (\<lambda>y _ _. P y) step acc"
  unfolding cut_search_def
proof (intro allI impI conjI)
  fix p d assume a: "0 < d" "p \<le> length pre" "p + d \<le> length (pre @ post)"
  show "P (z_store z ((pre @ post) ! (p + d - 1))) \<longleftrightarrow> p + d \<le> length pre"
  proof (cases "p + d \<le> length pre")
    case True
    then have "p + d - 1 < length pre" using a(1) by linarith
    then have "(pre @ post) ! (p + d - 1) \<in> set pre" by (simp add: nth_append)
    with True assms(1) show ?thesis by blast
  next
    case False
    then have "\<not> p + d - 1 < length pre" "p + d - 1 - length pre < length post" using a by auto
    then have "(pre @ post) ! (p + d - 1) \<in> set post" by (simp add: nth_append)
    with False assms(2) show ?thesis by blast
  qed
qed (use assms(3) in blast)

lemma dropWhile_cut:
  assumes "sorted_wrt (\<lambda>a b. P b \<longrightarrow> P a) ns"
  shows "\<forall>a \<in> set (dropWhile P ns). \<not> P a"
  using assms
proof (induction ns)
    case (Cons a ns)
    show ?case
    proof (cases "P a")
      case True
      have "sorted_wrt (\<lambda>a b. P b \<longrightarrow> P a) ns" using Cons.prems by simp
      from Cons.IH [OF this] True show ?thesis by (simp only: dropWhile.simps if_True)
    next
      case False
      from Cons.prems have "\<forall>b \<in> set ns. P b \<longrightarrow> P a" by simp
      with False have "\<forall>b \<in> set (a # ns). \<not> P b" by auto
      with False show ?thesis by (simp only: dropWhile.simps if_False)
    qed
qed simp
lemma takeWhile_cut: "\<forall>a \<in> set (takeWhile P ns). P a"
  by (induction ns) auto

lemma cut_split:
  assumes "sorted_wrt (\<lambda>a b. P b \<longrightarrow> P a) ns"
  obtains pre post where "ns = pre @ post" and "\<forall>a \<in> set pre. P a" and "\<forall>a \<in> set post. \<not> P a"
  by (rule that [OF takeWhile_dropWhile_id [symmetric] takeWhile_cut dropWhile_cut [OF assms]])

lemma sorted_keys_mono:
  assumes "sorted_wrt (<) (map f ns)" and "\<And>a b. f a < f b \<Longrightarrow> P b \<Longrightarrow> P a"
  shows "sorted_wrt (\<lambda>a b. P b \<longrightarrow> P a) ns"
  using assms(1) unfolding sorted_wrt_map by (rule sorted_wrt_mono_rel [rotated]) (use assms(2) in blast)

lemma key_cut:
  assumes "zrep z ns"
  obtains pre post where "ns = pre @ post" and "\<forall>a \<in> set pre. node_key (z_store z a) < k"
    and "\<forall>a \<in> set post. \<not> node_key (z_store z a) < k"
  by (rule cut_split [OF sorted_keys_mono [OF zrepD(3) [OF assms], of "\<lambda>a. node_key (z_store z a) < k"]])
    (auto intro: order.strict_trans)

lemma split_cases:
  assumes "xs @ n # ys = us @ a # vs"
  obtains (left) ws where "xs = us @ a # ws" and "vs = ws @ n # ys"
  | (mid) "us = xs" and "a = n" and "vs = ys"
  | (right) ws where "us = xs @ n # ws" and "ys = ws @ a # vs"
proof -
  from assms consider ws where "xs = us @ ws" "ws @ n # ys = a # vs" | ws where "us = xs @ ws" "n # ys = ws @ a # vs"
    by (auto simp: append_eq_append_conv2)
  then show ?thesis
  proof cases
    case (1 ws)
    then show ?thesis using left mid by (cases ws) auto
  next
    case (2 ws)
    then show ?thesis using right mid by (cases ws) auto
  qed
qed

section \<open>Changing links\<close>

text \<open>Two states that differ in forward links only.\<close>

definition same_nodes :: "zskiplist \<Rightarrow> zskiplist \<Rightarrow> bool" where
  "same_nodes z z' \<longleftrightarrow>
     z_header z' = z_header z \<and> z_brk z' = z_brk z \<and> z_tail z' = z_tail z \<and> z_length z' = z_length z \<and>
     z_level z' = z_level z \<and> z_mem z' = z_mem z \<and> z_rng_state z' = z_rng_state z \<and>
     (\<forall>a. zn_score (z_store z' a) = zn_score (z_store z a) \<and> zn_member (z_store z' a) = zn_member (z_store z a) \<and>
        zn_backward (z_store z' a) = zn_backward (z_store z a) \<and> height z' a = height z a)"

lemma same_nodes_refl [simp]: "same_nodes z z"
  by (simp add: same_nodes_def)

lemma same_nodes_trans: "same_nodes z z' \<Longrightarrow> same_nodes z' z'' \<Longrightarrow> same_nodes z z''"
  by (simp add: same_nodes_def)

lemma same_nodesD:
  assumes "same_nodes z z'"
  shows "z_header z' = z_header z" "z_brk z' = z_brk z" "z_tail z' = z_tail z" "z_length z' = z_length z"
    "z_level z' = z_level z" "z_mem z' = z_mem z" "z_rng_state z' = z_rng_state z"
    "zn_score (z_store z' a) = zn_score (z_store z a)" "zn_member (z_store z' a) = zn_member (z_store z a)"
    "zn_backward (z_store z' a) = zn_backward (z_store z a)" "height z' a = height z a"
    "node_key (z_store z' a) = node_key (z_store z a)"
  using assms by (simp_all add: same_nodes_def node_key_def)

lemma same_nodes_set_link [simp]: "same_nodes z (set_link z x i l)"
  by (simp add: same_nodes_def set_link_def height_def)

lemma zlink_set_link:
  "i < height z x \<Longrightarrow> zlink (set_link z x i l) a j = (if a = x \<and> j = i then l else zlink z a j)"
  by (simp add: set_link_def height_def nth_list_update)

lemma height_set_link [simp]: "height (set_link z x i l) a = height z a"
  by (simp add: set_link_def height_def)

lemma set_link_fields [simp]:
  "z_header (set_link z x i l) = z_header z" "z_length (set_link z x i l) = z_length z"
  by (simp_all add: set_link_def)

lemma raise_levels_nodes: "same_nodes z (raise_levels z is)"
proof (induction "is" arbitrary: z)
  case (Cons i "is")
  show ?case unfolding raise_levels.simps
    by (rule same_nodes_trans [OF same_nodes_set_link Cons.IH])
qed simp

lemma raise_levels_link:
  assumes "\<forall>i \<in> set is. i < height z (z_header z)" and "distinct is"
  shows "zlink (raise_levels z is) a j =
    (if a = z_header z \<and> j \<in> set is then (fst (zlink z a j), of_nat (z_length z)) else zlink z a j)"
  using assms by (induction "is" arbitrary: z) (auto simp: zlink_set_link)

lemma link_levels_nodes: "same_nodes z (link_levels z ups n is)"
proof (induction "is" arbitrary: z)
  case (Cons i "is")
  show ?case unfolding link_levels.simps Let_def
    by (rule same_nodes_trans [OF same_nodes_trans [OF same_nodes_set_link same_nodes_set_link] Cons.IH])
qed simp

lemma link_levels_link:
  assumes "\<forall>i \<in> set is. i < height z n \<and> i < height z (fst (ups ! i)) \<and> fst (ups ! i) \<noteq> n" and "distinct is"
  shows "zlink (link_levels z ups n is) a j =
    (if j \<in> set is \<and> a = n
     then (fst (zlink z (fst (ups ! j)) j), snd (zlink z (fst (ups ! j)) j) - (snd (ups ! 0) - snd (ups ! j)))
     else if j \<in> set is \<and> a = fst (ups ! j) then (Some n, snd (ups ! 0) - snd (ups ! j) + 1)
     else zlink z a j)"
  using assms
proof (induction "is" arbitrary: z)
  case (Cons i "is")
  have i: "i < height z n" "i < height z (fst (ups ! i))" "fst (ups ! i) \<noteq> n" "i \<notin> set is" using Cons.prems by auto
  define z' where "z' = set_link (set_link z n i (fst (zlink z (fst (ups ! i)) i),
      snd (zlink z (fst (ups ! i)) i) - (snd (ups ! 0) - snd (ups ! i)))) (fst (ups ! i)) i
      (Some n, snd (ups ! 0) - snd (ups ! i) + 1)"
  have h: "height z' b = height z b" for b by (simp add: z'_def)
  have l: "zlink z' b k = (if b = fst (ups ! i) \<and> k = i then (Some n, snd (ups ! 0) - snd (ups ! i) + 1)
      else if b = n \<and> k = i then (fst (zlink z (fst (ups ! i)) i),
        snd (zlink z (fst (ups ! i)) i) - (snd (ups ! 0) - snd (ups ! i))) else zlink z b k)" for b k
    using i unfolding z'_def by (simp add: zlink_set_link)
  have "link_levels z ups n (i # is) = link_levels z' ups n is" by (simp add: z'_def Let_def)
  then show ?case using Cons.IH [of z'] Cons.prems i by (auto simp: h l)
qed simp

lemma widen_levels_nodes: "same_nodes z (widen_levels z ups is)"
proof (induction "is" arbitrary: z)
  case (Cons i "is")
  show ?case unfolding widen_levels.simps Let_def
    by (rule same_nodes_trans [OF same_nodes_set_link Cons.IH])
qed simp

lemma widen_levels_link:
  assumes "\<forall>i \<in> set is. i < height z (fst (ups ! i))" and "distinct is"
  shows "zlink (widen_levels z ups is) a j =
    (if j \<in> set is \<and> a = fst (ups ! j) then (fst (zlink z a j), snd (zlink z a j) + 1) else zlink z a j)"
  using assms by (induction "is" arbitrary: z) (auto simp: zlink_set_link Let_def)

end
