(* ===== verification/Skiplist_Insert.thy ===== *)
theory Skiplist_Insert
  imports Skiplist_Rep
begin

text \<open>
  Insertion keeps the representation: levels are raised, the new node is linked behind the
  nodes the search found, the spans of the links above it are widened, and the backward links,
  the length and the memory counter follow.
\<close>

lemma random_level_bounds:
  assumes "l \<le> ZSL_MAX_LEVEL" and "random_level_loop l rng = (l', rng')"
  shows "l \<le> l' \<and> l' \<le> ZSL_MAX_LEVEL"
  using assms
proof (induction l rng rule: random_level_loop.induct)
  case (1 l rng)
  show ?case
  proof (cases "l < ZSL_MAX_LEVEL \<and> zsl_rand rng AND 0xFFFF < 0x4000")
    case True
    with "1.prems"(2) have "random_level_loop (l + 1) (zsl_rand rng) = (l', rng')"
      by (subst (asm) random_level_loop.simps) (simp add: Let_def)
    with "1.IH" True show ?thesis by auto
  next
    case False
    with "1.prems" show ?thesis by (subst (asm) random_level_loop.simps) (auto simp: Let_def split: if_splits)
  qed
qed

lemma raise_rep:
  assumes "zrep z ns" and "z_level z \<le> level" and "level \<le> ZSL_MAX_LEVEL"
  shows "zrep ((raise_levels z [z_level z..<level])\<lparr>z_level := level\<rparr>) ns"
proof -
  define z0 where "z0 = raise_levels z [z_level z..<level]"
  note rep = zrepD [OF assms(1)]
  note same = same_nodesD [OF raise_levels_nodes [of z "[z_level z..<level]"], folded z0_def]
  define z1 where "z1 = z0\<lparr>z_level := level\<rparr>"
  have st: "z_store z1 = z_store z0" and f: "z_header z1 = z_header z" "z_level z1 = level" "z_brk z1 = z_brk z"
    "z_tail z1 = z_tail z" "z_length z1 = z_length z" "z_mem z1 = z_mem z"
    by (simp_all add: z1_def same)
  have h: "height z1 a = height z a" for a using same(11) [of a] by (simp add: height_def st)
  have link: "zlink z1 a j = (if a = z_header z \<and> j \<in> {z_level z..<level}
      then (fst (zlink z a j), of_nat (z_length z)) else zlink z a j)" for a j
    unfolding st z0_def using rep(8) assms(3) by (subst raise_levels_link) auto
  have "links_ok z1 ns"
    unfolding links_ok_def
  proof (intro allI impI)
    fix us a vs i
    assume sp: "z_header z1 # ns = us @ a # vs" and i: "i < height z1 a" "i < z_level z1"
    show "zlink z1 a i = map_prod id of_nat (link_to (height z1) i vs)"
    proof (cases "a = z_header z \<and> z_level z \<le> i")
      case True
      then have "us = []" "vs = ns" using sp rep(1) f(1) by (cases us; auto)+
      moreover have "\<forall>b \<in> set ns. height z1 b \<le> i" using rep(7) True h by fastforce
      moreover have "fst (zlink z a i) = None" using True rep(11) i(2) f(2) assms(3) by simp
      ultimately show ?thesis using True i(2) f(2) rep(14) by (simp add: link link_to_None)
    next
      case False
      have "i < z_level z"
      proof (cases "a = z_header z")
        case other: False
        then have "a \<in> set ns" using sp f(1) by (cases us) auto
        with rep(7) [of a] i(1) h [of a] show ?thesis by simp
      qed (use False in simp)
      moreover have "link_to (height z1) i vs = link_to (height z) i vs" by (rule link_to_cong) (simp add: h)
      ultimately show ?thesis
        using links_okD [OF rep(12), of us a vs i] sp i(1) f(1) h [of a] by (simp add: link)
    qed
  qed
  moreover have "backs_ok z1 ns" using rep(13) same(10) by (simp add: backs_ok_def st f)
  moreover have "nodes_bytes z1 ns = nodes_bytes z ns" by (simp add: nodes_bytes_def h st same(9))
  moreover have "\<forall>i. z_level z1 \<le> i \<and> i < ZSL_MAX_LEVEL \<longrightarrow> fst (zlink z1 (z_header z1) i) = None"
    using rep(11) assms(2) by (auto simp: f link)
  ultimately have "zrep z1 ns"
    using assms rep(1,2,3,4,5,6,8,14,15) order_trans [OF rep(7) assms(2)] rep(9)
    by (simp add: zrep_def f h st same(8,9,12))
  then show ?thesis by (simp add: z1_def z0_def)
qed

lemma link_levels_level: "z_level (link_levels z ups n is) = z_level z"
  by (rule same_nodesD(5) [OF link_levels_nodes])

text \<open>The state after a new node \<open>n\<close> is stored and linked.\<close>

definition linked :: "zskiplist \<Rightarrow> (nat \<times> u32) list \<Rightarrow> zsl_node \<Rightarrow> zskiplist" where
  "linked z ups node =
     (let n = z_brk z; level = length (zn_level node);
          z = z\<lparr>z_store := (z_store z)(n := node), z_brk := n + 1\<rparr>
      in widen_levels (link_levels z ups n [0..<level]) ups [level..<z_level z])"

definition ups_ok :: "zskiplist \<Rightarrow> nat list \<Rightarrow> (nat \<times> u32) list \<Rightarrow> bool" where
  "ups_ok z pre ups \<longleftrightarrow> (\<forall>i < z_level z. \<exists>a p. before z pre i a p \<and> ups ! i = (a, of_nat p))"

lemma ups_okE:
  assumes "ups_ok z pre ups" and "i < z_level z"
  obtains u us ws where "z_header z # pre = us @ u # ws" and "i < height z u" and "\<forall>b \<in> set ws. height z b \<le> i"
    and "ups ! i = (u, of_nat (length us))" and "length pre = length us + length ws"
proof -
  from assms obtain u p where b: "before z pre i u p" "ups ! i = (u, of_nat p)" unfolding ups_ok_def by blast
  from b(1) obtain us ws where s: "z_header z # pre = us @ u # ws" "p = length us" "i < height z u"
    "\<forall>b \<in> set ws. height z b \<le> i" by (rule beforeE)
  moreover have "length pre = length us + length ws" using arg_cong [OF s(1), of length] by simp
  ultimately show ?thesis using that b(2) by simp
qed

lemma ups_0:
  assumes "zrep z (pre @ post)" and "ups_ok z pre ups"
  shows "ups ! 0 = (last (z_header z # pre), of_nat (length pre))"
proof -
  have "0 < z_level z" using zrepD(9) [OF assms(1)] by simp
  with assms(2) obtain a p where b: "before z pre 0 a p" "ups ! 0 = (a, of_nat p)" unfolding ups_ok_def by blast
  from before_0 [OF assms(1) b(1)] b(2) show ?thesis by simp
qed

lemma linked_nodes:
  assumes "zrep z (pre @ post)" and "ups_ok z pre ups" and "length (zn_level node) \<le> z_level z"
  shows "z_header (linked z ups node) = z_header z" "z_brk (linked z ups node) = z_brk z + 1"
    "z_tail (linked z ups node) = z_tail z" "z_length (linked z ups node) = z_length z"
    "z_level (linked z ups node) = z_level z" "z_mem (linked z ups node) = z_mem z"
    "zn_score (z_store (linked z ups node) a) = (if a = z_brk z then zn_score node else zn_score (z_store z a))"
    "zn_member (z_store (linked z ups node) a) = (if a = z_brk z then zn_member node else zn_member (z_store z a))"
    "zn_backward (z_store (linked z ups node) a) = (if a = z_brk z then zn_backward node else zn_backward (z_store z a))"
    "height (linked z ups node) a = (if a = z_brk z then length (zn_level node) else height z a)"
proof -
  define z2 where "z2 = z\<lparr>z_store := (z_store z)(z_brk z := node), z_brk := z_brk z + 1\<rparr>"
  have "same_nodes z2 (linked z ups node)"
    unfolding linked_def Let_def z2_def [symmetric] by (rule same_nodes_trans [OF link_levels_nodes widen_levels_nodes])
  note n = same_nodesD [OF this]
  show "z_header (linked z ups node) = z_header z" "z_brk (linked z ups node) = z_brk z + 1"
    "z_tail (linked z ups node) = z_tail z" "z_length (linked z ups node) = z_length z"
    "z_level (linked z ups node) = z_level z" "z_mem (linked z ups node) = z_mem z"
    "zn_score (z_store (linked z ups node) a) = (if a = z_brk z then zn_score node else zn_score (z_store z a))"
    "zn_member (z_store (linked z ups node) a) = (if a = z_brk z then zn_member node else zn_member (z_store z a))"
    "zn_backward (z_store (linked z ups node) a) = (if a = z_brk z then zn_backward node else zn_backward (z_store z a))"
    "height (linked z ups node) a = (if a = z_brk z then length (zn_level node) else height z a)"
    unfolding n by (simp_all add: z2_def height_def)
qed

lemma linked_link:
  assumes "zrep z (pre @ post)" and "ups_ok z pre ups" and "length (zn_level node) \<le> z_level z"
  shows "zlink (linked z ups node) a i =
    (if i < length (zn_level node) \<and> a = z_brk z
     then (fst (zlink z (fst (ups ! i)) i), snd (zlink z (fst (ups ! i)) i) - (snd (ups ! 0) - snd (ups ! i)))
     else if i < length (zn_level node) \<and> a = fst (ups ! i) then (Some (z_brk z), snd (ups ! 0) - snd (ups ! i) + 1)
     else if length (zn_level node) \<le> i \<and> i < z_level z \<and> a = fst (ups ! i)
     then (fst (zlink z a i), snd (zlink z a i) + 1)
     else if a = z_brk z then zn_level node ! i else zlink z a i)"
proof -
  define z2 where "z2 = z\<lparr>z_store := (z_store z)(z_brk z := node), z_brk := z_brk z + 1\<rparr>"
  let ?level = "length (zn_level node)"
  have u: "fst (ups ! j) \<noteq> z_brk z \<and> j < height z (fst (ups ! j))" if j: "j < z_level z" for j
  proof -
    from assms(2) j obtain u us ws where s: "z_header z # pre = us @ u # ws" "j < height z u"
      "ups ! j = (u, of_nat (length us))" by (rule ups_okE)
    have "u \<in> set (z_header z # pre)" unfolding s(1) by simp
    then have "u < z_brk z" using zrepD(2) [OF assms(1), of u] by auto
    with s(2,3) show ?thesis by simp
  qed
  have h: "height z2 b = (if b = z_brk z then ?level else height z b)" for b by (simp add: z2_def height_def)
  have l2: "zlink z2 b j = (if b = z_brk z then zn_level node ! j else zlink z b j)" for b j by (simp add: z2_def)
  let ?z3 = "link_levels z2 ups (z_brk z) [0..<?level]"
  have l3: "zlink ?z3 b j =
    (if j < ?level \<and> b = z_brk z
     then (fst (zlink z (fst (ups ! j)) j), snd (zlink z (fst (ups ! j)) j) - (snd (ups ! 0) - snd (ups ! j)))
     else if j < ?level \<and> b = fst (ups ! j) then (Some (z_brk z), snd (ups ! 0) - snd (ups ! j) + 1)
     else if b = z_brk z then zn_level node ! j else zlink z b j)" for b j
    using assms(3) u by (subst link_levels_link) (auto simp: h l2)
  have h3: "height ?z3 b = (if b = z_brk z then ?level else height z b)" for b
    using same_nodesD(11) [OF link_levels_nodes [of z2 ups "z_brk z" "[0..<?level]"], of b] h by simp
  have eq: "linked z ups node = widen_levels ?z3 ups [?level..<z_level z]"
    by (simp add: linked_def z2_def Let_def)
  have l4: "zlink (widen_levels ?z3 ups [?level..<z_level z]) a i =
      (if i \<in> set [?level..<z_level z] \<and> a = fst (ups ! i) then (fst (zlink ?z3 a i), snd (zlink ?z3 a i) + 1)
       else zlink ?z3 a i)"
    by (rule widen_levels_link) (use u h3 in auto)
  show ?thesis unfolding eq l4 l3 using u [of i] by simp
qed

lemma of_nat_diff_word: "(of_nat (a + b) :: u32) - of_nat a = of_nat b"
  by simp

lemma linked_links_ok:
  assumes rep: "zrep z (pre @ post)" and ups: "ups_ok z pre ups"
    and level: "1 \<le> length (zn_level node)" "length (zn_level node) \<le> z_level z"
  shows "links_ok (linked z ups node) (pre @ z_brk z # post)"
  unfolding links_ok_def
proof (intro allI impI)
  let ?z = "linked z ups node" and ?n = "z_brk z" and ?lv = "length (zn_level node)"
  note nodes = linked_nodes [OF rep ups level(2)]
  note link = linked_link [OF rep ups level(2)]
  note r = zrepD [OF rep]
  have fresh: "b \<noteq> ?n" if "b \<in> set (z_header z # pre @ post)" for b using r(2) [of b] that by auto
  have hts: "link_to (height ?z) i xs = link_to (height z) i xs" if "set xs \<subseteq> set (z_header z # pre @ post)" for i xs
    using that fresh by (intro link_to_cong) (auto simp: nodes(10))
  have hpost: "link_to (height ?z) i post = link_to (height z) i post" for i by (rule hts) auto
  fix us a vs i
  assume sp: "z_header ?z # pre @ ?n # post = us @ a # vs" and ia: "i < height ?z a" and iz: "i < z_level ?z"
  have i: "i < z_level z" using iz nodes(5) by simp
  obtain u us' ws' where u: "z_header z # pre = us' @ u # ws'" "i < height z u" "\<forall>b \<in> set ws'. height z b \<le> i"
    "ups ! i = (u, of_nat (length us'))" "length pre = length us' + length ws'"
    by (rule ups_okE [OF ups i])
  have d: "snd (ups ! 0) - snd (ups ! i) = of_nat (length ws')"
    using ups_0 [OF rep ups] u(4,5) of_nat_diff_word [of "length us'" "length ws'"] by simp
  have old_u: "zlink z u i = map_prod id of_nat (map_prod id ((+) (length ws')) (link_to (height z) i post))"
    using links_okD [OF r(12), of us' u "ws' @ post" i] u(1,2) i link_to_skip [OF u(3), of post] by simp
  have "(z_header z # pre) @ ?n # post = us @ a # vs" using sp nodes(1) by simp
  then show "zlink ?z a i = map_prod id of_nat (link_to (height ?z) i vs)"
  proof (cases rule: split_cases)
    case (left ws)
    have "a \<in> set (z_header z # pre)" unfolding left(1) by simp
    then have an: "a \<noteq> ?n" using fresh [of a] by auto
    have ih: "i < height z a" using ia an by (simp add: nodes(10))
    have wsub: "set ws \<subseteq> set (z_header z # pre @ post)" using arg_cong [OF left(1), of set] by auto
    have old: "zlink z a i = map_prod id of_nat (link_to (height z) i (ws @ post))"
      using links_okD [OF r(12), of us a "ws @ post" i] left(1) ih i by simp
    show ?thesis
    proof (cases "\<exists>c \<in> set ws. i < height z c")
      case True
      have "a \<noteq> u"
      proof
        assume "a = u"
        moreover have "distinct (z_header z # pre)" using r(1) by simp
        ultimately have "ws = ws'" using left(1) u(1) by (simp add: append_Cons_eq_iff) (metis distinct.simps(2) distinct_append append_Cons_eq_iff not_distinct_conv_prefix)
        with True u(3) show False by auto
      qed
      moreover have "\<exists>c \<in> set ws. i < height ?z c" using True wsub fresh by (force simp: nodes(10))
      ultimately show ?thesis
        using old an u(4) link_to_found [of ws i "height z" post] True link_to_found [of ws i "height ?z" "?n # post"]
          hts [OF wsub, of i]
        by (simp add: link left(2))
    next
      case False
      then have short: "\<forall>c \<in> set ws. height z c \<le> i" by (auto simp: not_less)
      have bu: "before z pre i u (length us')" by (rule beforeI [OF u(1,2,3)])
      have "a = u" "length us' = length us"
        using before_unique [OF _ bu left(1) ih short] r(1) by simp_all
      then have ws: "length ws = length ws'"
        using u(5) arg_cong [OF left(1), of length] by simp
      have short': "\<forall>c \<in> set ws. height ?z c \<le> i" using short wsub fresh by (force simp: nodes(10))
      have new: "link_to (height ?z) i vs = map_prod id ((+) (length ws)) (link_to (height ?z) i (?n # post))"
        unfolding left(2) by (rule link_to_skip [OF short'])
      show ?thesis
      proof (cases "i < ?lv")
        case True
        then have "link_to (height ?z) i (?n # post) = (Some ?n, 1)" by (simp add: nodes(10))
        with True \<open>a = u\<close> an u(4) d ws show ?thesis by (simp add: link new)
      next
        case ge: False
        have "link_to (height ?z) i (?n # post) = map_prod id Suc (link_to (height z) i post)"
          using ge hpost by (simp add: nodes(10))
        with ge \<open>a = u\<close> an u(4) i ws show ?thesis
          by (simp add: link new old_u) (simp add: map_prod_def split: prod.splits)
      qed
    qed
  next
    case mid
    have "i < ?lv" using ia mid by (simp add: nodes(10))
    then have "zlink ?z a i = map_prod id of_nat (link_to (height z) i post)"
      using mid u(4) d by (simp add: link old_u) (simp add: map_prod_def split: prod.splits)
    with mid hpost show ?thesis by simp
  next
    case (right ws)
    have "a \<in> set post" using right(2) by simp
    then have an: "a \<noteq> ?n" using fresh by auto
    have "a \<noteq> u"
    proof -
      have "u \<in> set (z_header z # pre)" unfolding u(1) by simp
      with \<open>a \<in> set post\<close> r(1) show ?thesis by auto
    qed
    moreover have "z_header z # pre @ post = (z_header z # pre @ ws) @ a # vs" using right(2) by simp
    moreover have "set vs \<subseteq> set (z_header z # pre @ post)" using right(2) by auto
    ultimately show ?thesis
      using links_okD [OF r(12), of "z_header z # pre @ ws" a vs i] ia i an u(4) hts [of vs i]
      by (simp add: link nodes(10))
  qed
qed

section \<open>Backward links and counters\<close>

lemma set_backward_simps [simp]:
  "z_header (set_backward z x p) = z_header z" "z_brk (set_backward z x p) = z_brk z"
  "z_tail (set_backward z x p) = z_tail z" "z_length (set_backward z x p) = z_length z"
  "z_level (set_backward z x p) = z_level z" "z_mem (set_backward z x p) = z_mem z"
  "zn_score (z_store (set_backward z x p) a) = zn_score (z_store z a)"
  "zn_member (z_store (set_backward z x p) a) = zn_member (z_store z a)"
  "zn_level (z_store (set_backward z x p) a) = zn_level (z_store z a)"
  "zn_backward (z_store (set_backward z x p) a) = (if a = x then p else zn_backward (z_store z a))"
  by (simp_all add: set_backward_def)

text \<open>The last steps of an insertion, once the node is linked.\<close>

definition finished :: "zskiplist \<Rightarrow> nat \<Rightarrow> nat \<Rightarrow> nat \<Rightarrow> zskiplist" where
  "finished z n u bytes =
     (let z = set_backward z n (if u = z_header z then None else Some u);
          z = (case fst (zlink z n 0) of
                 Some y \<Rightarrow> set_backward z y (Some n)
               | None \<Rightarrow> z\<lparr>z_tail := Some n\<rparr>);
          z = z\<lparr>z_length := z_length z + 1\<rparr>
      in z\<lparr>z_mem := u64_add (z_mem z) bytes\<rparr>)"

lemma finished_simps:
  "z_header (finished z n u b) = z_header z" "z_brk (finished z n u b) = z_brk z"
  "z_level (finished z n u b) = z_level z" "z_length (finished z n u b) = z_length z + 1"
  "z_mem (finished z n u b) = u64_add (z_mem z) b"
  "z_tail (finished z n u b) = (if fst (zlink z n 0) = None then Some n else z_tail z)"
  "zn_score (z_store (finished z n u b) a) = zn_score (z_store z a)"
  "zn_member (z_store (finished z n u b) a) = zn_member (z_store z a)"
  "zn_level (z_store (finished z n u b) a) = zn_level (z_store z a)"
  "zn_backward (z_store (finished z n u b) a) =
     (if fst (zlink z n 0) = Some a then Some n
      else if a = n then (if u = z_header z then None else Some u) else zn_backward (z_store z a))"
  by (simp_all add: finished_def Let_def split: option.splits)

lemma links_ok_cong:
  assumes "z_header z' = z_header z" and "z_level z' = z_level z"
    and "\<And>a. zn_level (z_store z' a) = zn_level (z_store z a)"
  shows "links_ok z' ns = links_ok z ns"
proof -
  have "height z' = height z" by (rule ext) (simp add: height_def assms(3))
  then show ?thesis by (simp add: links_ok_def assms)
qed

lemma insert_finish:
  assumes rep: "zrep z (pre @ post)" and ups: "ups_ok z pre ups"
    and level: "1 \<le> length (zn_level node)" "length (zn_level node) \<le> z_level z"
    and node: "\<not> dbl_isnan (zn_score node)" "length (zn_member node) \<le> UINT32_MAX"
    and keys: "\<forall>a \<in> set pre. node_key (z_store z a) < node_key node"
      "\<forall>a \<in> set post. node_key node < node_key (z_store z a)"
    and bytes: "z_mem z + node_bytes (length (zn_level node)) (length (zn_member node)) \<le> UINT64_MAX"
  defines "z' \<equiv> finished (linked z ups node) (z_brk z) (fst (ups ! 0))
    (node_bytes (length (zn_level node)) (length (zn_member node)))"
  shows "zrep z' (pre @ z_brk z # post)"
proof -
  let ?z = "linked z ups node" and ?n = "z_brk z"
  note nodes = linked_nodes [OF rep ups level(2)]
  note r = zrepD [OF rep]
  note ok = linked_links_ok [OF rep ups level]
  have f: "z_header z' = z_header z" "z_brk z' = z_brk z + 1" "z_level z' = z_level z" "z_length z' = z_length z + 1"
    "\<And>a. zn_score (z_store z' a) = (if a = ?n then zn_score node else zn_score (z_store z a))"
    "\<And>a. zn_member (z_store z' a) = (if a = ?n then zn_member node else zn_member (z_store z a))"
    by (simp_all add: z'_def finished_simps nodes)
  have h: "height z' a = (if a = ?n then length (zn_level node) else height z a)" for a
    using nodes(10) [of a] by (simp add: z'_def height_def finished_simps)
  have key: "node_key (z_store z' a) = (if a = ?n then node_key node else node_key (z_store z a))" for a
    by (simp add: node_key_def f)
  have fresh: "?n \<notin> set (z_header z # pre @ post)" using r(2) [of ?n] by auto
  have old: "a \<noteq> ?n" if "a \<in> set (z_header z # pre @ post)" for a using that fresh by metis
  have u: "fst (ups ! 0) = last (z_header z # pre)" using ups_0 [OF rep ups] by simp
  have first: "fst (zlink ?z ?n 0) = (if post = [] then None else Some (hd post))"
  proof -
    have "z_header ?z # pre @ ?n # post = (z_header z # pre) @ ?n # post" by (simp add: nodes)
    then have "zlink ?z ?n 0 = map_prod id of_nat (link_to (height ?z) 0 post)"
      using links_okD [OF ok, of _ ?n post 0] level r(9) by (cases "zn_level node") (auto simp: nodes)
    moreover have "0 < height ?z (hd post)" if "post \<noteq> []"
      using that r(6) [of "hd post"] old [of "hd post"] by (simp add: nodes)
    ultimately show ?thesis by (cases post) auto
  qed
  have sorted: "sorted_wrt (<) (map (\<lambda>a. node_key (z_store z' a)) (pre @ ?n # post))"
  proof -
    have "map (\<lambda>a. node_key (z_store z' a)) xs = map (\<lambda>a. node_key (z_store z a)) xs" if "set xs \<subseteq> set (pre @ post)" for xs
      using that old by (auto simp: key)
    from this [of pre] this [of post] show ?thesis
      using r(3) keys by (auto simp: sorted_wrt_append key simp del: map_eq_conv intro: order.strict_trans)
  qed
  have "links_ok z' (pre @ ?n # post)"
    using ok links_ok_cong [of z' ?z] by (simp add: z'_def finished_simps)
  moreover have "backs_ok z' (pre @ ?n # post)"
    unfolding backs_ok_def
  proof (intro conjI allI impI)
    fix us a vs assume "pre @ ?n # post = us @ a # vs"
    then show "zn_backward (z_store z' a) = (if us = [] then None else Some (last us))"
    proof (cases rule: split_cases)
      case (left ws)
      then have "a \<in> set pre" by simp
      then have "a \<noteq> ?n" "a \<notin> set post" using old [of a] r(1) by auto
      then have "zn_backward (z_store z' a) = zn_backward (z_store z a)"
        using first by (cases post) (auto simp: z'_def finished_simps nodes)
      moreover have "pre @ post = us @ a # (ws @ post)" using left(1) by simp
      ultimately show ?thesis using r(13) unfolding backs_ok_def by metis
    next
      case mid
      have "fst (zlink ?z ?n 0) \<noteq> Some ?n" using first old [of "hd post"] by (cases post) auto
      moreover have "pre \<noteq> [] \<Longrightarrow> last pre \<noteq> z_header z" using r(1) last_in_set [of pre] by (metis distinct.simps(2) Un_iff set_append)
      ultimately show ?thesis using mid u by (auto simp: z'_def finished_simps nodes)
    next
      case (right ws)
      have "a \<in> set post" using right(2) by simp
      then have "a \<noteq> ?n" using old [of a] by auto
      have "distinct post" using r(1) by simp
      show ?thesis
      proof (cases ws)
        case Nil
        then show ?thesis using right first by (simp add: z'_def finished_simps)
      next
        case (Cons w ws')
        then have "hd post \<noteq> a" using \<open>distinct post\<close> right(2) by auto
        then have "zn_backward (z_store z' a) = zn_backward (z_store z a)"
          using first \<open>a \<noteq> ?n\<close> by (auto simp: z'_def finished_simps nodes)
        moreover have "pre @ post = (pre @ ws) @ a # vs" using right(2) by simp
        then have "zn_backward (z_store z a) = (if pre @ ws = [] then None else Some (last (pre @ ws)))"
          using r(13) unfolding backs_ok_def by blast
        ultimately show ?thesis using right(1) Cons by simp
      qed
    qed
  next
    show "z_tail z' = (if pre @ ?n # post = [] then None else Some (last (pre @ ?n # post)))"
      using first r(13) by (auto simp: z'_def finished_simps nodes backs_ok_def)
  qed
  moreover have "nodes_bytes z' (pre @ ?n # post) =
      nodes_bytes z (pre @ post) + node_bytes (length (zn_level node)) (length (zn_member node))"
  proof -
    have "nodes_bytes z' xs = nodes_bytes z xs" if "set xs \<subseteq> set (pre @ post)" for xs
      unfolding nodes_bytes_def using that old by (intro arg_cong [of _ _ sum_list] map_cong) (auto simp: f h)
    from this [of pre] this [of post] show ?thesis by (simp add: nodes_bytes_def f h)
  qed
  moreover have "z_mem z' = z_mem z + node_bytes (length (zn_level node)) (length (zn_member node))"
    using bytes by (simp add: z'_def finished_simps nodes u64_add_eq)
  moreover have "fst (zlink z' (z_header z') i) = None" if "z_level z' \<le> i" "i < ZSL_MAX_LEVEL" for i
  proof -
    have "zlink ?z (z_header z) i = zlink z (z_header z) i"
      using that level(2) old [of "z_header z"] linked_link [OF rep ups level(2), of "z_header z" i] f(3) by simp
    then show ?thesis using r(11) [of i] that f(1,3) by (simp add: z'_def finished_simps)
  qed
  moreover have "distinct (z_header z' # pre @ ?n # post)" using r(1) fresh by (auto simp: f)
  moreover have "\<forall>a \<in> set (z_header z' # pre @ ?n # post). a < z_brk z'" using r(2) by (auto simp: f less_Suc_eq)
  moreover have "\<forall>a \<in> set (pre @ ?n # post). \<not> dbl_isnan (zn_score (z_store z' a)) \<and>
      length (zn_member (z_store z' a)) \<le> UINT32_MAX \<and> 1 \<le> height z' a \<and> height z' a \<le> z_level z'"
    using r(4,5,6,7) node level by (auto simp: f h)
  moreover have "height z' (z_header z') = ZSL_MAX_LEVEL" using r(8) old [of "z_header z"] by (simp add: f h)
  ultimately show ?thesis
    using sorted r(9,10,14,15) unfolding zrep_def by (simp add: f)
qed

section \<open>The whole insertion\<close>

definition zentries :: "zskiplist \<Rightarrow> nat list \<Rightarrow> (double \<times> bytes) list" where
  "zentries z ns = map (\<lambda>a. (zn_score (z_store z a), zn_member (z_store z a))) ns"

lemma zrep_rng: "zrep z ns \<Longrightarrow> zrep (z\<lparr>z_rng_state := r\<rparr>) ns"
proof -
  have "height (z\<lparr>z_rng_state := r\<rparr>) = height z" by (rule ext) (simp add: height_def)
  then show "zrep z ns \<Longrightarrow> zrep (z\<lparr>z_rng_state := r\<rparr>) ns"
    by (simp add: zrep_def links_ok_def backs_ok_def nodes_bytes_def)
qed

lemma before_cong:
  assumes "z_header z' = z_header z" and "\<And>a. height z' a = height z a"
  shows "before z' pre i a p = before z pre i a p"
  by (simp add: before_def assms)

lemma raised_ups_ok:
  assumes rep: "zrep z (pre @ post)" and len: "length ups = z_level z"
    and ups: "\<And>i. i < z_level z \<Longrightarrow> \<exists>a p. before z pre i a p \<and> ups ! i = (a, of_nat p)"
    and z': "z_header z' = z_header z" "\<And>a. height z' a = height z a" "z_level z' = max level (z_level z)"
    and level: "level \<le> ZSL_MAX_LEVEL"
  shows "ups_ok z' pre (ups @ replicate (level - z_level z) (z_header z, 0))"
  unfolding ups_ok_def
proof (intro allI impI)
  fix i assume i: "i < z_level z'"
  show "\<exists>a p. before z' pre i a p \<and> (ups @ replicate (level - z_level z) (z_header z, 0)) ! i = (a, of_nat p)"
  proof (cases "i < z_level z")
    case True
    with ups len show ?thesis by (simp add: nth_append before_cong [OF z'(1,2)])
  next
    case False
    have "\<forall>b \<in> set pre. height z b \<le> i" using zrepD(7) [OF rep] False by fastforce
    moreover have "i < height z (z_header z)" using zrepD(8,10) [OF rep] i z'(3) level by simp
    ultimately have "before z pre i (z_header z) 0" using beforeI [of z pre "[]" "z_header z" pre i] by simp
    then show ?thesis
      using False i z'(3) len by (intro exI [of _ "z_header z"] exI [of _ 0]) (simp add: before_cong [OF z'(1,2)] nth_append)
  qed
qed

lemma node_bytes_mono: "level \<le> ZSL_MAX_LEVEL \<Longrightarrow> node_bytes level m \<le> node_bytes ZSL_MAX_LEVEL m"
  by (simp add: node_bytes_def)

lemma zsl_node_bytes_eq:
  assumes "level \<le> ZSL_MAX_LEVEL" and "m \<le> UINT32_MAX"
  shows "zsl_node_bytes level m = Some (node_bytes level m)"
  using assms by (simp add: zsl_node_bytes_def node_bytes_def c_limits ZSL_MAX_LEVEL_def Let_def)

lemma zsl_node_new_eq:
  assumes "level \<le> ZSL_MAX_LEVEL" and "length member \<le> UINT32_MAX"
  shows "zsl_node_new level score member =
    Some \<lparr>zn_score = score, zn_backward = None, zn_member = member, zn_level = replicate level (None, 0)\<rparr>"
  using assms by (simp add: zsl_node_new_def c_limits ZSL_MAX_LEVEL_def)

lemma cmp_cut:
  assumes rep: "zrep z (pre @ post)" and nan: "\<not> dbl_isnan score"
    and "\<forall>a \<in> set pre. node_key (z_store z a) < zkey score member"
    and "\<forall>a \<in> set post. \<not> node_key (z_store z a) < zkey score member"
    and "\<And>p d. step (acc p) (of_nat d) = acc (p + d)"
  shows "cut_search z (pre @ post) pre (\<lambda>y _ _. node_cmp y score member < 0) step acc"
proof (rule cut_by)
  note iff = node_cmp_iff(1) [OF zrepD(4) [OF rep] nan]
  show "\<forall>a \<in> set pre. node_cmp (z_store z a) score member < 0" using assms(3) iff by simp
  show "\<forall>a \<in> set post. \<not> node_cmp (z_store z a) score member < 0" using assms(4) iff by simp
qed (rule assms(5))

lemma u64_add_le: "u64_add a b \<le> UINT64_MAX"
  by (simp add: u64_add_def c_limits)

lemma zsl_insert_refines:
  assumes rep: "zrep z ns" and nan: "\<not> dbl_isnan score" and len: "length member \<le> UINT32_MAX"
    and new: "\<forall>a \<in> set ns. node_key (z_store z a) \<noteq> zkey score member"
    and mem: "z_mem z + node_bytes ZSL_MAX_LEVEL (length member) \<le> UINT64_MAX"
  obtains z' pre post where "zsl_insert z score member = Some (0, z')" and "ns = pre @ post"
    and "\<forall>a \<in> set pre. node_key (z_store z a) < zkey score member"
    and "\<forall>a \<in> set post. \<not> node_key (z_store z a) < zkey score member"
    and "zrep z' (pre @ z_brk z # post)"
    and "zentries z' (pre @ z_brk z # post) = zentries z pre @ (score, member) # zentries z post"
    and "z_mem z' \<le> UINT64_MAX"
proof -
  obtain pre post where ns: "ns = pre @ post" and pre: "\<forall>a \<in> set pre. node_key (z_store z a) < zkey score member"
    and post: "\<forall>a \<in> set post. \<not> node_key (z_store z a) < zkey score member"
    by (rule key_cut [OF rep])
  note rep' = rep [unfolded ns]
  have cut: "cut_search z ns pre (\<lambda>y _ _. node_cmp y score member < 0) (+) (of_nat :: nat \<Rightarrow> u32)"
    unfolding ns by (rule cmp_cut [OF rep' nan pre post]) simp
  obtain ups where ups: "zsl_descend (z_store z) (\<lambda>y _ _. node_cmp y score member < 0) (+) (z_level z) (z_header z) 0 = Some ups"
    "length ups = z_level z" "\<And>i. i < z_level z \<Longrightarrow> \<exists>a p. before z pre i a p \<and> ups ! i = (a, of_nat p)"
    using descend_from_header [OF rep ns cut] by (auto simp: of_nat_0)
  obtain level rng where lv: "zsl_random_level (z_rng_state z) = (level, rng)" by fastforce
  have lvb: "1 \<le> level" "level \<le> ZSL_MAX_LEVEL"
    using random_level_bounds [of 1 "z_rng_state z" level rng] lv by (simp_all add: zsl_random_level_def ZSL_MAX_LEVEL_def)
  define z0 where "z0 = z\<lparr>z_rng_state := rng\<rparr>"
  define z1 where "z1 = (if level > z_level z then (raise_levels z0 [z_level z..<level])\<lparr>z_level := level\<rparr> else z0)"
  define ups1 where "ups1 = ups @ replicate (level - z_level z) (z_header z, 0)"
  have z0: "zrep z0 ns" "z_level z0 = z_level z" unfolding z0_def using zrep_rng [OF rep] by simp_all
  have rep1: "zrep z1 (pre @ post)"
    using raise_rep [OF z0(1), of level] z0(2) lvb(2) z0(1) unfolding z1_def ns by auto
  have f1: "z_header z1 = z_header z" "z_brk z1 = z_brk z" "z_level z1 = max level (z_level z)" "z_mem z1 = z_mem z"
    "\<And>a. height z1 a = height z a" "\<And>a. zn_score (z_store z1 a) = zn_score (z_store z a)"
    "\<And>a. zn_member (z_store z1 a) = zn_member (z_store z a)"
    using same_nodesD [OF raise_levels_nodes [of z0 "[z_level z..<level]"]]
    by (auto simp: z1_def z0_def height_def max_def)
  have ok: "ups_ok z1 pre ups1"
    unfolding ups1_def by (rule raised_ups_ok [OF rep' ups(2,3) f1(1,5,3) lvb(2)])
  define node where "node = \<lparr>zn_score = score, zn_backward = None, zn_member = member, zn_level = replicate level (None, 0)\<rparr>"
  define z' where "z' = finished (linked z1 ups1 node) (z_brk z1) (fst (ups1 ! 0)) (node_bytes level (length member))"
  have key: "node_key node = zkey score member" "\<And>a. node_key (z_store z1 a) = node_key (z_store z a)"
    by (simp_all add: node_key_def node_def f1)
  have post': "\<forall>a \<in> set post. zkey score member < node_key (z_store z a)"
    using post new ns by (metis Un_iff linorder_neqE set_append)
  have rep2: "zrep z' (pre @ z_brk z # post)"
    using insert_finish [OF rep1 ok, of node] lvb f1(3,4) nan len pre post' mem node_bytes_mono [OF lvb(2), of "length member"]
    by (simp add: z'_def node_def key f1 key(1) [unfolded node_def])
  have e: "(if level > z_level z0
        then ((raise_levels z0 [z_level z0..<level])\<lparr>z_level := level\<rparr>, ups @ replicate (level - z_level z0) (z_header z0, 0))
        else (z0, ups)) = (z1, ups1)"
    by (simp add: z1_def ups1_def z0(2)) (simp add: z0_def)
  have z4: "widen_levels (link_levels (z1\<lparr>z_store := (z_store z1)(z_brk z1 := node), z_brk := z_brk z1 + 1\<rparr>)
        ups1 (z_brk z1) [0..<level]) ups1 [level..<z_level (link_levels
          (z1\<lparr>z_store := (z_store z1)(z_brk z1 := node), z_brk := z_brk z1 + 1\<rparr>) ups1 (z_brk z1) [0..<level])] =
      linked z1 ups1 node"
    by (simp add: linked_def Let_def link_levels_level node_def)
  have "zsl_insert z score member = Some (0, z')"
    unfolding zsl_insert_def if_not_P [OF len [unfolded not_less [symmetric]]] ups(1) option.case lv prod.case Let_def
      z0_def [symmetric] e zsl_node_new_eq [OF lvb(2) len] zsl_node_bytes_eq [OF lvb(2) len]
      node_def [symmetric] z4 z'_def finished_def ..
  moreover have "zentries z' (pre @ z_brk z # post) = zentries z pre @ (score, member) # zentries z post"
  proof -
    have lvz: "length (zn_level node) \<le> z_level z1" using f1(3) by (simp add: node_def)
    note nodes = linked_nodes [OF rep1 ok lvz]
    have "a \<noteq> z_brk z" if "a \<in> set (pre @ post)" for a using zrepD(2) [OF rep', of a] that by auto
    moreover have "zn_score node = score" "zn_member node = member" by (simp_all add: node_def)
    ultimately show ?thesis by (auto simp: zentries_def z'_def finished_simps nodes f1)
  qed
  moreover have "z_mem z' \<le> UINT64_MAX" by (simp add: z'_def finished_simps u64_add_le)
  ultimately show ?thesis using that ns pre post rep2 by blast
qed

end
