(* ===== verification/Skiplist_Delete.thy ===== *)
theory Skiplist_Delete
  imports Skiplist_Insert
begin

text \<open>Deletion keeps the representation, down to the spans and the height of the list.\<close>

lemma append_split_cases:
  assumes "xs @ ys = us @ a # vs"
  obtains (left) ws where "xs = us @ a # ws" and "vs = ws @ ys"
  | (right) ws where "us = xs @ ws" and "ys = ws @ a # vs"
proof -
  from assms consider ws where "xs = us @ ws" "ws @ ys = a # vs" | ws where "us = xs @ ws" "ys = ws @ a # vs"
    by (auto simp: append_eq_append_conv2)
  then show ?thesis
  proof cases
    case (1 ws)
    then show ?thesis using left right [of "[]"] by (cases ws) auto
  qed (use right in blast)
qed

section \<open>Unlinking\<close>

lemma unlink_levels_nodes: "same_nodes z (fst (unlink_levels z ups x is level))"
proof (induction "is" arbitrary: z level)
  case (Cons i "is")
  show ?case unfolding unlink_levels.simps Let_def
    by (cases "fst (zlink z (fst (ups ! i)) i) = Some x")
      (auto intro: same_nodes_trans [OF same_nodes_set_link Cons.IH])
qed simp

lemma unlink_levels_link:
  assumes "\<forall>i \<in> set is. i < height z (fst (ups ! i)) \<and> fst (ups ! i) \<noteq> x" and "distinct is"
  shows "zlink (fst (unlink_levels z ups x is level)) a j =
    (if j \<in> set is \<and> a = fst (ups ! j)
     then if fst (zlink z a j) = Some x then (fst (zlink z x j), snd (zlink z a j) + (snd (zlink z x j) - 1))
          else (fst (zlink z a j), snd (zlink z a j) - 1)
     else zlink z a j)"
  using assms
proof (induction "is" arbitrary: z level)
  case (Cons i "is")
  have i: "i < height z (fst (ups ! i))" "fst (ups ! i) \<noteq> x" "i \<notin> set is" using Cons.prems by auto
  define l where "l = (if fst (zlink z (fst (ups ! i)) i) = Some x
      then (fst (zlink z x i), snd (zlink z (fst (ups ! i)) i) + (snd (zlink z x i) - 1))
      else (fst (zlink z (fst (ups ! i)) i), snd (zlink z (fst (ups ! i)) i) - 1))"
  define z' where "z' = set_link z (fst (ups ! i)) i l"
  have lk: "zlink z' b k = (if b = fst (ups ! i) \<and> k = i then l else zlink z b k)" for b k
    unfolding z'_def by (rule zlink_set_link [OF i(1)])
  have h: "height z' b = height z b" for b by (simp add: z'_def)
  have "\<exists>level'. unlink_levels z ups x (i # is) level = unlink_levels z' ups x is level'"
    by (auto simp: z'_def l_def Let_def)
  then obtain level' where "unlink_levels z ups x (i # is) level = unlink_levels z' ups x is level'" by blast
  then show ?case using Cons.IH [of z' level'] Cons.prems i by (auto simp: h lk l_def)
qed simp

text \<open>The level it counts is the height of the node.\<close>

lemma unlink_levels_level:
  assumes "\<forall>i \<in> {a..<k}. i < height z (fst (ups ! i)) \<and> fst (ups ! i) \<noteq> x"
    and "\<forall>i \<in> {a..<k}. fst (zlink z (fst (ups ! i)) i) = Some x \<longleftrightarrow> i < h" and "h \<le> k"
  shows "snd (unlink_levels z ups x [a..<k] level) = (if a < h then h else level)"
  using assms
proof (induction "k - a" arbitrary: a z level)
  case 0
  then show ?case by simp
next
  case (Suc n)
  then have a: "a < k" by simp
  define l where "l = (if a < h
      then (fst (zlink z x a), snd (zlink z (fst (ups ! a)) a) + (snd (zlink z x a) - 1))
      else (fst (zlink z (fst (ups ! a)) a), snd (zlink z (fst (ups ! a)) a) - 1))"
  define z' where "z' = set_link z (fst (ups ! a)) a l"
  have ha: "a < height z (fst (ups ! a))" using Suc.prems(1) a by simp
  have fa: "fst (zlink z (fst (ups ! a)) a) = Some x \<longleftrightarrow> a < h" using Suc.prems(2) a by simp
  have "unlink_levels z ups x [a..<k] level = unlink_levels z' ups x [Suc a..<k] (if a < h then a + 1 else level)"
    using fa by (simp add: upt_conv_Cons [OF a] z'_def l_def Let_def)
  moreover have "zlink z' b i = zlink z b i" if "i \<noteq> a" for b i
    unfolding z'_def using zlink_set_link [OF ha] that by simp
  then have "snd (unlink_levels z' ups x [Suc a..<k] (if a < h then a + 1 else level)) =
      (if Suc a < h then h else (if a < h then a + 1 else level))"
    using Suc.prems Suc.hyps(2) by (intro Suc.hyps(1)) (auto simp: z'_def)
  ultimately show ?case using Suc.prems(3) by auto
qed

definition dels_ok :: "zskiplist \<Rightarrow> nat list \<Rightarrow> (nat \<times> unit) list \<Rightarrow> bool" where
  "dels_ok z pre ups \<longleftrightarrow> (\<forall>i < z_level z. \<exists>a p. before z pre i a p \<and> ups ! i = (a, ()))"

lemma dels_okE:
  assumes "dels_ok z pre ups" and "i < z_level z"
  obtains u us ws where "z_header z # pre = us @ u # ws" and "i < height z u" and "\<forall>b \<in> set ws. height z b \<le> i"
    and "fst (ups ! i) = u" and "before z pre i u (length us)"
proof -
  from assms obtain u p where b: "before z pre i u p" "ups ! i = (u, ())" unfolding dels_ok_def by blast
  from b(1) obtain us ws where "z_header z # pre = us @ u # ws" "p = length us" "i < height z u"
    "\<forall>b \<in> set ws. height z b \<le> i" by (rule beforeE)
  then show ?thesis using that b by simp
qed

lemma unlinked_ups:
  assumes rep: "zrep z (pre @ x # post)" and ups: "dels_ok z pre ups" and i: "i < z_level z"
  shows "i < height z (fst (ups ! i)) \<and> fst (ups ! i) \<noteq> x"
    and "fst (zlink z (fst (ups ! i)) i) = Some x \<longleftrightarrow> i < height z x"
proof -
  note r = zrepD [OF rep]
  obtain u us ws where u: "z_header z # pre = us @ u # ws" "i < height z u" "\<forall>b \<in> set ws. height z b \<le> i"
    "fst (ups ! i) = u" by (rule dels_okE [OF ups i])
  have "u \<in> set (z_header z # pre)" unfolding u(1) by simp
  then have "u \<noteq> x" using r(1) by auto
  with u show "i < height z (fst (ups ! i)) \<and> fst (ups ! i) \<noteq> x" by simp
  have "zlink z u i = map_prod id of_nat (map_prod id ((+) (length ws)) (link_to (height z) i (x # post)))"
    using links_okD [OF r(12), of us u "ws @ x # post" i] u(1,2) i link_to_skip [OF u(3), of "x # post"] by simp
  moreover have "fst (link_to (height z) i post) \<noteq> Some x" using link_to_mem [of "height z" i post x] r(1) by auto
  ultimately show "fst (zlink z (fst (ups ! i)) i) = Some x \<longleftrightarrow> i < height z x" using u(4) by simp
qed

lemma unlinked_links_ok:
  assumes rep: "zrep z (pre @ x # post)" and ups: "dels_ok z pre ups"
  defines "z' \<equiv> fst (unlink_levels z ups x [0..<z_level z] 0)"
  shows "links_ok z' (pre @ post)"
  unfolding links_ok_def
proof (intro allI impI)
  note r = zrepD [OF rep]
  note same = same_nodesD [OF unlink_levels_nodes [of z ups x "[0..<z_level z]" 0], folded z'_def]
  have h: "height z' = height z" by (rule ext) (rule same(11))
  have link: "zlink z' a j =
    (if j < z_level z \<and> a = fst (ups ! j)
     then if fst (zlink z a j) = Some x then (fst (zlink z x j), snd (zlink z a j) + (snd (zlink z x j) - 1))
          else (fst (zlink z a j), snd (zlink z a j) - 1)
     else zlink z a j)" for a j
    unfolding z'_def using unlinked_ups(1) [OF rep ups] by (subst unlink_levels_link) auto
  fix us a vs i
  assume sp: "z_header z' # pre @ post = us @ a # vs" and ia: "i < height z' a" and iz: "i < z_level z'"
  have i: "i < z_level z" and ih: "i < height z a" using iz ia same by (simp_all add: h)
  obtain u us' ws' where u: "z_header z # pre = us' @ u # ws'" "i < height z u" "\<forall>b \<in> set ws'. height z b \<le> i"
    "fst (ups ! i) = u" "before z pre i u (length us')"
    by (rule dels_okE [OF ups i])
  have dist: "distinct (z_header z # pre)" using r(1) by simp
  have "(z_header z # pre) @ post = us @ a # vs" using sp same by simp
  then show "zlink z' a i = map_prod id of_nat (link_to (height z') i vs)"
  proof (cases rule: append_split_cases)
    case 1: (left ws)
    have old: "zlink z a i = map_prod id of_nat (link_to (height z) i (ws @ x # post))"
      using links_okD [OF r(12), of us a "ws @ x # post" i] 1 ih i by simp
    show ?thesis
    proof (cases "\<exists>c \<in> set ws. i < height z c")
      case True
      have "a \<noteq> u"
      proof
        assume "a = u"
        then have eq: "us @ u # ws = us' @ u # ws'" and d: "distinct (us @ u # ws)"
          using 1(1) u(1) dist by metis+
        from d have "u \<notin> set us" "u \<notin> set ws" by auto
        then have "ws = ws'" using eq append_Cons_eq_iff by metis
        with True u(3) show False by auto
      qed
      with old True 1(2) u(4) show ?thesis by (simp add: link h link_to_found)
    next
      case False
      then have short: "\<forall>c \<in> set ws. height z c \<le> i" by (auto simp: not_less)
      have "a = u" using before_unique(1) [OF dist u(5) 1(1) ih short] .
      have new: "link_to (height z) i vs = map_prod id ((+) (length ws)) (link_to (height z) i post)"
        unfolding 1(2) by (rule link_to_skip [OF short])
      have old': "zlink z a i = map_prod id of_nat (map_prod id ((+) (length ws)) (link_to (height z) i (x # post)))"
        unfolding old by (simp only: link_to_skip [OF short])
      show ?thesis
      proof (cases "i < height z x")
        case True
        have "z_header z # pre @ x # post = (z_header z # pre) @ x # post" by simp
        then have "zlink z x i = map_prod id of_nat (link_to (height z) i post)"
          using links_okD [OF r(12), of "z_header z # pre" x post i] True i by simp
        with True \<open>a = u\<close> u(4) i old' show ?thesis
          by (simp add: link h new) (simp add: map_prod_def split: prod.splits)
      next
        case low: False
        have "fst (link_to (height z) i post) \<noteq> Some x" using link_to_mem [of "height z" i post x] r(1) by auto
        with low \<open>a = u\<close> u(4) i old' show ?thesis
          by (simp add: link h new) (simp add: map_prod_def split: prod.splits)
      qed
    qed
  next
    case 2: (right ws)
    have "a \<in> set post" using 2 by simp
    moreover have "u \<in> set (z_header z # pre)" unfolding u(1) by simp
    ultimately have "a \<noteq> u" using r(1) by auto
    moreover have "z_header z # pre @ x # post = (z_header z # pre @ x # ws) @ a # vs" using 2 by simp
    then have "zlink z a i = map_prod id of_nat (link_to (height z) i vs)"
      using links_okD [OF r(12), of "z_header z # pre @ x # ws" a vs i] ih i by simp
    ultimately show ?thesis using u(4) by (simp add: link h)
  qed
qed

section \<open>Lowering the list\<close>

lemma link_to_fst_None: "fst (link_to h i xs) = None \<Longrightarrow> a \<in> set xs \<Longrightarrow> h a \<le> i"
  by (induction xs) (auto split: if_splits)

lemma lower_top_rep: "zrep z ns \<Longrightarrow> zrep (lower_top z) ns"
proof (induction z rule: lower_top.induct)
  case (1 z)
  show ?case
  proof (cases "z_level z > 1 \<and> fst (zlink z (z_header z) (z_level z - 1)) = None")
    case True
    note r = zrepD [OF 1(2)]
    let ?z = "z\<lparr>z_level := z_level z - 1\<rparr>"
    have h: "height (z\<lparr>z_level := l\<rparr>) = height z" for l by (rule ext) (simp add: height_def)
    have "zlink z (z_header z) (z_level z - 1) = map_prod id of_nat (link_to (height z) (z_level z - 1) ns)"
    proof (rule links_okD [OF r(12)])
      show "z_level z - 1 < height z (z_header z)" "z_level z - 1 < z_level z" using r(8,10) True by linarith+
    qed (rule append_Nil [symmetric])
    then have "fst (link_to (height z) (z_level z - 1) ns) = None" using True by simp
    then have "height z a \<le> z_level z - 1" if "a \<in> set ns" for a using that by (rule link_to_fst_None)
    moreover have "fst (zlink z (z_header z) i) = None" if "z_level z - 1 \<le> i" "i < ZSL_MAX_LEVEL" for i
      using that r(11) [of i] True by (cases "i = z_level z - 1") auto
    moreover have "links_ok ?z ns" using r(12) by (simp add: links_ok_def h)
    ultimately have "zrep ?z ns"
      using 1(2) True unfolding zrep_def by (auto simp: h backs_ok_def nodes_bytes_def)
    with True 1(1) show ?thesis by (simp add: lower_top.simps [of z])
  next
    case False
    with 1(2) show ?thesis by (simp only: lower_top.simps [of z] if_False)
  qed
qed

lemma lower_top_fields:
  "z_store (lower_top z) = z_store z" "z_length (lower_top z) = z_length z" "z_mem (lower_top z) = z_mem z"
  by (induction z rule: lower_top.induct; subst lower_top.simps; simp)+

lemma lower_top_commute:
  "lower_top (z\<lparr>z_length := l, z_mem := m\<rparr>) = (lower_top z)\<lparr>z_length := l, z_mem := m\<rparr>"
proof (induction z rule: lower_top.induct)
  case (1 z)
  let ?c = "z_level z > 1 \<and> fst (zlink z (z_header z) (z_level z - 1)) = None"
  have "lower_top (z\<lparr>z_length := l, z_mem := m\<rparr>) =
      (if ?c then lower_top (z\<lparr>z_length := l, z_mem := m, z_level := z_level z - 1\<rparr>) else z\<lparr>z_length := l, z_mem := m\<rparr>)"
    by (subst lower_top.simps) simp
  also have "z\<lparr>z_length := l, z_mem := m, z_level := z_level z - 1\<rparr> = z\<lparr>z_level := z_level z - 1, z_length := l, z_mem := m\<rparr>"
    by (cases z) simp
  also have "(if ?c then lower_top \<dots> else z\<lparr>z_length := l, z_mem := m\<rparr>) =
      (if ?c then lower_top (z\<lparr>z_level := z_level z - 1\<rparr>) else z)\<lparr>z_length := l, z_mem := m\<rparr>"
    using 1 by (cases ?c) (simp_all only: if_True if_False simp_thms)
  finally show ?case by (simp only: lower_top.simps [of z])
qed

section \<open>The whole deletion\<close>

definition unbacked :: "zskiplist \<Rightarrow> nat \<Rightarrow> zskiplist" where
  "unbacked z x =
     (case fst (zlink z x 0) of
        Some y \<Rightarrow> set_backward z y (zn_backward (z_store z x))
      | None \<Rightarrow> z\<lparr>z_tail := zn_backward (z_store z x)\<rparr>)"

lemma unbacked_simps:
  "z_header (unbacked z x) = z_header z" "z_brk (unbacked z x) = z_brk z"
  "z_level (unbacked z x) = z_level z" "z_length (unbacked z x) = z_length z" "z_mem (unbacked z x) = z_mem z"
  "z_tail (unbacked z x) = (if fst (zlink z x 0) = None then zn_backward (z_store z x) else z_tail z)"
  "zn_score (z_store (unbacked z x) a) = zn_score (z_store z a)"
  "zn_member (z_store (unbacked z x) a) = zn_member (z_store z a)"
  "zn_level (z_store (unbacked z x) a) = zn_level (z_store z a)"
  "zn_backward (z_store (unbacked z x) a) =
     (if fst (zlink z x 0) = Some a then zn_backward (z_store z x) else zn_backward (z_store z a))"
  by (simp_all add: unbacked_def split: option.splits)

lemma backs_ok_delete:
  assumes backs: "backs_ok z (pre @ x # post)" and dist: "distinct (pre @ x # post)"
    and "\<And>a. zn_backward (z_store z' a) =
      (if post \<noteq> [] \<and> a = hd post then zn_backward (z_store z x) else zn_backward (z_store z a))"
    and "z_tail z' = (if post = [] then zn_backward (z_store z x) else z_tail z)"
  shows "backs_ok z' (pre @ post)"
proof -
  have b: "zn_backward (z_store z a) = (if us = [] then None else Some (last us))" if "pre @ x # post = us @ a # vs" for us a vs
    using backs that unfolding backs_ok_def by blast
  have bx: "zn_backward (z_store z x) = (if pre = [] then None else Some (last pre))" by (rule b) simp
  show ?thesis unfolding backs_ok_def
  proof (intro conjI allI impI)
    fix us a vs assume "pre @ post = us @ a # vs"
    then show "zn_backward (z_store z' a) = (if us = [] then None else Some (last us))"
    proof (cases rule: append_split_cases)
      case (left ws)
      then have "a \<in> set pre" by simp
      then have "\<not> (post \<noteq> [] \<and> a = hd post)" using dist hd_in_set [of post] by auto
      then show ?thesis using assms(3) [of a] b [of us a "ws @ x # post"] left(1) by auto
    next
      case (right ws)
      show ?thesis
      proof (cases ws)
        case Nil
        then show ?thesis using right assms(3) [of a] bx by simp
      next
        case (Cons w ws')
        then have "a \<noteq> hd post" using right(2) dist by auto
        then show ?thesis using assms(3) [of a] b [of "pre @ x # ws" a vs] right Cons by simp
      qed
    qed
  next
    show "z_tail z' = (if pre @ post = [] then None else Some (last (pre @ post)))"
    proof (cases "post = []")
      case True
      then show ?thesis using assms(4) bx by simp
    next
      case False
      then show ?thesis using assms(4) backs by (simp add: backs_ok_def)
    qed
  qed
qed

lemma delete_finish:
  assumes rep: "zrep z (pre @ x # post)" and ups: "dels_ok z pre ups" and mem: "z_mem z \<le> UINT64_MAX"
    and un: "unlink_levels z ups x [0..<z_level z] 0 = (z2, level)"
  defines "z3 \<equiv> unbacked z2 x"
  shows "level = height z x"
    and "zrep (lower_top (z3\<lparr>z_length := z_length z - 1,
      z_mem := u64_sub (z_mem z) (node_bytes level (length (zn_member (z_store z x))))\<rparr>)) (pre @ post)"
    and "z_length z3 = z_length z" and "z_mem z3 = z_mem z"
    and "\<And>a. zn_score (z_store z3 a) = zn_score (z_store z a)"
    and "\<And>a. zn_member (z_store z3 a) = zn_member (z_store z a)"
proof -
  note r = zrepD [OF rep]
  have x: "x \<in> set (pre @ x # post)" by simp
  have z2: "z2 = fst (unlink_levels z ups x [0..<z_level z] 0)" by (simp add: un)
  note same = same_nodesD [OF unlink_levels_nodes [of z ups x "[0..<z_level z]" 0], folded z2]
  have hx: "1 \<le> height z x" "height z x \<le> z_level z" using r(6,7) [OF x] by simp_all
  have "snd (unlink_levels z ups x [0..<z_level z] 0) = (if 0 < height z x then height z x else 0)"
    using unlinked_ups [OF rep ups] hx(2) by (intro unlink_levels_level) auto
  then show level: "level = height z x" using hx(1) by (simp add: un)
  show f: "z_length z3 = z_length z" "z_mem z3 = z_mem z" "\<And>a. zn_score (z_store z3 a) = zn_score (z_store z a)"
    "\<And>a. zn_member (z_store z3 a) = zn_member (z_store z a)"
    by (simp_all add: z3_def unbacked_simps same)
  let ?b = "node_bytes level (length (zn_member (z_store z x)))"
  define z4 where "z4 = z3\<lparr>z_length := z_length z - 1, z_mem := u64_sub (z_mem z) ?b\<rparr>"
  have g: "z_header z4 = z_header z" "z_brk z4 = z_brk z" "z_level z4 = z_level z" "z_length z4 = z_length z - 1"
    "z_mem z4 = u64_sub (z_mem z) ?b" "\<And>a. zn_score (z_store z4 a) = zn_score (z_store z a)"
    "\<And>a. zn_member (z_store z4 a) = zn_member (z_store z a)"
    by (simp_all add: z4_def z3_def unbacked_simps same)
  have h: "height z4 a = height z a" for a
    using same(11) [of a] by (simp add: z4_def z3_def height_def unbacked_simps)
  have key: "node_key (z_store z4 a) = node_key (z_store z a)" for a by (simp add: node_key_def g)
  have nx: "\<not> (0 < z_level z \<and> x = fst (ups ! 0))" using unlinked_ups(1) [OF rep ups, of 0] by auto
  have linkx: "zlink z2 x 0 = zlink z x 0"
    unfolding z2 using unlinked_ups(1) [OF rep ups] nx by (subst unlink_levels_link) auto
  have "z_header z # pre @ x # post = (z_header z # pre) @ x # post" by simp
  then have "zlink z x 0 = map_prod id of_nat (link_to (height z) 0 post)"
    using links_okD [OF r(12), of "z_header z # pre" x post 0] hx by simp
  moreover have "0 < height z (hd post)" if "post \<noteq> []" using that r(6) [of "hd post"] by simp
  ultimately have first: "fst (zlink z2 x 0) = (if post = [] then None else Some (hd post))"
    unfolding linkx by (cases post) auto
  have "links_ok z4 (pre @ post)"
    using unlinked_links_ok [OF rep ups] links_ok_cong [of z4 z2]
    by (simp add: z4_def z3_def unbacked_simps z2 [symmetric])
  moreover have "backs_ok z4 (pre @ post)"
  proof (rule backs_ok_delete [OF r(13)])
    show "distinct (pre @ x # post)" using r(1) by simp
    show "zn_backward (z_store z4 a) =
      (if post \<noteq> [] \<and> a = hd post then zn_backward (z_store z x) else zn_backward (z_store z a))" for a
      using first by (auto simp: z4_def z3_def unbacked_simps same)
    show "z_tail z4 = (if post = [] then zn_backward (z_store z x) else z_tail z)"
      using first by (auto simp: z4_def z3_def unbacked_simps same)
  qed
  moreover have "fst (zlink z4 (z_header z4) i) = None" if "z_level z4 \<le> i" "i < ZSL_MAX_LEVEL" for i
  proof -
    have "zlink z4 a i = zlink z2 a i" for a by (simp add: z4_def z3_def unbacked_simps)
    moreover have "zlink z2 (z_header z) i = zlink z (z_header z) i"
      unfolding z2 using unlinked_ups(1) [OF rep ups] that by (subst unlink_levels_link) (auto simp: g)
    ultimately show ?thesis using r(11) [of i] that by (simp add: g)
  qed
  moreover have "nodes_bytes z4 (pre @ post) = nodes_bytes z (pre @ post)" by (simp add: nodes_bytes_def g h)
  moreover have "nodes_bytes z (pre @ x # post) = nodes_bytes z (pre @ post) + ?b"
    by (simp add: nodes_bytes_def level)
  moreover from this have "z_mem z4 = z_mem z - ?b" using mem r(15) by (simp add: g u64_sub_eq)
  ultimately have "zrep z4 (pre @ post)"
    using r(1,2,3,4,5,6,7,8,9,10,14,15) unfolding zrep_def by (auto simp: g h key sorted_wrt_append)
  then show "zrep (lower_top (z3\<lparr>z_length := z_length z - 1, z_mem := u64_sub (z_mem z) ?b\<rparr>)) (pre @ post)"
    unfolding z4_def by (rule lower_top_rep)
qed

lemma first_from:
  assumes "zrep z (pre @ post)"
  shows "fst (zlink z (last (z_header z # pre)) 0) = (if post = [] then None else Some (hd post))"
proof -
  note r = zrepD [OF assms]
  have "z_header z # pre @ post = butlast (z_header z # pre) @ last (z_header z # pre) # post"
    using append_butlast_last_id [of "z_header z # pre"] by (metis append.assoc append_Cons append_Nil list.distinct(1))
  moreover have "0 < height z (last (z_header z # pre))"
    using r(6) [of "last pre"] r(8) by (simp add: ZSL_MAX_LEVEL_def Suc_le_eq)
  moreover have "0 < z_level z" using r(9) by simp
  ultimately have "zlink z (last (z_header z # pre)) 0 = map_prod id of_nat (link_to (height z) 0 post)"
    by (rule links_okD [OF r(12)])
  moreover have "0 < height z (hd post)" if "post \<noteq> []" using that r(6) [of "hd post"] by simp
  ultimately show ?thesis by (cases post) auto
qed

lemma zsl_delete_refines:
  assumes rep: "zrep z ns" and nan: "\<not> dbl_isnan score" and mem: "z_mem z \<le> UINT64_MAX"
  obtains "zsl_delete z score member = Some (False, z)"
      and "\<forall>a \<in> set ns. node_key (z_store z a) \<noteq> zkey score member"
  | z' pre x post where "ns = pre @ x # post" and "zsl_delete z score member = Some (True, z')"
      and "node_key (z_store z x) = zkey score member" and "zrep z' (pre @ post)"
      and "zentries z' (pre @ post) = zentries z (pre @ post)" and "z_mem z' \<le> z_mem z"
proof -
  obtain pre post where ns: "ns = pre @ post" and pre: "\<forall>a \<in> set pre. node_key (z_store z a) < zkey score member"
    and post: "\<forall>a \<in> set post. \<not> node_key (z_store z a) < zkey score member"
    by (rule key_cut [OF rep])
  note rep' = rep [unfolded ns]
  note r = zrepD [OF rep']
  note iff = node_cmp_iff(3) [OF r(4) nan]
  have cut: "cut_search z ns pre (\<lambda>y _ _. node_cmp y score member < 0) (\<lambda>_ _. ()) (\<lambda>_. ())"
    unfolding ns by (rule cmp_cut [OF rep' nan pre post]) simp
  obtain ups where ups: "zsl_descend (z_store z) (\<lambda>y _ _. node_cmp y score member < 0) (\<lambda>_ _. ()) (z_level z) (z_header z) () = Some ups"
    "length ups = z_level z" "\<And>i. i < z_level z \<Longrightarrow> \<exists>a p. before z pre i a p \<and> ups ! i = (a, ())"
    using descend_from_header [OF rep ns cut] by blast
  have ok: "dels_ok z pre ups" using ups(3) by (simp add: dels_ok_def)
  obtain a p where "before z pre 0 a p" "ups ! 0 = (a, ())" using ups(3) [of 0] r(9) by auto
  then have u0: "fst (ups ! 0) = last (z_header z # pre)" using before_0(1) [OF rep'] by simp
  note first = first_from [OF rep']
  show ?thesis
  proof (cases post)
    case Nil
    then have "zsl_delete z score member = Some (False, z)" using first by (simp add: zsl_delete_def ups(1) u0)
    moreover have "\<forall>a \<in> set ns. node_key (z_store z a) \<noteq> zkey score member" using ns pre Nil by auto
    ultimately show ?thesis by (rule that(1))
  next
    case (Cons x post')
    show ?thesis
    proof (cases "node_key (z_store z x) = zkey score member")
      case False
      then have "node_cmp (z_store z x) score member \<noteq> 0" using iff [of x] Cons by simp
      then have del: "zsl_delete z score member = Some (False, z)"
        using first Cons by (simp add: zsl_delete_def ups(1) u0)
      have x: "zkey score member < node_key (z_store z x)" using False post Cons by auto
      have "zkey score member < node_key (z_store z b)" if "b \<in> set post" for b
        using x that r(3) by (auto simp: Cons sorted_wrt_append intro: order.strict_trans)
      then have "\<forall>a \<in> set ns. node_key (z_store z a) \<noteq> zkey score member" using pre ns by fastforce
      then show ?thesis using that(1) [OF del] by simp
    next
      case True
      then have cmp: "node_cmp (z_store z x) score member = 0" using iff [of x] Cons by simp
      obtain z2 level where un: "unlink_levels z ups x [0..<z_level z] 0 = (z2, level)" by fastforce
      note rep2 = rep' [unfolded Cons]
      note fin = delete_finish [OF rep2 ok mem un]
      let ?b = "node_bytes level (length (zn_member (z_store z x)))"
      define z' where "z' = lower_top ((unbacked z2 x)\<lparr>z_length := z_length z - 1, z_mem := u64_sub (z_mem z) ?b\<rparr>)"
      have first': "fst (zlink z (fst (ups ! 0)) 0) = Some x" using first Cons u0 by simp
      have "level \<le> ZSL_MAX_LEVEL" "length (zn_member (z_store z x)) \<le> UINT32_MAX"
        using fin(1) r(7) [of x] r(10) r(5) [of x] Cons by auto
      then have nb: "zsl_node_bytes level (length (zn_member (z_store (lower_top (unbacked z2 x)) x))) = Some ?b"
        by (simp add: lower_top_fields fin zsl_node_bytes_eq)
      have "zsl_delete z score member = Some (True, z')"
        unfolding zsl_delete_def ups(1) option.case first' un prod.case Let_def unbacked_def [symmetric]
        using cmp nb by (simp add: z'_def lower_top_commute lower_top_fields fin)
      moreover have "zrep z' (pre @ post')" unfolding z'_def by (rule fin(2))
      moreover have "zentries z' (pre @ post') = zentries z (pre @ post')"
        by (simp add: z'_def zentries_def lower_top_fields fin)
      moreover have "z_mem z' \<le> z_mem z"
        using zrepD(15) [OF \<open>zrep z' (pre @ post')\<close>] zrepD(15) [OF rep2] zrepD(15) [OF rep2] mem
        by (simp add: z'_def lower_top_fields u64_sub_eq nodes_bytes_def fin(1))
      ultimately show ?thesis using that(2) [of pre x post' z'] ns Cons True by simp
    qed
  qed
qed

end
