(* ===== verification/Skiplist_Query.thy ===== *)
theory Skiplist_Query
  imports Skiplist_Delete
begin

text \<open>Ranks, indices and range queries of a skip list, in terms of the list of its nodes.\<close>

section \<open>Positions\<close>

lemma position_step:
  assumes "p + d \<le> n" and "n \<le> UINT32_MAX"
  shows "u64_add p (unat (of_nat d :: u32)) = p + d"
proof -
  have "unat (of_nat d :: u32) = d" using assms by (simp add: c_limits unat_of_nat take_bit_eq_mod)
  then show ?thesis using assms by (simp add: u64_add_eq c_limits)
qed

lemma last_position:
  assumes "z_header z # pre = us @ a # ws" and "length us = length pre"
  shows "a = last (z_header z # pre)"
proof -
  have "ws = []" using arg_cong [OF assms(1), of length] assms(2) by simp
  then show ?thesis using assms(1) by simp
qed

lemma rank_levels_eq:
  assumes rep: "zrep z (pre @ post)" and nan: "\<not> dbl_isnan score" and n: "length (pre @ post) \<le> UINT32_MAX"
    and pre: "\<forall>a \<in> set pre. node_key (z_store z a) \<le> zkey score member"
    and post: "\<forall>a \<in> set post. \<not> node_key (z_store z a) \<le> zkey score member"
  shows "k \<le> z_level z \<Longrightarrow> z_header z # pre = us @ x # ws \<Longrightarrow> k \<le> height z x \<Longrightarrow>
    rank_levels z score member k x (length us) =
      Some (if 0 < k \<and> pre \<noteq> [] \<and> node_key (z_store z (last pre)) = zkey score member then int (length pre) - 1 else -1)"
proof (induction k arbitrary: us x ws)
  case (Suc k)
  note r = zrepD [OF rep]
  note iff = node_cmp_iff [OF r(4) nan]
  have cut: "cut_search z (pre @ post) pre (\<lambda>y _ _. node_cmp y score member \<le> 0) (\<lambda>r (span :: u32). u64_add r (unat span)) (\<lambda>p. p)"
    by (rule cut_by) (use pre post iff(2) position_step [OF _ n] in auto)
  obtain a p where ap: "before z pre k a p"
    "zsl_walk (z_store z) (\<lambda>y _ _. node_cmp y score member \<le> 0) (\<lambda>r span. u64_add r (unat span)) k x (length us) = Some (a, p)"
    using walk_to [OF rep refl _ cut, of k us x ws] Suc.prems by auto
  from ap(1) obtain us' ws' where b: "z_header z # pre = us' @ a # ws'" "p = length us'" "k < height z a" by (rule beforeE)
  have mem: "a \<in> set (z_header z # pre)" using ap(1) by (rule before_mem)
  show ?case
  proof (cases "a \<noteq> z_header z \<and> node_cmp (z_store z a) score member = 0")
    case True
    then have a: "a \<in> set pre" "node_key (z_store z a) = zkey score member" using mem iff(3) [of a] by auto
    have "ws' = []"
    proof (rule ccontr)
      assume "ws' \<noteq> []"
      then obtain w ws2 where w: "ws' = w # ws2" by (cases ws') auto
      obtain us2 where "pre = us2 @ a # w # ws2" using b(1) True w by (cases us') auto
      then have "node_key (z_store z a) < node_key (z_store z w)" "w \<in> set pre"
        using r(3) by (auto simp: sorted_wrt_append)
      with pre a(2) show False by fastforce
    qed
    then have len: "length us' = length pre" using arg_cong [OF b(1), of length] by simp
    have "p = length pre" "pre \<noteq> []" "a = last pre"
      using b(2) len a(1) last_position [OF b(1) len] by auto
    moreover from this have "u64_sub p 1 = p - 1" using n by (intro u64_sub_eq) (auto simp: c_limits Suc_le_eq)
    ultimately show ?thesis using True ap(2) a(2) by (auto simp: of_nat_diff Suc_le_eq)
  next
    case False
    have step: "rank_levels z score member (Suc k) x (length us) = rank_levels z score member k a (length us')"
      using False ap(2) b(2) by (simp only: rank_levels.simps option.case prod.case if_False)
    show ?thesis
    proof (cases "k = 0")
      case True
      then have "a = last (z_header z # pre)" using before_0(1) [OF rep] ap(1) by simp
      moreover have "pre \<noteq> [] \<Longrightarrow> last pre \<noteq> z_header z"
        using r(1) last_in_set [of pre] by (metis distinct.simps(2) Un_iff set_append)
      ultimately have "\<not> (pre \<noteq> [] \<and> node_key (z_store z (last pre)) = zkey score member)"
        using False iff(3) [of "last pre"] by auto
      then show ?thesis using step True by simp
    next
      case nz: False
      then show ?thesis using step Suc.IH [of us' a ws'] Suc.prems(1) b by simp
    qed
  qed
qed simp

lemma rank_refines:
  assumes rep: "zrep z ns" and nan: "\<not> dbl_isnan score" and n: "length ns \<le> UINT32_MAX"
  shows "zsl_rank z score member =
    Some (if \<exists>a \<in> set ns. node_key (z_store z a) = zkey score member
          then int (length (filter (\<lambda>a. node_key (z_store z a) < zkey score member) ns)) else -1)"
proof -
  let ?K = "zkey score member" and ?key = "\<lambda>a. node_key (z_store z a)"
  obtain pre post where ns: "ns = pre @ post" and pre: "\<forall>a \<in> set pre. ?key a \<le> ?K"
    and post: "\<forall>a \<in> set post. \<not> ?key a \<le> ?K"
    by (rule cut_split [OF sorted_keys_mono [OF zrepD(3) [OF rep], of "\<lambda>a. ?key a \<le> ?K"]])
      (auto intro: order.trans order.strict_implies_order)
  note rep' = rep [unfolded ns]
  note r = zrepD [OF rep']
  have "zsl_rank z score member = Some (if pre \<noteq> [] \<and> ?key (last pre) = ?K then int (length pre) - 1 else -1)"
    using rank_levels_eq [OF rep' nan n [unfolded ns] pre post, of "z_level z" "[]" "z_header z" pre] r(8,9,10)
    by (simp add: zsl_rank_def Suc_le_eq)
  also have "(if pre \<noteq> [] \<and> ?key (last pre) = ?K then int (length pre) - 1 else -1) =
      (if \<exists>a \<in> set ns. ?key a = ?K then int (length (filter (\<lambda>a. ?key a < ?K) ns)) else -1)"
  proof (cases "pre = []")
    case True
    then show ?thesis using post ns by auto
  next
    case False
    then obtain ps l where l: "pre = ps @ [l]" by (metis rev_exhaust)
    have low: "?key a < ?key l" if "a \<in> set ps" for a using r(3) that l by (auto simp: sorted_wrt_append)
    have none: "?key a \<noteq> ?K" "\<not> ?key a < ?K" if "a \<in> set post" for a using post that by (auto dest: order.strict_implies_order)
    have "filter (\<lambda>a. ?key a < ?K) post = []" using none(2) by (simp add: filter_empty_conv)
    moreover have "?key l = ?K \<Longrightarrow> filter (\<lambda>a. ?key a < ?K) ps = ps" using low by (simp add: filter_id_conv)
    moreover have "(\<exists>a \<in> set ns. ?key a = ?K) \<longleftrightarrow> ?key l = ?K"
    proof
      assume "\<exists>a \<in> set ns. ?key a = ?K"
      then obtain a where a: "a \<in> set pre" "?key a = ?K" using ns none(1) by auto
      then show "?key l = ?K" using low [of a] pre l by fastforce
    qed (use l ns in auto)
    ultimately show ?thesis using l ns by auto
  qed
  finally show ?thesis .
qed

lemma at_levels_eq:
  assumes rep: "zrep z (pre @ post)" and n: "length (pre @ post) \<le> UINT32_MAX"
    and pre: "length pre = min target (length (pre @ post))"
  shows "k \<le> z_level z \<Longrightarrow> z_header z # pre = us @ x # ws \<Longrightarrow> k \<le> height z x \<Longrightarrow>
    at_levels z target k x (length us) =
      Some (if 0 < k \<and> length pre = target then Some (last (z_header z # pre)) else None)"
proof (induction k arbitrary: us x ws)
  case (Suc k)
  have cut: "cut_search z (pre @ post) pre (\<lambda>_ (span :: u32) t. u64_add t (unat span) \<le> target) (\<lambda>t (span :: u32). u64_add t (unat span)) (\<lambda>p. p)"
    unfolding cut_search_def
  proof (intro allI impI)
    fix p d assume d: "p + d \<le> length (pre @ post)"
    note step = position_step [OF d n]
    have "p + d \<le> target \<longleftrightarrow> p + d \<le> length pre" using d unfolding pre by linarith
    then show "(u64_add p (unat (of_nat d :: u32)) \<le> target \<longleftrightarrow> p + d \<le> length pre) \<and>
        u64_add p (unat (of_nat d :: u32)) = p + d"
      unfolding step by (rule conjI) (rule refl)
  qed
  obtain a p where ap: "before z pre k a p"
    "zsl_walk (z_store z) (\<lambda>_ span t. u64_add t (unat span) \<le> target) (\<lambda>t span. u64_add t (unat span)) k x (length us) = Some (a, p)"
    using walk_to [OF rep refl _ cut, of k us x ws] Suc.prems by auto
  from ap(1) obtain us' ws' where b: "z_header z # pre = us' @ a # ws'" "p = length us'" "k < height z a" by (rule beforeE)
  have p: "p \<le> length pre" using arg_cong [OF b(1), of length] b(2) by simp
  show ?case
  proof (cases "p = target")
    case True
    then have "length us' = length pre" using p b(2) pre by linarith
    then show ?thesis using ap(2) True b(2) last_position [OF b(1)] by simp
  next
    case False
    then have step: "at_levels z target (Suc k) x (length us) = at_levels z target k a (length us')"
      using ap(2) b(2) by simp
    show ?thesis
    proof (cases "k = 0")
      case True
      then have "p = length pre" using before_0(2) [OF rep] ap(1) by simp
      then show ?thesis using step True False by simp
    next
      case nz: False
      then show ?thesis using step Suc.IH [of us' a ws'] Suc.prems(1) b by simp
    qed
  qed
qed simp

lemma at_refines:
  assumes rep: "zrep z ns" and n: "length ns \<le> UINT32_MAX" and idx: "idx < UINT64_MAX"
  shows "zsl_at z idx = Some (if idx < length ns then Some (ns ! idx) else None)"
proof -
  define pre where "pre = take (idx + 1) ns"
  define post where "post = drop (idx + 1) ns"
  have ns: "ns = pre @ post" by (simp add: pre_def post_def)
  have "length pre = min (idx + 1) (length (pre @ post))" using ns by (simp add: pre_def)
  note eq = at_levels_eq [OF rep [unfolded ns] n [unfolded ns] this, of "z_level z" "[]" "z_header z" pre]
  have "zsl_at z idx = Some (if length pre = idx + 1 then Some (last (z_header z # pre)) else None)"
    using eq zrepD(8,9,10) [OF rep] idx by (simp add: zsl_at_def u64_add_eq Suc_le_eq)
  moreover have "last (z_header z # pre) = ns ! idx" if "idx < length ns"
    using that by (simp add: pre_def take_Suc_conv_app_nth)
  ultimately show ?thesis by (auto simp: pre_def min_def split: if_splits)
qed

section \<open>Ranges\<close>

lemma search_end_eq:
  assumes rep: "zrep z (pre @ post)" and "\<forall>a \<in> set pre. P (z_store z a)" and "\<forall>a \<in> set post. \<not> P (z_store z a)"
  shows "search_end z P = Some (last (z_header z # pre))"
proof -
  have cut: "cut_search z (pre @ post) pre (\<lambda>y (_ :: u32) _. P y) (\<lambda>_ (_ :: u32). ()) (\<lambda>_. ())"
    by (rule cut_by [OF assms(2,3)]) simp
  obtain ups where ups: "zsl_descend (z_store z) (\<lambda>y _ _. P y) (\<lambda>_ _. ()) (z_level z) (z_header z) () = Some ups"
    "length ups = z_level z" "\<And>i. i < z_level z \<Longrightarrow> \<exists>a p. before z pre i a p \<and> ups ! i = (a, ())"
    using descend_from_header [OF rep refl cut] by blast
  obtain a p where "before z pre 0 a p" "ups ! 0 = (a, ())" using ups(3) [of 0] zrepD(9) [OF rep] by auto
  then show ?thesis using before_0(1) [OF rep] ups(1) by (simp add: search_end_def)
qed

text \<open>
  A range is given by a lower bound that holds from some node on and an upper bound that holds
  up to some node. The searches find the first and the last node between them.
\<close>

definition rising :: "(nat \<Rightarrow> bool) \<Rightarrow> nat list \<Rightarrow> bool" where
  "rising lo ns \<longleftrightarrow> sorted_wrt (\<lambda>a b. lo a \<longrightarrow> lo b) ns"

definition falling :: "(nat \<Rightarrow> bool) \<Rightarrow> nat list \<Rightarrow> bool" where
  "falling hi ns \<longleftrightarrow> sorted_wrt (\<lambda>a b. hi b \<longrightarrow> hi a) ns"

definition first_of :: "'a list \<Rightarrow> 'a option" where
  "first_of xs = (if xs = [] then None else Some (hd xs))"

definition last_of :: "'a list \<Rightarrow> 'a option" where
  "last_of xs = (if xs = [] then None else Some (last xs))"

lemma first_between:
  assumes rep: "zrep z ns"
    and lo: "rising (\<lambda>a. lo (z_store z a)) ns" and hi: "falling (\<lambda>a. hi (z_store z a)) ns"
  shows "map_option (\<lambda>x. case fst (zlink z x 0) of None \<Rightarrow> None | Some y \<Rightarrow> if hi (z_store z y) then Some y else None)
      (search_end z (\<lambda>y. \<not> lo y)) =
    Some (first_of (filter (\<lambda>a. lo (z_store z a) \<and> hi (z_store z a)) ns))"
proof -
  obtain pre post where ns: "ns = pre @ post" and pre: "\<forall>a \<in> set pre. \<not> lo (z_store z a)"
    and post: "\<forall>a \<in> set post. \<not> \<not> lo (z_store z a)"
    by (rule cut_split [of "\<lambda>a. \<not> lo (z_store z a)" ns]) (use lo in \<open>auto simp: rising_def elim: sorted_wrt_mono_rel [rotated]\<close>)
  note e = search_end_eq [OF rep [unfolded ns] pre post] and f = first_from [OF rep [unfolded ns]]
  have none: "filter (\<lambda>a. lo (z_store z a) \<and> hi (z_store z a)) pre = []" using pre by (simp add: filter_empty_conv)
  show ?thesis
  proof (cases post)
    case Nil
    then show ?thesis using e f none ns by (simp add: first_of_def)
  next
    case (Cons y post')
    have "hi (z_store z a) \<longrightarrow> hi (z_store z y)" if "a \<in> set post'" for a
      using hi that unfolding falling_def ns Cons sorted_wrt_append sorted_wrt.simps by meson
    then have "filter (\<lambda>a. lo (z_store z a) \<and> hi (z_store z a)) post' = []" if "\<not> hi (z_store z y)"
      unfolding filter_empty_conv using that by blast
    then show ?thesis using e f none ns Cons post by (simp add: first_of_def)
  qed
qed

lemma last_between:
  assumes rep: "zrep z ns"
    and lo: "rising (\<lambda>a. lo (z_store z a)) ns" and hi: "falling (\<lambda>a. hi (z_store z a)) ns"
  shows "map_option (\<lambda>x. if x = z_header z \<or> \<not> lo (z_store z x) then None else Some x) (search_end z hi) =
    Some (last_of (filter (\<lambda>a. lo (z_store z a) \<and> hi (z_store z a)) ns))"
proof -
  obtain pre post where ns: "ns = pre @ post" and pre: "\<forall>a \<in> set pre. hi (z_store z a)"
    and post: "\<forall>a \<in> set post. \<not> hi (z_store z a)"
    by (rule cut_split [OF hi [unfolded falling_def]])
  note e = search_end_eq [OF rep [unfolded ns] pre post]
  have none: "filter (\<lambda>a. lo (z_store z a) \<and> hi (z_store z a)) post = []" using post by (simp add: filter_empty_conv)
  show ?thesis
  proof (cases pre rule: rev_cases)
    case Nil
    then show ?thesis using e none ns by (simp add: last_of_def)
  next
    case (snoc pre' y)
    have "y \<noteq> z_header z" using zrepD(1) [OF rep] ns snoc by auto
    moreover have "lo (z_store z a) \<longrightarrow> lo (z_store z y)" if "a \<in> set pre'" for a
      using lo that unfolding rising_def ns snoc sorted_wrt_append by (meson list.set_intros(1))
    then have "filter (\<lambda>a. lo (z_store z a) \<and> hi (z_store z a)) pre' = []" if "\<not> lo (z_store z y)"
      unfolding filter_empty_conv using that by blast
    ultimately show ?thesis using e none ns snoc pre by (simp add: last_of_def)
  qed
qed

section \<open>Score ranges\<close>

definition in_range :: "zrangespec \<Rightarrow> double \<Rightarrow> bool" where
  "in_range r s \<longleftrightarrow> zsl_gte_min s r \<and> zsl_lte_max s r"

lemma sorted_vals: "zrep z ns \<Longrightarrow> sorted_wrt (\<lambda>a b. dbl_val (zn_score (z_store z a)) \<le> dbl_val (zn_score (z_store z b))) ns"
  using zrepD(3) unfolding sorted_wrt_map
  by (rule sorted_wrt_mono_rel [rotated]) (auto simp: node_key_def zkey_def)

lemma score_bounds:
  assumes rep: "zrep z ns"
  shows "rising (\<lambda>a. zsl_gte_min (zn_score (z_store z a)) r) ns"
    and "falling (\<lambda>a. zsl_lte_max (zn_score (z_store z a)) r) ns"
proof -
  note nan = zrepD(4) [OF rep]
  show "rising (\<lambda>a. zsl_gte_min (zn_score (z_store z a)) r) ns"
    unfolding rising_def
    by (rule sorted_wrt_mono_rel [OF _ sorted_vals [OF rep]]) (auto simp: zsl_gte_min_def dbl_lt_def dbl_le_def nan)
  show "falling (\<lambda>a. zsl_lte_max (zn_score (z_store z a)) r) ns"
    unfolding falling_def
    by (rule sorted_wrt_mono_rel [OF _ sorted_vals [OF rep]]) (auto simp: zsl_lte_max_def dbl_lt_def dbl_le_def nan)
qed

lemma inverted_range:
  assumes "zsl_cmp (rs_min r) [] (rs_max r) [] > 0"
  shows "\<not> in_range r s"
proof -
  have "dbl_lt (rs_max r) (rs_min r)" using assms by (simp add: zsl_cmp_def split: if_splits)
  then show ?thesis by (auto simp: in_range_def zsl_gte_min_def zsl_lte_max_def dbl_lt_def dbl_le_def)
qed

lemma first_in_range_refines:
  assumes rep: "zrep z ns"
  shows "zsl_first_in_range z r = Some (first_of (filter (\<lambda>a. in_range r (zn_score (z_store z a))) ns))"
proof (cases "zsl_cmp (rs_min r) [] (rs_max r) [] > 0")
  case True
  then show ?thesis using inverted_range [OF True] by (simp add: zsl_first_in_range_def first_of_def)
next
  case False
  then show ?thesis
    using first_between [OF rep score_bounds [OF rep, of r]] by (simp only: zsl_first_in_range_def if_False in_range_def)
qed

lemma last_in_range_refines:
  assumes rep: "zrep z ns"
  shows "zsl_last_in_range z r = Some (last_of (filter (\<lambda>a. in_range r (zn_score (z_store z a))) ns))"
proof (cases "zsl_cmp (rs_min r) [] (rs_max r) [] > 0")
  case True
  then show ?thesis using inverted_range [OF True] by (simp add: zsl_last_in_range_def last_of_def)
next
  case False
  then show ?thesis
    using last_between [OF rep score_bounds [OF rep, of r]] by (simp only: zsl_last_in_range_def if_False in_range_def)
qed

lemma count_loop_eq:
  assumes rep: "zrep z (pre @ post)"
  shows "count_loop z r (first_of post) c =
    Some (c + length (takeWhile (\<lambda>a. zsl_lte_max (zn_score (z_store z a)) r) post))"
  using assms
proof (induction post arbitrary: pre c)
  case Nil
  then show ?case by (simp add: first_of_def count_loop.simps)
next
  case (Cons x post)
  have rep': "zrep z ((pre @ [x]) @ post)" using Cons.prems by simp
  have "fst (zlink z x 0) = first_of post" using first_from [OF rep'] by (simp add: first_of_def)
  then have "count_loop z r (first_of (x # post)) c =
      (if zsl_lte_max (zn_score (z_store z x)) r then count_loop z r (first_of post) (c + 1) else Some c)"
    by (subst count_loop.simps) (simp add: first_of_def)
  with Cons.IH [OF rep', of "c + 1"] show ?case by simp
qed

lemma takeWhile_falling:
  assumes "falling hi xs"
  shows "takeWhile hi xs = filter hi xs"
  using assms
proof (induction xs)
  case (Cons x xs)
  have "falling hi xs" using Cons.prems by (simp add: falling_def)
  moreover have "filter hi xs = []" if "\<not> hi x"
    unfolding filter_empty_conv using Cons.prems that unfolding falling_def sorted_wrt.simps by blast
  ultimately show ?case using Cons.IH by simp
qed simp

lemma count_in_range_refines:
  assumes rep: "zrep z ns"
  shows "zsl_count_in_range z r = Some (length (filter (\<lambda>a. in_range r (zn_score (z_store z a))) ns))"
proof -
  let ?lo = "\<lambda>a. zsl_gte_min (zn_score (z_store z a)) r" and ?hi = "\<lambda>a. zsl_lte_max (zn_score (z_store z a)) r"
  let ?in = "\<lambda>a. in_range r (zn_score (z_store z a))"
  note b = score_bounds [OF rep, of r]
  show ?thesis
  proof (cases "filter ?in ns")
    case Nil
    then show ?thesis
      by (simp add: zsl_count_in_range_def first_in_range_refines [OF rep] first_of_def count_loop.simps)
  next
    case (Cons x xs)
    then obtain pre post where ns: "ns = pre @ x # post" and pre: "\<forall>a \<in> set pre. \<not> ?in a" and x: "?in x"
      by (auto dest!: filter_eq_ConsD)
    have lo: "?lo a" if "a \<in> set post" for a
      using b(1) x that unfolding rising_def ns sorted_wrt_append sorted_wrt.simps in_range_def by meson
    have "falling ?hi (x # post)" using b(2) unfolding falling_def ns sorted_wrt_append by blast
    then have "takeWhile ?hi (x # post) = filter ?hi (x # post)" by (rule takeWhile_falling)
    moreover have "filter ?hi (x # post) = filter ?in (x # post)"
      by (rule filter_cong) (use lo x in \<open>auto simp: in_range_def\<close>)
    moreover have "filter ?in ns = filter ?in (x # post)" using pre ns by simp
    moreover have "count_loop z r (first_of (x # post)) 0 = Some (length (takeWhile ?hi (x # post)))"
      using count_loop_eq [of z pre "x # post" r 0] rep ns by simp
    ultimately show ?thesis
      using Cons x by (simp add: zsl_count_in_range_def first_in_range_refines [OF rep] first_of_def)
  qed
qed

section \<open>Lexicographic ranges\<close>

definition in_lex_range :: "zlexrangespec \<Rightarrow> bytes \<Rightarrow> bool" where
  "in_lex_range r m \<longleftrightarrow> zsl_lex_gte_min m (lr_min r) \<and> zsl_lex_lte_max m (lr_max r)"

definition one_score :: "double list \<Rightarrow> bool" where
  "one_score ss \<longleftrightarrow> (\<forall>s \<in> set ss. dbl_val s = dbl_val (hd ss))"

lemma sorted_members:
  assumes rep: "zrep z ns" and one: "one_score (map (\<lambda>a. zn_score (z_store z a)) ns)"
  shows "sorted_wrt (\<lambda>a b. zn_member (z_store z a) < zn_member (z_store z b)) ns"
proof (rule sorted_wrt_mono_rel [OF _ zrepD(3) [OF rep, unfolded sorted_wrt_map]])
  define v where "v = dbl_val (hd (map (\<lambda>a. zn_score (z_store z a)) ns))"
  have v: "dbl_val (zn_score (z_store z a)) = v" if "a \<in> set ns" for a
    using one that unfolding one_score_def v_def by simp
  fix a b assume "a \<in> set ns" "b \<in> set ns" "node_key (z_store z a) < node_key (z_store z b)"
  with v [of a] v [of b] show "zn_member (z_store z a) < zn_member (z_store z b)" by (simp add: node_key_def zkey_def)
qed

lemma lex_bounds:
  assumes rep: "zrep z ns" and one: "one_score (map (\<lambda>a. zn_score (z_store z a)) ns)"
  shows "rising (\<lambda>a. zsl_lex_gte_min (zn_member (z_store z a)) b) ns"
    and "falling (\<lambda>a. zsl_lex_lte_max (zn_member (z_store z a)) b) ns"
proof -
  have "zsl_lex_gte_min m b \<Longrightarrow> zsl_lex_gte_min m' b" "zsl_lex_lte_max m' b \<Longrightarrow> zsl_lex_lte_max m b" if "m < m'" for m m'
    using that by (auto simp: zsl_lex_gte_min_def zsl_lex_lte_max_def lex_cmp_eq Let_def split: if_splits)
  then show "rising (\<lambda>a. zsl_lex_gte_min (zn_member (z_store z a)) b) ns"
    "falling (\<lambda>a. zsl_lex_lte_max (zn_member (z_store z a)) b) ns"
    unfolding rising_def falling_def by (intro sorted_wrt_mono_rel [OF _ sorted_members [OF assms]]; blast)+
qed

lemma empty_lex_range:
  assumes "zsl_lex_range_empty r"
  shows "\<not> in_lex_range r m"
proof (cases "lb_inf (lr_min r) \<noteq> 0 \<or> lb_inf (lr_max r) \<noteq> 0")
  case True
  then show ?thesis using assms
    by (auto simp: zsl_lex_range_empty_def zsl_lex_bound_cmp_def in_lex_range_def zsl_lex_gte_min_def
        zsl_lex_lte_max_def Let_def split: if_splits)
next
  case False
  then show ?thesis using assms
    by (auto simp: zsl_lex_range_empty_def zsl_lex_bound_cmp_def in_lex_range_def zsl_lex_gte_min_def
        zsl_lex_lte_max_def lex_cmp_eq Let_def split: if_splits)
qed

lemma first_in_lex_range_refines:
  assumes rep: "zrep z ns" and one: "one_score (map (\<lambda>a. zn_score (z_store z a)) ns)"
  shows "zsl_first_in_lex_range z r = Some (first_of (filter (\<lambda>a. in_lex_range r (zn_member (z_store z a))) ns))"
proof (cases "zsl_lex_range_empty r")
  case True
  then show ?thesis using empty_lex_range [OF True] by (simp add: zsl_first_in_lex_range_def first_of_def)
next
  case False
  then show ?thesis
    using first_between [OF rep lex_bounds(1) [OF assms, of "lr_min r"] lex_bounds(2) [OF assms, of "lr_max r"]]
    by (simp only: zsl_first_in_lex_range_def if_False in_lex_range_def)
qed

lemma last_in_lex_range_refines:
  assumes rep: "zrep z ns" and one: "one_score (map (\<lambda>a. zn_score (z_store z a)) ns)"
  shows "zsl_last_in_lex_range z r = Some (last_of (filter (\<lambda>a. in_lex_range r (zn_member (z_store z a))) ns))"
proof (cases "zsl_lex_range_empty r")
  case True
  then show ?thesis using empty_lex_range [OF True] by (simp add: zsl_last_in_lex_range_def last_of_def)
next
  case False
  then show ?thesis
    using last_between [OF rep lex_bounds(1) [OF assms, of "lr_min r"] lex_bounds(2) [OF assms, of "lr_max r"]]
    by (simp only: zsl_last_in_lex_range_def if_False in_lex_range_def)
qed

end
