(* ===== verification/Skiplist_Set.thy ===== *)
theory Skiplist_Set
  imports Skiplist_Query
begin

text \<open>
  The skip list as a sorted set: any sequence of operations on the linked nodes gives the
  results of the same operations on a list of entries sorted by score and member, whatever
  heights the generator chooses.
\<close>

section \<open>Following the links\<close>

primrec forward :: "zskiplist \<Rightarrow> nat \<Rightarrow> nat \<Rightarrow> nat list" where
  "forward z 0 x = []"
| "forward z (Suc n) x = (case fst (zlink z x 0) of None \<Rightarrow> [] | Some y \<Rightarrow> y # forward z n y)"

primrec backward :: "zskiplist \<Rightarrow> nat \<Rightarrow> nat option \<Rightarrow> nat list" where
  "backward z 0 x = []"
| "backward z (Suc n) x = (case x of None \<Rightarrow> [] | Some y \<Rightarrow> y # backward z n (zn_backward (z_store z y)))"

definition znodes :: "zskiplist \<Rightarrow> nat list" where
  "znodes z = forward z (z_length z) (z_header z)"

definition zset :: "zskiplist \<Rightarrow> (double \<times> bytes) list" where
  "zset z = zentries z (znodes z)"

lemma forward_eq: "zrep z (pre @ post) \<Longrightarrow> forward z (length post) (last (z_header z # pre)) = post"
proof (induction post arbitrary: pre)
  case (Cons x post)
  have "forward z (length post) (last (z_header z # pre @ [x])) = post" using Cons.IH [of "pre @ [x]"] Cons.prems by simp
  then show ?case using first_from [OF Cons.prems] by (simp split: if_splits)
qed simp

lemma znodes_eq: "zrep z ns \<Longrightarrow> znodes z = ns"
  using forward_eq [of z "[]" ns] zrepD(14) [of z ns] by (simp add: znodes_def)

lemma backward_eq:
  "zrep z (pre @ post) \<Longrightarrow> backward z (length pre) (if pre = [] then None else Some (last pre)) = rev pre"
proof (induction pre arbitrary: post rule: rev_induct)
  case (snoc x pre)
  have "zn_backward (z_store z x) = (if pre = [] then None else Some (last pre))"
    using zrepD(13) [OF snoc.prems] unfolding backs_ok_def by (metis append.assoc append_Cons)
  with snoc.IH [of "x # post"] snoc.prems show ?case by simp
qed simp

section \<open>Operations\<close>

datatype zop =
  ZInsert double bytes
| ZDelete double bytes
| ZRank double bytes
| ZAt nat
| ZFirst zrangespec
| ZLast zrangespec
| ZCount zrangespec
| ZLexFirst zlexrangespec
| ZLexLast zlexrangespec

datatype zreply = ZInt int | ZFlag bool | ZNat nat | ZEntry "(double \<times> bytes) option"

definition node_entry :: "zskiplist \<Rightarrow> nat \<Rightarrow> double \<times> bytes" where
  "node_entry z a = (zn_score (z_store z a), zn_member (z_store z a))"

fun zexec :: "zskiplist \<Rightarrow> zop \<Rightarrow> (zreply \<times> zskiplist) option" where
  "zexec z (ZInsert s m) = map_option (map_prod ZInt id) (zsl_insert z s m)"
| "zexec z (ZDelete s m) = map_option (map_prod ZFlag id) (zsl_delete z s m)"
| "zexec z (ZRank s m) = map_option (\<lambda>i. (ZInt i, z)) (zsl_rank z s m)"
| "zexec z (ZAt i) = map_option (\<lambda>n. (ZEntry (map_option (node_entry z) n), z)) (zsl_at z i)"
| "zexec z (ZFirst r) = map_option (\<lambda>n. (ZEntry (map_option (node_entry z) n), z)) (zsl_first_in_range z r)"
| "zexec z (ZLast r) = map_option (\<lambda>n. (ZEntry (map_option (node_entry z) n), z)) (zsl_last_in_range z r)"
| "zexec z (ZCount r) = map_option (\<lambda>n. (ZNat n, z)) (zsl_count_in_range z r)"
| "zexec z (ZLexFirst r) = map_option (\<lambda>n. (ZEntry (map_option (node_entry z) n), z)) (zsl_first_in_lex_range z r)"
| "zexec z (ZLexLast r) = map_option (\<lambda>n. (ZEntry (map_option (node_entry z) n), z)) (zsl_last_in_lex_range z r)"

abbreviation ekey :: "double \<times> bytes \<Rightarrow> sort_key" where
  "ekey e \<equiv> zkey (fst e) (snd e)"

fun zspec :: "(double \<times> bytes) list \<Rightarrow> zop \<Rightarrow> zreply \<times> (double \<times> bytes) list" where
  "zspec xs (ZInsert s m) =
     (if UINT32_MAX < length m then (ZInt (-1), xs)
      else (ZInt 0, filter (\<lambda>e. ekey e < zkey s m) xs @ (s, m) # filter (\<lambda>e. \<not> ekey e < zkey s m) xs))"
| "zspec xs (ZDelete s m) = (ZFlag (\<exists>e \<in> set xs. ekey e = zkey s m), filter (\<lambda>e. ekey e \<noteq> zkey s m) xs)"
| "zspec xs (ZRank s m) =
     (ZInt (if \<exists>e \<in> set xs. ekey e = zkey s m then int (length (filter (\<lambda>e. ekey e < zkey s m) xs)) else -1), xs)"
| "zspec xs (ZAt i) = (ZEntry (if i < length xs then Some (xs ! i) else None), xs)"
| "zspec xs (ZFirst r) = (ZEntry (first_of (filter (\<lambda>e. in_range r (fst e)) xs)), xs)"
| "zspec xs (ZLast r) = (ZEntry (last_of (filter (\<lambda>e. in_range r (fst e)) xs)), xs)"
| "zspec xs (ZCount r) = (ZNat (length (filter (\<lambda>e. in_range r (fst e)) xs)), xs)"
| "zspec xs (ZLexFirst r) = (ZEntry (first_of (filter (\<lambda>e. in_lex_range r (snd e)) xs)), xs)"
| "zspec xs (ZLexLast r) = (ZEntry (last_of (filter (\<lambda>e. in_lex_range r (snd e)) xs)), xs)"

text \<open>
  What callers ensure: scores are numbers, an inserted member is not in the set, the counters
  cannot overflow whatever the heights, and lexicographic ranges are asked of sets with a single
  score.
\<close>

definition zset_cost :: "(double \<times> bytes) list \<Rightarrow> nat" where
  "zset_cost xs =
     SIZEOF_ZSKIPLIST + node_bytes ZSL_MAX_LEVEL 0 + sum_list (map (\<lambda>e. node_bytes ZSL_MAX_LEVEL (length (snd e))) xs)"

fun zsafe :: "(double \<times> bytes) list \<Rightarrow> zop \<Rightarrow> bool" where
  "zsafe xs (ZInsert s m) \<longleftrightarrow>
     \<not> dbl_isnan s \<and> (\<forall>e \<in> set xs. ekey e \<noteq> zkey s m) \<and> length xs < UINT32_MAX \<and> zset_cost ((s, m) # xs) \<le> UINT64_MAX"
| "zsafe xs (ZDelete s m) \<longleftrightarrow> \<not> dbl_isnan s"
| "zsafe xs (ZRank s m) \<longleftrightarrow> \<not> dbl_isnan s"
| "zsafe xs (ZAt i) \<longleftrightarrow> i < UINT64_MAX"
| "zsafe xs (ZLexFirst r) \<longleftrightarrow> one_score (map fst xs)"
| "zsafe xs (ZLexLast r) \<longleftrightarrow> one_score (map fst xs)"
| "zsafe xs _ \<longleftrightarrow> True"

primrec zset_safe :: "(double \<times> bytes) list \<Rightarrow> zop list \<Rightarrow> bool" where
  "zset_safe xs [] \<longleftrightarrow> True"
| "zset_safe xs (op # ops) \<longleftrightarrow> zsafe xs op \<and> zset_safe (snd (zspec xs op)) ops"

definition zinv :: "zskiplist \<Rightarrow> bool" where
  "zinv z \<longleftrightarrow> (\<exists>ns. zrep z ns) \<and> z_length z \<le> UINT32_MAX \<and> z_mem z \<le> UINT64_MAX"

section \<open>Refinement\<close>

definition zsimulated :: "zskiplist \<Rightarrow> zop \<Rightarrow> bool" where
  "zsimulated z op \<longleftrightarrow> (\<exists>r z'. zexec z op = Some (r, z') \<and> zinv z' \<and> zspec (zset z) op = (r, zset z'))"

lemma zset_eq: "zrep z ns \<Longrightarrow> zset z = map (node_entry z) ns"
  by (simp add: zset_def znodes_eq zentries_def node_entry_def)

lemma node_entry_simps [simp]:
  "fst (node_entry z a) = zn_score (z_store z a)" "snd (node_entry z a) = zn_member (z_store z a)"
  "zkey (zn_score (z_store z a)) (zn_member (z_store z a)) = node_key (z_store z a)"
  by (simp_all add: node_entry_def node_key_def)

lemma zentries_entry: "zentries z ns = map (node_entry z) ns"
  by (simp add: zentries_def node_entry_def)

lemma filter_entries: "filter P (map (node_entry z) ns) = map (node_entry z) (filter (\<lambda>a. P (node_entry z a)) ns)"
  by (simp add: filter_map o_def)

lemma of_map [simp]: "first_of (map f xs) = map_option f (first_of xs)" "last_of (map f xs) = map_option f (last_of xs)"
  by (auto simp: first_of_def last_of_def hd_map last_map)

lemma mem_le_cost:
  assumes rep: "zrep z ns"
  shows "z_mem z \<le> zset_cost (zset z)"
proof -
  have "height z a \<le> ZSL_MAX_LEVEL" if "a \<in> set ns" for a using zrepD(7,10) [OF rep] that by fastforce
  then have "nodes_bytes z ns \<le> sum_list (map (\<lambda>e. node_bytes ZSL_MAX_LEVEL (length (snd e))) (zset z))"
    unfolding nodes_bytes_def zset_eq [OF rep] map_map o_def by (intro sum_list_mono) (simp add: node_bytes_mono)
  then show ?thesis using zrepD(15) [OF rep] by (simp add: zset_cost_def)
qed

lemma insert_simulated:
  assumes inv: "zinv z" and safe: "zsafe (zset z) (ZInsert s m)"
  shows "zsimulated z (ZInsert s m)"
proof (cases "UINT32_MAX < length m")
  case True
  then show ?thesis using inv by (simp add: zsimulated_def zsl_insert_def)
next
  case False
  from inv obtain ns where rep: "zrep z ns" unfolding zinv_def by blast
  have mem: "z_mem z + node_bytes ZSL_MAX_LEVEL (length m) \<le> UINT64_MAX"
    using safe mem_le_cost [OF rep] by (simp add: zset_cost_def)
  have new: "\<forall>a \<in> set ns. node_key (z_store z a) \<noteq> zkey s m" using safe by (simp add: zset_eq [OF rep])
  obtain z' pre post where i: "zsl_insert z s m = Some (0, z')" "ns = pre @ post"
    "\<forall>a \<in> set pre. node_key (z_store z a) < zkey s m" "\<forall>a \<in> set post. \<not> node_key (z_store z a) < zkey s m"
    "zrep z' (pre @ z_brk z # post)" "zentries z' (pre @ z_brk z # post) = zentries z pre @ (s, m) # zentries z post"
    "z_mem z' \<le> UINT64_MAX"
    by (rule zsl_insert_refines [OF rep _ _ new mem]) (use safe False in simp_all)
  have "zset z' = zentries z pre @ (s, m) # zentries z post"
    using zset_eq [OF i(5)] i(6) by (simp add: zentries_entry)
  moreover have "filter (\<lambda>a. node_key (z_store z a) < zkey s m) ns = pre"
    "filter (\<lambda>a. \<not> node_key (z_store z a) < zkey s m) ns = post"
    using i(2,3,4) by (simp_all add: filter_empty_conv filter_id_conv)
  ultimately have "zspec (zset z) (ZInsert s m) = (ZInt 0, zset z')"
    using False by (simp add: zset_eq [OF rep] filter_entries zentries_entry)
  moreover have "zinv z'"
    using i(5) zrepD(14) [OF i(5)] zrepD(14) [OF rep] safe i(2) i(7) by (auto simp: zinv_def zset_eq [OF rep])
  ultimately show ?thesis using i(1) by (simp add: zsimulated_def)
qed

lemma delete_simulated:
  assumes inv: "zinv z" and safe: "\<not> dbl_isnan s"
  shows "zsimulated z (ZDelete s m)"
proof -
  from inv obtain ns where rep: "zrep z ns" and mem: "z_mem z \<le> UINT64_MAX" unfolding zinv_def by blast
  note abs = zset_eq [OF rep]
  from rep safe mem show ?thesis
  proof (cases rule: zsl_delete_refines [of z ns s m])
    case 1
    have "filter (\<lambda>a. node_key (z_store z a) \<noteq> zkey s m) ns = ns" using 1(2) by (simp add: filter_id_conv)
    then show ?thesis using 1 inv by (auto simp: zsimulated_def abs filter_entries)
  next
    case (2 z' pre x post)
    have "sorted_wrt (<) (map (\<lambda>a. node_key (z_store z a)) (pre @ x # post))" using zrepD(3) [OF rep] 2(1) by simp
    then have "\<forall>a \<in> set (pre @ post). node_key (z_store z a) \<noteq> zkey s m"
      using 2(3) by (fastforce simp: sorted_wrt_append)
    then have "filter (\<lambda>a. node_key (z_store z a) \<noteq> zkey s m) ns = pre @ post"
      using 2(1,3) by (simp add: filter_id_conv)
    moreover have "zset z' = map (node_entry z) (pre @ post)" using zset_eq [OF 2(4)] 2(5) by (simp add: zentries_entry)
    moreover have "\<exists>a \<in> set ns. node_key (z_store z a) = zkey s m" using 2(1,3) by auto
    ultimately have "zspec (zset z) (ZDelete s m) = (ZFlag True, zset z')"
      by (simp add: abs filter_entries)
    moreover have "zinv z'"
      using 2(4,6) zrepD(14) [OF 2(4)] zrepD(14) [OF rep] 2(1) inv by (auto simp: zinv_def)
    ultimately show ?thesis using 2(2) by (simp add: zsimulated_def)
  qed
qed

lemma query_simulated:
  assumes "zinv z" and "zexec z op = Some (r, z)" and "zspec (zset z) op = (r, zset z)"
  shows "zsimulated z op"
  using assms by (simp add: zsimulated_def)

lemma op_simulated:
  assumes inv: "zinv z" and safe: "zsafe (zset z) op"
  shows "zsimulated z op"
proof -
  from inv obtain ns where rep: "zrep z ns" and len: "length ns \<le> UINT32_MAX"
    unfolding zinv_def using zrepD(14) by metis
  note abs = zset_eq [OF rep]
  have scores: "map fst (zset z) = map (\<lambda>a. zn_score (z_store z a)) ns" by (simp add: abs)
  show ?thesis
  proof (cases op)
    case (ZInsert s m)
    then show ?thesis using insert_simulated [OF inv] safe by simp
  next
    case (ZDelete s m)
    then show ?thesis using delete_simulated [OF inv] safe by simp
  next
    case (ZRank s m)
    then show ?thesis
      using safe rank_refines [OF rep _ len, of s m] by (intro query_simulated [OF inv]) (auto simp: abs filter_entries)
  next
    case (ZAt i)
    then show ?thesis
      using safe at_refines [OF rep len, of i] by (intro query_simulated [OF inv]) (auto simp: abs)
  next
    case (ZFirst r)
    then show ?thesis
      using first_in_range_refines [OF rep, of r] by (intro query_simulated [OF inv]) (auto simp: abs filter_entries)
  next
    case (ZLast r)
    then show ?thesis
      using last_in_range_refines [OF rep, of r] by (intro query_simulated [OF inv]) (auto simp: abs filter_entries)
  next
    case (ZCount r)
    then show ?thesis
      using count_in_range_refines [OF rep, of r] by (intro query_simulated [OF inv]) (auto simp: abs filter_entries)
  next
    case (ZLexFirst r)
    then show ?thesis
      using first_in_lex_range_refines [OF rep, of r] safe unfolding scores [symmetric]
      by (intro query_simulated [OF inv]) (auto simp: abs filter_entries)
  next
    case (ZLexLast r)
    then show ?thesis
      using last_in_lex_range_refines [OF rep, of r] safe unfolding scores [symmetric]
      by (intro query_simulated [OF inv]) (auto simp: abs filter_entries)
  qed
qed

interpretation zsr: data_refinement zinv zset "\<lambda>z. zsafe (zset z)" zexec zspec
  using op_simulated by unfold_locales (simp add: zsimulated_def)

lemma zset_safe_run: "zinv z \<Longrightarrow> zset_safe (zset z) ops \<Longrightarrow> run_safe (\<lambda>z. zsafe (zset z)) zexec z ops"
proof (induction ops arbitrary: z)
  case (Cons op ops)
  then obtain r z' where "zexec z op = Some (r, z')" "zinv z'" "zspec (zset z) op = (r, zset z')"
    using op_simulated [of z op] by (auto simp: zsimulated_def)
  with Cons show ?case by simp
qed simp

section \<open>Properties\<close>

definition zsl_empty :: zskiplist where
  "zsl_empty =
     \<lparr>z_store = (\<lambda>_. \<lparr>zn_score = 0, zn_backward = None, zn_member = [], zn_level = replicate ZSL_MAX_LEVEL (None, 0)\<rparr>),
      z_brk = 1, z_header = 0, z_tail = None, z_length = 0, z_level = 1,
      z_mem = SIZEOF_ZSKIPLIST + node_bytes ZSL_MAX_LEVEL 0, z_rng_state = 0x2545F491\<rparr>"

lemma zsl_create_eq: "zsl_create = Some zsl_empty"
  by (simp add: zsl_create_def zsl_empty_def zsl_node_new_eq zsl_node_bytes_eq)

lemma zrep_empty: "zrep zsl_empty []"
  by (auto simp: zrep_def zsl_empty_def height_def links_ok_def backs_ok_def nodes_bytes_def ZSL_MAX_LEVEL_def
      Cons_eq_append_conv)

lemma zinv_empty: "zinv zsl_empty" "zset zsl_empty = []"
proof -
  show "zset zsl_empty = []" using zset_eq [OF zrep_empty] by simp
  show "zinv zsl_empty"
    using zrep_empty by (auto simp: zinv_def) (simp_all add: zsl_empty_def c_limits node_bytes_def ZSL_MAX_LEVEL_def)
qed

definition zdemo_ops :: "zop list" where
  "zdemo_ops =
     [ZInsert 0x4000000000000000 [98], ZInsert 0x3FF0000000000000 [99], ZRank 0x4000000000000000 [98],
      ZCount \<lparr>rs_min = 0x3FF0000000000000, rs_max = 0x4000000000000000, rs_minex = True, rs_maxex = False\<rparr>,
      ZDelete 0x3FF0000000000000 [99], ZDelete 0x3FF0000000000000 [99], ZAt 0]"

definition zdemo_replies :: "zreply list" where
  "zdemo_replies =
     [ZInt 0, ZInt 0, ZInt 1, ZNat 1, ZFlag True, ZFlag False, ZEntry (Some (0x4000000000000000, [98]))]"

lemmas zdemo_eval = zdemo_ops_def zdemo_replies_def zkey_def dbl_isnan_def dbl_val_def dbl_mag_def in_range_def
  zsl_gte_min_def zsl_lte_max_def dbl_lt_def dbl_le_def zset_cost_def node_bytes_def ZSL_MAX_LEVEL_def c_limits

lemma zdemo_safe: "zset_safe [] zdemo_ops"
  by (simp add: zdemo_eval del: set_filter)

lemma zdemo_spec: "run_spec zspec [] zdemo_ops = (zdemo_replies, [(0x4000000000000000, [98])])"
  by (simp add: zdemo_eval del: set_filter)

text \<open>
  C5: The skip list is a sorted set. From an empty list, any sequence of insertions of new
  members, deletions, ranks, lookups by index, score ranges and lexicographic ranges returns,
  without a null dereference or an endless walk, and every result is the one of a list of entries
  kept sorted by score and member, whatever heights the generator drew.
\<close>
theorem skiplist_refines_sorted_set:
  assumes "zsl_create = Some z" and "zset_safe [] ops"
  shows "\<exists>rs z'. run_ops zexec z ops = Some (rs, z') \<and> run_spec zspec [] ops = (rs, zset z')"
proof -
  have z: "z = zsl_empty" using assms(1) by (simp add: zsl_create_eq)
  have "run_safe (\<lambda>z. zsafe (zset z)) zexec z ops"
    unfolding z by (rule zset_safe_run [OF zinv_empty(1)]) (simp add: zinv_empty(2) assms(2))
  from zsr.run_refines [OF zinv_empty(1) this [unfolded z]] show ?thesis by (auto simp: z zinv_empty(2))
qed

theorem skiplist_refines_sorted_set_witness:
  "\<exists>z z'. zsl_create = Some z \<and> run_ops zexec z zdemo_ops = Some (zdemo_replies, z') \<and>
    zset z' = [(0x4000000000000000, [98])]"
  using skiplist_refines_sorted_set [OF zsl_create_eq zdemo_safe] zsl_create_eq by (auto simp: zdemo_spec)

text \<open>
  C34: The links of the nodes. After any such sequence every forward link of every level leads to
  the next node of that height and its span is the distance to it, the backward links from the
  tail give the nodes in reverse, and the length and the memory counter are exact.
\<close>
theorem skiplist_structure:
  assumes "zsl_create = Some z" and "zset_safe [] ops" and "run_ops zexec z ops = Some (rs, z')"
  shows "sorted_wrt (<) (map ekey (zset z')) \<and> z_length z' = length (zset z') \<and>
    backward z' (z_length z') (z_tail z') = rev (znodes z') \<and>
    (\<forall>us a vs i. z_header z' # znodes z' = us @ a # vs \<and> i < height z' a \<and> i < z_level z' \<longrightarrow>
       zlink z' a i = map_prod id of_nat (link_to (height z') i vs)) \<and>
    z_mem z' = SIZEOF_ZSKIPLIST + node_bytes ZSL_MAX_LEVEL 0 + nodes_bytes z' (znodes z')"
proof -
  have z: "z = zsl_empty" using assms(1) by (simp add: zsl_create_eq)
  have "run_safe (\<lambda>z. zsafe (zset z)) zexec zsl_empty ops"
    by (rule zset_safe_run [OF zinv_empty(1)]) (simp add: zinv_empty(2) assms(2))
  from zsr.run_inv [OF zinv_empty(1) this assms(3) [unfolded z]] obtain ns where rep: "zrep z' ns"
    unfolding zinv_def by blast
  note r = zrepD [OF rep]
  have "map ekey (zset z') = map (\<lambda>a. node_key (z_store z' a)) ns" by (simp add: zset_eq [OF rep])
  moreover have "backward z' (z_length z') (z_tail z') = rev ns"
    using backward_eq [of z' ns "[]"] rep r(13,14) by (simp add: backs_ok_def)
  ultimately show ?thesis
    using r(3,14,15) links_okD [OF r(12)] by (simp add: znodes_eq [OF rep] zset_eq [OF rep] o_def)
qed

theorem skiplist_structure_witness:
  "\<exists>z z'. zsl_create = Some z \<and> run_ops zexec z zdemo_ops = Some (zdemo_replies, z') \<and> z_length z' = 1 \<and>
    backward z' 1 (z_tail z') = rev (znodes z')"
proof -
  obtain z' where z': "run_ops zexec zsl_empty zdemo_ops = Some (zdemo_replies, z')" "zset z' = [(0x4000000000000000, [98])]"
    using zset_safe_run [OF zinv_empty(1), of zdemo_ops] zsr.run_refines [OF zinv_empty(1), of zdemo_ops]
    by (auto simp: zinv_empty(2) zdemo_safe zdemo_spec)
  with skiplist_structure [OF zsl_create_eq zdemo_safe z'(1)] show ?thesis using zsl_create_eq by auto
qed

end
