(* ===== verification/Cmd_Ids.thy ===== *)
theory Cmd_Ids
  imports Main
begin

text \<open>The command identifiers, in the order of the enumeration in \<open>core/command.h\<close>,
  as names for their values.\<close>

abbreviation (input) CMD_PING :: nat where "CMD_PING \<equiv> 1"
abbreviation (input) CMD_ECHO :: nat where "CMD_ECHO \<equiv> 2"
abbreviation (input) CMD_GET :: nat where "CMD_GET \<equiv> 3"
abbreviation (input) CMD_SET :: nat where "CMD_SET \<equiv> 4"
abbreviation (input) CMD_DUMP :: nat where "CMD_DUMP \<equiv> 5"
abbreviation (input) CMD_RESTORE :: nat where "CMD_RESTORE \<equiv> 6"
abbreviation (input) CMD_MIGRATE :: nat where "CMD_MIGRATE \<equiv> 7"
abbreviation (input) CMD_ASKING :: nat where "CMD_ASKING \<equiv> 8"
abbreviation (input) CMD_DEL :: nat where "CMD_DEL \<equiv> 9"
abbreviation (input) CMD_UNLINK :: nat where "CMD_UNLINK \<equiv> 10"
abbreviation (input) CMD_EXISTS :: nat where "CMD_EXISTS \<equiv> 11"
abbreviation (input) CMD_INCR :: nat where "CMD_INCR \<equiv> 12"
abbreviation (input) CMD_DECR :: nat where "CMD_DECR \<equiv> 13"
abbreviation (input) CMD_APPEND :: nat where "CMD_APPEND \<equiv> 14"
abbreviation (input) CMD_STRLEN :: nat where "CMD_STRLEN \<equiv> 15"
abbreviation (input) CMD_MGET :: nat where "CMD_MGET \<equiv> 16"
abbreviation (input) CMD_MSET :: nat where "CMD_MSET \<equiv> 17"
abbreviation (input) CMD_EXPIRE :: nat where "CMD_EXPIRE \<equiv> 18"
abbreviation (input) CMD_PEXPIRE :: nat where "CMD_PEXPIRE \<equiv> 19"
abbreviation (input) CMD_EXPIREAT :: nat where "CMD_EXPIREAT \<equiv> 20"
abbreviation (input) CMD_PEXPIREAT :: nat where "CMD_PEXPIREAT \<equiv> 21"
abbreviation (input) CMD_TTL :: nat where "CMD_TTL \<equiv> 22"
abbreviation (input) CMD_PTTL :: nat where "CMD_PTTL \<equiv> 23"
abbreviation (input) CMD_PERSIST :: nat where "CMD_PERSIST \<equiv> 24"
abbreviation (input) CMD_DBSIZE :: nat where "CMD_DBSIZE \<equiv> 25"
abbreviation (input) CMD_FLUSHDB :: nat where "CMD_FLUSHDB \<equiv> 26"
abbreviation (input) CMD_CONFIG :: nat where "CMD_CONFIG \<equiv> 27"
abbreviation (input) CMD_INFO :: nat where "CMD_INFO \<equiv> 28"
abbreviation (input) CMD_HSET :: nat where "CMD_HSET \<equiv> 29"
abbreviation (input) CMD_HMSET :: nat where "CMD_HMSET \<equiv> 30"
abbreviation (input) CMD_HGET :: nat where "CMD_HGET \<equiv> 31"
abbreviation (input) CMD_HDEL :: nat where "CMD_HDEL \<equiv> 32"
abbreviation (input) CMD_HEXISTS :: nat where "CMD_HEXISTS \<equiv> 33"
abbreviation (input) CMD_HLEN :: nat where "CMD_HLEN \<equiv> 34"
abbreviation (input) CMD_HGETALL :: nat where "CMD_HGETALL \<equiv> 35"
abbreviation (input) CMD_HKEYS :: nat where "CMD_HKEYS \<equiv> 36"
abbreviation (input) CMD_HVALS :: nat where "CMD_HVALS \<equiv> 37"
abbreviation (input) CMD_HMGET :: nat where "CMD_HMGET \<equiv> 38"
abbreviation (input) CMD_HINCRBY :: nat where "CMD_HINCRBY \<equiv> 39"
abbreviation (input) CMD_HSETNX :: nat where "CMD_HSETNX \<equiv> 40"
abbreviation (input) CMD_LPUSH :: nat where "CMD_LPUSH \<equiv> 41"
abbreviation (input) CMD_RPUSH :: nat where "CMD_RPUSH \<equiv> 42"
abbreviation (input) CMD_LPUSHX :: nat where "CMD_LPUSHX \<equiv> 43"
abbreviation (input) CMD_RPUSHX :: nat where "CMD_RPUSHX \<equiv> 44"
abbreviation (input) CMD_LPOP :: nat where "CMD_LPOP \<equiv> 45"
abbreviation (input) CMD_RPOP :: nat where "CMD_RPOP \<equiv> 46"
abbreviation (input) CMD_LLEN :: nat where "CMD_LLEN \<equiv> 47"
abbreviation (input) CMD_LRANGE :: nat where "CMD_LRANGE \<equiv> 48"
abbreviation (input) CMD_LINDEX :: nat where "CMD_LINDEX \<equiv> 49"
abbreviation (input) CMD_LSET :: nat where "CMD_LSET \<equiv> 50"
abbreviation (input) CMD_SADD :: nat where "CMD_SADD \<equiv> 51"
abbreviation (input) CMD_SREM :: nat where "CMD_SREM \<equiv> 52"
abbreviation (input) CMD_SISMEMBER :: nat where "CMD_SISMEMBER \<equiv> 53"
abbreviation (input) CMD_SMISMEMBER :: nat where "CMD_SMISMEMBER \<equiv> 54"
abbreviation (input) CMD_SCARD :: nat where "CMD_SCARD \<equiv> 55"
abbreviation (input) CMD_SMEMBERS :: nat where "CMD_SMEMBERS \<equiv> 56"
abbreviation (input) CMD_SPOP :: nat where "CMD_SPOP \<equiv> 57"
abbreviation (input) CMD_SRANDMEMBER :: nat where "CMD_SRANDMEMBER \<equiv> 58"
abbreviation (input) CMD_SMOVE :: nat where "CMD_SMOVE \<equiv> 59"
abbreviation (input) CMD_SINTER :: nat where "CMD_SINTER \<equiv> 60"
abbreviation (input) CMD_SUNION :: nat where "CMD_SUNION \<equiv> 61"
abbreviation (input) CMD_SDIFF :: nat where "CMD_SDIFF \<equiv> 62"
abbreviation (input) CMD_ZADD :: nat where "CMD_ZADD \<equiv> 63"
abbreviation (input) CMD_ZSCORE :: nat where "CMD_ZSCORE \<equiv> 64"
abbreviation (input) CMD_ZCARD :: nat where "CMD_ZCARD \<equiv> 65"
abbreviation (input) CMD_ZINCRBY :: nat where "CMD_ZINCRBY \<equiv> 66"
abbreviation (input) CMD_ZREM :: nat where "CMD_ZREM \<equiv> 67"
abbreviation (input) CMD_ZRANGE :: nat where "CMD_ZRANGE \<equiv> 68"
abbreviation (input) CMD_ZREVRANGE :: nat where "CMD_ZREVRANGE \<equiv> 69"
abbreviation (input) CMD_ZRANK :: nat where "CMD_ZRANK \<equiv> 70"
abbreviation (input) CMD_ZREVRANK :: nat where "CMD_ZREVRANK \<equiv> 71"
abbreviation (input) CMD_ZCOUNT :: nat where "CMD_ZCOUNT \<equiv> 72"
abbreviation (input) CMD_ZRANGEBYSCORE :: nat where "CMD_ZRANGEBYSCORE \<equiv> 73"
abbreviation (input) CMD_ZREMRANGEBYSCORE :: nat where "CMD_ZREMRANGEBYSCORE \<equiv> 74"
abbreviation (input) CMD_MULTI :: nat where "CMD_MULTI \<equiv> 75"
abbreviation (input) CMD_EXEC :: nat where "CMD_EXEC \<equiv> 76"
abbreviation (input) CMD_DISCARD :: nat where "CMD_DISCARD \<equiv> 77"
abbreviation (input) CMD_WATCH :: nat where "CMD_WATCH \<equiv> 78"
abbreviation (input) CMD_UNWATCH :: nat where "CMD_UNWATCH \<equiv> 79"
abbreviation (input) CMD_SUBSCRIBE :: nat where "CMD_SUBSCRIBE \<equiv> 80"
abbreviation (input) CMD_UNSUBSCRIBE :: nat where "CMD_UNSUBSCRIBE \<equiv> 81"
abbreviation (input) CMD_PUBLISH :: nat where "CMD_PUBLISH \<equiv> 82"
abbreviation (input) CMD_QUIT :: nat where "CMD_QUIT \<equiv> 83"
abbreviation (input) CMD_SYNC :: nat where "CMD_SYNC \<equiv> 84"
abbreviation (input) CMD_PSYNC :: nat where "CMD_PSYNC \<equiv> 85"
abbreviation (input) CMD_REPLICAOF :: nat where "CMD_REPLICAOF \<equiv> 86"
abbreviation (input) CMD_SAVE :: nat where "CMD_SAVE \<equiv> 87"
abbreviation (input) CMD_LASTSAVE :: nat where "CMD_LASTSAVE \<equiv> 88"
abbreviation (input) CMD_SHUTDOWN :: nat where "CMD_SHUTDOWN \<equiv> 89"
abbreviation (input) CMD_CLUSTER :: nat where "CMD_CLUSTER \<equiv> 90"
abbreviation (input) CMD_AUTH :: nat where "CMD_AUTH \<equiv> 91"
abbreviation (input) CMD_SELECT :: nat where "CMD_SELECT \<equiv> 92"
abbreviation (input) CMD_SWAPDB :: nat where "CMD_SWAPDB \<equiv> 93"
abbreviation (input) CMD_EVAL :: nat where "CMD_EVAL \<equiv> 94"
abbreviation (input) CMD_EVALSHA :: nat where "CMD_EVALSHA \<equiv> 95"
abbreviation (input) CMD_SCRIPT :: nat where "CMD_SCRIPT \<equiv> 96"
abbreviation (input) CMD_SSUBSCRIBE :: nat where "CMD_SSUBSCRIBE \<equiv> 97"
abbreviation (input) CMD_SUNSUBSCRIBE :: nat where "CMD_SUNSUBSCRIBE \<equiv> 98"
abbreviation (input) CMD_SPUBLISH :: nat where "CMD_SPUBLISH \<equiv> 99"
abbreviation (input) CMD_PUBSUB :: nat where "CMD_PUBSUB \<equiv> 100"
abbreviation (input) CMD_TYPE :: nat where "CMD_TYPE \<equiv> 101"
abbreviation (input) CMD_KEYS :: nat where "CMD_KEYS \<equiv> 102"
abbreviation (input) CMD_SCAN :: nat where "CMD_SCAN \<equiv> 103"
abbreviation (input) CMD_RENAME :: nat where "CMD_RENAME \<equiv> 104"
abbreviation (input) CMD_RENAMENX :: nat where "CMD_RENAMENX \<equiv> 105"
abbreviation (input) CMD_TOUCH :: nat where "CMD_TOUCH \<equiv> 106"
abbreviation (input) CMD_RANDOMKEY :: nat where "CMD_RANDOMKEY \<equiv> 107"
abbreviation (input) CMD_EXPIRETIME :: nat where "CMD_EXPIRETIME \<equiv> 108"
abbreviation (input) CMD_PEXPIRETIME :: nat where "CMD_PEXPIRETIME \<equiv> 109"
abbreviation (input) CMD_GETDEL :: nat where "CMD_GETDEL \<equiv> 110"
abbreviation (input) CMD_GETEX :: nat where "CMD_GETEX \<equiv> 111"
abbreviation (input) CMD_SETEX :: nat where "CMD_SETEX \<equiv> 112"
abbreviation (input) CMD_PSETEX :: nat where "CMD_PSETEX \<equiv> 113"
abbreviation (input) CMD_GETSET :: nat where "CMD_GETSET \<equiv> 114"
abbreviation (input) CMD_SETRANGE :: nat where "CMD_SETRANGE \<equiv> 115"
abbreviation (input) CMD_GETRANGE :: nat where "CMD_GETRANGE \<equiv> 116"
abbreviation (input) CMD_INCRBY :: nat where "CMD_INCRBY \<equiv> 117"
abbreviation (input) CMD_DECRBY :: nat where "CMD_DECRBY \<equiv> 118"
abbreviation (input) CMD_INCRBYFLOAT :: nat where "CMD_INCRBYFLOAT \<equiv> 119"
abbreviation (input) CMD_HSTRLEN :: nat where "CMD_HSTRLEN \<equiv> 120"
abbreviation (input) CMD_HRANDFIELD :: nat where "CMD_HRANDFIELD \<equiv> 121"
abbreviation (input) CMD_LPOS :: nat where "CMD_LPOS \<equiv> 122"
abbreviation (input) CMD_LREM :: nat where "CMD_LREM \<equiv> 123"
abbreviation (input) CMD_LTRIM :: nat where "CMD_LTRIM \<equiv> 124"
abbreviation (input) CMD_RPOPLPUSH :: nat where "CMD_RPOPLPUSH \<equiv> 125"
abbreviation (input) CMD_LINSERT :: nat where "CMD_LINSERT \<equiv> 126"
abbreviation (input) CMD_LMOVE :: nat where "CMD_LMOVE \<equiv> 127"
abbreviation (input) CMD_LMOVEM :: nat where "CMD_LMOVEM \<equiv> 128"
abbreviation (input) CMD_LMPOP :: nat where "CMD_LMPOP \<equiv> 129"
abbreviation (input) CMD_SINTERCARD :: nat where "CMD_SINTERCARD \<equiv> 130"
abbreviation (input) CMD_SINTERSTORE :: nat where "CMD_SINTERSTORE \<equiv> 131"
abbreviation (input) CMD_SUNIONSTORE :: nat where "CMD_SUNIONSTORE \<equiv> 132"
abbreviation (input) CMD_SDIFFSTORE :: nat where "CMD_SDIFFSTORE \<equiv> 133"
abbreviation (input) CMD_ZPOPMIN :: nat where "CMD_ZPOPMIN \<equiv> 134"
abbreviation (input) CMD_ZPOPMAX :: nat where "CMD_ZPOPMAX \<equiv> 135"
abbreviation (input) CMD_ZREMRANGEBYRANK :: nat where "CMD_ZREMRANGEBYRANK \<equiv> 136"
abbreviation (input) CMD_ZMSCORE :: nat where "CMD_ZMSCORE \<equiv> 137"
abbreviation (input) CMD_ZRANDMEMBER :: nat where "CMD_ZRANDMEMBER \<equiv> 138"
abbreviation (input) CMD_ZRANGEBYLEX :: nat where "CMD_ZRANGEBYLEX \<equiv> 139"
abbreviation (input) CMD_ZREVRANGEBYLEX :: nat where "CMD_ZREVRANGEBYLEX \<equiv> 140"
abbreviation (input) CMD_ZREMRANGEBYLEX :: nat where "CMD_ZREMRANGEBYLEX \<equiv> 141"
abbreviation (input) CMD_PSUBSCRIBE :: nat where "CMD_PSUBSCRIBE \<equiv> 142"
abbreviation (input) CMD_PUNSUBSCRIBE :: nat where "CMD_PUNSUBSCRIBE \<equiv> 143"
abbreviation (input) CMD_COPY :: nat where "CMD_COPY \<equiv> 144"
abbreviation (input) CMD_OBJECT :: nat where "CMD_OBJECT \<equiv> 145"
abbreviation (input) CMD_SETNX :: nat where "CMD_SETNX \<equiv> 146"
abbreviation (input) CMD_MSETNX :: nat where "CMD_MSETNX \<equiv> 147"
abbreviation (input) CMD_GETBIT :: nat where "CMD_GETBIT \<equiv> 148"
abbreviation (input) CMD_SETBIT :: nat where "CMD_SETBIT \<equiv> 149"
abbreviation (input) CMD_BITCOUNT :: nat where "CMD_BITCOUNT \<equiv> 150"
abbreviation (input) CMD_BITPOS :: nat where "CMD_BITPOS \<equiv> 151"
abbreviation (input) CMD_BITOP :: nat where "CMD_BITOP \<equiv> 152"
abbreviation (input) CMD_BITFIELD :: nat where "CMD_BITFIELD \<equiv> 153"
abbreviation (input) CMD_BITFIELD_RO :: nat where "CMD_BITFIELD_RO \<equiv> 154"
abbreviation (input) CMD_ZUNIONSTORE :: nat where "CMD_ZUNIONSTORE \<equiv> 155"
abbreviation (input) CMD_ZINTERSTORE :: nat where "CMD_ZINTERSTORE \<equiv> 156"
abbreviation (input) CMD_ZDIFFSTORE :: nat where "CMD_ZDIFFSTORE \<equiv> 157"
abbreviation (input) CMD_ZUNION :: nat where "CMD_ZUNION \<equiv> 158"
abbreviation (input) CMD_ZINTER :: nat where "CMD_ZINTER \<equiv> 159"
abbreviation (input) CMD_ZDIFF :: nat where "CMD_ZDIFF \<equiv> 160"
abbreviation (input) CMD_ZINTERCARD :: nat where "CMD_ZINTERCARD \<equiv> 161"
abbreviation (input) CMD_ZLEXCOUNT :: nat where "CMD_ZLEXCOUNT \<equiv> 162"
abbreviation (input) CMD_ZREVRANGEBYSCORE :: nat where "CMD_ZREVRANGEBYSCORE \<equiv> 163"
abbreviation (input) CMD_ZRANGESTORE :: nat where "CMD_ZRANGESTORE \<equiv> 164"
abbreviation (input) CMD_ZMPOP :: nat where "CMD_ZMPOP \<equiv> 165"
abbreviation (input) CMD_HSCAN :: nat where "CMD_HSCAN \<equiv> 166"
abbreviation (input) CMD_SSCAN :: nat where "CMD_SSCAN \<equiv> 167"
abbreviation (input) CMD_ZSCAN :: nat where "CMD_ZSCAN \<equiv> 168"
abbreviation (input) CMD_FLUSHALL :: nat where "CMD_FLUSHALL \<equiv> 169"
abbreviation (input) CMD_TIME :: nat where "CMD_TIME \<equiv> 170"
abbreviation (input) CMD_HINCRBYFLOAT :: nat where "CMD_HINCRBYFLOAT \<equiv> 171"
abbreviation (input) CMD_READONLY :: nat where "CMD_READONLY \<equiv> 172"
abbreviation (input) CMD_READWRITE :: nat where "CMD_READWRITE \<equiv> 173"
abbreviation (input) CMD_SUBSTR :: nat where "CMD_SUBSTR \<equiv> 174"
abbreviation (input) CMD_SLAVEOF :: nat where "CMD_SLAVEOF \<equiv> 175"
abbreviation (input) CMD_MOVE :: nat where "CMD_MOVE \<equiv> 176"
abbreviation (input) CMD_ROLE :: nat where "CMD_ROLE \<equiv> 177"
abbreviation (input) CMD_RESET :: nat where "CMD_RESET \<equiv> 178"
abbreviation (input) CMD_HELLO :: nat where "CMD_HELLO \<equiv> 179"
abbreviation (input) CMD_LCS :: nat where "CMD_LCS \<equiv> 180"
abbreviation (input) CMD_SORT :: nat where "CMD_SORT \<equiv> 181"
abbreviation (input) CMD_SORT_RO :: nat where "CMD_SORT_RO \<equiv> 182"
abbreviation (input) CMD_PFADD :: nat where "CMD_PFADD \<equiv> 183"
abbreviation (input) CMD_PFCOUNT :: nat where "CMD_PFCOUNT \<equiv> 184"
abbreviation (input) CMD_PFDEBUG :: nat where "CMD_PFDEBUG \<equiv> 185"
abbreviation (input) CMD_PFMERGE :: nat where "CMD_PFMERGE \<equiv> 186"
abbreviation (input) CMD_PFSELFTEST :: nat where "CMD_PFSELFTEST \<equiv> 187"
abbreviation (input) CMD_GEOADD :: nat where "CMD_GEOADD \<equiv> 188"
abbreviation (input) CMD_GEODIST :: nat where "CMD_GEODIST \<equiv> 189"
abbreviation (input) CMD_GEOHASH :: nat where "CMD_GEOHASH \<equiv> 190"
abbreviation (input) CMD_GEOPOS :: nat where "CMD_GEOPOS \<equiv> 191"
abbreviation (input) CMD_GEORADIUS :: nat where "CMD_GEORADIUS \<equiv> 192"
abbreviation (input) CMD_GEORADIUS_RO :: nat where "CMD_GEORADIUS_RO \<equiv> 193"
abbreviation (input) CMD_GEORADIUSBYMEMBER :: nat where "CMD_GEORADIUSBYMEMBER \<equiv> 194"
abbreviation (input) CMD_GEORADIUSBYMEMBER_RO :: nat where "CMD_GEORADIUSBYMEMBER_RO \<equiv> 195"
abbreviation (input) CMD_GEOSEARCH :: nat where "CMD_GEOSEARCH \<equiv> 196"
abbreviation (input) CMD_GEOSEARCHSTORE :: nat where "CMD_GEOSEARCHSTORE \<equiv> 197"
abbreviation (input) CMD_COMMAND :: nat where "CMD_COMMAND \<equiv> 198"
abbreviation (input) CMD_CLIENT :: nat where "CMD_CLIENT \<equiv> 199"
abbreviation (input) CMD_MEMORY :: nat where "CMD_MEMORY \<equiv> 200"
abbreviation (input) CMD_SLOWLOG :: nat where "CMD_SLOWLOG \<equiv> 201"
abbreviation (input) CMD_BGSAVE :: nat where "CMD_BGSAVE \<equiv> 202"
abbreviation (input) CMD_BGREWRITEAOF :: nat where "CMD_BGREWRITEAOF \<equiv> 203"
abbreviation (input) CMD_XADD :: nat where "CMD_XADD \<equiv> 204"
abbreviation (input) CMD_XLEN :: nat where "CMD_XLEN \<equiv> 205"
abbreviation (input) CMD_XRANGE :: nat where "CMD_XRANGE \<equiv> 206"
abbreviation (input) CMD_XREVRANGE :: nat where "CMD_XREVRANGE \<equiv> 207"
abbreviation (input) CMD_XDEL :: nat where "CMD_XDEL \<equiv> 208"
abbreviation (input) CMD_XDELEX :: nat where "CMD_XDELEX \<equiv> 209"
abbreviation (input) CMD_XTRIM :: nat where "CMD_XTRIM \<equiv> 210"
abbreviation (input) CMD_XGROUP :: nat where "CMD_XGROUP \<equiv> 211"
abbreviation (input) CMD_XACK :: nat where "CMD_XACK \<equiv> 212"
abbreviation (input) CMD_XACKDEL :: nat where "CMD_XACKDEL \<equiv> 213"
abbreviation (input) CMD_XPENDING :: nat where "CMD_XPENDING \<equiv> 214"
abbreviation (input) CMD_XCLAIM :: nat where "CMD_XCLAIM \<equiv> 215"
abbreviation (input) CMD_XAUTOCLAIM :: nat where "CMD_XAUTOCLAIM \<equiv> 216"
abbreviation (input) CMD_XNACK :: nat where "CMD_XNACK \<equiv> 217"
abbreviation (input) CMD_XREAD :: nat where "CMD_XREAD \<equiv> 218"
abbreviation (input) CMD_XREADGROUP :: nat where "CMD_XREADGROUP \<equiv> 219"
abbreviation (input) CMD_XINFO :: nat where "CMD_XINFO \<equiv> 220"
abbreviation (input) CMD_XSETID :: nat where "CMD_XSETID \<equiv> 221"
abbreviation (input) CMD_XCFGSET :: nat where "CMD_XCFGSET \<equiv> 222"
abbreviation (input) CMD_XIDMPRECORD :: nat where "CMD_XIDMPRECORD \<equiv> 223"
abbreviation (input) CMD_EVAL_RO :: nat where "CMD_EVAL_RO \<equiv> 224"
abbreviation (input) CMD_EVALSHA_RO :: nat where "CMD_EVALSHA_RO \<equiv> 225"
abbreviation (input) CMD_RESTORE_ASKING :: nat where "CMD_RESTORE_ASKING \<equiv> 226"
abbreviation (input) CMD_LOLWUT :: nat where "CMD_LOLWUT \<equiv> 227"
abbreviation (input) CMD_FCALL :: nat where "CMD_FCALL \<equiv> 228"
abbreviation (input) CMD_FCALL_RO :: nat where "CMD_FCALL_RO \<equiv> 229"
abbreviation (input) CMD_FUNCTION :: nat where "CMD_FUNCTION \<equiv> 230"
abbreviation (input) CMD_BLPOP :: nat where "CMD_BLPOP \<equiv> 231"
abbreviation (input) CMD_BRPOP :: nat where "CMD_BRPOP \<equiv> 232"
abbreviation (input) CMD_BRPOPLPUSH :: nat where "CMD_BRPOPLPUSH \<equiv> 233"
abbreviation (input) CMD_BLMOVE :: nat where "CMD_BLMOVE \<equiv> 234"
abbreviation (input) CMD_BLMOVEM :: nat where "CMD_BLMOVEM \<equiv> 235"
abbreviation (input) CMD_BLMPOP :: nat where "CMD_BLMPOP \<equiv> 236"
abbreviation (input) CMD_BZPOPMIN :: nat where "CMD_BZPOPMIN \<equiv> 237"
abbreviation (input) CMD_BZPOPMAX :: nat where "CMD_BZPOPMAX \<equiv> 238"
abbreviation (input) CMD_BZMPOP :: nat where "CMD_BZMPOP \<equiv> 239"
abbreviation (input) CMD_WAIT :: nat where "CMD_WAIT \<equiv> 240"
abbreviation (input) CMD_WAITAOF :: nat where "CMD_WAITAOF \<equiv> 241"
abbreviation (input) CMD_REPLCONF :: nat where "CMD_REPLCONF \<equiv> 242"
abbreviation (input) CMD_FAILOVER :: nat where "CMD_FAILOVER \<equiv> 243"
abbreviation (input) CMD_MONITOR :: nat where "CMD_MONITOR \<equiv> 244"
abbreviation (input) CMD_ACL :: nat where "CMD_ACL \<equiv> 245"
abbreviation (input) CMD_DEBUG :: nat where "CMD_DEBUG \<equiv> 246"
abbreviation (input) CMD_LATENCY :: nat where "CMD_LATENCY \<equiv> 247"
abbreviation (input) CMD_MODULE :: nat where "CMD_MODULE \<equiv> 248"
abbreviation (input) CMD_SENTINEL :: nat where "CMD_SENTINEL \<equiv> 249"
abbreviation (input) CMD_HGETDEL :: nat where "CMD_HGETDEL \<equiv> 250"
abbreviation (input) CMD_HSETEX :: nat where "CMD_HSETEX \<equiv> 251"
abbreviation (input) CMD_HGETEX :: nat where "CMD_HGETEX \<equiv> 252"
abbreviation (input) CMD_HEXPIRE :: nat where "CMD_HEXPIRE \<equiv> 253"
abbreviation (input) CMD_HPEXPIRE :: nat where "CMD_HPEXPIRE \<equiv> 254"
abbreviation (input) CMD_HEXPIREAT :: nat where "CMD_HEXPIREAT \<equiv> 255"
abbreviation (input) CMD_HPEXPIREAT :: nat where "CMD_HPEXPIREAT \<equiv> 256"
abbreviation (input) CMD_HPERSIST :: nat where "CMD_HPERSIST \<equiv> 257"
abbreviation (input) CMD_HTTL :: nat where "CMD_HTTL \<equiv> 258"
abbreviation (input) CMD_HPTTL :: nat where "CMD_HPTTL \<equiv> 259"
abbreviation (input) CMD_HEXPIRETIME :: nat where "CMD_HEXPIRETIME \<equiv> 260"
abbreviation (input) CMD_HPEXPIRETIME :: nat where "CMD_HPEXPIRETIME \<equiv> 261"
abbreviation (input) CMD_SUNIONCARD :: nat where "CMD_SUNIONCARD \<equiv> 262"
abbreviation (input) CMD_SDIFFCARD :: nat where "CMD_SDIFFCARD \<equiv> 263"
abbreviation (input) CMD_INCREX :: nat where "CMD_INCREX \<equiv> 264"
abbreviation (input) CMD_MSETEX :: nat where "CMD_MSETEX \<equiv> 265"
abbreviation (input) CMD_DELEX :: nat where "CMD_DELEX \<equiv> 266"
abbreviation (input) CMD_DIGEST :: nat where "CMD_DIGEST \<equiv> 267"
abbreviation (input) CMD_SFLUSH :: nat where "CMD_SFLUSH \<equiv> 268"
abbreviation (input) CMD_TRIMSLOTS :: nat where "CMD_TRIMSLOTS \<equiv> 269"
abbreviation (input) CMD_BACKUP :: nat where "CMD_BACKUP \<equiv> 270"
abbreviation (input) CMD_HIMPORT :: nat where "CMD_HIMPORT \<equiv> 271"
abbreviation (input) CMD_HOTKEYS :: nat where "CMD_HOTKEYS \<equiv> 272"
abbreviation (input) CMD_ARSET :: nat where "CMD_ARSET \<equiv> 273"
abbreviation (input) CMD_ARGET :: nat where "CMD_ARGET \<equiv> 274"
abbreviation (input) CMD_ARLEN :: nat where "CMD_ARLEN \<equiv> 275"
abbreviation (input) CMD_ARCOUNT :: nat where "CMD_ARCOUNT \<equiv> 276"
abbreviation (input) CMD_ARGETRANGE :: nat where "CMD_ARGETRANGE \<equiv> 277"
abbreviation (input) CMD_ARMGET :: nat where "CMD_ARMGET \<equiv> 278"
abbreviation (input) CMD_ARDEL :: nat where "CMD_ARDEL \<equiv> 279"
abbreviation (input) CMD_ARDELRANGE :: nat where "CMD_ARDELRANGE \<equiv> 280"
abbreviation (input) CMD_ARMSET :: nat where "CMD_ARMSET \<equiv> 281"
abbreviation (input) CMD_ARNEXT :: nat where "CMD_ARNEXT \<equiv> 282"
abbreviation (input) CMD_ARSEEK :: nat where "CMD_ARSEEK \<equiv> 283"
abbreviation (input) CMD_ARINSERT :: nat where "CMD_ARINSERT \<equiv> 284"
abbreviation (input) CMD_ARRING :: nat where "CMD_ARRING \<equiv> 285"
abbreviation (input) CMD_ARSCAN :: nat where "CMD_ARSCAN \<equiv> 286"
abbreviation (input) CMD_ARINFO :: nat where "CMD_ARINFO \<equiv> 287"
abbreviation (input) CMD_ARLASTITEMS :: nat where "CMD_ARLASTITEMS \<equiv> 288"
abbreviation (input) CMD_AROP :: nat where "CMD_AROP \<equiv> 289"
abbreviation (input) CMD_ARGREP :: nat where "CMD_ARGREP \<equiv> 290"

definition CMD_ID_UNKNOWN :: nat where "CMD_ID_UNKNOWN = 0"
definition CMD_STATS_SLOTS :: nat where "CMD_STATS_SLOTS = 512"

end
