(* ===== verification/Cmd_Table.thy ===== *)
theory Cmd_Table
  imports Cmd_Ids Prelude
begin

text \<open>
  The command table of \<open>core/command.c\<close> and the open-addressing hash table that resolves
  command names to identifiers.
\<close>

section \<open>Case folding\<close>

definition upcase :: "byte \<Rightarrow> byte" where
  "upcase c = (if 97 \<le> c \<and> c \<le> 122 then c - 97 + 65 else c)"

definition downcase :: "byte \<Rightarrow> byte" where
  "downcase c = (if 65 \<le> c \<and> c \<le> 90 then c + (97 - 65) else c)"

fun ci_chars :: "bytes \<Rightarrow> string \<Rightarrow> bool" where
  "ci_chars (a # as) (b # bs) \<longleftrightarrow> upcase a = upcase (of_char b) \<and> ci_chars as bs"
| "ci_chars _ _ \<longleftrightarrow> True"

definition ci_equal :: "bytes \<Rightarrow> string \<Rightarrow> bool" where
  "ci_equal a b \<longleftrightarrow> length a = length b \<and> ci_chars a b"

section \<open>Table\<close>

record cmd_entry =
  ce_name :: string
  ce_id :: nat
  ce_min_argc :: int
  ce_max_argc :: int
  ce_parity :: int
  ce_flags :: nat

definition CMD_WRITE :: nat where "CMD_WRITE = 1"

definition cmd_row :: "string \<Rightarrow> nat \<Rightarrow> int \<Rightarrow> int \<Rightarrow> int \<Rightarrow> nat \<Rightarrow> cmd_entry" where
  "cmd_row name cid min_argc max_argc parity flags =
     \<lparr>ce_name = name, ce_id = cid, ce_min_argc = min_argc, ce_max_argc = max_argc,
      ce_parity = parity, ce_flags = flags\<rparr>"

definition CMD_TABLE :: "cmd_entry list" where
  "CMD_TABLE =
    [cmd_row ''ping'' CMD_PING 1 2 0 0, cmd_row ''echo'' CMD_ECHO 2 2 0 0,
     cmd_row ''get'' CMD_GET 2 2 0 0, cmd_row ''set'' CMD_SET 3 (-1) 0 CMD_WRITE,
     cmd_row ''dump'' CMD_DUMP 2 2 0 0, cmd_row ''restore'' CMD_RESTORE 4 (-1) 0 CMD_WRITE,
     cmd_row ''migrate'' CMD_MIGRATE 6 (-1) 0 CMD_WRITE, cmd_row ''asking'' CMD_ASKING 1 1 0 0,
     cmd_row ''del'' CMD_DEL 2 (-1) 0 CMD_WRITE, cmd_row ''unlink'' CMD_UNLINK 2 (-1) 0 CMD_WRITE,
     cmd_row ''exists'' CMD_EXISTS 2 (-1) 0 0, cmd_row ''incr'' CMD_INCR 2 2 0 CMD_WRITE,
     cmd_row ''decr'' CMD_DECR 2 2 0 CMD_WRITE, cmd_row ''append'' CMD_APPEND 3 3 0 CMD_WRITE,
     cmd_row ''strlen'' CMD_STRLEN 2 2 0 0, cmd_row ''mget'' CMD_MGET 2 (-1) 0 0,
     cmd_row ''mset'' CMD_MSET 3 (-1) 1 CMD_WRITE, cmd_row ''expire'' CMD_EXPIRE 3 7 0 CMD_WRITE,
     cmd_row ''pexpire'' CMD_PEXPIRE 3 7 0 CMD_WRITE, cmd_row ''expireat'' CMD_EXPIREAT 3 7 0 CMD_WRITE,
     cmd_row ''pexpireat'' CMD_PEXPIREAT 3 7 0 CMD_WRITE, cmd_row ''ttl'' CMD_TTL 2 2 0 0,
     cmd_row ''pttl'' CMD_PTTL 2 2 0 0, cmd_row ''persist'' CMD_PERSIST 2 2 0 CMD_WRITE,
     cmd_row ''dbsize'' CMD_DBSIZE 1 1 0 0, cmd_row ''flushdb'' CMD_FLUSHDB 1 2 0 CMD_WRITE,
     cmd_row ''config'' CMD_CONFIG 2 (-1) 0 0, cmd_row ''info'' CMD_INFO 1 (-1) 0 0,
     cmd_row ''hset'' CMD_HSET 4 (-1) 2 CMD_WRITE, cmd_row ''hmset'' CMD_HMSET 4 (-1) 2 CMD_WRITE,
     cmd_row ''hget'' CMD_HGET 3 3 0 0, cmd_row ''hdel'' CMD_HDEL 3 (-1) 0 CMD_WRITE,
     cmd_row ''hexists'' CMD_HEXISTS 3 3 0 0, cmd_row ''hlen'' CMD_HLEN 2 2 0 0,
     cmd_row ''hgetall'' CMD_HGETALL 2 2 0 0, cmd_row ''hkeys'' CMD_HKEYS 2 2 0 0,
     cmd_row ''hvals'' CMD_HVALS 2 2 0 0, cmd_row ''hmget'' CMD_HMGET 3 (-1) 0 0,
     cmd_row ''hincrby'' CMD_HINCRBY 4 4 0 CMD_WRITE, cmd_row ''hsetnx'' CMD_HSETNX 4 4 0 CMD_WRITE,
     cmd_row ''lpush'' CMD_LPUSH 3 (-1) 0 CMD_WRITE, cmd_row ''rpush'' CMD_RPUSH 3 (-1) 0 CMD_WRITE,
     cmd_row ''lpushx'' CMD_LPUSHX 3 (-1) 0 CMD_WRITE, cmd_row ''rpushx'' CMD_RPUSHX 3 (-1) 0 CMD_WRITE,
     cmd_row ''lpop'' CMD_LPOP 2 3 0 CMD_WRITE, cmd_row ''rpop'' CMD_RPOP 2 3 0 CMD_WRITE,
     cmd_row ''llen'' CMD_LLEN 2 2 0 0, cmd_row ''lrange'' CMD_LRANGE 4 4 0 0,
     cmd_row ''lindex'' CMD_LINDEX 3 3 0 0, cmd_row ''lset'' CMD_LSET 4 4 0 CMD_WRITE,
     cmd_row ''sadd'' CMD_SADD 3 (-1) 0 CMD_WRITE, cmd_row ''srem'' CMD_SREM 3 (-1) 0 CMD_WRITE,
     cmd_row ''sismember'' CMD_SISMEMBER 3 3 0 0, cmd_row ''smismember'' CMD_SMISMEMBER 3 (-1) 0 0,
     cmd_row ''scard'' CMD_SCARD 2 2 0 0, cmd_row ''smembers'' CMD_SMEMBERS 2 2 0 0,
     cmd_row ''spop'' CMD_SPOP 2 3 0 CMD_WRITE, cmd_row ''srandmember'' CMD_SRANDMEMBER 2 3 0 0,
     cmd_row ''smove'' CMD_SMOVE 4 4 0 CMD_WRITE, cmd_row ''sinter'' CMD_SINTER 2 (-1) 0 0,
     cmd_row ''sunion'' CMD_SUNION 2 (-1) 0 0, cmd_row ''sdiff'' CMD_SDIFF 2 (-1) 0 0,
     cmd_row ''zadd'' CMD_ZADD 4 (-1) 0 CMD_WRITE, cmd_row ''zscore'' CMD_ZSCORE 3 3 0 0,
     cmd_row ''zcard'' CMD_ZCARD 2 2 0 0, cmd_row ''zincrby'' CMD_ZINCRBY 4 4 0 CMD_WRITE,
     cmd_row ''zrem'' CMD_ZREM 3 (-1) 0 CMD_WRITE, cmd_row ''zrange'' CMD_ZRANGE 4 (-1) 0 0,
     cmd_row ''zrevrange'' CMD_ZREVRANGE 4 5 0 0, cmd_row ''zrank'' CMD_ZRANK 3 4 0 0,
     cmd_row ''zrevrank'' CMD_ZREVRANK 3 4 0 0, cmd_row ''zcount'' CMD_ZCOUNT 4 4 0 0,
     cmd_row ''zrangebyscore'' CMD_ZRANGEBYSCORE 4 (-1) 0 0, cmd_row ''zremrangebyscore'' CMD_ZREMRANGEBYSCORE 4 4 0 CMD_WRITE,
     cmd_row ''multi'' CMD_MULTI 1 1 0 0, cmd_row ''exec'' CMD_EXEC 1 1 0 0,
     cmd_row ''discard'' CMD_DISCARD 1 1 0 0, cmd_row ''watch'' CMD_WATCH 2 (-1) 0 0,
     cmd_row ''unwatch'' CMD_UNWATCH 1 1 0 0, cmd_row ''subscribe'' CMD_SUBSCRIBE 2 (-1) 0 0,
     cmd_row ''unsubscribe'' CMD_UNSUBSCRIBE 1 (-1) 0 0, cmd_row ''publish'' CMD_PUBLISH 3 3 0 0,
     cmd_row ''quit'' CMD_QUIT 1 1 0 0, cmd_row ''sync'' CMD_SYNC 1 1 0 0,
     cmd_row ''psync'' CMD_PSYNC 3 3 0 0, cmd_row ''replicaof'' CMD_REPLICAOF 3 3 0 0,
     cmd_row ''save'' CMD_SAVE 1 1 0 0, cmd_row ''lastsave'' CMD_LASTSAVE 1 1 0 0,
     cmd_row ''shutdown'' CMD_SHUTDOWN 1 (-1) 0 0, cmd_row ''cluster'' CMD_CLUSTER 2 (-1) 0 0,
     cmd_row ''auth'' CMD_AUTH 2 3 0 0, cmd_row ''select'' CMD_SELECT 2 2 0 0,
     cmd_row ''swapdb'' CMD_SWAPDB 3 3 0 CMD_WRITE, cmd_row ''eval'' CMD_EVAL 3 (-1) 0 CMD_WRITE,
     cmd_row ''evalsha'' CMD_EVALSHA 3 (-1) 0 CMD_WRITE, cmd_row ''script'' CMD_SCRIPT 2 (-1) 0 0,
     cmd_row ''ssubscribe'' CMD_SSUBSCRIBE 2 (-1) 0 0, cmd_row ''sunsubscribe'' CMD_SUNSUBSCRIBE 1 (-1) 0 0,
     cmd_row ''spublish'' CMD_SPUBLISH 3 3 0 0, cmd_row ''pubsub'' CMD_PUBSUB 2 (-1) 0 0,
     cmd_row ''type'' CMD_TYPE 2 2 0 0, cmd_row ''keys'' CMD_KEYS 2 2 0 0,
     cmd_row ''scan'' CMD_SCAN 2 (-1) 0 0, cmd_row ''rename'' CMD_RENAME 3 3 0 CMD_WRITE,
     cmd_row ''renamenx'' CMD_RENAMENX 3 3 0 CMD_WRITE, cmd_row ''touch'' CMD_TOUCH 2 (-1) 0 0,
     cmd_row ''randomkey'' CMD_RANDOMKEY 1 1 0 0, cmd_row ''expiretime'' CMD_EXPIRETIME 2 2 0 0,
     cmd_row ''pexpiretime'' CMD_PEXPIRETIME 2 2 0 0, cmd_row ''getdel'' CMD_GETDEL 2 2 0 CMD_WRITE,
     cmd_row ''getex'' CMD_GETEX 2 (-1) 0 CMD_WRITE, cmd_row ''setex'' CMD_SETEX 4 4 0 CMD_WRITE,
     cmd_row ''psetex'' CMD_PSETEX 4 4 0 CMD_WRITE, cmd_row ''getset'' CMD_GETSET 3 3 0 CMD_WRITE,
     cmd_row ''setrange'' CMD_SETRANGE 4 4 0 CMD_WRITE, cmd_row ''getrange'' CMD_GETRANGE 4 4 0 0,
     cmd_row ''incrby'' CMD_INCRBY 3 3 0 CMD_WRITE, cmd_row ''decrby'' CMD_DECRBY 3 3 0 CMD_WRITE,
     cmd_row ''incrbyfloat'' CMD_INCRBYFLOAT 3 3 0 CMD_WRITE, cmd_row ''hstrlen'' CMD_HSTRLEN 3 3 0 0,
     cmd_row ''hrandfield'' CMD_HRANDFIELD 2 4 0 0, cmd_row ''lpos'' CMD_LPOS 3 (-1) 0 0,
     cmd_row ''lrem'' CMD_LREM 4 4 0 CMD_WRITE, cmd_row ''ltrim'' CMD_LTRIM 4 4 0 CMD_WRITE,
     cmd_row ''rpoplpush'' CMD_RPOPLPUSH 3 3 0 CMD_WRITE, cmd_row ''linsert'' CMD_LINSERT 5 5 0 CMD_WRITE,
     cmd_row ''lmove'' CMD_LMOVE 5 5 0 CMD_WRITE, cmd_row ''lmovem'' CMD_LMOVEM 5 (-1) 0 CMD_WRITE,
     cmd_row ''lmpop'' CMD_LMPOP 4 (-1) 0 CMD_WRITE, cmd_row ''sintercard'' CMD_SINTERCARD 3 (-1) 0 0,
     cmd_row ''sinterstore'' CMD_SINTERSTORE 3 (-1) 0 CMD_WRITE, cmd_row ''sunionstore'' CMD_SUNIONSTORE 3 (-1) 0 CMD_WRITE,
     cmd_row ''sdiffstore'' CMD_SDIFFSTORE 3 (-1) 0 CMD_WRITE, cmd_row ''zpopmin'' CMD_ZPOPMIN 2 3 0 CMD_WRITE,
     cmd_row ''zpopmax'' CMD_ZPOPMAX 2 3 0 CMD_WRITE, cmd_row ''zremrangebyrank'' CMD_ZREMRANGEBYRANK 4 4 0 CMD_WRITE,
     cmd_row ''zmscore'' CMD_ZMSCORE 3 (-1) 0 0, cmd_row ''zrandmember'' CMD_ZRANDMEMBER 2 4 0 0,
     cmd_row ''zrangebylex'' CMD_ZRANGEBYLEX 4 (-1) 0 0, cmd_row ''zrevrangebylex'' CMD_ZREVRANGEBYLEX 4 (-1) 0 0,
     cmd_row ''zremrangebylex'' CMD_ZREMRANGEBYLEX 4 4 0 CMD_WRITE, cmd_row ''psubscribe'' CMD_PSUBSCRIBE 2 (-1) 0 0,
     cmd_row ''punsubscribe'' CMD_PUNSUBSCRIBE 1 (-1) 0 0, cmd_row ''copy'' CMD_COPY 3 (-1) 0 CMD_WRITE,
     cmd_row ''object'' CMD_OBJECT 2 3 0 0, cmd_row ''setnx'' CMD_SETNX 3 3 0 CMD_WRITE,
     cmd_row ''msetnx'' CMD_MSETNX 3 (-1) 1 CMD_WRITE, cmd_row ''getbit'' CMD_GETBIT 3 3 0 0,
     cmd_row ''setbit'' CMD_SETBIT 4 4 0 CMD_WRITE, cmd_row ''bitcount'' CMD_BITCOUNT 2 4 0 0,
     cmd_row ''bitpos'' CMD_BITPOS 3 5 0 0, cmd_row ''bitop'' CMD_BITOP 4 (-1) 0 CMD_WRITE,
     cmd_row ''bitfield'' CMD_BITFIELD 2 (-1) 0 CMD_WRITE, cmd_row ''bitfield_ro'' CMD_BITFIELD_RO 2 (-1) 0 0,
     cmd_row ''zunionstore'' CMD_ZUNIONSTORE 4 (-1) 0 CMD_WRITE, cmd_row ''zinterstore'' CMD_ZINTERSTORE 4 (-1) 0 CMD_WRITE,
     cmd_row ''zdiffstore'' CMD_ZDIFFSTORE 4 (-1) 0 CMD_WRITE, cmd_row ''zunion'' CMD_ZUNION 3 (-1) 0 0,
     cmd_row ''zinter'' CMD_ZINTER 3 (-1) 0 0, cmd_row ''zdiff'' CMD_ZDIFF 3 (-1) 0 0,
     cmd_row ''zintercard'' CMD_ZINTERCARD 3 (-1) 0 0, cmd_row ''zlexcount'' CMD_ZLEXCOUNT 4 4 0 0,
     cmd_row ''zrevrangebyscore'' CMD_ZREVRANGEBYSCORE 4 (-1) 0 0, cmd_row ''zrangestore'' CMD_ZRANGESTORE 5 (-1) 0 CMD_WRITE,
     cmd_row ''zmpop'' CMD_ZMPOP 4 (-1) 0 CMD_WRITE, cmd_row ''hscan'' CMD_HSCAN 3 (-1) 0 0,
     cmd_row ''sscan'' CMD_SSCAN 3 (-1) 0 0, cmd_row ''zscan'' CMD_ZSCAN 3 (-1) 0 0,
     cmd_row ''flushall'' CMD_FLUSHALL 1 2 0 CMD_WRITE, cmd_row ''time'' CMD_TIME 1 1 0 0,
     cmd_row ''hincrbyfloat'' CMD_HINCRBYFLOAT 4 4 0 CMD_WRITE, cmd_row ''readonly'' CMD_READONLY 1 1 0 0,
     cmd_row ''readwrite'' CMD_READWRITE 1 1 0 0, cmd_row ''substr'' CMD_SUBSTR 4 4 0 0,
     cmd_row ''slaveof'' CMD_SLAVEOF 3 3 0 0, cmd_row ''move'' CMD_MOVE 3 3 0 CMD_WRITE,
     cmd_row ''role'' CMD_ROLE 1 1 0 0, cmd_row ''reset'' CMD_RESET 1 1 0 0,
     cmd_row ''hello'' CMD_HELLO 1 (-1) 0 0, cmd_row ''lcs'' CMD_LCS 3 (-1) 0 0,
     cmd_row ''sort'' CMD_SORT 2 (-1) 0 CMD_WRITE, cmd_row ''sort_ro'' CMD_SORT_RO 2 (-1) 0 0,
     cmd_row ''pfadd'' CMD_PFADD 2 (-1) 0 CMD_WRITE, cmd_row ''pfcount'' CMD_PFCOUNT 2 (-1) 0 0,
     cmd_row ''pfdebug'' CMD_PFDEBUG 3 3 0 CMD_WRITE, cmd_row ''pfmerge'' CMD_PFMERGE 2 (-1) 0 CMD_WRITE,
     cmd_row ''pfselftest'' CMD_PFSELFTEST 1 1 0 0, cmd_row ''geoadd'' CMD_GEOADD 5 (-1) 0 CMD_WRITE,
     cmd_row ''geodist'' CMD_GEODIST 4 5 0 0, cmd_row ''geohash'' CMD_GEOHASH 2 (-1) 0 0,
     cmd_row ''geopos'' CMD_GEOPOS 2 (-1) 0 0, cmd_row ''georadius'' CMD_GEORADIUS 6 (-1) 0 CMD_WRITE,
     cmd_row ''georadius_ro'' CMD_GEORADIUS_RO 6 (-1) 0 0, cmd_row ''georadiusbymember'' CMD_GEORADIUSBYMEMBER 5 (-1) 0 CMD_WRITE,
     cmd_row ''georadiusbymember_ro'' CMD_GEORADIUSBYMEMBER_RO 5 (-1) 0 0, cmd_row ''geosearch'' CMD_GEOSEARCH 7 (-1) 0 0,
     cmd_row ''geosearchstore'' CMD_GEOSEARCHSTORE 8 (-1) 0 CMD_WRITE, cmd_row ''command'' CMD_COMMAND 1 (-1) 0 0,
     cmd_row ''client'' CMD_CLIENT 2 (-1) 0 0, cmd_row ''memory'' CMD_MEMORY 2 (-1) 0 0,
     cmd_row ''slowlog'' CMD_SLOWLOG 2 (-1) 0 0, cmd_row ''bgsave'' CMD_BGSAVE 1 2 0 0,
     cmd_row ''bgrewriteaof'' CMD_BGREWRITEAOF 1 1 0 0, cmd_row ''xadd'' CMD_XADD 5 (-1) 0 CMD_WRITE,
     cmd_row ''xlen'' CMD_XLEN 2 2 0 0, cmd_row ''xrange'' CMD_XRANGE 4 (-1) 0 0,
     cmd_row ''xrevrange'' CMD_XREVRANGE 4 (-1) 0 0, cmd_row ''xdel'' CMD_XDEL 3 (-1) 0 CMD_WRITE,
     cmd_row ''xdelex'' CMD_XDELEX 5 (-1) 0 CMD_WRITE, cmd_row ''xtrim'' CMD_XTRIM 4 (-1) 0 CMD_WRITE,
     cmd_row ''xgroup'' CMD_XGROUP 2 (-1) 0 CMD_WRITE, cmd_row ''xack'' CMD_XACK 4 (-1) 0 CMD_WRITE,
     cmd_row ''xackdel'' CMD_XACKDEL 6 (-1) 0 CMD_WRITE, cmd_row ''xpending'' CMD_XPENDING 3 7 0 0,
     cmd_row ''xclaim'' CMD_XCLAIM 6 (-1) 0 CMD_WRITE, cmd_row ''xautoclaim'' CMD_XAUTOCLAIM 6 (-1) 0 CMD_WRITE,
     cmd_row ''xnack'' CMD_XNACK 7 (-1) 0 CMD_WRITE, cmd_row ''xread'' CMD_XREAD 4 (-1) 0 0,
     cmd_row ''xreadgroup'' CMD_XREADGROUP 7 (-1) 0 CMD_WRITE, cmd_row ''xinfo'' CMD_XINFO 2 (-1) 0 0,
     cmd_row ''xsetid'' CMD_XSETID 3 (-1) 0 CMD_WRITE, cmd_row ''xcfgset'' CMD_XCFGSET 2 (-1) 0 CMD_WRITE,
     cmd_row ''xidmprecord'' CMD_XIDMPRECORD 5 5 0 CMD_WRITE, cmd_row ''eval_ro'' CMD_EVAL_RO 3 (-1) 0 0,
     cmd_row ''evalsha_ro'' CMD_EVALSHA_RO 3 (-1) 0 0, cmd_row ''restore-asking'' CMD_RESTORE_ASKING 4 (-1) 0 CMD_WRITE,
     cmd_row ''lolwut'' CMD_LOLWUT 1 (-1) 0 0, cmd_row ''fcall'' CMD_FCALL 3 (-1) 0 CMD_WRITE,
     cmd_row ''fcall_ro'' CMD_FCALL_RO 3 (-1) 0 0, cmd_row ''function'' CMD_FUNCTION 2 (-1) 0 CMD_WRITE,
     cmd_row ''blpop'' CMD_BLPOP 3 (-1) 0 CMD_WRITE, cmd_row ''brpop'' CMD_BRPOP 3 (-1) 0 CMD_WRITE,
     cmd_row ''brpoplpush'' CMD_BRPOPLPUSH 4 4 0 CMD_WRITE, cmd_row ''blmove'' CMD_BLMOVE 6 6 0 CMD_WRITE,
     cmd_row ''blmovem'' CMD_BLMOVEM 6 (-1) 0 CMD_WRITE, cmd_row ''blmpop'' CMD_BLMPOP 5 (-1) 0 CMD_WRITE,
     cmd_row ''bzpopmin'' CMD_BZPOPMIN 3 (-1) 0 CMD_WRITE, cmd_row ''bzpopmax'' CMD_BZPOPMAX 3 (-1) 0 CMD_WRITE,
     cmd_row ''bzmpop'' CMD_BZMPOP 5 (-1) 0 CMD_WRITE, cmd_row ''wait'' CMD_WAIT 3 3 0 0,
     cmd_row ''waitaof'' CMD_WAITAOF 4 4 0 0, cmd_row ''replconf'' CMD_REPLCONF 1 (-1) 0 0,
     cmd_row ''failover'' CMD_FAILOVER 1 (-1) 0 CMD_WRITE, cmd_row ''monitor'' CMD_MONITOR 1 1 0 0,
     cmd_row ''acl'' CMD_ACL 2 (-1) 0 0, cmd_row ''debug'' CMD_DEBUG 2 (-1) 0 0,
     cmd_row ''latency'' CMD_LATENCY 2 (-1) 0 0, cmd_row ''module'' CMD_MODULE 2 (-1) 0 0,
     cmd_row ''sentinel'' CMD_SENTINEL 2 (-1) 0 0, cmd_row ''hgetdel'' CMD_HGETDEL 5 (-1) 0 CMD_WRITE,
     cmd_row ''hsetex'' CMD_HSETEX 6 (-1) 0 CMD_WRITE, cmd_row ''hgetex'' CMD_HGETEX 5 (-1) 0 CMD_WRITE,
     cmd_row ''hexpire'' CMD_HEXPIRE 6 (-1) 0 CMD_WRITE, cmd_row ''hpexpire'' CMD_HPEXPIRE 6 (-1) 0 CMD_WRITE,
     cmd_row ''hexpireat'' CMD_HEXPIREAT 6 (-1) 0 CMD_WRITE, cmd_row ''hpexpireat'' CMD_HPEXPIREAT 6 (-1) 0 CMD_WRITE,
     cmd_row ''hpersist'' CMD_HPERSIST 5 (-1) 0 CMD_WRITE, cmd_row ''httl'' CMD_HTTL 5 (-1) 0 0,
     cmd_row ''hpttl'' CMD_HPTTL 5 (-1) 0 0, cmd_row ''hexpiretime'' CMD_HEXPIRETIME 5 (-1) 0 0,
     cmd_row ''hpexpiretime'' CMD_HPEXPIRETIME 5 (-1) 0 0, cmd_row ''sunioncard'' CMD_SUNIONCARD 3 (-1) 0 0,
     cmd_row ''sdiffcard'' CMD_SDIFFCARD 3 (-1) 0 0, cmd_row ''increx'' CMD_INCREX 2 (-1) 0 CMD_WRITE,
     cmd_row ''msetex'' CMD_MSETEX 4 (-1) 0 CMD_WRITE, cmd_row ''delex'' CMD_DELEX 2 (-1) 0 CMD_WRITE,
     cmd_row ''digest'' CMD_DIGEST 2 2 0 0, cmd_row ''sflush'' CMD_SFLUSH 3 (-1) 0 CMD_WRITE,
     cmd_row ''trimslots'' CMD_TRIMSLOTS 5 (-1) 0 CMD_WRITE, cmd_row ''backup'' CMD_BACKUP 2 2 0 0,
     cmd_row ''himport'' CMD_HIMPORT 2 (-1) 0 CMD_WRITE, cmd_row ''hotkeys'' CMD_HOTKEYS 2 (-1) 0 0,
     cmd_row ''arset'' CMD_ARSET 4 (-1) 0 CMD_WRITE, cmd_row ''arget'' CMD_ARGET 3 3 0 0,
     cmd_row ''arlen'' CMD_ARLEN 2 2 0 0, cmd_row ''arcount'' CMD_ARCOUNT 2 2 0 0,
     cmd_row ''argetrange'' CMD_ARGETRANGE 4 4 0 0, cmd_row ''armget'' CMD_ARMGET 3 (-1) 0 0,
     cmd_row ''ardel'' CMD_ARDEL 3 (-1) 0 CMD_WRITE, cmd_row ''ardelrange'' CMD_ARDELRANGE 4 (-1) 0 CMD_WRITE,
     cmd_row ''armset'' CMD_ARMSET 4 (-1) 0 CMD_WRITE, cmd_row ''arnext'' CMD_ARNEXT 2 2 0 0,
     cmd_row ''arseek'' CMD_ARSEEK 3 3 0 CMD_WRITE, cmd_row ''arinsert'' CMD_ARINSERT 3 (-1) 0 CMD_WRITE,
     cmd_row ''arring'' CMD_ARRING 4 (-1) 0 CMD_WRITE, cmd_row ''arscan'' CMD_ARSCAN 4 (-1) 0 0,
     cmd_row ''arinfo'' CMD_ARINFO 2 3 0 0, cmd_row ''arlastitems'' CMD_ARLASTITEMS 3 4 0 0,
     cmd_row ''arop'' CMD_AROP 5 6 0 0, cmd_row ''argrep'' CMD_ARGREP 6 (-1) 0 0]"

definition cmd_table_entry :: "nat \<Rightarrow> cmd_entry" where
  "cmd_table_entry cid =
     (if cid = 0 \<or> length CMD_TABLE < cid then cmd_row ''unknown'' CMD_ID_UNKNOWN 0 0 0 0
      else CMD_TABLE ! (cid - 1))"

definition cmd_is_write :: "nat \<Rightarrow> bool" where
  "cmd_is_write cid \<longleftrightarrow>
     (if cid = 0 \<or> length CMD_TABLE < cid then False
      else ce_flags (CMD_TABLE ! (cid - 1)) AND CMD_WRITE \<noteq> 0)"

definition cmd_min_argc :: "nat \<Rightarrow> int" where
  "cmd_min_argc cid =
     (if cid = 0 \<or> length CMD_TABLE < cid then -1 else ce_min_argc (CMD_TABLE ! (cid - 1)))"

definition cmd_max_argc :: "nat \<Rightarrow> int" where
  "cmd_max_argc cid =
     (if cid = 0 \<or> length CMD_TABLE < cid then -1 else ce_max_argc (CMD_TABLE ! (cid - 1)))"

definition cmd_parity :: "nat \<Rightarrow> int" where
  "cmd_parity cid =
     (if cid = 0 \<or> length CMD_TABLE < cid then 0 else ce_parity (CMD_TABLE ! (cid - 1)))"

definition cmd_name :: "nat \<Rightarrow> string" where
  "cmd_name cid = ce_name (cmd_table_entry cid)"

section \<open>Resolving names\<close>

definition CMD_HASH_SIZE :: nat where "CMD_HASH_SIZE = 512"

record cmd_hash_slot =
  sl_name :: string
  sl_nlen :: nat
  sl_id :: nat

definition cmd_hash_fn :: "bytes \<Rightarrow> u32" where
  "cmd_hash_fn s = foldl (\<lambda>h c. (h XOR ucast (downcase c)) * 16777619) 2166136261 s"

partial_function (option) free_slot :: "cmd_hash_slot list \<Rightarrow> nat \<Rightarrow> nat option" where
  "free_slot t idx =
     (if sl_id (t ! idx) \<noteq> 0 then free_slot t ((idx + 1) AND (CMD_HASH_SIZE - 1)) else Some idx)"

fun add_slots :: "cmd_hash_slot list \<Rightarrow> cmd_entry list \<Rightarrow> cmd_hash_slot list option" where
  "add_slots t [] = Some t"
| "add_slots t (e # es) =
     (case free_slot t (unat (cmd_hash_fn (ascii (ce_name e))) AND (CMD_HASH_SIZE - 1)) of
        None \<Rightarrow> None
      | Some idx \<Rightarrow>
          add_slots (t[idx := \<lparr>sl_name = ce_name e, sl_nlen = length (ce_name e) mod 256, sl_id = ce_id e\<rparr>]) es)"

definition cmd_hash_build :: "cmd_hash_slot list option" where
  "cmd_hash_build = add_slots (replicate CMD_HASH_SIZE \<lparr>sl_name = [], sl_nlen = 0, sl_id = 0\<rparr>) CMD_TABLE"

partial_function (option) resolve_loop :: "cmd_hash_slot list \<Rightarrow> bytes \<Rightarrow> nat \<Rightarrow> nat option" where
  "resolve_loop t name idx =
     (if sl_id (t ! idx) \<noteq> 0
      then if sl_nlen (t ! idx) = length name mod 256 \<and> ci_equal name (sl_name (t ! idx))
           then Some (sl_id (t ! idx))
           else resolve_loop t name ((idx + 1) AND (CMD_HASH_SIZE - 1))
      else Some CMD_ID_UNKNOWN)"

definition cmd_resolve :: "bytes \<Rightarrow> nat option" where
  "cmd_resolve name =
     (case cmd_hash_build of
        None \<Rightarrow> None
      | Some t \<Rightarrow>
          if length name = 0 \<or> 255 < length name then Some CMD_ID_UNKNOWN
          else resolve_loop t name (unat (cmd_hash_fn name) AND (CMD_HASH_SIZE - 1)))"

section \<open>Facts of the table\<close>

lemma table_ids: "map ce_id CMD_TABLE = [1..<291]"
proof -
  have "map ce_id CMD_TABLE = 1 # [2..<291]" by (simp add: CMD_TABLE_def cmd_row_def)
  then show ?thesis by (simp add: upt_conv_Cons)
qed

lemma table_names: "list_all (\<lambda>e. length (ce_name e) \<le> 255 \<and> ce_name e \<noteq> []) CMD_TABLE"
  by (simp add: CMD_TABLE_def cmd_row_def)

lemma table_length: "length CMD_TABLE = 290"
  using arg_cong [OF table_ids, of length] by simp

end
