(* ===== verification/Cmd_Resolve.thy ===== *)
theory Cmd_Resolve
  imports Cmd_Table
begin

text \<open>
  Resolving a command name through the hash table finds the first row of the command table with
  that name, ignoring case.
\<close>

section \<open>Case folding and hashes\<close>

lemma fold_iff: "upcase a = upcase b \<longleftrightarrow> downcase a = downcase b"
proof -
  have up: "unat (upcase c) = (if 97 \<le> unat c \<and> unat c \<le> 122 then unat c - 32 else unat c)" for c
    by (auto simp: upcase_def word_le_nat_alt unat_word_ariths unat_sub)
  have down: "unat (downcase c) = (if 65 \<le> unat c \<and> unat c \<le> 90 then unat c + 32 else unat c)" for c
    by (auto simp: downcase_def word_le_nat_alt unat_word_ariths)
  show ?thesis unfolding word_unat_eq_iff up down by (auto split: if_splits)
qed

lemma ci_equal_iff: "ci_equal a b \<longleftrightarrow> map downcase a = map downcase (ascii b)"
proof -
  have "length a = length b \<Longrightarrow> ci_chars a b \<longleftrightarrow> map downcase a = map downcase (ascii b)"
    by (induction a b rule: list_induct2) (simp_all add: ascii_def fold_iff)
  moreover have "map downcase a = map downcase (ascii b) \<Longrightarrow> length a = length b"
    by (metis length_map length_ascii)
  ultimately show ?thesis unfolding ci_equal_def by blast
qed

lemma hash_downcase: "cmd_hash_fn s = foldl (\<lambda>h c. (h XOR ucast c) * 16777619) 2166136261 (map downcase s)"
  unfolding cmd_hash_fn_def foldl_map_eq ..

lemma ci_equal_hash: "ci_equal a b \<Longrightarrow> cmd_hash_fn a = cmd_hash_fn (ascii b)"
  unfolding hash_downcase ci_equal_iff by simp

section \<open>Probing\<close>

abbreviation probe :: "nat \<Rightarrow> nat \<Rightarrow> nat" where
  "probe h k \<equiv> (h + k) mod CMD_HASH_SIZE"

lemma size_pos [simp]: "0 < CMD_HASH_SIZE" by (simp add: CMD_HASH_SIZE_def)

lemma hash_mask_mod: "i AND (CMD_HASH_SIZE - 1) = i mod CMD_HASH_SIZE"
  using and_mask_mod [OF pow2_exp [of 9]] by (simp add: CMD_HASH_SIZE_def)

lemma probe_next: "Suc (probe h k) AND (CMD_HASH_SIZE - Suc 0) = probe h (Suc k)"
  using hash_mask_mod [of "Suc (probe h k)"] by (simp add: mod_Suc_eq)

lemma probe_onto:
  assumes "i < CMD_HASH_SIZE"
  obtains k where "k < CMD_HASH_SIZE" and "probe h k = i"
proof
  let ?k = "(i + CMD_HASH_SIZE - h mod CMD_HASH_SIZE) mod CMD_HASH_SIZE"
  show "?k < CMD_HASH_SIZE" by simp
  have "probe h ?k = (h mod CMD_HASH_SIZE + (i + CMD_HASH_SIZE - h mod CMD_HASH_SIZE)) mod CMD_HASH_SIZE"
    by (simp add: mod_add_eq mod_add_right_eq mod_add_left_eq)
  also have "h mod CMD_HASH_SIZE + (i + CMD_HASH_SIZE - h mod CMD_HASH_SIZE) = i + CMD_HASH_SIZE"
    using mod_less_divisor [OF size_pos, of h] by linarith
  finally show "probe h ?k = i" using assms by simp
qed

lemma free_slot_probe:
  assumes "sl_id (t ! probe h n) = 0" and "\<forall>j < n. sl_id (t ! probe h j) \<noteq> 0" and "k \<le> n"
  shows "free_slot t (probe h k) = Some (probe h n)"
  using assms(3)
proof (induction "n - k" arbitrary: k)
  case 0
  with assms(1) show ?case by (subst free_slot.simps) simp
next
  case (Suc m)
  then have "free_slot t (probe h k) = free_slot t (probe h (Suc k))"
    using assms(2) by (subst free_slot.simps) (simp add: probe_next)
  with Suc.hyps(1) [of "Suc k"] Suc.hyps(2) Suc.prems show ?case by simp
qed

lemma resolve_probe:
  assumes "sl_id (t ! probe h n) = 0 \<or> sl_nlen (t ! probe h n) = length name mod 256 \<and> ci_equal name (sl_name (t ! probe h n))"
    and "\<forall>j < n. sl_id (t ! probe h j) \<noteq> 0 \<and> \<not> ci_equal name (sl_name (t ! probe h j))" and "k \<le> n"
  shows "resolve_loop t name (probe h k) = Some (sl_id (t ! probe h n))"
  using assms(3)
proof (induction "n - k" arbitrary: k)
  case 0
  with assms(1) show ?case by (subst resolve_loop.simps) (auto simp: CMD_ID_UNKNOWN_def)
next
  case (Suc m)
  then have "resolve_loop t name (probe h k) = resolve_loop t name (probe h (Suc k))"
    using assms(2) by (subst resolve_loop.simps) (simp add: probe_next)
  with Suc.hyps(1) [of "Suc k"] Suc.hyps(2) Suc.prems show ?case by simp
qed

section \<open>The table that is built\<close>

abbreviation slot_of :: "cmd_entry \<Rightarrow> cmd_hash_slot" where
  "slot_of e \<equiv> \<lparr>sl_name = ce_name e, sl_nlen = length (ce_name e) mod 256, sl_id = ce_id e\<rparr>"

abbreviation home :: "cmd_entry \<Rightarrow> nat" where
  "home e \<equiv> unat (cmd_hash_fn (ascii (ce_name e)))"

definition used :: "cmd_hash_slot list \<Rightarrow> nat set" where
  "used t = {i. i < CMD_HASH_SIZE \<and> sl_id (t ! i) \<noteq> 0}"

definition filled :: "cmd_hash_slot list \<Rightarrow> cmd_entry list \<Rightarrow> bool" where
  "filled t es \<longleftrightarrow>
     length t = CMD_HASH_SIZE \<and> card (used t) = length es \<and>
     (\<forall>i \<in> used t. \<exists>e \<in> set es. t ! i = slot_of e) \<and>
     (\<forall>us e vs. es = us @ e # vs \<longrightarrow>
        (\<exists>k < CMD_HASH_SIZE. t ! probe (home e) k = slot_of e \<and>
           (\<forall>j < k. \<exists>e' \<in> set us. t ! probe (home e) j = slot_of e')))"

lemma filledD:
  assumes "filled t es"
  shows "length t = CMD_HASH_SIZE" "card (used t) = length es" "\<And>i. i \<in> used t \<Longrightarrow> \<exists>e \<in> set es. t ! i = slot_of e"
    "\<And>us e vs. es = us @ e # vs \<Longrightarrow> \<exists>k < CMD_HASH_SIZE. t ! probe (home e) k = slot_of e \<and>
       (\<forall>j < k. \<exists>e' \<in> set us. t ! probe (home e) j = slot_of e')"
  using assms unfolding filled_def by blast+

lemma first_free:
  assumes "filled t es" and "length es < CMD_HASH_SIZE"
  obtains n where "n < CMD_HASH_SIZE" and "sl_id (t ! probe h n) = 0" and "\<forall>j < n. sl_id (t ! probe h j) \<noteq> 0"
proof -
  obtain i where i: "i < CMD_HASH_SIZE" "sl_id (t ! i) = 0"
  proof (rule ccontr)
    assume "\<not> thesis"
    then have "used t = {..<CMD_HASH_SIZE}" using that unfolding used_def by blast
    then have "length es = CMD_HASH_SIZE" using filledD(2) [OF assms(1)] by simp
    with assms(2) show False by simp
  qed
  obtain k where k: "k < CMD_HASH_SIZE" "probe h k = i" by (rule probe_onto [OF i(1)])
  define n where "n = (LEAST n. sl_id (t ! probe h n) = 0)"
  have "sl_id (t ! probe h k) = 0" using i k by simp
  then have "sl_id (t ! probe h n) = 0" "n \<le> k" unfolding n_def by (rule LeastI, rule Least_le)
  moreover have "\<forall>j < n. sl_id (t ! probe h j) \<noteq> 0" unfolding n_def using not_less_Least by blast
  moreover have "n < CMD_HASH_SIZE" using \<open>n \<le> k\<close> k(1) by simp
  ultimately show ?thesis using that [of n] by blast
qed

lemma filled_add:
  assumes fill: "filled t es" and room: "length es < CMD_HASH_SIZE" and ids: "\<forall>x \<in> set (es @ [e]). ce_id x \<noteq> 0"
  obtains idx where "free_slot t (home e AND (CMD_HASH_SIZE - 1)) = Some idx" and "filled (t[idx := slot_of e]) (es @ [e])"
proof -
  note f = filledD [OF fill]
  obtain n where n: "n < CMD_HASH_SIZE" "sl_id (t ! probe (home e) n) = 0" "\<forall>j < n. sl_id (t ! probe (home e) j) \<noteq> 0"
    by (rule first_free [OF fill room])
  let ?i = "probe (home e) n" and ?t = "t[probe (home e) n := slot_of e]"
  have i: "?i < length t" by (simp add: f(1))
  have "free_slot t (probe (home e) 0) = Some ?i" by (rule free_slot_probe [OF n(2,3)]) simp
  then have free: "free_slot t (home e AND (CMD_HASH_SIZE - 1)) = Some ?i" unfolding hash_mask_mod by simp
  have old: "?t ! j = t ! j" if "sl_id (t ! j) \<noteq> 0" for j using that n(2) by (metis nth_list_update_neq)
  have used: "used ?t = insert ?i (used t)" using ids i n(2) by (auto simp: used_def nth_list_update f(1))
  have "?i \<notin> used t" using n(2) by (simp add: used_def)
  moreover have "finite (used t)" by (simp add: used_def)
  ultimately have "card (used ?t) = Suc (card (used t))" by (simp add: used)
  moreover have "\<exists>e' \<in> set (es @ [e]). ?t ! j = slot_of e'" if "j \<in> used ?t" for j
  proof (cases "j = ?i")
    case True
    then show ?thesis using i by auto
  next
    case False
    then have "j \<in> used t" using that used by blast
    with f(3) [of j] False show ?thesis by auto
  qed
  moreover have "\<exists>k < CMD_HASH_SIZE. ?t ! probe (home x) k = slot_of x \<and>
      (\<forall>j < k. \<exists>e' \<in> set us. ?t ! probe (home x) j = slot_of e')" if sp: "es @ [e] = us @ x # vs" for us x vs
  proof (cases vs rule: rev_cases)
    case Nil
    then have x: "us = es" "x = e" using sp by auto
    have "\<exists>e' \<in> set es. ?t ! probe (home e) j = slot_of e'" if "j < n" for j
      using f(3) [of "probe (home e) j"] n(3) old [of "probe (home e) j"] that by (simp add: used_def)
    then show ?thesis using n(1) i x by auto
  next
    case (snoc vs' y)
    then have es: "es = us @ x # vs'" using sp by auto
    obtain k where k: "k < CMD_HASH_SIZE" "t ! probe (home x) k = slot_of x"
      "\<forall>j < k. \<exists>e' \<in> set us. t ! probe (home x) j = slot_of e'"
      using f(4) [OF es] by blast
    have keep: "?t ! j = slot_of y" if "t ! j = slot_of y" "y \<in> set es" for j y
      using that old [of j] ids by simp
    have "?t ! probe (home x) k = slot_of x" using keep k(2) es by simp
    moreover have "\<exists>e' \<in> set us. ?t ! probe (home x) j = slot_of e'" if "j < k" for j
      using k(3) that keep es by (metis Un_iff set_append)
    ultimately show ?thesis using k(1) by blast
  qed
  ultimately have "filled ?t (es @ [e])" unfolding filled_def using f(1,2) by auto
  with free show ?thesis by (rule that)
qed

lemma add_slots_filled:
  assumes "filled t es" and "length (es @ fs) < CMD_HASH_SIZE" and "\<forall>x \<in> set (es @ fs). ce_id x \<noteq> 0"
  obtains t' where "add_slots t fs = Some t'" and "filled t' (es @ fs)"
  using assms
proof (induction fs arbitrary: es t thesis)
  case (Cons e fs)
  have "length es < CMD_HASH_SIZE" "\<forall>x \<in> set (es @ [e]). ce_id x \<noteq> 0" using Cons.prems(3,4) by auto
  then obtain idx where idx: "free_slot t (home e AND (CMD_HASH_SIZE - 1)) = Some idx" "filled (t[idx := slot_of e]) (es @ [e])"
    by (rule filled_add [OF Cons.prems(2)])
  obtain t' where "add_slots (t[idx := slot_of e]) fs = Some t'" "filled t' ((es @ [e]) @ fs)"
    using Cons.IH [OF _ idx(2)] Cons.prems(3,4) by auto
  with idx(1) Cons.prems(1) show ?case by simp
qed simp

lemma filled_empty: "filled (replicate CMD_HASH_SIZE \<lparr>sl_name = [], sl_nlen = 0, sl_id = 0\<rparr>) []"
  by (simp add: filled_def used_def)

lemma table_ids_pos: "\<forall>x \<in> set CMD_TABLE. ce_id x \<noteq> 0"
proof
  fix x assume "x \<in> set CMD_TABLE"
  then have "ce_id x \<in> set (map ce_id CMD_TABLE)" by simp
  then show "ce_id x \<noteq> 0" unfolding table_ids by simp
qed

lemma hash_filled: obtains t where "cmd_hash_build = Some t" and "filled t CMD_TABLE"
proof -
  have "length ([] @ CMD_TABLE) < CMD_HASH_SIZE" by (simp add: table_length CMD_HASH_SIZE_def)
  then obtain t where "add_slots (replicate CMD_HASH_SIZE \<lparr>sl_name = [], sl_nlen = 0, sl_id = 0\<rparr>) CMD_TABLE = Some t"
    "filled t ([] @ CMD_TABLE)"
    by (rule add_slots_filled [OF filled_empty]) (use table_ids_pos in auto)
  then show ?thesis using that by (simp add: cmd_hash_build_def)
qed

section \<open>Resolution\<close>

definition find_name :: "bytes \<Rightarrow> cmd_entry option" where
  "find_name name = find (\<lambda>e. ci_equal name (ce_name e)) CMD_TABLE"

lemma find_SomeE:
  assumes "find P xs = Some x"
  obtains us vs where "xs = us @ x # vs" and "P x" and "\<forall>u \<in> set us. \<not> P u"
  using assms
proof (induction xs arbitrary: thesis)
  case (Cons a xs)
  show ?case
  proof (cases "P a")
    case True
    then show ?thesis using Cons.prems(1) [of "[]" xs] Cons.prems(2) by simp
  next
    case False
    then obtain us vs where "xs = us @ x # vs" "P x" "\<forall>u \<in> set us. \<not> P u" using Cons.IH Cons.prems(2) by auto
    then show ?thesis using Cons.prems(1) [of "a # us" vs] False by simp
  qed
qed simp

lemma find_SomeD: "find P xs = Some x \<Longrightarrow> x \<in> set xs \<and> P x"
  by (erule find_SomeE) simp

lemma find_nameD: "find_name name = Some e \<Longrightarrow> e \<in> set CMD_TABLE \<and> ci_equal name (ce_name e)"
  unfolding find_name_def by (rule find_SomeD)

lemma resolve_filled:
  assumes fill: "filled t es" and room: "length es < CMD_HASH_SIZE" and ids: "\<forall>x \<in> set es. ce_id x \<noteq> 0"
  shows "resolve_loop t name (unat (cmd_hash_fn name) AND (CMD_HASH_SIZE - 1)) =
    Some (case find (\<lambda>e. ci_equal name (ce_name e)) es of None \<Rightarrow> CMD_ID_UNKNOWN | Some e \<Rightarrow> ce_id e)"
proof -
  note f = filledD [OF fill]
  let ?h = "unat (cmd_hash_fn name)"
  have start: "?h AND (CMD_HASH_SIZE - 1) = probe ?h 0" unfolding hash_mask_mod by simp
  show ?thesis
  proof (cases "find (\<lambda>e. ci_equal name (ce_name e)) es")
    case None
    then have no: "\<not> ci_equal name (ce_name e)" if "e \<in> set es" for e using that by (simp add: find_None_iff)
    obtain n where n: "n < CMD_HASH_SIZE" "sl_id (t ! probe ?h n) = 0" "\<forall>j < n. sl_id (t ! probe ?h j) \<noteq> 0"
      by (rule first_free [OF fill room])
    have "\<not> ci_equal name (sl_name (t ! probe ?h j))" if "j < n" for j
      using f(3) [of "probe ?h j"] n(3) that no by (auto simp: used_def)
    then have "resolve_loop t name (probe ?h 0) = Some (sl_id (t ! probe ?h n))"
      using n by (intro resolve_probe) auto
    then show ?thesis using None n(2) start by (simp add: CMD_ID_UNKNOWN_def)
  next
    case (Some e)
    then obtain us vs where es: "es = us @ e # vs" and e: "ci_equal name (ce_name e)"
      and us: "\<forall>x \<in> set us. \<not> ci_equal name (ce_name x)"
      by (rule find_SomeE)
    obtain k where k: "k < CMD_HASH_SIZE" "t ! probe (home e) k = slot_of e"
      "\<forall>j < k. \<exists>e' \<in> set us. t ! probe (home e) j = slot_of e'"
      using f(4) [OF es] by blast
    have home: "home e = ?h" using ci_equal_hash [OF e] by simp
    have "\<forall>j < k. sl_id (t ! probe ?h j) \<noteq> 0 \<and> \<not> ci_equal name (sl_name (t ! probe ?h j))"
      using k(3) us ids es unfolding home by fastforce
    moreover have "sl_nlen (t ! probe ?h k) = length name mod 256 \<and> ci_equal name (sl_name (t ! probe ?h k))"
      using k(2) e unfolding home by (simp add: ci_equal_def)
    ultimately have "resolve_loop t name (probe ?h 0) = Some (sl_id (t ! probe ?h k))"
      by (intro resolve_probe) auto
    then show ?thesis using Some k(2) start unfolding home by simp
  qed
qed

lemma cmd_resolve_eq:
  "cmd_resolve name = Some (case find_name name of None \<Rightarrow> CMD_ID_UNKNOWN | Some e \<Rightarrow> ce_id e)"
proof -
  obtain t where t: "cmd_hash_build = Some t" "filled t CMD_TABLE" by (rule hash_filled)
  have room: "length CMD_TABLE < CMD_HASH_SIZE" by (simp add: table_length CMD_HASH_SIZE_def)
  have len: "length name = length (ce_name e)" if "find_name name = Some e" for e
    using find_nameD [OF that] by (simp add: ci_equal_def)
  show ?thesis
  proof (cases "length name = 0 \<or> 255 < length name")
    case True
    have "find_name name = None"
    proof (rule ccontr)
      assume "find_name name \<noteq> None"
      then obtain e where e: "find_name name = Some e" by blast
      then have "e \<in> set CMD_TABLE" using find_nameD by blast
      with table_names have "length (ce_name e) \<le> 255 \<and> ce_name e \<noteq> []" by (simp add: list_all_iff)
      with len [OF e] True show False by auto
    qed
    then show ?thesis unfolding cmd_resolve_def t(1) option.case using True by simp
  next
    case False
    then show ?thesis
      using resolve_filled [OF t(2) room table_ids_pos, of name]
      unfolding cmd_resolve_def t(1) find_name_def by (simp only: option.case if_False)
  qed
qed

section \<open>Resolution and the table\<close>

lemma row_of_id: "i < length CMD_TABLE \<Longrightarrow> ce_id (CMD_TABLE ! i) = Suc i"
  using arg_cong [OF table_ids, of "\<lambda>xs. xs ! i"] by (simp add: table_length)

lemma find_first: "find P xs = Some x \<Longrightarrow> \<exists>i < length xs. x = xs ! i \<and> P x \<and> \<not> list_ex P (take i xs)"
proof -
  assume "find P xs = Some x"
  then obtain i where i: "i < length xs" "P (xs ! i)" "x = xs ! i" "\<forall>j < i. \<not> P (xs ! j)" unfolding find_Some_iff by blast
  then have "\<not> list_ex P (take i xs)" by (auto simp: list_ex_iff in_set_conv_nth)
  with i show ?thesis by blast
qed

text \<open>
  C11: Name resolution and the command table agree. \<open>cmd_resolve\<close> returns for every name, through
  the hash table built once from the command table. It answers unknown exactly for a name of no
  row; otherwise the identifier it returns selects, as an index into the table, the first row
  whose name equals the given one up to case, and that row carries the identifier.
\<close>
theorem cmd_resolve_finds_row:
  "\<exists>cid. cmd_resolve name = Some cid \<and>
     (if cid = CMD_ID_UNKNOWN then \<not> list_ex (\<lambda>e. ci_equal name (ce_name e)) CMD_TABLE
      else cid \<le> length CMD_TABLE \<and> ce_id (cmd_table_entry cid) = cid \<and> ci_equal name (cmd_name cid) \<and>
        \<not> list_ex (\<lambda>e. ci_equal name (ce_name e)) (take (cid - 1) CMD_TABLE))"
proof (cases "find_name name")
  case None
  then have "\<not> list_ex (\<lambda>e. ci_equal name (ce_name e)) CMD_TABLE"
    unfolding find_name_def find_None_iff list_ex_iff by simp
  then show ?thesis unfolding cmd_resolve_eq None option.case by (intro exI [of _ CMD_ID_UNKNOWN]) (simp only: if_True simp_thms)
next
  case (Some e)
  then obtain i where i: "i < length CMD_TABLE" "e = CMD_TABLE ! i" "ci_equal name (ce_name e)"
    "\<not> list_ex (\<lambda>e. ci_equal name (ce_name e)) (take i CMD_TABLE)"
    using find_first [OF Some [unfolded find_name_def]] by (elim exE conjE)
  have id: "ce_id e = Suc i" using row_of_id [OF i(1)] unfolding i(2) .
  have entry: "cmd_table_entry (Suc i) = e"
    using i(1) unfolding cmd_table_entry_def i(2) diff_Suc_1 by simp
  have "cmd_resolve name = Some (Suc i)" unfolding cmd_resolve_eq Some option.case id ..
  moreover have "Suc i \<noteq> CMD_ID_UNKNOWN" by (simp add: CMD_ID_UNKNOWN_def)
  ultimately show ?thesis
    using i(1,3,4) unfolding Suc_le_eq [symmetric]
    by (intro exI [of _ "Suc i"]) (simp only: if_False entry id cmd_name_def diff_Suc_1 simp_thms)
qed

end
