(* ===== verification/Acl.thy ===== *)
theory Acl
  imports Cmd_Resolve Resp_Parser
begin

text \<open>
  Access control (\<open>core/acl.c\<close>) and the command categories of \<open>core/command.c\<close>.

  Names, passwords and patterns are C strings in fixed arrays; every read goes through
  \<open>strlen\<close>, so an array is its contents up to the first zero byte. The arrays of users,
  patterns and channels are lists of the entries in use. An argument vector is a list of RESP
  values; \<open>bulk\<close> is the string view of a bulk string, empty for the null one.
\<close>

section \<open>Categories\<close>

definition acl_name_in :: "string \<Rightarrow> string list \<Rightarrow> bool" where
  "acl_name_in name items \<longleftrightarrow> list_ex (\<lambda>i. name = i) items"

definition acl_strings :: "string list" where
  "acl_strings =
    [''append'', ''decr'', ''decrby'', ''delex'', ''digest'', ''get'', ''getdel'', ''getex'',
     ''getrange'', ''getset'', ''incr'', ''incrby'', ''incrbyfloat'', ''increx'', ''lcs'', ''mget'',
     ''mset'', ''msetex'', ''msetnx'', ''psetex'', ''set'', ''setex'', ''setnx'', ''setrange'',
     ''strlen'', ''substr'']"

definition acl_sets :: "string list" where
  "acl_sets =
    [''sadd'', ''scard'', ''sdiff'', ''sdiffcard'', ''sdiffstore'', ''sinter'', ''sintercard'',
     ''sinterstore'', ''sismember'', ''smembers'', ''smismember'', ''smove'', ''spop'', ''srandmember'',
     ''srem'', ''sscan'', ''sunion'', ''sunioncard'', ''sunionstore'', ''sort'', ''sort_ro'']"

definition acl_lists :: "string list" where
  "acl_lists =
    [''blmove'', ''blmovem'', ''blmpop'', ''blpop'', ''brpop'', ''brpoplpush'', ''lindex'', ''linsert'',
     ''llen'', ''lmove'', ''lmovem'', ''lmpop'', ''lpop'', ''lpos'', ''lpush'', ''lpushx'', ''lrange'',
     ''lrem'', ''lset'', ''ltrim'', ''rpop'', ''rpoplpush'', ''rpush'', ''rpushx'', ''sort'',
     ''sort_ro'']"

definition acl_hashes :: "string list" where
  "acl_hashes =
    [''hdel'', ''hexists'', ''hexpire'', ''hexpireat'', ''hexpiretime'', ''hget'', ''hgetall'',
     ''hgetdel'', ''hgetex'', ''himport'', ''hincrby'', ''hincrbyfloat'', ''hkeys'', ''hlen'', ''hmget'',
     ''hmset'', ''hpersist'', ''hpexpire'', ''hpexpireat'', ''hpexpiretime'', ''hpttl'', ''hrandfield'',
     ''hscan'', ''hset'', ''hsetex'', ''hsetnx'', ''hstrlen'', ''httl'', ''hvals'']"

definition acl_pubsub :: "string list" where
  "acl_pubsub =
    [''psubscribe'', ''publish'', ''pubsub'', ''punsubscribe'', ''spublish'', ''ssubscribe'',
     ''subscribe'', ''sunsubscribe'', ''unsubscribe'']"

definition acl_transactions :: "string list" where
  "acl_transactions =
    [''discard'', ''exec'', ''multi'', ''unwatch'', ''watch'']"

definition acl_connection :: "string list" where
  "acl_connection =
    [''asking'', ''auth'', ''client'', ''command'', ''echo'', ''hello'', ''ping'', ''quit'',
     ''readonly'', ''readwrite'', ''reset'', ''select'', ''wait'', ''waitaof'']"

definition acl_blocking :: "string list" where
  "acl_blocking =
    [''blmove'', ''blmovem'', ''blmpop'', ''blpop'', ''brpop'', ''brpoplpush'', ''bzmpop'', ''bzpopmax'',
     ''bzpopmin'', ''wait'', ''waitaof'', ''xread'', ''xreadgroup'']"

definition acl_dangerous :: "string list" where
  "acl_dangerous =
    [''flushall'', ''flushdb'', ''info'', ''keys'', ''lastsave'', ''migrate'', ''restore'',
     ''restore-asking'', ''role'', ''sflush'', ''sort'', ''sort_ro'', ''swapdb'', ''trimslots'']"

definition acl_admin :: "string list" where
  "acl_admin =
    [''acl'', ''bgrewriteaof'', ''bgsave'', ''client'', ''cluster'', ''config'', ''debug'', ''failover'',
     ''function'', ''info'', ''latency'', ''memory'', ''module'', ''monitor'', ''psync'', ''replconf'',
     ''replicaof'', ''save'', ''sentinel'', ''shutdown'', ''slaveof'', ''slowlog'', ''lastsave'',
     ''role'']"

definition acl_fast :: "string list" where
  "acl_fast =
    [''append'', ''arcount'', ''ardel'', ''arget'', ''arinsert'', ''arlen'', ''armget'', ''armset'',
     ''arnext'', ''arseek'', ''arset'', ''asking'', ''auth'', ''bitfield_ro'', ''bzpopmax'',
     ''bzpopmin'', ''dbsize'', ''decr'', ''decrby'', ''delex'', ''digest'', ''discard'', ''echo'',
     ''exists'', ''expire'', ''expireat'', ''expiretime'', ''get'', ''getbit'', ''getdel'', ''getex'',
     ''getset'', ''hdel'', ''hello'', ''hexists'', ''hexpire'', ''hexpireat'', ''hexpiretime'', ''hget'',
     ''hgetdel'', ''hgetex'', ''hincrby'', ''hincrbyfloat'', ''hlen'', ''hmget'', ''hmset'',
     ''hpersist'', ''hpexpire'', ''hpexpireat'', ''hpexpiretime'', ''hpttl'', ''hset'', ''hsetex'',
     ''hsetnx'', ''hstrlen'', ''httl'', ''incr'', ''incrby'', ''incrbyfloat'', ''increx'', ''lastsave'',
     ''llen'', ''lolwut'', ''lpop'', ''lpush'', ''lpushx'', ''mget'', ''move'', ''multi'', ''persist'',
     ''pexpire'', ''pexpireat'', ''pexpiretime'', ''pfadd'', ''ping'', ''pttl'', ''publish'', ''quit'',
     ''readonly'', ''readwrite'', ''renamenx'', ''reset'', ''role'', ''rpop'', ''rpush'', ''rpushx'',
     ''sadd'', ''scard'', ''select'', ''setnx'', ''sismember'', ''smismember'', ''smove'', ''spop'',
     ''spublish'', ''srem'', ''strlen'', ''swapdb'', ''time'', ''touch'', ''ttl'', ''type'', ''unlink'',
     ''unwatch'', ''watch'', ''xack'', ''xackdel'', ''xadd'', ''xautoclaim'', ''xcfgset'', ''xclaim'',
     ''xdel'', ''xdelex'', ''xidmprecord'', ''xlen'', ''xnack'', ''xsetid'', ''zadd'', ''zcard'',
     ''zcount'', ''zincrby'', ''zlexcount'', ''zmscore'', ''zpopmax'', ''zpopmin'', ''zrank'', ''zrem'',
     ''zrevrank'', ''zscore'']"

definition acl_keyspace :: "nat list" where
  "acl_keyspace =
    [CMD_GET, CMD_SET, CMD_DEL, CMD_EXISTS, CMD_MGET, CMD_MSET, CMD_UNLINK, CMD_TOUCH, CMD_EXPIRE,
     CMD_PEXPIRE, CMD_EXPIREAT, CMD_PEXPIREAT, CMD_EXPIRETIME, CMD_PEXPIRETIME, CMD_TTL, CMD_PTTL,
     CMD_PERSIST, CMD_TYPE, CMD_KEYS, CMD_SCAN, CMD_RANDOMKEY, CMD_RENAME, CMD_RENAMENX, CMD_COPY,
     CMD_DUMP, CMD_RESTORE, CMD_RESTORE_ASKING, CMD_MOVE, CMD_DBSIZE, CMD_FLUSHDB, CMD_FLUSHALL,
     CMD_MIGRATE, CMD_OBJECT, CMD_SWAPDB, CMD_SFLUSH, CMD_TRIMSLOTS]"

definition cmd_acl_category_match :: "bytes \<Rightarrow> nat \<Rightarrow> int" where
  "cmd_acl_category_match category cid =
     (let name = cmd_name cid
      in if ci_equal category ''read'' then of_bool (\<not> cmd_is_write cid)
         else if ci_equal category ''write'' then of_bool (cmd_is_write cid)
         else if ci_equal category ''connection'' then of_bool (acl_name_in name acl_connection)
         else if ci_equal category ''keyspace'' then of_bool (cid \<in> set acl_keyspace)
         else if ci_equal category ''string'' then of_bool (acl_name_in name acl_strings)
         else if ci_equal category ''set'' then of_bool (acl_name_in name acl_sets)
         else if ci_equal category ''sortedset''
           then of_bool (take 1 name = ''z'' \<or> name \<in> set [''bzpopmin'', ''bzpopmax'', ''bzmpop'', ''sort'', ''sort_ro''])
         else if ci_equal category ''list'' then of_bool (acl_name_in name acl_lists)
         else if ci_equal category ''hash'' then of_bool (acl_name_in name acl_hashes)
         else if ci_equal category ''array'' then of_bool (take 2 name = ''ar'')
         else if ci_equal category ''bitmap''
           then of_bool (take 3 name = ''bit'' \<or> name = ''getbit'' \<or> name = ''setbit'')
         else if ci_equal category ''hyperloglog'' then of_bool (take 2 name = ''pf'')
         else if ci_equal category ''geo'' then of_bool (take 3 name = ''geo'')
         else if ci_equal category ''stream'' then of_bool (take 1 name = ''x'')
         else if ci_equal category ''pubsub'' then of_bool (acl_name_in name acl_pubsub)
         else if ci_equal category ''transaction'' then of_bool (acl_name_in name acl_transactions)
         else if ci_equal category ''scripting''
           then of_bool (name \<in> set [''eval'', ''evalsha'', ''eval_ro'', ''evalsha_ro'', ''fcall'', ''fcall_ro'',
                                     ''script'', ''function''])
         else if ci_equal category ''blocking'' then of_bool (acl_name_in name acl_blocking)
         else if ci_equal category ''dangerous'' then of_bool (acl_name_in name acl_dangerous)
         else if ci_equal category ''admin'' then of_bool (acl_name_in name acl_admin)
         else if ci_equal category ''fast'' then of_bool (acl_name_in name acl_fast)
         else if ci_equal category ''slow'' then of_bool (\<not> acl_name_in name acl_fast)
         else if ci_equal category ''ratelimit'' then 0
         else -1)"

section \<open>Users\<close>

definition ACL_MAX_USERS :: nat where "ACL_MAX_USERS = 32"
definition ACL_MAX_PATTERNS :: nat where "ACL_MAX_PATTERNS = 16"
definition ACL_MAX_NAME :: nat where "ACL_MAX_NAME = 64"
definition ACL_MAX_PASSWORD :: nat where "ACL_MAX_PASSWORD = 128"
definition ACL_MAX_PATTERN :: nat where "ACL_MAX_PATTERN = 128"
definition ACL_MAX_CHANNELS :: nat where "ACL_MAX_CHANNELS = 16"
definition ACL_LOG_MAX :: nat where "ACL_LOG_MAX = 32"

record acl_log_entry =
  le_count :: nat
  le_age_ms :: nat
  le_reason :: bytes
  le_username :: bytes
  le_object :: bytes

record acl_user =
  au_name :: bytes
  au_password :: bytes
  au_patterns :: "bytes list"
  au_allow :: "u64 list"
  au_deny :: "u64 list"
  au_enabled :: bool
  au_all_commands :: bool
  au_generation :: nat
  au_channels :: "bytes list"
  au_all_channels :: bool
  au_no_password :: bool

record acl_registry =
  ar_users :: "acl_user list"
  ar_generation_next :: nat
  ar_log :: "acl_log_entry list"
  ar_log_len :: nat
  ar_log_next :: nat

definition no_bits :: "u64 list" where
  "no_bits = replicate (CMD_STATS_SLOTS div 64) 0"

definition has_bit :: "u64 list \<Rightarrow> nat \<Rightarrow> bool" where
  "has_bit m i \<longleftrightarrow> m ! (i div 64) AND push_bit (i mod 64) 1 \<noteq> 0"

definition add_bit :: "u64 list \<Rightarrow> nat \<Rightarrow> u64 list" where
  "add_bit m i = m[i div 64 := m ! (i div 64) OR push_bit (i mod 64) 1]"

definition zero_user :: acl_user where
  "zero_user =
     \<lparr>au_name = [], au_password = [], au_patterns = [], au_allow = no_bits, au_deny = no_bits, au_enabled = False,
      au_all_commands = False, au_generation = 0, au_channels = [], au_all_channels = False, au_no_password = False\<rparr>"

definition zero_log :: acl_log_entry where
  "zero_log = \<lparr>le_count = 0, le_age_ms = 0, le_reason = [], le_username = [], le_object = []\<rparr>"

definition eq_ci :: "bytes \<Rightarrow> string \<Rightarrow> bool" where
  "eq_ci a b \<longleftrightarrow> length a = length b \<and> list_all2 (\<lambda>ca cb. downcase ca = downcase (of_char cb)) a b"

definition acl_parse_ll :: "bytes \<Rightarrow> int option" where
  "acl_parse_ll s =
     (if s = [] then None
      else let neg = hd s = 45; ds = (if neg then tl s else s)
           in if ds = [] then None
              else case parse_digits UINT64_MAX ds 0 of
                     None \<Rightarrow> None
                   | Some v \<Rightarrow>
                       if neg then (if LLONG_MAX + 1 < int v then None else Some (- int v))
                       else if LLONG_MAX < int v then None else Some (int v))"

definition acl_init :: "bytes option \<Rightarrow> acl_registry" where
  "acl_init requirepass =
     (let u = zero_user\<lparr>au_name := ascii ''default'', au_enabled := True, au_all_commands := True, au_generation := 1,
                au_patterns := [ascii ''*''], au_all_channels := True\<rparr>;
          u = (case requirepass of
                 None \<Rightarrow> u
               | Some p \<Rightarrow>
                   if p = [] then u
                   else u\<lparr>au_password := take (if ACL_MAX_PASSWORD \<le> length p then ACL_MAX_PASSWORD - 1 else length p) p\<rparr>)
      in \<lparr>ar_users = [u], ar_generation_next = 1, ar_log = replicate ACL_LOG_MAX zero_log, ar_log_len = 0, ar_log_next = 0\<rparr>)"

definition acl_find :: "acl_registry \<Rightarrow> bytes \<Rightarrow> nat option" where
  "acl_find r name = index_of (\<lambda>u. au_name u \<noteq> [] \<and> au_name u = name) (ar_users r)"

definition clear_rules :: "acl_user \<Rightarrow> acl_user" where
  "clear_rules u =
     u\<lparr>au_allow := no_bits, au_deny := no_bits, au_patterns := [], au_all_commands := False, au_channels := [],
       au_all_channels := False, au_password := [], au_no_password := False, au_enabled := False\<rparr>"

section \<open>Rules\<close>

text \<open>\<open>cmd_resolve\<close> always returns (\<open>cmd_resolve_eq\<close>); its result is used as a value.\<close>

definition resolved :: "bytes \<Rightarrow> nat" where
  "resolved name = (case cmd_resolve name of Some cid \<Rightarrow> cid | None \<Rightarrow> CMD_ID_UNKNOWN)"

definition set_bit_in :: "bool \<Rightarrow> nat \<Rightarrow> acl_user \<Rightarrow> acl_user" where
  "set_bit_in allow i u =
     (if allow then u\<lparr>au_allow := add_bit (au_allow u) i\<rparr> else u\<lparr>au_deny := add_bit (au_deny u) i\<rparr>)"

definition signed_rule :: "bytes \<Rightarrow> bool" where
  "signed_rule p \<longleftrightarrow> p \<noteq> [] \<and> (hd p = 43 \<or> hd p = 45)"

definition set_cmd :: "acl_user \<Rightarrow> bytes \<Rightarrow> bool \<Rightarrow> acl_user option" where
  "set_cmd u p allow =
     (if 2 < length p \<and> signed_rule p \<and> p ! 1 = 64
      then
        let cat = drop 2 p
        in if length cat = 3 \<and> eq_ci cat ''all''
           then Some (if allow then u\<lparr>au_all_commands := allow, au_deny := no_bits\<rparr>
                      else u\<lparr>au_all_commands := allow, au_allow := no_bits\<rparr>)
           else if cmd_acl_category_match cat CMD_PING < 0 then None
           else Some (foldl (\<lambda>u i. if 0 < cmd_acl_category_match cat i then set_bit_in allow i u else u)
                       u [1..<CMD_STATS_SLOTS])
      else if p = [] \<or> 255 < length p then None
      else
        let cid = resolved (if signed_rule p then tl p else p)
        in if cid = CMD_ID_UNKNOWN \<or> CMD_STATS_SLOTS \<le> cid then None else Some (set_bit_in allow cid u))"

fun bulk :: "'d resp_value \<Rightarrow> bytes option" where
  "bulk (BulkString (Some s)) = Some s"
| "bulk (BulkString None) = Some []"
| "bulk _ = None"

definition apply_rule :: "acl_user \<Rightarrow> bytes \<Rightarrow> acl_user option" where
  "apply_rule u p =
     (let n = length p
      in if eq_ci p ''on'' then Some (u\<lparr>au_enabled := True\<rparr>)
         else if eq_ci p ''off'' then Some (u\<lparr>au_enabled := False\<rparr>)
         else if eq_ci p ''reset'' then Some (clear_rules u)
         else if eq_ci p ''allkeys'' then Some (u\<lparr>au_patterns := [ascii ''*'']\<rparr>)
         else if eq_ci p ''resetkeys'' then Some (u\<lparr>au_patterns := []\<rparr>)
         else if eq_ci p ''allcommands'' then Some (u\<lparr>au_all_commands := True, au_deny := no_bits\<rparr>)
         else if eq_ci p ''nocommands''
           then Some (u\<lparr>au_all_commands := False, au_allow := no_bits, au_deny := no_bits\<rparr>)
         else if eq_ci p ''nopass'' then Some (u\<lparr>au_password := [], au_no_password := True\<rparr>)
         else if eq_ci p ''resetpass'' then Some (u\<lparr>au_password := [], au_no_password := False\<rparr>)
         else if 1 < n \<and> hd p = 62
           then (if ACL_MAX_PASSWORD \<le> n then None
                 else Some (u\<lparr>au_password := cstr (tl p), au_no_password := False\<rparr>))
         else if 1 < n \<and> hd p = 126
           then (if n = 2 \<and> p ! 1 = 42 then Some (u\<lparr>au_patterns := [ascii ''*'']\<rparr>)
                 else if ACL_MAX_PATTERNS \<le> length (au_patterns u) \<or> ACL_MAX_PATTERN \<le> n then None
                 else Some (u\<lparr>au_patterns := au_patterns u @ [cstr (tl p)]\<rparr>))
         else if 1 < n \<and> hd p = 38
           then (if n = 2 \<and> p ! 1 = 42 then Some (u\<lparr>au_channels := [], au_all_channels := True\<rparr>)
                 else if ACL_MAX_CHANNELS \<le> length (au_channels u) \<or> ACL_MAX_PATTERN \<le> n then None
                 else Some (u\<lparr>au_channels := au_channels u @ [cstr (tl p)]\<rparr>))
         else if eq_ci p ''allchannels'' then Some (u\<lparr>au_channels := [], au_all_channels := True\<rparr>)
         else if eq_ci p ''resetchannels'' then Some (u\<lparr>au_channels := [], au_all_channels := False\<rparr>)
         else if 1 < n \<and> (hd p = 43 \<or> hd p = 45) then set_cmd u p (hd p = 43)
         else None)"

fun apply_rules :: "acl_user \<Rightarrow> 'd resp_value list \<Rightarrow> acl_user option" where
  "apply_rules u [] = Some u"
| "apply_rules u (v # vs) =
     (case bulk v of
        None \<Rightarrow> None
      | Some p \<Rightarrow> (case apply_rule u p of None \<Rightarrow> None | Some u \<Rightarrow> apply_rules u vs))"

definition acl_new_user :: "acl_registry \<Rightarrow> bytes \<Rightarrow> (nat \<times> acl_registry) option" where
  "acl_new_user r name =
     (let gen = u64_add (ar_generation_next r) 1;
          u = zero_user\<lparr>au_name := cstr name, au_generation := gen\<rparr>
      in case index_of (\<lambda>u. au_name u = []) (ar_users r) of
           Some i \<Rightarrow> Some (i, r\<lparr>ar_users := (ar_users r)[i := u], ar_generation_next := gen\<rparr>)
         | None \<Rightarrow>
             if ACL_MAX_USERS \<le> length (ar_users r) then None
             else Some (length (ar_users r), r\<lparr>ar_users := ar_users r @ [u], ar_generation_next := gen\<rparr>))"

definition acl_setuser :: "acl_registry \<Rightarrow> bytes \<Rightarrow> 'd resp_value list \<Rightarrow> int \<times> acl_registry" where
  "acl_setuser r name rules =
     (if name = [] \<or> ACL_MAX_NAME \<le> length name then (-1, r)
      else
        case (case acl_find r name of Some i \<Rightarrow> Some (i, r) | None \<Rightarrow> acl_new_user r name) of
          None \<Rightarrow> (-1, r)
        | Some (i, r) \<Rightarrow>
            (case apply_rules (ar_users r ! i) rules of
               None \<Rightarrow> (-1, r)
             | Some u \<Rightarrow> (0, r\<lparr>ar_users := (ar_users r)[i := u]\<rparr>)))"

definition acl_deluser :: "acl_registry \<Rightarrow> bytes \<Rightarrow> int \<times> acl_registry" where
  "acl_deluser r name =
     (if name = [] then (-1, r)
      else if name = ascii ''default'' then (0, r)
      else
        case index_of (\<lambda>u. au_name u = name) (ar_users r) of
          None \<Rightarrow> (0, r)
        | Some i \<Rightarrow>
            let gen = u64_add (ar_generation_next r) 1;
                u = (clear_rules (ar_users r ! i))\<lparr>au_name := [], au_generation := gen\<rparr>
            in (1, r\<lparr>ar_users := (ar_users r)[i := u], ar_generation_next := gen\<rparr>))"

definition acl_authenticate :: "acl_registry \<Rightarrow> bytes \<Rightarrow> bytes \<Rightarrow> nat option" where
  "acl_authenticate r name password =
     (case acl_find r name of
        None \<Rightarrow> None
      | Some i \<Rightarrow>
          let u = ar_users r ! i
          in if \<not> au_enabled u then None
             else if au_no_password u then Some i
             else if length (au_password u) \<noteq> length password then None
             else if foldl (\<lambda>diff (a, b). diff OR (a XOR b)) 0 (zip (au_password u) password) = 0 then Some i
             else None)"

section \<open>Patterns\<close>

fun skip_stars :: "bytes \<Rightarrow> nat \<Rightarrow> nat \<Rightarrow> nat" where
  "skip_stars pat pi 0 = pi"
| "skip_stars pat pi (Suc n) = (if pi < length pat \<and> pat ! pi = 42 then skip_stars pat (pi + 1) n else pi)"

partial_function (option) acl_match_loop :: "bytes \<Rightarrow> bytes \<Rightarrow> nat \<Rightarrow> nat \<Rightarrow> nat option \<Rightarrow> nat \<Rightarrow> bool option" where
  "acl_match_loop pat key pi ki star mark =
     (if ki < length key
      then
        if pi < length pat \<and> (pat ! pi = 63 \<or> pat ! pi = key ! ki)
        then acl_match_loop pat key (pi + 1) (ki + 1) star mark
        else if pi < length pat \<and> pat ! pi = 42 then acl_match_loop pat key (pi + 1) ki (Some pi) ki
        else case star of
               Some s \<Rightarrow> acl_match_loop pat key (s + 1) (mark + 1) star (mark + 1)
             | None \<Rightarrow> Some False
      else Some (skip_stars pat pi (length pat) = length pat))"

definition acl_match_pattern :: "bytes \<Rightarrow> bytes \<Rightarrow> bool option" where
  "acl_match_pattern pat key = acl_match_loop pat key 0 0 None 0"

definition pattern_ok :: "bytes \<Rightarrow> bytes \<Rightarrow> bool" where
  "pattern_ok pat key \<longleftrightarrow> acl_match_pattern pat key = Some True"

section \<open>Authorization\<close>

definition acl_authorize_channel :: "acl_user \<Rightarrow> bytes \<Rightarrow> bool \<Rightarrow> bool" where
  "acl_authorize_channel u channel is_pattern \<longleftrightarrow>
     au_enabled u \<and>
     (au_all_channels u \<or>
      list_ex (\<lambda>c. if is_pattern then c = channel else pattern_ok c channel) (au_channels u))"

definition channel_arg_ok :: "acl_user \<Rightarrow> bool \<Rightarrow> 'd resp_value \<Rightarrow> bool" where
  "channel_arg_ok u is_pattern v \<longleftrightarrow>
     (case bulk v of None \<Rightarrow> False | Some c \<Rightarrow> acl_authorize_channel u c is_pattern)"

definition any_pattern :: "acl_user \<Rightarrow> bytes \<Rightarrow> bool" where
  "any_pattern u key \<longleftrightarrow> list_ex (\<lambda>p. pattern_ok p key) (au_patterns u)"

definition key_ok :: "acl_user \<Rightarrow> 'd resp_value \<Rightarrow> bool" where
  "key_ok u v \<longleftrightarrow> (case bulk v of None \<Rightarrow> False | Some k \<Rightarrow> any_pattern u k)"

definition is_word :: "'d resp_value \<Rightarrow> string \<Rightarrow> bool" where
  "is_word v s \<longleftrightarrow> bulk v = Some (ascii s)"

definition int_arg :: "'d resp_value \<Rightarrow> int option" where
  "int_arg v = (case bulk v of None \<Rightarrow> None | Some s \<Rightarrow> acl_parse_ll s)"

definition args :: "'d resp_value list \<Rightarrow> nat \<Rightarrow> nat \<Rightarrow> 'd resp_value list" where
  "args argv a b = take (b - a) (drop a argv)"

text \<open>The counted keys of \<open>LMPOP\<close>, \<open>ZUNION\<close> and their relatives: the count at \<open>at\<close>, the keys after it.\<close>

definition counted_keys_ok :: "acl_user \<Rightarrow> 'd resp_value list \<Rightarrow> nat \<Rightarrow> bool" where
  "counted_keys_ok u argv at \<longleftrightarrow>
     (case int_arg (argv ! at) of
        None \<Rightarrow> False
      | Some nk \<Rightarrow>
          0 < nk \<and> nk \<le> int (length argv - (at + 1)) \<and> au_patterns u \<noteq> [] \<and>
          list_all (key_ok u) (args argv (at + 1) (at + 1 + nat nk)))"

definition store_keys_ok :: "acl_user \<Rightarrow> 'd resp_value list \<Rightarrow> bool" where
  "store_keys_ok u argv \<longleftrightarrow>
     (if length argv < 4 \<or> au_patterns u = [] \<or> bulk (argv ! 1) = None then False
      else case int_arg (argv ! 2) of
             None \<Rightarrow> False
           | Some nk \<Rightarrow>
               0 < nk \<and> 3 + nat nk \<le> length argv \<and> key_ok u (argv ! 1) \<and>
               list_all (key_ok u) (args argv 3 (3 + nat nk)))"

text \<open>The first option \<open>w\<close> from position \<open>j\<close> on that has an argument, and whether that is a permitted key.\<close>

fun option_key_ok :: "acl_user \<Rightarrow> (bytes \<Rightarrow> bool) \<Rightarrow> 'd resp_value list \<Rightarrow> bool" where
  "option_key_ok u w (v # v' # vs) =
     (case bulk v of
        Some s \<Rightarrow> if w s then key_ok u v' else option_key_ok u w (v' # vs)
      | None \<Rightarrow> option_key_ok u w (v' # vs))"
| "option_key_ok u w _ = True"

definition acl_channel_cmds :: "nat list" where
  "acl_channel_cmds =
    [CMD_SUBSCRIBE, CMD_UNSUBSCRIBE, CMD_PSUBSCRIBE, CMD_PUNSUBSCRIBE, CMD_SSUBSCRIBE, CMD_SUNSUBSCRIBE, CMD_PUBLISH,
     CMD_SPUBLISH]"

definition acl_keyless_cmds :: "nat list" where
  "acl_keyless_cmds =
    [CMD_PING, CMD_ECHO, CMD_AUTH, CMD_QUIT, CMD_RESET, CMD_HELLO, CMD_TIME, CMD_ROLE, CMD_READONLY, CMD_READWRITE,
     CMD_SELECT, CMD_COMMAND, CMD_INFO, CMD_LATENCY, CMD_LOLWUT, CMD_CONFIG, CMD_CLIENT, CMD_SLOWLOG, CMD_WAIT,
     CMD_WAITAOF, CMD_PUBSUB, CMD_FUNCTION, CMD_SCRIPT, CMD_MODULE, CMD_DBSIZE, CMD_FLUSHDB, CMD_FLUSHALL,
     CMD_SHUTDOWN, CMD_SAVE, CMD_BGSAVE, CMD_BGREWRITEAOF, CMD_SWAPDB, CMD_LASTSAVE, CMD_ASKING, CMD_SYNC, CMD_PSYNC,
     CMD_REPLICAOF, CMD_SLAVEOF, CMD_REPLCONF, CMD_FAILOVER, CMD_MONITOR, CMD_CLUSTER, CMD_SENTINEL, CMD_BACKUP,
     CMD_HOTKEYS]"

text \<open>
  The variables \<open>keyless\<close> and \<open>first\<close> after the switch and the commands with subcommands.
\<close>

definition acl_keyless :: "nat \<Rightarrow> 'd resp_value list \<Rightarrow> bool" where
  "acl_keyless cid argv =
     (let keyless = cid \<in> set acl_keyless_cmds;
          keyless = (if cid = CMD_MEMORY then (if is_word (argv ! 1) ''USAGE'' then keyless else True) else keyless);
          keyless = (if cid = CMD_DEBUG then \<not> is_word (argv ! 1) ''OBJECT'' else keyless);
          keyless = (if cid = CMD_OBJECT \<and> 3 \<le> length argv then False else keyless);
          keyless = (if cid = CMD_OBJECT \<and> is_word (argv ! 1) ''HELP'' then True else keyless);
          keyless = (if cid = CMD_XINFO \<and> 3 \<le> length argv then False else keyless)
      in if cid = CMD_XINFO \<and> is_word (argv ! 1) ''HELP'' then True else keyless)"

definition acl_first_key :: "nat \<Rightarrow> 'd resp_value list \<Rightarrow> nat" where
  "acl_first_key cid argv =
     (if (cid = CMD_MEMORY \<and> is_word (argv ! 1) ''USAGE'') \<or> (cid = CMD_DEBUG \<and> is_word (argv ! 1) ''OBJECT'') \<or>
         (cid = CMD_OBJECT \<and> 3 \<le> length argv) \<or> (cid = CMD_XINFO \<and> 3 \<le> length argv)
      then 2 else 1)"

definition acl_channels_ok :: "acl_user \<Rightarrow> nat \<Rightarrow> 'd resp_value list \<Rightarrow> bool" where
  "acl_channels_ok u cid argv \<longleftrightarrow>
     au_all_channels u \<or>
     list_all (channel_arg_ok u (cid = CMD_PSUBSCRIBE \<or> cid = CMD_PUNSUBSCRIBE))
       (args argv 1 (if cid = CMD_PUBLISH \<or> cid = CMD_SPUBLISH then 2 else length argv))"

definition acl_pubsub_ok :: "acl_user \<Rightarrow> 'd resp_value list \<Rightarrow> bool" where
  "acl_pubsub_ok u argv \<longleftrightarrow>
     (if is_word (argv ! 1) ''CHANNELS'' \<or> is_word (argv ! 1) ''NUMSUB''
      then list_all (channel_arg_ok u False) (drop 2 argv) else True)"

definition acl_eval_ok :: "acl_user \<Rightarrow> 'd resp_value list \<Rightarrow> bool" where
  "acl_eval_ok u argv \<longleftrightarrow>
     (if length argv < 3 then False
      else case int_arg (argv ! 2) of
             None \<Rightarrow> False
           | Some nk \<Rightarrow>
               if nk < 0 \<or> int (length argv - 3) < nk then False
               else if nk = 0 then True
               else au_patterns u \<noteq> [] \<and> list_all (key_ok u) (args argv 3 (3 + nat nk)))"

definition acl_xread_ok :: "acl_user \<Rightarrow> 'd resp_value list \<Rightarrow> bool" where
  "acl_xread_ok u argv \<longleftrightarrow>
     au_patterns u \<noteq> [] \<and>
     (case index_of (\<lambda>v. is_word v ''STREAMS'') (tl argv) of
        None \<Rightarrow> False
      | Some j \<Rightarrow>
          let streams = j + 1; rest = length argv - streams - 1; key_count = rest div 2
          in if length argv \<le> streams + 1 \<or> key_count = 0 \<or> rest mod 2 \<noteq> 0 \<or> length argv < streams + 1 + key_count
             then False else list_all (key_ok u) (args argv (streams + 1) (streams + 1 + key_count)))"

definition acl_migrate_ok :: "acl_user \<Rightarrow> 'd resp_value list \<Rightarrow> bool" where
  "acl_migrate_ok u argv \<longleftrightarrow>
     (if length argv < 4 \<or> bulk (argv ! 3) = None \<or> au_patterns u = [] then False
      else if bulk (argv ! 3) \<noteq> Some [] \<and> \<not> key_ok u (argv ! 3) then False
      else option_key_ok u (\<lambda>s. s = ascii ''KEYS'') (drop 6 argv))"

definition acl_himport_ok :: "acl_user \<Rightarrow> 'd resp_value list \<Rightarrow> bool" where
  "acl_himport_ok u argv \<longleftrightarrow>
     (if is_word (argv ! 1) ''SET'' then 3 \<le> length argv \<and> au_patterns u \<noteq> [] \<and> key_ok u (argv ! 2) else True)"

definition acl_msetex_ok :: "acl_user \<Rightarrow> 'd resp_value list \<Rightarrow> bool" where
  "acl_msetex_ok u argv \<longleftrightarrow>
     (if length argv < 4 then False
      else case int_arg (argv ! 1) of
             None \<Rightarrow> False
           | Some nk \<Rightarrow>
               0 < nk \<and> nk \<le> int ((length argv - 2) div 2) \<and> au_patterns u \<noteq> [] \<and>
               list_all (\<lambda>i. key_ok u (argv ! (2 + 2 * i))) [0..<nat nk])"

definition acl_sort_ok :: "acl_user \<Rightarrow> nat \<Rightarrow> 'd resp_value list \<Rightarrow> bool" where
  "acl_sort_ok u cid argv \<longleftrightarrow>
     au_patterns u \<noteq> [] \<and> key_ok u (argv ! 1) \<and>
     (if cid = CMD_SORT then option_key_ok u (\<lambda>s. s = ascii ''STORE'') (drop 2 argv) else True)"

definition acl_geosearchstore_ok :: "acl_user \<Rightarrow> 'd resp_value list \<Rightarrow> bool" where
  "acl_geosearchstore_ok u argv \<longleftrightarrow>
     (if length argv < 3 \<or> au_patterns u = [] then False
      else case (bulk (argv ! 1), bulk (argv ! 2)) of
             (Some dest, Some src) \<Rightarrow>
               list_ex (\<lambda>p. \<not> pattern_ok p dest) (au_patterns u) \<and> any_pattern u src
           | _ \<Rightarrow> False)"

definition acl_georadius_ok :: "acl_user \<Rightarrow> 'd resp_value list \<Rightarrow> bool" where
  "acl_georadius_ok u argv \<longleftrightarrow>
     au_patterns u \<noteq> [] \<and> key_ok u (argv ! 1) \<and>
     option_key_ok u (\<lambda>s. s = ascii ''STORE'' \<or> s = ascii ''STOREDIST'') (drop 2 argv)"

definition acl_two_key_cmds :: "nat list" where
  "acl_two_key_cmds =
    [CMD_SMOVE, CMD_RENAME, CMD_RENAMENX, CMD_RPOPLPUSH, CMD_LMOVE, CMD_LMOVEM, CMD_COPY, CMD_LCS, CMD_BRPOPLPUSH,
     CMD_BLMOVE, CMD_BLMOVEM]"

definition acl_all_key_cmds :: "nat list" where
  "acl_all_key_cmds =
    [CMD_MGET, CMD_DEL, CMD_UNLINK, CMD_EXISTS, CMD_TOUCH, CMD_SINTER, CMD_SUNION, CMD_SDIFF]"

text \<open>The last part: \<open>nkeys\<close> keys from \<open>first\<close> on, \<open>step\<close> apart.\<close>

definition acl_plain_keys_ok :: "acl_user \<Rightarrow> nat \<Rightarrow> 'd resp_value list \<Rightarrow> bool" where
  "acl_plain_keys_ok u cid argv \<longleftrightarrow>
     (let argc = length argv; first = acl_first_key cid argv;
          check = (\<lambda>nkeys step.
            if nkeys = 0 then True
            else if au_patterns u = [] then False
            else list_all (\<lambda>i. first + i * step < argc \<longrightarrow> key_ok u (argv ! (first + i * step))) [0..<nkeys])
      in if cid \<in> set acl_two_key_cmds then check 2 1
         else if cid \<in> set acl_all_key_cmds then check (argc - 1) 1
         else if cid \<in> set [CMD_MSET, CMD_MSETNX]
           then (if (argc - 1) mod 2 \<noteq> 0 then False else check ((argc - 1) div 2) 2)
         else check 1 1)"

definition acl_permitted :: "acl_user \<Rightarrow> nat \<Rightarrow> bool" where
  "acl_permitted u cid \<longleftrightarrow> (au_all_commands u \<or> has_bit (au_allow u) cid) \<and> \<not> has_bit (au_deny u) cid"

text \<open>The checks of channels and keys, for commands with arguments.\<close>

definition acl_args_ok :: "acl_user \<Rightarrow> nat \<Rightarrow> 'd resp_value list \<Rightarrow> bool" where
  "acl_args_ok u cid argv \<longleftrightarrow>
     (if cid \<in> set acl_channel_cmds then acl_channels_ok u cid argv
      else if cid = CMD_PUBSUB \<and> \<not> au_all_channels u then acl_pubsub_ok u argv
      else if cid \<in> set [CMD_EVAL, CMD_EVALSHA, CMD_EVAL_RO, CMD_EVALSHA_RO, CMD_FCALL, CMD_FCALL_RO]
        then acl_eval_ok u argv
      else if cid \<in> set [CMD_XREAD, CMD_XREADGROUP] then acl_xread_ok u argv
      else if cid = CMD_XGROUP then 3 \<le> length argv \<and> au_patterns u \<noteq> [] \<and> key_ok u (argv ! 2)
      else if cid = CMD_MIGRATE then acl_migrate_ok u argv
      else if cid = CMD_HIMPORT then acl_himport_ok u argv
      else if cid = CMD_ZRANGESTORE
        then 3 \<le> length argv \<and> au_patterns u \<noteq> [] \<and> list_all (key_ok u) (args argv 1 3)
      else if cid = CMD_MSETEX then acl_msetex_ok u argv
      else if cid \<in> set [CMD_LMPOP, CMD_BLMPOP, CMD_ZMPOP, CMD_BZMPOP]
        then (let num_idx = if cid = CMD_LMPOP \<or> cid = CMD_ZMPOP then 1 else 2
              in num_idx < length argv \<and> counted_keys_ok u argv num_idx)
      else if acl_keyless cid argv then True
      else if cid \<in> set [CMD_SORT, CMD_SORT_RO] then acl_sort_ok u cid argv
      else if cid \<in> set [CMD_SINTERSTORE, CMD_SUNIONSTORE, CMD_SDIFFSTORE] then store_keys_ok u argv
      else if cid \<in> set [CMD_ZUNIONSTORE, CMD_ZINTERSTORE, CMD_ZDIFFSTORE] then store_keys_ok u argv
      else if cid = CMD_GEOSEARCHSTORE then acl_geosearchstore_ok u argv
      else if cid \<in> set [CMD_PFCOUNT, CMD_PFMERGE] then au_patterns u \<noteq> [] \<and> list_all (key_ok u) (tl argv)
      else if cid \<in> set [CMD_SINTERCARD, CMD_ZUNION, CMD_ZINTER, CMD_ZDIFF, CMD_ZINTERCARD]
        then 3 \<le> length argv \<and> counted_keys_ok u argv 1
      else if cid \<in> set [CMD_BLPOP, CMD_BRPOP, CMD_BZPOPMIN, CMD_BZPOPMAX]
        then au_patterns u \<noteq> [] \<and> list_all (key_ok u) (args argv 1 (length argv - 1))
      else if cid = CMD_BITOP then 4 \<le> length argv \<and> au_patterns u \<noteq> [] \<and> list_all (key_ok u) (drop 2 argv)
      else if cid \<in> set [CMD_GEORADIUS, CMD_GEORADIUSBYMEMBER] then acl_georadius_ok u argv
      else acl_plain_keys_ok u cid argv)"

definition acl_authorize :: "acl_user \<Rightarrow> nat \<Rightarrow> 'd resp_value list \<Rightarrow> bool" where
  "acl_authorize u cid argv \<longleftrightarrow>
     (if \<not> au_enabled u \<or> CMD_STATS_SLOTS \<le> cid then False
      else if \<not> acl_permitted u cid then False
      else if length argv < 2 then True
      else acl_args_ok u cid argv)"

section \<open>Security log\<close>

definition acl_log_event :: "acl_registry \<Rightarrow> bytes \<Rightarrow> bytes \<Rightarrow> bytes \<Rightarrow> nat \<Rightarrow> acl_registry" where
  "acl_log_event r reason user obj now_ms =
     (let last = (ar_log_next r + ACL_LOG_MAX - 1) mod ACL_LOG_MAX; prev = ar_log r ! last
      in if 0 < ar_log_len r \<and> le_reason prev = reason \<and> le_username prev = user \<and> le_object prev = obj
         then r\<lparr>ar_log := (ar_log r)[last := prev\<lparr>le_count := (if le_count prev \<noteq> UINT64_MAX then le_count prev + 1 else le_count prev),
                                                    le_age_ms := now_ms\<rparr>]\<rparr>
         else
           let e = \<lparr>le_count = 1, le_age_ms = now_ms, le_reason = take 11 reason,
                    le_username = cstr (take (ACL_MAX_NAME - 1) user), le_object = cstr (take (ACL_MAX_NAME - 1) obj)\<rparr>
           in r\<lparr>ar_log := (ar_log r)[ar_log_next r := e], ar_log_next := (ar_log_next r + 1) mod ACL_LOG_MAX,
                ar_log_len := (if ar_log_len r < ACL_LOG_MAX then ar_log_len r + 1 else ar_log_len r)\<rparr>)"

definition acl_log_reset :: "acl_registry \<Rightarrow> acl_registry" where
  "acl_log_reset r = r\<lparr>ar_log_len := 0, ar_log_next := 0\<rparr>"

end
