(* ===== verification/Acl_Match.thy ===== *)
theory Acl_Match
  imports Acl
begin

text \<open>
  The iterative pattern matcher decides the language of patterns with \<open>?\<close> and \<open>*\<close>, for keys
  without an asterisk: a key character is compared with the pattern before the pattern character
  is read as a wildcard.
\<close>

fun wild :: "bytes \<Rightarrow> bytes \<Rightarrow> bool" where
  "wild [] s \<longleftrightarrow> s = []"
| "wild (p # ps) [] \<longleftrightarrow> p = 42 \<and> wild ps []"
| "wild (p # ps) (c # s) \<longleftrightarrow>
     (if p = 42 then wild ps (c # s) \<or> wild (p # ps) s else (p = 63 \<or> p = c) \<and> wild ps s)"

lemma wild_star: "wild (42 # ps) s \<longleftrightarrow> (\<exists>k \<le> length s. wild ps (drop k s))"
proof (induction s)
  case (Cons c s)
  have "wild (42 # ps) (c # s) \<longleftrightarrow> wild ps (c # s) \<or> wild (42 # ps) s" by simp
  also have "\<dots> \<longleftrightarrow> wild ps (drop 0 (c # s)) \<or> (\<exists>k \<le> length s. wild ps (drop (Suc k) (c # s)))"
    unfolding Cons.IH by simp
  also have "\<dots> \<longleftrightarrow> (\<exists>k \<le> length (c # s). wild ps (drop k (c # s)))"
    unfolding less_Suc_eq_le [symmetric] length_Cons Ex_less_Suc2 ..
  finally show ?case .
qed simp

lemma wild_star_drop: "wild (42 # ps) (drop k s) \<Longrightarrow> wild (42 # ps) s"
proof (induction k arbitrary: s)
  case (Suc k)
  then show ?case by (cases s) auto
qed simp

lemma wild_prefix: "wild (xs @ ys) s \<Longrightarrow> 42 \<notin> set xs \<Longrightarrow> length xs \<le> length s \<and> wild ys (drop (length xs) s)"
proof (induction xs arbitrary: s)
  case (Cons x xs)
  then show ?case by (cases s) auto
qed simp

lemma skip_stars_iff:
  "pi \<le> length pat \<Longrightarrow> length pat - pi \<le> n \<Longrightarrow> skip_stars pat pi n = length pat \<longleftrightarrow> wild (drop pi pat) []"
proof (induction n arbitrary: pi)
  case (Suc n)
  show ?case
  proof (cases "pi < length pat")
    case True
    then have "drop pi pat = pat ! pi # drop (Suc pi) pat" by (simp add: Cons_nth_drop_Suc)
    with True Suc show ?thesis by auto
  next
    case False
    with Suc.prems show ?thesis by simp
  qed
qed simp

text \<open>The state of the loop: the literal run since the last asterisk has been matched from the mark on.\<close>

definition match_inv :: "bytes \<Rightarrow> bytes \<Rightarrow> nat \<Rightarrow> nat \<Rightarrow> nat option \<Rightarrow> nat \<Rightarrow> bool" where
  "match_inv pat key pi ki star mark \<longleftrightarrow>
     pi \<le> length pat \<and> ki \<le> length key \<and> mark \<le> ki \<and>
     (case star of
        None \<Rightarrow> True
      | Some s \<Rightarrow> s < pi \<and> pat ! s = 42 \<and> ki - mark = pi - Suc s \<and> 42 \<notin> set (take (pi - Suc s) (drop (Suc s) pat)))"

definition retry :: "bytes \<Rightarrow> bytes \<Rightarrow> nat option \<Rightarrow> nat \<Rightarrow> bool" where
  "retry pat key star mark \<longleftrightarrow> (case star of None \<Rightarrow> False | Some s \<Rightarrow> wild (drop s pat) (drop (Suc mark) key))"

lemma retry_later:
  assumes inv: "match_inv pat key pi ki star mark" and "retry pat key star mark"
  obtains k where "ki < k" and "k \<le> length key" and "wild (drop pi pat) (drop k key)"
  | "mark = length key" and "wild (drop pi pat) []"
proof -
  from assms(2) obtain s where s: "star = Some s" and w: "wild (drop s pat) (drop (Suc mark) key)"
    by (auto simp: retry_def split: option.splits)
  have i: "pi \<le> length pat" "ki \<le> length key" "mark \<le> ki" "s < pi" "pat ! s = 42" "ki - mark = pi - Suc s"
    "42 \<notin> set (take (pi - Suc s) (drop (Suc s) pat))"
    using inv s by (auto simp: match_inv_def)
  let ?P = "take (pi - Suc s) (drop (Suc s) pat)"
  have P: "length ?P = ki - mark" using i by simp
  have "drop s pat = 42 # drop (Suc s) pat" using i by (metis Cons_nth_drop_Suc less_le_trans)
  moreover have "drop (Suc s) pat = ?P @ drop pi pat"
    using i(4) append_take_drop_id [of "pi - Suc s" "drop (Suc s) pat"] by simp
  ultimately have "wild (42 # ?P @ drop pi pat) (drop (Suc mark) key)" using w by simp
  then obtain k where k: "k \<le> length (drop (Suc mark) key)" "wild (?P @ drop pi pat) (drop k (drop (Suc mark) key))"
    unfolding wild_star by blast
  from wild_prefix [OF k(2) i(7)] have len: "ki - mark \<le> length (drop k (drop (Suc mark) key))"
    and rest: "wild (drop pi pat) (drop (ki - mark) (drop k (drop (Suc mark) key)))" unfolding P by blast+
  show ?thesis
  proof (cases "mark = length key")
    case True
    then show ?thesis using that(2) rest by simp
  next
    case False
    then have "Suc mark + k + (ki - mark) \<le> length key" using len k(1) i by simp
    moreover have "drop (ki - mark) (drop k (drop (Suc mark) key)) = drop (Suc mark + k + (ki - mark)) key"
      by (simp add: add.commute add.left_commute)
    ultimately show ?thesis using that(1) [of "Suc mark + k + (ki - mark)"] rest i(3) by simp
  qed
qed

lemma run_snoc:
  assumes "s < pi" and "pi < length pat"
  shows "take (pi - s) (drop (Suc s) pat) = take (pi - Suc s) (drop (Suc s) pat) @ [pat ! pi]"
proof -
  have e: "pi - s = Suc (pi - Suc s)" using assms(1) by simp
  show ?thesis unfolding e using assms by (subst take_Suc_snoc) simp_all
qed

lemma loop_decides:
  assumes key: "42 \<notin> set key"
  shows "match_inv pat key pi ki star mark \<Longrightarrow>
    acl_match_loop pat key pi ki star mark = Some (wild (drop pi pat) (drop ki key) \<or> retry pat key star mark)"
proof (induction "(length key - mark, length key - ki, length pat - pi)" arbitrary: pi ki star mark
    rule: wf_induct_rule [OF wf_lex_prod [OF wf_less_than wf_lex_prod [OF wf_less_than wf_less_than]]])
  case (1 pi ki mark star)
  note IH = "1.hyps" [simplified]
  note inv = "1.prems"
  have i: "pi \<le> length pat" "ki \<le> length key" "mark \<le> ki" using inv by (simp_all add: match_inv_def)
  show ?case
  proof (cases "ki < length key")
    case False
    then have ki: "ki = length key" using i by simp
    have "retry pat key star mark \<Longrightarrow> wild (drop pi pat) []"
      using ki by (elim retry_later [OF inv]) auto
    moreover have "acl_match_loop pat key pi ki star mark = Some (wild (drop pi pat) [])"
      using False skip_stars_iff [OF i(1), of "length pat"] by (subst acl_match_loop.simps) simp
    ultimately show ?thesis using ki by auto
  next
    case lt: True
    have dk: "drop ki key = key ! ki # drop (Suc ki) key" using lt by (simp add: Cons_nth_drop_Suc)
    have nk: "key ! ki \<noteq> 42" using key lt by (metis nth_mem)
    consider (char) "pi < length pat" "pat ! pi = 63 \<or> pat ! pi = key ! ki"
      | (star) "pi < length pat" "pat ! pi = 42" "\<not> (pat ! pi = 63 \<or> pat ! pi = key ! ki)"
      | (miss) "pi = length pat \<or> (pat ! pi \<noteq> 42 \<and> \<not> (pat ! pi = 63 \<or> pat ! pi = key ! ki))"
      using i(1) by fastforce
    then show ?thesis
    proof cases
      case char
      have dp: "drop pi pat = pat ! pi # drop (Suc pi) pat" using char by (simp add: Cons_nth_drop_Suc)
      have p: "pat ! pi \<noteq> 42" using char(2) nk by auto
      have "match_inv pat key (Suc pi) (Suc ki) star mark"
        using inv lt char(1) p
        by (auto simp: match_inv_def Suc_diff_le run_snoc split: option.splits)
      then have "acl_match_loop pat key (Suc pi) (Suc ki) star mark =
          Some (wild (drop (Suc pi) pat) (drop (Suc ki) key) \<or> retry pat key star mark)"
        using lt by (intro IH) auto
      moreover have "acl_match_loop pat key pi ki star mark = acl_match_loop pat key (Suc pi) (Suc ki) star mark"
        using lt char by (subst acl_match_loop.simps) simp
      ultimately show ?thesis using p char(2) by (simp add: dp dk)
    next
      case star
      have dp: "drop pi pat = 42 # drop (Suc pi) pat" using star by (metis Cons_nth_drop_Suc)
      have inv': "match_inv pat key (Suc pi) ki (Some pi) ki" using i star by (simp add: match_inv_def)
      have "acl_match_loop pat key (Suc pi) ki (Some pi) ki =
          Some (wild (drop (Suc pi) pat) (drop ki key) \<or> retry pat key (Some pi) ki)"
        by (rule IH [OF _ inv']) (use star i lt in auto)
      moreover have "acl_match_loop pat key pi ki star mark = acl_match_loop pat key (Suc pi) ki (Some pi) ki"
        using lt star by (subst acl_match_loop.simps) simp
      moreover have "wild (drop pi pat) (drop ki key) \<longleftrightarrow> wild (drop (Suc pi) pat) (drop ki key) \<or> retry pat key (Some pi) ki"
        by (simp add: retry_def dp dk)
      moreover have "retry pat key star mark \<Longrightarrow> wild (drop pi pat) (drop ki key)"
      proof (elim retry_later [OF inv])
        fix k assume "ki < k" "wild (drop pi pat) (drop k key)"
        then have "wild (42 # drop (Suc pi) pat) (drop (k - ki) (drop ki key))" by (simp add: dp)
        then show "wild (drop pi pat) (drop ki key)" unfolding dp by (rule wild_star_drop)
      qed (use lt i in simp)
      ultimately show ?thesis by auto
    next
      case miss
      have no: "\<not> wild (drop pi pat) (drop ki key)"
      proof (cases "pi = length pat")
        case False
        then have "drop pi pat = pat ! pi # drop (Suc pi) pat" using i(1) by (simp add: Cons_nth_drop_Suc)
        with miss False show ?thesis by (simp add: dk)
      qed (simp add: dk)
      have cond: "\<not> (pi < length pat \<and> (pat ! pi = 63 \<or> pat ! pi = key ! ki))" "\<not> (pi < length pat \<and> pat ! pi = 42)"
        using miss by auto
      show ?thesis
      proof (cases star)
        case None
        then have "acl_match_loop pat key pi ki star mark = Some False"
          unfolding acl_match_loop.simps [of pat key pi ki] if_P [OF lt] if_not_P [OF cond(1)] if_not_P [OF cond(2)] by simp
        with None no show ?thesis by (simp add: retry_def)
      next
        case (Some s)
        have s: "s < pi" "pat ! s = 42" using inv Some by (simp_all add: match_inv_def)
        have ds: "drop s pat = 42 # drop (Suc s) pat" using s i(1) by (metis Cons_nth_drop_Suc less_le_trans)
        have inv': "match_inv pat key (Suc s) (Suc mark) (Some s) (Suc mark)"
          using i lt s by (simp add: match_inv_def)
        have "acl_match_loop pat key (Suc s) (Suc mark) (Some s) (Suc mark) =
            Some (wild (drop (Suc s) pat) (drop (Suc mark) key) \<or> retry pat key (Some s) (Suc mark))"
          by (rule IH [OF _ inv']) (use i lt in auto)
        moreover have "acl_match_loop pat key pi ki star mark = acl_match_loop pat key (Suc s) (Suc mark) (Some s) (Suc mark)"
          unfolding acl_match_loop.simps [of pat key pi ki] if_P [OF lt] if_not_P [OF cond(1)] if_not_P [OF cond(2)]
          using Some by simp
        moreover have "wild (drop s pat) (drop (Suc mark) key) \<longleftrightarrow>
            wild (drop (Suc s) pat) (drop (Suc mark) key) \<or> wild (drop s pat) (drop (Suc (Suc mark)) key)"
        proof (cases "drop (Suc mark) key")
          case Nil
          then show ?thesis by (simp add: ds)
        next
          case (Cons c cs)
          then have "drop (Suc (Suc mark)) key = cs" by (metis drop_Suc list.sel(3) tl_drop)
          with Cons show ?thesis by (simp add: ds)
        qed
        ultimately show ?thesis using no Some by (simp add: retry_def)
      qed
    qed
  qed
qed

lemma match_decides: "42 \<notin> set key \<Longrightarrow> acl_match_pattern pat key = Some (wild pat key)"
  using loop_decides [of key pat 0 0 None 0] by (simp add: acl_match_pattern_def match_inv_def retry_def)

text \<open>Whatever the key, the loop ends.\<close>

lemma loop_ends:
  "pi \<le> length pat \<Longrightarrow> ki \<le> length key \<Longrightarrow> mark \<le> ki \<Longrightarrow> (\<forall>s. star = Some s \<longrightarrow> s < length pat) \<Longrightarrow>
    \<exists>b. acl_match_loop pat key pi ki star mark = Some b"
proof (induction "(length key - mark, length key - ki, length pat - pi)" arbitrary: pi ki star mark
    rule: wf_induct_rule [OF wf_lex_prod [OF wf_less_than wf_lex_prod [OF wf_less_than wf_less_than]]])
  case (1 pi ki mark star)
  note IH = "1.hyps" [simplified]
  show ?case
  proof (cases "ki < length key")
    case False
    then show ?thesis by (subst acl_match_loop.simps) simp
  next
    case lt: True
    consider (char) "pi < length pat \<and> (pat ! pi = 63 \<or> pat ! pi = key ! ki)"
      | (star) "pi < length pat \<and> pat ! pi = 42" "\<not> (pi < length pat \<and> (pat ! pi = 63 \<or> pat ! pi = key ! ki))"
      | (miss) "\<not> (pi < length pat \<and> (pat ! pi = 63 \<or> pat ! pi = key ! ki))" "\<not> (pi < length pat \<and> pat ! pi = 42)"
      by blast
    then show ?thesis
    proof cases
      case char
      have "\<exists>b. acl_match_loop pat key (Suc pi) (Suc ki) star mark = Some b"
        by (rule IH) (use lt char "1.prems" in auto)
      then show ?thesis using lt char by (subst acl_match_loop.simps) simp
    next
      case star
      have "\<exists>b. acl_match_loop pat key (Suc pi) ki (Some pi) ki = Some b"
        by (rule IH) (use lt star "1.prems" in auto)
      then show ?thesis using lt star by (subst acl_match_loop.simps) simp
    next
      case miss
      note step = acl_match_loop.simps [of pat key pi ki] if_P [OF lt] if_not_P [OF miss(1)] if_not_P [OF miss(2)]
      show ?thesis
      proof (cases star)
        case None
        then show ?thesis unfolding step by auto
      next
        case (Some s)
        have "\<exists>b. acl_match_loop pat key (Suc s) (Suc mark) star (Suc mark) = Some b"
          by (rule IH) (use lt Some "1.prems" in auto)
        then show ?thesis unfolding step using Some by simp
      qed
    qed
  qed
qed

lemma match_ends: "\<exists>b. acl_match_pattern pat key = Some b"
  unfolding acl_match_pattern_def by (rule loop_ends) simp_all

lemma star_key: "acl_match_pattern (ascii ''*'') (ascii ''*a'') = Some False"
  unfolding acl_match_pattern_def
  by (subst acl_match_loop.simps, simp add: ascii_def)+

text \<open>
  C35: Key and channel patterns. The iterative matcher returns for every pattern and key, within
  the bounds of both, and for keys without an asterisk it decides the language in which \<open>?\<close>
  stands for one character and \<open>*\<close> for any sequence. The restriction is needed: the pattern
  \<open>*\<close>, which the default user has, rejects the key \<open>*a\<close>.
\<close>
theorem acl_pattern_decides:
  "(\<exists>b. acl_match_pattern pat key = Some b) \<and>
   (42 \<notin> set key \<longrightarrow> acl_match_pattern pat key = Some (wild pat key)) \<and>
   acl_match_pattern (ascii ''*'') (ascii ''*a'') = Some False"
  using match_ends match_decides star_key by blast

theorem acl_pattern_decides_witness:
  "acl_match_pattern (ascii ''app:*:?'') (ascii ''app:users:7'') = Some True"
  using acl_pattern_decides [of "ascii ''app:*:?''" "ascii ''app:users:7''"] by (simp add: ascii_def)

end
