(* ===== verification/Acl_Registry.thy ===== *)
theory Acl_Registry
  imports Acl_Match
begin

text \<open>
  The array of users is a finite map from names to users: \<open>ACL SETUSER\<close> and \<open>ACL DELUSER\<close> update
  it, authentication reads it. Slots of deleted users are reused, so the capacity counts the
  live users only.
\<close>

section \<open>Rules keep the identity of a user\<close>

definition same_id :: "acl_user \<Rightarrow> acl_user \<Rightarrow> bool" where
  "same_id u v \<longleftrightarrow> au_name v = au_name u \<and> au_generation v = au_generation u"

lemma set_bit_in_id: "same_id u (set_bit_in allow i u)"
  by (simp add: same_id_def set_bit_in_def)

lemma foldl_id: "(\<And>u i. same_id u (f u i)) \<Longrightarrow> same_id u (foldl f u is)"
  by (induction "is" arbitrary: u) (fastforce simp: same_id_def)+

lemma set_cmd_id: "set_cmd u p allow = Some v \<Longrightarrow> same_id u v"
  by (auto simp: set_cmd_def Let_def set_bit_in_id same_id_def [of _ "_\<lparr>au_deny := _\<rparr>"] same_id_def [of _ "_\<lparr>au_allow := _\<rparr>"]
      intro!: foldl_id split: if_splits) (simp_all add: same_id_def set_bit_in_def)

lemma apply_rule_id: "apply_rule u p = Some v \<Longrightarrow> same_id u v"
  using set_cmd_id [of u p "hd p = 43" v]
  by (auto simp: apply_rule_def Let_def clear_rules_def same_id_def split: if_splits)

lemma apply_rules_id: "apply_rules u rules = Some v \<Longrightarrow> same_id u v"
proof (induction rules arbitrary: u)
  case (Cons r rules)
  then obtain p u' where "apply_rule u p = Some u'" "apply_rules u' rules = Some v"
    by (auto split: option.splits)
  with Cons.IH apply_rule_id [of u p u'] show ?case by (force simp: same_id_def)
qed (simp add: same_id_def)

section \<open>The registry as a map\<close>

definition live_slots :: "acl_registry \<Rightarrow> nat set" where
  "live_slots r = {i. i < length (ar_users r) \<and> au_name (ar_users r ! i) \<noteq> []}"

definition reg_inv :: "acl_registry \<Rightarrow> bool" where
  "reg_inv r \<longleftrightarrow>
     length (ar_users r) \<le> ACL_MAX_USERS \<and>
     inj_on (\<lambda>i. au_name (ar_users r ! i)) (live_slots r)"

definition reg_map :: "acl_registry \<Rightarrow> bytes \<rightharpoonup> acl_user" where
  "reg_map r name = map_option (\<lambda>i. ar_users r ! i) (acl_find r name)"

lemma find_live:
  assumes "reg_inv r" and "i \<in> live_slots r"
  shows "acl_find r (au_name (ar_users r ! i)) = Some i"
proof (cases "acl_find r (au_name (ar_users r ! i))")
  case None
  then show ?thesis using assms(2) nth_mem [of i "ar_users r"] by (auto simp: acl_find_def index_of_None live_slots_def)
next
  case (Some j)
  then have "j \<in> live_slots r" "au_name (ar_users r ! j) = au_name (ar_users r ! i)"
    using index_of_Some by (fastforce simp: acl_find_def live_slots_def)+
  with assms Some show ?thesis by (auto simp: reg_inv_def inj_on_def)
qed

lemma acl_find_SomeD: "acl_find r name = Some i \<Longrightarrow> i \<in> live_slots r \<and> au_name (ar_users r ! i) = name"
  using index_of_Some by (fastforce simp: acl_find_def live_slots_def)

lemma acl_find_NoneD: "acl_find r name = None \<Longrightarrow> i \<in> live_slots r \<Longrightarrow> au_name (ar_users r ! i) \<noteq> name"
  by (auto simp: acl_find_def index_of_None live_slots_def)

lemma reg_map_eq:
  assumes "reg_inv r"
  shows "reg_map r name = Some u \<longleftrightarrow> (\<exists>i \<in> live_slots r. ar_users r ! i = u \<and> au_name u = name)"
  using acl_find_SomeD find_live [OF assms] by (force simp: reg_map_def)

lemma map_eqI: "(\<And>x y. m x = Some y \<longleftrightarrow> m' x = Some y) \<Longrightarrow> m = m'"
  by (rule ext) (metis option.exhaust)

lemma live_finite: "finite (live_slots r)"
  by (simp add: live_slots_def)

lemma dom_reg_map: "reg_inv r \<Longrightarrow> dom (reg_map r) = (\<lambda>i. au_name (ar_users r ! i)) ` live_slots r"
  by (auto simp: dom_def reg_map_eq)

lemma card_dom: "reg_inv r \<Longrightarrow> card (dom (reg_map r)) = card (live_slots r)"
  by (simp add: dom_reg_map card_image reg_inv_def)

text \<open>Writing one slot.\<close>

definition put :: "acl_registry \<Rightarrow> nat \<Rightarrow> acl_user \<Rightarrow> acl_user list" where
  "put r i u = (if i < length (ar_users r) then (ar_users r)[i := u] else ar_users r @ [u])"

lemma put_facts:
  assumes inv: "reg_inv r" and i: "i < length (ar_users r) \<or> i = length (ar_users r) \<and> i < ACL_MAX_USERS"
    and users: "ar_users r' = put r i u"
    and other: "\<forall>j \<in> live_slots r. j \<noteq> i \<longrightarrow> au_name (ar_users r ! j) \<noteq> au_name u"
  shows "reg_inv r'"
    and "reg_map r' = (\<lambda>name. if au_name u \<noteq> [] \<and> name = au_name u then Some u
      else if i \<in> live_slots r \<and> name = au_name (ar_users r ! i) then None else reg_map r name)"
proof -
  have free: "j \<in> live_slots r \<Longrightarrow> j \<noteq> i \<Longrightarrow> au_name (ar_users r ! j) \<noteq> au_name u" for j using other by blast
  have nth: "j < length (ar_users r') \<Longrightarrow> ar_users r' ! j = (if j = i then u else ar_users r ! j)" for j
    using i by (auto simp: users put_def nth_append less_Suc_eq)
  have len: "length (ar_users r') = max (length (ar_users r)) (Suc i)" using i by (auto simp: users put_def)
  have live: "j \<in> live_slots r' \<longleftrightarrow> (if j = i then au_name u \<noteq> [] else j \<in> live_slots r)" for j
    using nth i by (auto simp: live_slots_def len)
  have at: "ar_users r' ! j = (if j = i then u else ar_users r ! j)" if "j \<in> live_slots r'" for j
    using that nth by (simp add: live_slots_def)
  show inv': "reg_inv r'"
  proof -
    have "inj_on (\<lambda>j. au_name (ar_users r' ! j)) (live_slots r')"
    proof (rule inj_onI)
      fix j k assume jk: "j \<in> live_slots r'" "k \<in> live_slots r'" "au_name (ar_users r' ! j) = au_name (ar_users r' ! k)"
      have old: "inj_on (\<lambda>j. au_name (ar_users r ! j)) (live_slots r)" using inv by (simp add: reg_inv_def)
      show "j = k"
        using jk live [of j] live [of k] at [OF jk(1)] at [OF jk(2)] free [of j] free [of k] inj_onD [OF old, of j k]
        by (cases "j = i"; cases "k = i") simp_all
    qed
    then show ?thesis using inv i by (auto simp: reg_inv_def len)
  qed
  show "reg_map r' = (\<lambda>name. if au_name u \<noteq> [] \<and> name = au_name u then Some u
      else if i \<in> live_slots r \<and> name = au_name (ar_users r ! i) then None else reg_map r name)"
  proof (rule map_eqI)
    fix name v
    have new: "reg_map r' name = Some v \<longleftrightarrow>
        (au_name u \<noteq> [] \<and> u = v \<and> au_name u = name) \<or> (\<exists>j \<in> live_slots r. j \<noteq> i \<and> ar_users r ! j = v \<and> au_name v = name)"
      unfolding reg_map_eq [OF inv'] using live at by (auto, metis+)
    have inj: "j = i" if "j \<in> live_slots r" "i \<in> live_slots r" "au_name (ar_users r ! j) = au_name (ar_users r ! i)" for j
      using inv that by (auto simp: reg_inv_def inj_on_def)
    show "reg_map r' name = Some v \<longleftrightarrow> (if au_name u \<noteq> [] \<and> name = au_name u then Some u
      else if i \<in> live_slots r \<and> name = au_name (ar_users r ! i) then None else reg_map r name) = Some v"
    proof (cases "au_name u \<noteq> [] \<and> name = au_name u")
      case True
      then have "\<not> (\<exists>j \<in> live_slots r. j \<noteq> i \<and> ar_users r ! j = v \<and> au_name v = name)" using free by blast
      with True show ?thesis unfolding new by auto
    next
      case a: False
      show ?thesis
      proof (cases "i \<in> live_slots r \<and> name = au_name (ar_users r ! i)")
        case True
        then have "\<not> (\<exists>j \<in> live_slots r. j \<noteq> i \<and> ar_users r ! j = v \<and> au_name v = name)" using inj by blast
        with True a show ?thesis unfolding new by auto
      next
        case False
        then have "(\<exists>j \<in> live_slots r. j \<noteq> i \<and> ar_users r ! j = v \<and> au_name v = name) \<longleftrightarrow> reg_map r name = Some v"
          unfolding reg_map_eq [OF inv] by auto
        with False a show ?thesis unfolding new by auto
      qed
    qed
  qed
qed

section \<open>Operations\<close>

datatype 'd acl_op =
  ASetUser bytes "'d resp_value list"
| ADelUser bytes
| AAuthenticate bytes bytes
| ALogEvent bytes bytes bytes nat
| ALogReset

datatype acl_reply = AInt int | AUser "acl_user option" | ADone

fun acl_exec :: "acl_registry \<Rightarrow> 'd acl_op \<Rightarrow> (acl_reply \<times> acl_registry) option" where
  "acl_exec r (ASetUser name rules) = Some (map_prod AInt id (acl_setuser r name rules))"
| "acl_exec r (ADelUser name) = Some (map_prod AInt id (acl_deluser r name))"
| "acl_exec r (AAuthenticate name password) =
     Some (AUser (map_option (\<lambda>i. ar_users r ! i) (acl_authenticate r name password)), r)"
| "acl_exec r (ALogEvent reason user obj now) = Some (ADone, acl_log_event r reason user obj now)"
| "acl_exec r ALogReset = Some (ADone, acl_log_reset r)"

type_synonym acl_map = "(bytes \<rightharpoonup> acl_user) \<times> nat"

definition set_spec :: "acl_map \<Rightarrow> bytes \<Rightarrow> acl_user \<Rightarrow> 'd resp_value list \<Rightarrow> int \<times> (bytes \<rightharpoonup> acl_user)" where
  "set_spec s name u rules =
     (case apply_rules u rules of None \<Rightarrow> (-1, (fst s)(name \<mapsto> u)) | Some v \<Rightarrow> (0, (fst s)(name \<mapsto> v)))"

fun acl_spec :: "acl_map \<Rightarrow> 'd acl_op \<Rightarrow> acl_reply \<times> acl_map" where
  "acl_spec s (ASetUser name rules) =
     (if name = [] \<or> ACL_MAX_NAME \<le> length name then (AInt (-1), s)
      else
        case fst s name of
          Some u \<Rightarrow> (let (c, m) = set_spec s name u rules in (AInt c, (m, snd s)))
        | None \<Rightarrow>
            if ACL_MAX_USERS \<le> card (dom (fst s)) then (AInt (-1), s)
            else let gen = u64_add (snd s) 1; u = zero_user\<lparr>au_name := name, au_generation := gen\<rparr>;
                     (c, m) = set_spec s name u rules
                 in (AInt c, (m, gen)))"
| "acl_spec s (ADelUser name) =
     (if name = [] then (AInt (-1), s)
      else if name = ascii ''default'' \<or> fst s name = None then (AInt 0, s)
      else (AInt 1, ((fst s)(name := None), u64_add (snd s) 1)))"
| "acl_spec s (AAuthenticate name password) =
     (AUser (case fst s name of
               None \<Rightarrow> None
             | Some u \<Rightarrow> if au_enabled u \<and> (au_no_password u \<or> au_password u = password) then Some u else None), s)"
| "acl_spec s _ = (ADone, s)"

text \<open>Names of users are C strings: no zero byte.\<close>

fun acl_safe :: "acl_registry \<Rightarrow> 'd acl_op \<Rightarrow> bool" where
  "acl_safe r (ASetUser name rules) \<longleftrightarrow> 0 \<notin> set name"
| "acl_safe r _ \<longleftrightarrow> True"

definition acl_abs :: "acl_registry \<Rightarrow> acl_map" where
  "acl_abs r = (reg_map r, ar_generation_next r)"

lemma diff_step: "d OR (a XOR b) = 0 \<longleftrightarrow> d = 0 \<and> a = (b :: byte)"
  by (auto simp: bit_eq_iff bit_or_iff bit_xor_iff)

lemma diff_zero: "foldl (\<lambda>diff (a, b). diff OR (a XOR b)) (d :: byte) zs = 0 \<longleftrightarrow> d = 0 \<and> (\<forall>(a, b) \<in> set zs. a = b)"
  by (induction zs arbitrary: d) (auto simp: diff_step)

lemma authenticate_eq:
  "map_option (\<lambda>i. ar_users r ! i) (acl_authenticate r name password) =
    (case reg_map r name of
       None \<Rightarrow> None
     | Some u \<Rightarrow> if au_enabled u \<and> (au_no_password u \<or> au_password u = password) then Some u else None)"
proof (cases "acl_find r name")
  case (Some i)
  let ?p = "au_password (ar_users r ! i)"
  have "length ?p = length password \<Longrightarrow>
      foldl (\<lambda>diff (a, b). diff OR (a XOR b)) 0 (zip ?p password) = 0 \<longleftrightarrow> ?p = password"
    unfolding diff_zero by (auto simp: list_eq_iff_zip_eq)
  with Some show ?thesis by (auto simp: acl_authenticate_def reg_map_def Let_def)
qed (simp add: acl_authenticate_def reg_map_def)

lemma new_user_cases:
  assumes inv: "reg_inv r" and name: "name \<noteq> []" "0 \<notin> set name" and none: "acl_find r name = None"
  defines "u \<equiv> zero_user\<lparr>au_name := name, au_generation := u64_add (ar_generation_next r) 1\<rparr>"
  shows "acl_new_user r name = None \<and> ACL_MAX_USERS \<le> card (live_slots r) \<or>
    (\<exists>i r'. acl_new_user r name = Some (i, r') \<and> card (live_slots r) < ACL_MAX_USERS \<and> reg_inv r' \<and>
       i < length (ar_users r') \<and> ar_users r' ! i = u \<and> i \<in> live_slots r' \<and>
       ar_generation_next r' = u64_add (ar_generation_next r) 1 \<and> reg_map r' = (reg_map r)(name \<mapsto> u))"
proof -
  have u: "zero_user\<lparr>au_name := cstr name, au_generation := u64_add (ar_generation_next r) 1\<rparr> = u" "au_name u = name"
    by (simp_all add: u_def cstr_id [OF name(2)])
  have free: "au_name (ar_users r ! j) \<noteq> au_name u" if "j \<in> live_slots r" for j
    using acl_find_NoneD [OF none that] u(2) by simp
  have slot: "reg_inv r' \<and> i < length (ar_users r') \<and> ar_users r' ! i = u \<and> i \<in> live_slots r' \<and> reg_map r' = (reg_map r)(name \<mapsto> u)"
    if i: "i < length (ar_users r) \<or> i = length (ar_users r) \<and> i < ACL_MAX_USERS" "i \<notin> live_slots r" and r': "ar_users r' = put r i u" for i r'
  proof -
    have "\<forall>j \<in> live_slots r. j \<noteq> i \<longrightarrow> au_name (ar_users r ! j) \<noteq> au_name u" using free by blast
    note f = put_facts [OF inv i(1) r' this]
    have "i < length (ar_users r')" "ar_users r' ! i = u" using i(1) r' by (auto simp: put_def)
    moreover have "reg_map r' = (reg_map r)(name \<mapsto> u)" unfolding f(2) using i(2) name(1) u(2) by auto
    ultimately show ?thesis using f(1) name(1) u(2) by (simp add: live_slots_def)
  qed
  have sub: "live_slots r \<subseteq> {..<length (ar_users r)}" by (auto simp: live_slots_def)
  show ?thesis
  proof (cases "index_of (\<lambda>u. au_name u = []) (ar_users r)")
    case (Some i)
    from index_of_Some [OF Some] have i: "i < length (ar_users r)" "i \<notin> live_slots r" by (simp_all add: live_slots_def)
    then have "live_slots r \<subset> {..<length (ar_users r)}" using sub by auto
    then have "card (live_slots r) < length (ar_users r)" using psubset_card_mono [of "{..<length (ar_users r)}" "live_slots r"] by simp
    moreover have "length (ar_users r) \<le> ACL_MAX_USERS" using inv by (simp add: reg_inv_def)
    ultimately have "card (live_slots r) < ACL_MAX_USERS" by simp
    moreover define r' where "r' = r\<lparr>ar_users := (ar_users r)[i := u], ar_generation_next := u64_add (ar_generation_next r) 1\<rparr>"
    have "acl_new_user r name = Some (i, r')" unfolding acl_new_user_def Some Let_def u(1) r'_def by simp
    moreover have "ar_users r' = put r i u" using i(1) by (simp add: r'_def put_def)
    ultimately show ?thesis using slot [of i r'] i by (auto simp: r'_def)
  next
    case None
    then have "live_slots r = {..<length (ar_users r)}" by (auto simp: live_slots_def index_of_None)
    then have card: "card (live_slots r) = length (ar_users r)" by simp
    show ?thesis
    proof (cases "ACL_MAX_USERS \<le> length (ar_users r)")
      case True
      then show ?thesis using None card by (simp add: acl_new_user_def Let_def)
    next
      case False
      define r' where "r' = r\<lparr>ar_users := ar_users r @ [u], ar_generation_next := u64_add (ar_generation_next r) 1\<rparr>"
      have "acl_new_user r name = Some (length (ar_users r), r')" 
        using False unfolding acl_new_user_def None Let_def u(1) r'_def by simp
      moreover have "ar_users r' = put r (length (ar_users r)) u" by (simp add: r'_def put_def)
      ultimately show ?thesis using slot [of "length (ar_users r)" r'] False card sub by (auto simp: r'_def)
    qed
  qed
qed

section \<open>Refinement\<close>

definition acl_simulated :: "acl_registry \<Rightarrow> 'd acl_op \<Rightarrow> bool" where
  "acl_simulated r op \<longleftrightarrow>
     (\<exists>c r'. acl_exec r op = Some (c, r') \<and> reg_inv r' \<and> acl_spec (acl_abs r) op = (c, acl_abs r'))"

text \<open>Storing the result of the rules in the slot of a live user.\<close>

lemma rules_simulated:
  assumes inv: "reg_inv r" and i: "i \<in> live_slots r" and u: "ar_users r ! i = u" "au_name u = name"
  shows "\<exists>c r'. (case apply_rules u rules of None \<Rightarrow> (-1, r) | Some v \<Rightarrow> (0, r\<lparr>ar_users := (ar_users r)[i := v]\<rparr>)) = (c, r') \<and>
    reg_inv r' \<and> ar_generation_next r' = ar_generation_next r \<and> set_spec (reg_map r, g) name u rules = (c, reg_map r')"
proof (cases "apply_rules u rules")
  case None
  have "reg_map r name = Some u" using reg_map_eq [OF inv, of name u] i u by auto
  then show ?thesis using None inv by (simp add: set_spec_def fun_upd_idem)
next
  case (Some v)
  let ?r = "r\<lparr>ar_users := (ar_users r)[i := v]\<rparr>"
  have name: "au_name v = name" using apply_rules_id [OF Some] u(2) by (simp add: same_id_def)
  have il: "i < length (ar_users r)" "name \<noteq> []" using i u by (simp_all add: live_slots_def)
  have "\<forall>j \<in> live_slots r. j \<noteq> i \<longrightarrow> au_name (ar_users r ! j) \<noteq> au_name v"
    using inv i u name by (auto simp: reg_inv_def inj_on_def)
  note f = put_facts [OF inv _ _ this, of ?r]
  have "reg_inv ?r" using il by (intro f(1)) (simp_all add: put_def)
  moreover have "reg_map ?r = (reg_map r)(name \<mapsto> v)"
    using f(2) il name u by (auto simp: put_def fun_eq_iff)
  ultimately show ?thesis using Some by (simp add: set_spec_def)
qed

lemma setuser_simulated:
  assumes inv: "reg_inv r" and name: "0 \<notin> set name"
  shows "acl_simulated r (ASetUser name rules)"
proof (cases "name = [] \<or> ACL_MAX_NAME \<le> length name")
  case True
  then show ?thesis using inv by (auto simp: acl_simulated_def acl_setuser_def)
next
  case ok: False
  show ?thesis
  proof (cases "acl_find r name")
    case (Some i)
    from acl_find_SomeD [OF Some] have i: "i \<in> live_slots r" "au_name (ar_users r ! i) = name" by simp_all
    have m: "reg_map r name = Some (ar_users r ! i)" by (simp add: reg_map_def Some)
    obtain c r' where "(case apply_rules (ar_users r ! i) rules of None \<Rightarrow> (-1, r)
        | Some v \<Rightarrow> (0, r\<lparr>ar_users := (ar_users r)[i := v]\<rparr>)) = (c, r')" "reg_inv r'"
      "ar_generation_next r' = ar_generation_next r"
      "set_spec (reg_map r, ar_generation_next r) name (ar_users r ! i) rules = (c, reg_map r')"
      using rules_simulated [OF inv i(1) refl i(2), of rules "ar_generation_next r"] by auto
    then show ?thesis
      using ok Some m by (simp add: acl_simulated_def acl_setuser_def acl_abs_def)
  next
    case None
    then have m: "reg_map r name = None" by (simp add: reg_map_def)
    let ?u = "zero_user\<lparr>au_name := name, au_generation := u64_add (ar_generation_next r) 1\<rparr>"
    have "name \<noteq> []" using ok by simp
    from new_user_cases [OF inv this name None] show ?thesis
    proof (elim disjE exE conjE)
      assume "acl_new_user r name = None" "ACL_MAX_USERS \<le> card (live_slots r)"
      then show ?thesis
        using ok None m inv by (simp add: acl_simulated_def acl_setuser_def acl_abs_def card_dom)
    next
      fix i r1
      assume a: "acl_new_user r name = Some (i, r1)" "card (live_slots r) < ACL_MAX_USERS" "reg_inv r1" "ar_users r1 ! i = ?u"
        "i \<in> live_slots r1" "ar_generation_next r1 = u64_add (ar_generation_next r) 1" "reg_map r1 = (reg_map r)(name \<mapsto> ?u)"
      obtain c r' where b: "(case apply_rules ?u rules of None \<Rightarrow> (-1, r1)
          | Some v \<Rightarrow> (0, r1\<lparr>ar_users := (ar_users r1)[i := v]\<rparr>)) = (c, r')" "reg_inv r'"
        "ar_generation_next r' = ar_generation_next r1"
        "set_spec (reg_map r1, ar_generation_next r) name ?u rules = (c, reg_map r')"
        using rules_simulated [OF a(3,5,4), of name rules "ar_generation_next r"] by auto
      have "set_spec (reg_map r, ar_generation_next r) name ?u rules = (c, reg_map r')"
        using b(4) a(7) by (simp add: set_spec_def split: option.splits)
      then show ?thesis
        using ok None m a b inv by (simp add: acl_simulated_def acl_setuser_def acl_abs_def card_dom Let_def)
    qed
  qed
qed

lemma deluser_simulated:
  assumes inv: "reg_inv r"
  shows "acl_simulated r (ADelUser name)"
proof (cases "name = [] \<or> name = ascii ''default''")
  case True
  then show ?thesis using inv by (auto simp: acl_simulated_def acl_deluser_def acl_abs_def)
next
  case ok: False
  then have find: "index_of (\<lambda>u. au_name u = name) (ar_users r) = acl_find r name"
    unfolding acl_find_def by (intro arg_cong2 [of _ _ _ _ index_of]) auto
  show ?thesis
  proof (cases "acl_find r name")
    case None
    then show ?thesis using ok find inv by (simp add: acl_simulated_def acl_deluser_def acl_abs_def reg_map_def)
  next
    case (Some i)
    from acl_find_SomeD [OF Some] have i: "i \<in> live_slots r" "au_name (ar_users r ! i) = name" by simp_all
    have m: "reg_map r name = Some (ar_users r ! i)" by (simp add: reg_map_def Some)
    define u where "u = (clear_rules (ar_users r ! i))\<lparr>au_name := [], au_generation := u64_add (ar_generation_next r) 1\<rparr>"
    define r' where "r' = r\<lparr>ar_users := (ar_users r)[i := u], ar_generation_next := u64_add (ar_generation_next r) 1\<rparr>"
    have il: "i < length (ar_users r)" using i by (simp add: live_slots_def)
    have "\<forall>j \<in> live_slots r. j \<noteq> i \<longrightarrow> au_name (ar_users r ! j) \<noteq> au_name u" by (simp add: live_slots_def u_def)
    note f = put_facts [OF inv _ _ this, of r']
    have "reg_inv r'" using il by (intro f(1)) (simp_all add: put_def r'_def)
    moreover have "reg_map r' = (reg_map r)(name := None)"
      using f(2) il i by (auto simp: put_def r'_def u_def fun_eq_iff)
    ultimately show ?thesis
      using ok Some find m by (simp add: acl_simulated_def acl_deluser_def acl_abs_def Let_def r'_def u_def)
  qed
qed

lemma reg_congs:
  "ar_users r' = ar_users r \<Longrightarrow> reg_inv r' = reg_inv r" "ar_users r' = ar_users r \<Longrightarrow> reg_map r' = reg_map r"
  by (simp_all add: reg_inv_def live_slots_def reg_map_def acl_find_def fun_eq_iff)

lemma log_simulated:
  assumes "reg_inv r"
  shows "acl_simulated r (ALogEvent reason user obj now)" "acl_simulated r ALogReset"
proof -
  have "ar_users (acl_log_event r reason user obj now) = ar_users r \<and>
      ar_generation_next (acl_log_event r reason user obj now) = ar_generation_next r"
    by (simp add: acl_log_event_def Let_def)
  then show "acl_simulated r (ALogEvent reason user obj now)"
    using assms reg_congs [of "acl_log_event r reason user obj now" r] by (simp add: acl_simulated_def acl_abs_def)
  show "acl_simulated r ALogReset"
    using assms reg_congs [of "acl_log_reset r" r] by (simp add: acl_simulated_def acl_abs_def acl_log_reset_def)
qed

lemma acl_op_simulated: "reg_inv r \<Longrightarrow> acl_safe r op \<Longrightarrow> acl_simulated r op"
  using setuser_simulated deluser_simulated log_simulated
  by (cases op) (auto simp: acl_simulated_def [of _ "AAuthenticate _ _"] acl_abs_def authenticate_eq)

interpretation aclr: data_refinement reg_inv acl_abs acl_safe acl_exec acl_spec
  using acl_op_simulated by unfold_locales (simp add: acl_simulated_def)

section \<open>Runs\<close>

definition acl_default :: "bytes option \<Rightarrow> acl_user" where
  "acl_default requirepass = hd (ar_users (acl_init requirepass))"

lemma init_users: "ar_users (acl_init pw) = [acl_default pw]" "ar_generation_next (acl_init pw) = 1"
  by (simp_all add: acl_default_def acl_init_def Let_def)

lemma default_name: "au_name (acl_default pw) = ascii ''default''"
  by (simp add: acl_default_def acl_init_def Let_def split: option.split)

lemma init_inv: "reg_inv (acl_init pw)"
  by (auto simp: reg_inv_def live_slots_def init_users ACL_MAX_USERS_def inj_on_def)

lemma init_abs: "acl_abs (acl_init pw) = ([ascii ''default'' \<mapsto> acl_default pw], 1)"
  using default_name [of pw] by (auto simp: ascii_def acl_abs_def reg_map_def acl_find_def init_users fun_eq_iff)

lemma spec_keeps_default:
  "acl_spec s op = (c, s') \<Longrightarrow> ascii ''default'' \<in> dom (fst s) \<Longrightarrow> ascii ''default'' \<in> dom (fst s')"
  by (cases "(s, op)" rule: acl_spec.cases)
    (auto simp: set_spec_def Let_def split: option.splits if_splits prod.splits)

lemma runs_keep_default:
  "run_spec acl_spec s ops = (cs, s') \<Longrightarrow> ascii ''default'' \<in> dom (fst s) \<Longrightarrow> ascii ''default'' \<in> dom (fst s')"
proof (induction ops arbitrary: s cs)
  case (Cons op ops)
  then show ?case using spec_keeps_default [of s op] by (force split: prod.splits)
qed simp

lemma acl_run_safe: "(\<forall>name rules. ASetUser name rules \<in> set ops \<longrightarrow> 0 \<notin> set name) \<Longrightarrow> run_safe acl_safe acl_exec r ops"
proof (induction ops arbitrary: r)
  case (Cons op ops)
  then show ?case by (cases op) (auto split: option.splits)
qed simp

definition acl_demo :: "unit acl_op list" where
  "acl_demo =
    [ASetUser (ascii ''bob'') (map (\<lambda>s. BulkString (Some (ascii s))) [''on'', ''>pw'', ''~a*'', ''ALLCOMMANDS'']),
     AAuthenticate (ascii ''bob'') (ascii ''pw''), AAuthenticate (ascii ''bob'') (ascii ''px''),
     ADelUser (ascii ''default''), ADelUser (ascii ''bob''), AAuthenticate (ascii ''bob'') (ascii ''pw'')]"

definition acl_bob :: acl_user where
  "acl_bob = zero_user\<lparr>au_name := ascii ''bob'', au_generation := 2, au_enabled := True, au_password := ascii ''pw'',
     au_patterns := [ascii ''a*''], au_all_commands := True\<rparr>"

text \<open>
  C8: The registry of users is a map from names to users. From the initial registry, any
  sequence of \<open>ACL SETUSER\<close>, \<open>ACL DELUSER\<close>, authentications and log operations, with names
  free of zero bytes, returns what a finite map of at most 32 users and a generation counter
  return, reusing the slots of deleted users. Authentication succeeds exactly for an enabled user
  with a matching password or \<open>nopass\<close>. A failing \<open>SETUSER\<close> keeps the rules of an existing user
  but leaves a user it created, and the default user is never removed.
\<close>
theorem acl_refines_user_map:
  assumes "\<forall>name rules. ASetUser name rules \<in> set ops \<longrightarrow> 0 \<notin> set name"
  shows "\<exists>cs r'. run_ops acl_exec (acl_init requirepass) ops = Some (cs, r') \<and>
    run_spec acl_spec ([ascii ''default'' \<mapsto> acl_default requirepass], 1) ops = (cs, acl_abs r') \<and>
    length (ar_users r') \<le> ACL_MAX_USERS \<and> acl_find r' (ascii ''default'') \<noteq> None"
proof -
  obtain cs r' where r: "run_ops acl_exec (acl_init requirepass) ops = Some (cs, r')" "reg_inv r'"
    "run_spec acl_spec (acl_abs (acl_init requirepass)) ops = (cs, acl_abs r')"
    using aclr.run_refines [OF init_inv acl_run_safe [OF assms]] by blast
  have "acl_find r' (ascii ''default'') \<noteq> None"
    using runs_keep_default [OF r(3)] unfolding init_abs by (auto simp: acl_abs_def reg_map_def)
  with r show ?thesis by (simp add: init_abs reg_inv_def)
qed

theorem acl_refines_user_map_witness:
  "\<exists>r'. run_ops acl_exec (acl_init None) acl_demo =
      Some ([AInt 0, AUser (Some acl_bob), AUser None, AInt 0, AInt 1, AUser None], r') \<and>
    acl_abs r' = ([ascii ''default'' \<mapsto> acl_default None], 3)"
  using acl_refines_user_map [of acl_demo None]
  by (auto simp: ascii_def acl_demo_def acl_bob_def set_spec_def apply_rule_def eq_ci_def downcase_def cstr_def u64_add_def
      ACL_MAX_NAME_def ACL_MAX_USERS_def ACL_MAX_PATTERNS_def ACL_MAX_PATTERN_def ACL_MAX_PASSWORD_def zero_user_def Let_def)

end
