(* ===== verification/Acl_Keys.thy ===== *)
theory Acl_Keys
  imports Acl_Match
begin

text \<open>
  What an authorization guarantees: every key a command names, at the positions of its
  documented syntax, matches a pattern of the user.
\<close>

section \<open>Branches of the decision\<close>

text \<open>A command that passes is a permitted command of an enabled user.\<close>

lemma authorize_permitted: "acl_authorize u cid argv \<Longrightarrow> au_enabled u \<and> acl_permitted u cid"
  by (simp add: acl_authorize_def split: if_splits)

lemmas acl_lists = acl_channel_cmds_def acl_keyless_cmds_def acl_two_key_cmds_def acl_all_key_cmds_def

lemmas acl_branch = acl_args_ok_def acl_lists

definition acl_eval_cmds :: "nat list" where
  "acl_eval_cmds = [CMD_EVAL, CMD_EVALSHA, CMD_EVAL_RO, CMD_EVALSHA_RO, CMD_FCALL, CMD_FCALL_RO]"

definition acl_zstore_cmds :: "nat list" where
  "acl_zstore_cmds = [CMD_ZUNIONSTORE, CMD_ZINTERSTORE, CMD_ZDIFFSTORE]"

definition acl_counted_cmds :: "nat list" where
  "acl_counted_cmds =
    [CMD_LMPOP, CMD_ZMPOP, CMD_SINTERCARD, CMD_ZUNION, CMD_ZINTER, CMD_ZDIFF, CMD_ZINTERCARD]"

definition acl_blocking_pops :: "nat list" where
  "acl_blocking_pops = [CMD_BLPOP, CMD_BRPOP, CMD_BZPOPMIN, CMD_BZPOPMAX]"

text \<open>
  Commands without a key, with a key that depends on a subcommand, or whose keys the decision
  does not cover.
\<close>

definition acl_other_cmds :: "nat list" where
  "acl_other_cmds =
    acl_channel_cmds @ acl_keyless_cmds @
    [CMD_MEMORY, CMD_DEBUG, CMD_OBJECT, CMD_XINFO, CMD_MIGRATE, CMD_HIMPORT, CMD_KEYS, CMD_SCAN, CMD_RANDOMKEY,
     CMD_MULTI, CMD_EXEC, CMD_DISCARD, CMD_UNWATCH, CMD_WATCH, CMD_ACL, CMD_SFLUSH, CMD_TRIMSLOTS, CMD_PFSELFTEST,
     CMD_PFDEBUG, CMD_SINTERSTORE, CMD_SUNIONSTORE, CMD_SDIFFSTORE, CMD_SUNIONCARD, CMD_SDIFFCARD, CMD_GEOSEARCHSTORE,
     CMD_XREAD, CMD_XREADGROUP]"

definition key_count :: "'d resp_value \<Rightarrow> nat" where
  "key_count v = (case int_arg v of None \<Rightarrow> 0 | Some nk \<Rightarrow> nat nk)"

definition acl_keys :: "nat \<Rightarrow> 'd resp_value list \<Rightarrow> 'd resp_value list" where
  "acl_keys cid argv =
     (if length argv < 2 \<or> cid \<in> set acl_other_cmds then []
      else if cid \<in> set acl_two_key_cmds \<or> cid = CMD_ZRANGESTORE then args argv 1 3
      else if cid \<in> set acl_all_key_cmds \<or> cid = CMD_PFCOUNT \<or> cid = CMD_PFMERGE then tl argv
      else if cid = CMD_MSET \<or> cid = CMD_MSETNX then map (\<lambda>i. argv ! (1 + 2 * i)) [0..<(length argv - 1) div 2]
      else if cid = CMD_MSETEX then map (\<lambda>i. argv ! (2 + 2 * i)) [0..<key_count (argv ! 1)]
      else if cid \<in> set acl_zstore_cmds then argv ! 1 # args argv 3 (3 + key_count (argv ! 2))
      else if cid \<in> set acl_counted_cmds then args argv 2 (2 + key_count (argv ! 1))
      else if cid \<in> set acl_eval_cmds \<or> cid = CMD_BLMPOP \<or> cid = CMD_BZMPOP then args argv 3 (3 + key_count (argv ! 2))
      else if cid \<in> set acl_blocking_pops then args argv 1 (length argv - 1)
      else if cid = CMD_BITOP then drop 2 argv
      else if cid = CMD_XGROUP then args argv 2 3
      else [argv ! 1])"

lemmas acl_key_lists = acl_lists acl_eval_cmds_def acl_zstore_cmds_def acl_counted_cmds_def acl_blocking_pops_def

lemma counted_keys:
  assumes "counted_keys_ok u argv at" and "v \<in> set (args argv (at + 1) (at + 1 + key_count (argv ! at)))"
  shows "key_ok u v"
  using assms by (auto simp: counted_keys_ok_def key_count_def list_all_iff split: option.splits)

text \<open>The decision for each family.\<close>

lemma eval_decision: "cid \<in> set acl_eval_cmds \<Longrightarrow> acl_args_ok u cid argv = acl_eval_ok u argv"
  unfolding acl_eval_cmds_def set_simps by (elim insertE emptyE) (simp_all add: acl_branch)

lemma zstore_decision: "cid \<in> set acl_zstore_cmds \<Longrightarrow> acl_args_ok u cid argv = store_keys_ok u argv"
  unfolding acl_zstore_cmds_def set_simps by (elim insertE emptyE) (simp_all add: acl_branch acl_keyless_def)

lemma counted_decision: "cid \<in> set acl_counted_cmds \<Longrightarrow> acl_args_ok u cid argv \<Longrightarrow> counted_keys_ok u argv 1"
  unfolding acl_counted_cmds_def set_simps by (elim insertE emptyE) (simp_all add: acl_branch acl_keyless_def)

lemma blmpop_decision: "cid = CMD_BLMPOP \<or> cid = CMD_BZMPOP \<Longrightarrow> acl_args_ok u cid argv \<Longrightarrow> counted_keys_ok u argv 2"
  by (elim disjE) (simp_all add: acl_branch)

lemma pops_decision:
  "cid \<in> set acl_blocking_pops \<Longrightarrow> acl_args_ok u cid argv \<Longrightarrow> list_all (key_ok u) (args argv 1 (length argv - 1))"
  unfolding acl_blocking_pops_def set_simps by (elim insertE emptyE) (simp_all add: acl_branch acl_keyless_def)

lemma two_key_decision: "cid \<in> set acl_two_key_cmds \<Longrightarrow> acl_args_ok u cid argv = acl_plain_keys_ok u cid argv"
  unfolding acl_two_key_cmds_def set_simps by (elim insertE emptyE) (simp_all add: acl_branch acl_keyless_def)

lemma all_key_decision: "cid \<in> set acl_all_key_cmds \<Longrightarrow> acl_args_ok u cid argv = acl_plain_keys_ok u cid argv"
  unfolding acl_all_key_cmds_def set_simps by (elim insertE emptyE) (simp_all add: acl_branch acl_keyless_def)

lemma mset_decision: "cid = CMD_MSET \<or> cid = CMD_MSETNX \<Longrightarrow> acl_args_ok u cid argv = acl_plain_keys_ok u cid argv"
  by (elim disjE) (simp_all add: acl_branch acl_keyless_def)

lemma single_decisions:
  shows "acl_args_ok u CMD_ZRANGESTORE argv \<Longrightarrow> list_all (key_ok u) (args argv 1 3)"
    and "acl_args_ok u CMD_MSETEX argv = acl_msetex_ok u argv"
    and "acl_args_ok u CMD_PFCOUNT argv \<Longrightarrow> list_all (key_ok u) (tl argv)"
    and "acl_args_ok u CMD_PFMERGE argv \<Longrightarrow> list_all (key_ok u) (tl argv)"
    and "acl_args_ok u CMD_BITOP argv \<Longrightarrow> list_all (key_ok u) (drop 2 argv)"
    and "acl_args_ok u CMD_XGROUP argv \<Longrightarrow> 3 \<le> length argv \<and> key_ok u (argv ! 2)"
    and "acl_args_ok u CMD_GEOSEARCHSTORE argv = acl_geosearchstore_ok u argv"
  by (simp_all add: acl_branch acl_keyless_def)

lemma default_decision:
  assumes ok: "acl_args_ok u cid argv" and len: "2 \<le> length argv" and other: "cid \<notin> set acl_other_cmds"
    and "cid \<notin> set acl_eval_cmds" "cid \<notin> set acl_zstore_cmds" "cid \<notin> set acl_counted_cmds" "cid \<notin> set acl_blocking_pops"
    and "cid \<notin> set acl_two_key_cmds" "cid \<notin> set acl_all_key_cmds"
    and "cid \<notin> set [CMD_ZRANGESTORE, CMD_PFCOUNT, CMD_PFMERGE, CMD_MSET, CMD_MSETNX, CMD_MSETEX, CMD_BLMPOP, CMD_BZMPOP,
      CMD_BITOP, CMD_XGROUP]"
  shows "key_ok u (argv ! 1)"
proof -
  have keyless: "\<not> acl_keyless cid argv" and first: "acl_first_key cid argv = 1" and ch: "cid \<notin> set acl_channel_cmds"
    and ps: "cid \<noteq> CMD_PUBSUB"
    using other by (simp_all add: acl_other_cmds_def acl_keyless_def acl_first_key_def acl_keyless_cmds_def)
  have "acl_args_ok u cid argv =
      (if cid \<in> set [CMD_SORT, CMD_SORT_RO] then acl_sort_ok u cid argv
       else if cid \<in> set [CMD_GEORADIUS, CMD_GEORADIUSBYMEMBER] then acl_georadius_ok u argv
       else acl_plain_keys_ok u cid argv)"
    using keyless ch ps assms(3-10)
    by (simp add: acl_args_ok_def acl_other_cmds_def acl_eval_cmds_def acl_zstore_cmds_def acl_counted_cmds_def
        acl_blocking_pops_def)
  moreover have "acl_plain_keys_ok u cid argv \<longleftrightarrow> au_patterns u \<noteq> [] \<and> key_ok u (argv ! 1)"
    using first assms(8-10) len by (simp add: acl_plain_keys_ok_def Let_def)
  ultimately show ?thesis using ok by (simp add: acl_sort_ok_def acl_georadius_ok_def split: if_splits)
qed

section \<open>Keys\<close>

lemma eval_keys:
  assumes "acl_eval_ok u argv" and "v \<in> set (args argv 3 (3 + key_count (argv ! 2)))"
  shows "key_ok u v"
  using assms by (auto simp: acl_eval_ok_def key_count_def list_all_iff args_def split: option.splits if_splits)

lemma store_keys:
  assumes "store_keys_ok u argv" and "v \<in> set (argv ! 1 # args argv 3 (3 + key_count (argv ! 2)))"
  shows "key_ok u v"
  using assms by (auto simp: store_keys_ok_def key_count_def list_all_iff split: option.splits if_splits)

lemma msetex_keys:
  assumes "acl_msetex_ok u argv" and "v \<in> set (map (\<lambda>i. argv ! (2 + 2 * i)) [0..<key_count (argv ! 1)])"
  shows "key_ok u v"
  using assms by (auto simp: acl_msetex_ok_def key_count_def list_all_iff split: option.splits if_splits)

lemma two_keys:
  assumes "acl_plain_keys_ok u cid argv" and cid: "cid \<in> set acl_two_key_cmds" and v: "v \<in> set (args argv 1 3)"
  shows "key_ok u v"
proof -
  have first: "acl_first_key cid argv = 1"
    using cid unfolding acl_two_key_cmds_def set_simps by (elim insertE emptyE) (simp_all add: acl_first_key_def)
  from v obtain j where j: "j < 2" "1 + j < length argv" "v = argv ! (1 + j)"
    by (auto simp: args_def in_set_conv_nth less_diff_conv)
  with assms(1) cid show ?thesis
    by (auto simp: acl_plain_keys_ok_def first Let_def list_all_iff split: if_splits)
qed

lemma all_keys:
  assumes "acl_plain_keys_ok u cid argv" and cid: "cid \<in> set acl_all_key_cmds" and v: "v \<in> set (tl argv)"
  shows "key_ok u v"
proof -
  have first: "acl_first_key cid argv = 1" and two: "cid \<notin> set acl_two_key_cmds"
    using cid unfolding acl_all_key_cmds_def set_simps
    by (elim insertE emptyE; simp add: acl_first_key_def acl_two_key_cmds_def)+
  from v obtain j where j: "j < length argv - 1" "v = argv ! (1 + j)"
    by (auto simp: in_set_conv_nth nth_tl)
  with assms(1) cid two show ?thesis
    by (auto simp: acl_plain_keys_ok_def first Let_def list_all_iff split: if_splits)
qed

lemma mset_keys:
  assumes "acl_plain_keys_ok u cid argv" and cid: "cid = CMD_MSET \<or> cid = CMD_MSETNX"
    and v: "v \<in> set (map (\<lambda>i. argv ! (1 + 2 * i)) [0..<(length argv - 1) div 2])"
  shows "key_ok u v"
proof -
  have first: "acl_first_key cid argv = 1" and two: "cid \<notin> set acl_two_key_cmds" "cid \<notin> set acl_all_key_cmds"
    using cid by (elim disjE; simp add: acl_first_key_def acl_two_key_cmds_def acl_all_key_cmds_def)+
  from v obtain j where j: "j < (length argv - 1) div 2" "v = argv ! (1 + 2 * j)" by auto
  have "1 + j * 2 < length argv" using j(1) by linarith
  with j assms(1) cid two show ?thesis
    by (auto simp: acl_plain_keys_ok_def first Let_def list_all_iff mult.commute split: if_splits)
qed

lemma two_all: "cid \<in> set acl_all_key_cmds \<Longrightarrow> cid \<notin> set acl_two_key_cmds"
  unfolding acl_all_key_cmds_def set_simps by (elim insertE emptyE) (simp_all add: acl_two_key_cmds_def)

lemmas acl_keys_at = acl_keys_def acl_other_cmds_def acl_key_lists

lemma family_values:
  assumes len: "2 \<le> length argv"
  shows "cid \<in> set acl_zstore_cmds \<Longrightarrow> acl_keys cid argv = argv ! 1 # args argv 3 (3 + key_count (argv ! 2))"
    and "cid \<in> set acl_counted_cmds \<Longrightarrow> acl_keys cid argv = args argv 2 (2 + key_count (argv ! 1))"
    and "cid \<in> set acl_eval_cmds \<Longrightarrow> acl_keys cid argv = args argv 3 (3 + key_count (argv ! 2))"
    and "cid \<in> set acl_blocking_pops \<Longrightarrow> acl_keys cid argv = args argv 1 (length argv - 1)"
proof -
  show "cid \<in> set acl_zstore_cmds \<Longrightarrow> acl_keys cid argv = argv ! 1 # args argv 3 (3 + key_count (argv ! 2))"
    unfolding acl_zstore_cmds_def set_simps using len by (elim insertE emptyE) (simp_all add: acl_keys_at)
  show "cid \<in> set acl_counted_cmds \<Longrightarrow> acl_keys cid argv = args argv 2 (2 + key_count (argv ! 1))"
    unfolding acl_counted_cmds_def set_simps using len by (elim insertE emptyE) (simp_all add: acl_keys_at)
  show "cid \<in> set acl_eval_cmds \<Longrightarrow> acl_keys cid argv = args argv 3 (3 + key_count (argv ! 2))"
    unfolding acl_eval_cmds_def set_simps using len by (elim insertE emptyE) (simp_all add: acl_keys_at)
  show "cid \<in> set acl_blocking_pops \<Longrightarrow> acl_keys cid argv = args argv 1 (length argv - 1)"
    unfolding acl_blocking_pops_def set_simps using len by (elim insertE emptyE) (simp_all add: acl_keys_at)
qed

lemma family_keys:
  assumes "2 \<le> length argv" and "acl_args_ok u cid argv" and "v \<in> set (acl_keys cid argv)"
  shows "cid \<in> set acl_zstore_cmds \<Longrightarrow> key_ok u v"
    and "cid \<in> set acl_counted_cmds \<Longrightarrow> key_ok u v"
    and "cid \<in> set acl_eval_cmds \<Longrightarrow> key_ok u v"
    and "cid \<in> set acl_blocking_pops \<Longrightarrow> key_ok u v"
proof -
  note vals = family_values [OF assms(1)]
  show "cid \<in> set acl_zstore_cmds \<Longrightarrow> key_ok u v"
    using assms store_keys [of u argv v] by (simp only: vals(1) zstore_decision)
  show "cid \<in> set acl_counted_cmds \<Longrightarrow> key_ok u v"
    using assms counted_decision [of cid u argv] counted_keys [of u argv 1 v] by (simp only: vals(2) one_add_one simp_thms)
  show "cid \<in> set acl_eval_cmds \<Longrightarrow> key_ok u v"
    using assms eval_keys [of u argv v] by (simp only: vals(3) eval_decision)
  show "cid \<in> set acl_blocking_pops \<Longrightarrow> key_ok u v"
    using assms pops_decision [of cid u argv] by (simp only: vals(4) list_all_iff)
qed

lemma single_values:
  assumes len: "2 \<le> length argv"
  shows "acl_keys CMD_ZRANGESTORE argv = args argv 1 3"
    and "acl_keys CMD_PFCOUNT argv = tl argv"
    and "acl_keys CMD_PFMERGE argv = tl argv"
    and "acl_keys CMD_MSET argv = map (\<lambda>i. argv ! (1 + 2 * i)) [0..<(length argv - 1) div 2]"
    and "acl_keys CMD_MSETNX argv = map (\<lambda>i. argv ! (1 + 2 * i)) [0..<(length argv - 1) div 2]"
    and "acl_keys CMD_MSETEX argv = map (\<lambda>i. argv ! (2 + 2 * i)) [0..<key_count (argv ! 1)]"
    and "acl_keys CMD_BLMPOP argv = args argv 3 (3 + key_count (argv ! 2))"
    and "acl_keys CMD_BZMPOP argv = args argv 3 (3 + key_count (argv ! 2))"
    and "acl_keys CMD_BITOP argv = drop 2 argv"
    and "acl_keys CMD_XGROUP argv = args argv 2 3"
  using len by (simp_all add: acl_keys_at)

lemma single_keys:
  assumes cid: "cid \<in> set [CMD_ZRANGESTORE, CMD_PFCOUNT, CMD_PFMERGE, CMD_MSET, CMD_MSETNX, CMD_MSETEX, CMD_BLMPOP,
      CMD_BZMPOP, CMD_BITOP, CMD_XGROUP]"
    and len: "2 \<le> length argv" and ok: "acl_args_ok u cid argv" and v: "v \<in> set (acl_keys cid argv)"
  shows "key_ok u v"
proof -
  note vals = single_values [OF len]
  have x: "v = argv ! 2" if "v \<in> set (args argv 2 3)" using that by (auto simp: args_def in_set_conv_nth)
  show ?thesis
    using cid unfolding set_simps
  proof (elim insertE emptyE)
    assume "cid = CMD_XGROUP"
    with ok v x show ?thesis using single_decisions(6) [of u argv] by (simp only: vals)
  next
    assume "cid = CMD_BITOP"
    with ok v show ?thesis using single_decisions(5) [of u argv] by (simp only: vals list_all_iff)
  next
    assume c: "cid = CMD_BZMPOP"
    from ok have "counted_keys_ok u argv 2" by (intro blmpop_decision [of cid]) (simp_all only: c simp_thms)
    with v show ?thesis using counted_keys [of u argv 2 v] by (simp add: c vals)
  next
    assume c: "cid = CMD_BLMPOP"
    from ok have "counted_keys_ok u argv 2" by (intro blmpop_decision [of cid]) (simp_all only: c simp_thms)
    with v show ?thesis using counted_keys [of u argv 2 v] by (simp add: c vals)
  next
    assume c: "cid = CMD_MSETEX"
    with ok v show ?thesis using msetex_keys [of u argv v] by (simp only: vals single_decisions)
  next
    assume c: "cid = CMD_MSETNX"
    with ok v show ?thesis using mset_keys [of u cid argv v] mset_decision [of cid u argv] by (simp only: vals simp_thms)
  next
    assume c: "cid = CMD_MSET"
    with ok v show ?thesis using mset_keys [of u cid argv v] mset_decision [of cid u argv] by (simp only: vals simp_thms)
  next
    assume c: "cid = CMD_PFMERGE"
    with ok v show ?thesis using single_decisions(4) [of u argv] by (simp only: vals list_all_iff)
  next
    assume c: "cid = CMD_PFCOUNT"
    with ok v show ?thesis using single_decisions(3) [of u argv] by (simp only: vals list_all_iff)
  next
    assume c: "cid = CMD_ZRANGESTORE"
    with ok v show ?thesis using single_decisions(1) [of u argv] by (simp only: vals list_all_iff)
  qed
qed

lemma keys_checked:
  assumes ok: "acl_authorize u cid argv" and v: "v \<in> set (acl_keys cid argv)"
  shows "key_ok u v"
proof -
  have len: "2 \<le> length argv" and other: "cid \<notin> set acl_other_cmds"
    using v by (auto simp: acl_keys_def split: if_splits)
  have args: "acl_args_ok u cid argv" using ok len by (simp add: acl_authorize_def split: if_splits)
  show ?thesis
  proof (cases "cid \<in> set [CMD_ZRANGESTORE, CMD_PFCOUNT, CMD_PFMERGE, CMD_MSET, CMD_MSETNX, CMD_MSETEX, CMD_BLMPOP, CMD_BZMPOP,
      CMD_BITOP, CMD_XGROUP]")
    case True
    then show ?thesis using single_keys [OF _ len args v] by blast
  next
    case single: False
    consider "cid \<in> set acl_two_key_cmds" | "cid \<in> set acl_all_key_cmds" | "cid \<in> set acl_zstore_cmds"
      | "cid \<in> set acl_counted_cmds" | "cid \<in> set acl_eval_cmds" | "cid \<in> set acl_blocking_pops"
      | "cid \<notin> set acl_two_key_cmds" "cid \<notin> set acl_all_key_cmds" "cid \<notin> set acl_zstore_cmds" "cid \<notin> set acl_counted_cmds"
        "cid \<notin> set acl_eval_cmds" "cid \<notin> set acl_blocking_pops" by blast
    then show ?thesis
    proof cases
      case 1
      then show ?thesis using v args len other two_keys by (simp add: acl_keys_def two_key_decision)
    next
      case 2
      have "acl_keys cid argv = tl argv" using 2 two_all [OF 2] single other len by (simp add: acl_keys_def)
      then show ?thesis using v args all_keys [OF _ 2] by (simp add: all_key_decision [OF 2])
    next
      case 3
      show ?thesis by (rule family_keys(1) [OF len args v 3])
    next
      case 4
      show ?thesis by (rule family_keys(2) [OF len args v 4])
    next
      case 5
      show ?thesis by (rule family_keys(3) [OF len args v 5])
    next
      case 6
      show ?thesis by (rule family_keys(4) [OF len args v 6])
    next
      case 7
      have "acl_keys cid argv = [argv ! 1]" using 7 single other len by (simp add: acl_keys_def)
      moreover have "key_ok u (argv ! 1)" using default_decision [OF args len other] 7 single by blast
      ultimately show ?thesis using v by simp
    qed
  qed
qed

definition bulk_of :: "string \<Rightarrow> unit resp_value" where
  "bulk_of s = BulkString (Some (ascii s))"

definition app_user :: acl_user where
  "app_user = zero_user\<lparr>au_name := ascii ''app'', au_enabled := True, au_all_commands := True,
     au_patterns := [ascii ''a:*'', ascii ''b:?'']\<rparr>"

lemma app_user_allows: "CMD_STATS_SLOTS > cid \<Longrightarrow> cid < 512 \<Longrightarrow> acl_permitted app_user cid"
  by (simp add: acl_permitted_def app_user_def zero_user_def no_bits_def has_bit_def CMD_STATS_SLOTS_def)



text \<open>
  C36: The test of the destination of \<open>GEOSEARCHSTORE\<close> is inverted. A user with one key pattern may run
  the command exactly when the source matches the pattern and the destination does not: a user
  confined to its keys may overwrite the keys of all others, and not its own.
\<close>
theorem acl_geosearchstore_inverted:
  assumes "au_patterns u = [p]" and "bulk dest = Some d" and "bulk src = Some s"
  shows "acl_authorize u CMD_GEOSEARCHSTORE (c # dest # src # rest) \<longleftrightarrow>
    au_enabled u \<and> acl_permitted u CMD_GEOSEARCHSTORE \<and> acl_match_pattern p s = Some True \<and>
    acl_match_pattern p d = Some False"
proof -
  obtain b where "acl_match_pattern p d = Some b" using match_ends by blast
  then show ?thesis
    using assms single_decisions(7) [of u "c # dest # src # rest"]
    by (auto simp: acl_authorize_def acl_geosearchstore_ok_def any_pattern_def pattern_ok_def CMD_STATS_SLOTS_def)
qed

theorem acl_geosearchstore_inverted_witness:
  "let u = app_user\<lparr>au_patterns := [ascii ''a:*'']\<rparr>; cmd = ''GEOSEARCHSTORE''
   in acl_authorize u CMD_GEOSEARCHSTORE (map bulk_of [cmd, ''other'', ''a:x'']) \<and>
      \<not> acl_authorize u CMD_GEOSEARCHSTORE (map bulk_of [cmd, ''a:y'', ''a:x''])"
proof -
  let ?u = "app_user\<lparr>au_patterns := [ascii ''a:*'']\<rparr>"
  have "acl_authorize ?u CMD_GEOSEARCHSTORE (bulk_of c # bulk_of d # bulk_of s # []) \<longleftrightarrow>
      acl_match_pattern (ascii ''a:*'') (ascii s) = Some True \<and> acl_match_pattern (ascii ''a:*'') (ascii d) = Some False"
    for c d s
    using acl_geosearchstore_inverted [of ?u "ascii ''a:*''" "bulk_of d" "ascii d" "bulk_of s" "ascii s" "bulk_of c" "[]"]
    by (simp add: bulk_of_def app_user_def zero_user_def acl_permitted_def no_bits_def has_bit_def CMD_STATS_SLOTS_def
        )
  then show ?thesis by (simp add: match_decides ascii_def)
qed

lemma set_bits_deny:
  "au_deny (foldl (\<lambda>u i. if f i then set_bit_in True i u else u) u is) = au_deny u"
  by (induction "is" arbitrary: u) (simp_all add: set_bit_in_def)

lemma plus_keeps_deny:
  assumes "apply_rule u (43 # cs) = Some v" and "\<not> eq_ci cs ''@all''"
  shows "au_deny v = au_deny u"
proof -
  have "set_cmd u (43 # cs) True = Some v" "cs \<noteq> []"
    using assms(1) by (auto simp: apply_rule_def eq_ci_def downcase_def Let_def split: if_splits)
  then show ?thesis
    using assms(2) set_bits_deny [of _ u]
    by (auto simp: set_cmd_def signed_rule_def eq_ci_def set_bit_in_def Let_def neq_Nil_conv split: if_splits)
qed

text \<open>
  C37: A denied command cannot be granted again by name. After a rule \<open>-cmd\<close>, no rule \<open>+cmd\<close> or
  \<open>+@category\<close> other than \<open>+@all\<close> lifts the denial: the user stays unable to run the command.
\<close>
theorem acl_plus_keeps_denial:
  assumes "has_bit (au_deny u) cid" and "apply_rule u (43 # cs) = Some v" and "\<not> eq_ci cs ''@all''"
  shows "\<not> acl_authorize v cid argv"
  using assms(1) plus_keeps_deny [OF assms(2,3)] by (simp add: acl_authorize_def acl_permitted_def)

theorem acl_plus_keeps_denial_witness:
  "\<exists>u v. apply_rules app_user (map bulk_of [''-get'']) = Some u \<and> apply_rules u (map bulk_of [''+get'']) = Some v \<and>
    \<not> acl_authorize v CMD_GET (map bulk_of [''GET'', ''a:x''])"
proof -
  have get: "resolved (ascii ''get'') = CMD_GET"
    by (simp add: resolved_def cmd_resolve_eq find_name_def CMD_TABLE_def cmd_row_def ci_equal_def
        downcase_def upcase_def ascii_def)
  define u where "u = set_bit_in False CMD_GET app_user"
  define v where "v = set_bit_in True CMD_GET u"
  have rules: "apply_rule app_user (ascii ''-get'') = Some u" "apply_rule u (ascii ''+get'') = Some v"
    using get by (simp_all add: apply_rule_def set_cmd_def eq_ci_def signed_rule_def downcase_def ascii_def Let_def
        u_def v_def CMD_STATS_SLOTS_def CMD_ID_UNKNOWN_def)
  have "has_bit (au_deny u) CMD_GET"
    by (simp add: u_def set_bit_in_def app_user_def zero_user_def has_bit_def add_bit_def no_bits_def
        CMD_STATS_SLOTS_def)
  then have "\<not> acl_authorize v CMD_GET (map bulk_of [''GET'', ''a:x''])"
    by (rule acl_plus_keeps_denial [of _ _ "ascii ''get''"]) (use rules in \<open>simp_all add: ascii_def eq_ci_def\<close>)
  then show ?thesis using rules by (intro exI [of _ u] exI [of _ v]) (simp add: bulk_of_def)
qed

end
