(* ===== verification/Cluster.thy ===== *)
theory Cluster
  imports Resp_Numbers
begin

text \<open>
  The state a cluster node keeps of its cluster (\<open>core/cluster.c\<close>): the table of nodes, the
  bitmaps of hash slots, configuration epochs and slot claims, failure reports and the health
  of the cluster.

  A pointer to a node is its index in the table; the number of nodes is the length of the
  table. Identifiers, addresses and masters are the C strings in their character arrays, epochs
  and times 64-bit words.
\<close>

section \<open>State\<close>

definition CLUSTER_NODE_MYSELF :: u32 where "CLUSTER_NODE_MYSELF = 1"
definition CLUSTER_NODE_MASTER :: u32 where "CLUSTER_NODE_MASTER = 2"
definition CLUSTER_NODE_HANDSHAKE :: u32 where "CLUSTER_NODE_HANDSHAKE = 4"
definition CLUSTER_NODE_NOADDR :: u32 where "CLUSTER_NODE_NOADDR = 8"
definition CLUSTER_NODE_DISCONNECTED :: u32 where "CLUSTER_NODE_DISCONNECTED = 16"
definition CLUSTER_NODE_SLAVE :: u32 where "CLUSTER_NODE_SLAVE = 32"
definition CLUSTER_NODE_PFAIL :: u32 where "CLUSTER_NODE_PFAIL = 64"
definition CLUSTER_NODE_FAIL :: u32 where "CLUSTER_NODE_FAIL = 128"
definition CLUSTER_MAX_NODES :: nat where "CLUSTER_MAX_NODES = 32"

lemmas cluster_flags = CLUSTER_NODE_MYSELF_def CLUSTER_NODE_MASTER_def CLUSTER_NODE_HANDSHAKE_def
  CLUSTER_NODE_NOADDR_def CLUSTER_NODE_DISCONNECTED_def CLUSTER_NODE_SLAVE_def CLUSTER_NODE_PFAIL_def
  CLUSTER_NODE_FAIL_def

record cluster_fail_report =
  fr_reporter :: bytes
  fr_time_ms :: u64

record cluster_node =
  cn_id :: bytes
  cn_ip :: bytes
  cn_port :: u16
  cn_bus_port :: u16
  cn_flags :: u32
  cn_last_seen_ms :: u64
  cn_ping_sent_ms :: u64
  cn_epoch :: u64
  cn_master_id :: bytes
  cn_slots :: bytes
  cn_reports :: "cluster_fail_report list"
  cn_fail_time_ms :: u64

record cluster_db =
  cd_enabled :: bool
  cd_nodes :: "cluster_node list"
  cd_slot_owner_dirty :: bool
  cd_changes :: u64
  cd_current_epoch :: u64
  cd_node_timeout_ms :: u64
  cd_last_vote_epoch :: u64
  cd_failover_req_epoch :: u64
  cd_failover_ack_mask :: u32
  cd_failover_ack_count :: nat
  cd_fail_broadcast_id :: bytes
  cd_cache_valid :: bool
  cd_cache_changes :: u64
  cd_cache_signature :: u64
  cd_cache_ok :: bool
  cd_cache_covered :: nat
  cd_cache_masters :: nat
  cd_cache_reachable :: nat
  cd_cache_fail_slots :: bool

definition has_flag :: "cluster_node \<Rightarrow> u32 \<Rightarrow> bool" where
  "has_flag n f \<longleftrightarrow> cn_flags n AND f \<noteq> 0"

definition nodes_ok :: "cluster_db \<Rightarrow> bool" where
  "nodes_ok d \<longleftrightarrow> length (cd_nodes d) \<le> CLUSTER_MAX_NODES"

definition reports_ok :: "cluster_node \<Rightarrow> bool" where
  "reports_ok n \<longleftrightarrow> length (cn_reports n) \<le> CLUSTER_MAX_NODES"

definition upd_node :: "nat \<Rightarrow> (cluster_node \<Rightarrow> cluster_node) \<Rightarrow> cluster_db \<Rightarrow> cluster_db" where
  "upd_node i f d = d\<lparr>cd_nodes := (cd_nodes d)[i := f (cd_nodes d ! i)]\<rparr>"

section \<open>Node table\<close>

definition hex_char :: "byte \<Rightarrow> bool" where
  "hex_char c \<longleftrightarrow> (48 \<le> c \<and> c \<le> 57) \<or> (97 \<le> c \<and> c \<le> 102)"

definition cluster_id_valid :: "bytes \<Rightarrow> bool" where
  "cluster_id_valid ident \<longleftrightarrow> length ident = 40 \<and> list_all hex_char ident"

definition cluster_nodes_init :: "cluster_db \<Rightarrow> cluster_db" where
  "cluster_nodes_init d = d\<lparr>cd_nodes := []\<rparr>"

definition cluster_node_find :: "cluster_db \<Rightarrow> bytes \<Rightarrow> nat option" where
  "cluster_node_find d ident =
     (if \<not> nodes_ok d \<or> \<not> cluster_id_valid ident then None
      else index_of (\<lambda>n. cn_id n = ident) (cd_nodes d))"

definition cluster_node_new :: "bytes \<Rightarrow> cluster_node" where
  "cluster_node_new ident =
     \<lparr>cn_id = ident, cn_ip = [], cn_port = 0, cn_bus_port = 0, cn_flags = CLUSTER_NODE_MASTER, cn_last_seen_ms = 0,
      cn_ping_sent_ms = 0, cn_epoch = 0, cn_master_id = ascii ''-'', cn_slots = replicate 2048 0, cn_reports = [],
      cn_fail_time_ms = 0\<rparr>"

definition cluster_node_add :: "cluster_db \<Rightarrow> bytes \<Rightarrow> nat option \<times> cluster_db" where
  "cluster_node_add d ident =
     (if \<not> nodes_ok d \<or> \<not> cluster_id_valid ident then (None, d)
      else case cluster_node_find d ident of
             Some i \<Rightarrow> (Some i, d)
           | None \<Rightarrow>
               if CLUSTER_MAX_NODES \<le> length (cd_nodes d) then (None, d)
               else (Some (length (cd_nodes d)), d\<lparr>cd_nodes := cd_nodes d @ [cluster_node_new ident]\<rparr>))"

definition cluster_myself :: "cluster_db \<Rightarrow> nat option" where
  "cluster_myself d =
     (if \<not> nodes_ok d then None else index_of (\<lambda>n. has_flag n CLUSTER_NODE_MYSELF) (cd_nodes d))"

section \<open>Slot bitmaps\<close>

definition cluster_slots_set :: "bytes \<Rightarrow> nat \<Rightarrow> bool \<Rightarrow> bytes" where
  "cluster_slots_set bm slot on =
     (if 16384 \<le> slot then bm
      else if on then bm[slot div 8 := bm ! (slot div 8) OR push_bit (slot mod 8) 1]
      else bm[slot div 8 := bm ! (slot div 8) AND NOT (push_bit (slot mod 8) 1)])"

definition cluster_slots_get :: "bytes \<Rightarrow> nat \<Rightarrow> bool" where
  "cluster_slots_get bm slot \<longleftrightarrow>
     (if 16384 \<le> slot then False else drop_bit (slot mod 8) (bm ! (slot div 8)) AND 1 \<noteq> 0)"

text \<open>
  The ranges, separated by spaces. A range that does not fit the buffer of \<open>cap\<close> bytes ends the
  output before it.
\<close>

fun render_loop :: "bytes \<Rightarrow> nat \<Rightarrow> bytes \<Rightarrow> nat option \<Rightarrow> nat list \<Rightarrow> bytes" where
  "render_loop bm cap out s [] = out"
| "render_loop bm cap out s (i # is) =
     (let on = i < 16384 \<and> cluster_slots_get bm i
      in case s of
           None \<Rightarrow> render_loop bm cap out (if on then Some i else None) is
         | Some a \<Rightarrow>
             if on then render_loop bm cap out s is
             else let sep = (if out \<noteq> [] then ascii '' '' else []);
                      text = sep @ (if a = i - 1 then decimal a else decimal a @ ascii ''-'' @ decimal (i - 1))
                  in if cap - length out \<le> length text then out
                     else render_loop bm cap (out @ text) None is)"

definition cluster_slots_render :: "bytes \<Rightarrow> nat \<Rightarrow> bytes" where
  "cluster_slots_render bm cap = render_loop bm cap [] None [0..<16385]"

definition is_space :: "byte \<Rightarrow> bool" where
  "is_space c \<longleftrightarrow> c = 32 \<or> c = 9 \<or> c = 13 \<or> c = 10"

text \<open>
  One token: a slot or a range. The digits after the dash continue the number before it.
\<close>

definition slot_range :: "bytes \<Rightarrow> (nat \<times> nat) option" where
  "slot_range tok =
     (let left = takeWhile (\<lambda>c. c \<noteq> 45) tok; right = drop (length left) tok
      in if 1 < count_list tok 45 \<or> left = [] then None
         else case parse_digits UINT32_MAX left 0 of
                None \<Rightarrow> None
              | Some a \<Rightarrow>
                  if right = [] then Some (a, a)
                  else if tl right = [] then None
                  else map_option (Pair a) (parse_digits UINT32_MAX (tl right) a))"

definition set_range :: "bytes \<Rightarrow> bytes \<Rightarrow> bytes" where
  "set_range bm tok =
     (case slot_range tok of
        None \<Rightarrow> bm
      | Some (a, b) \<Rightarrow>
          if 16383 < a \<or> b < a then bm
          else foldl (\<lambda>bm s. cluster_slots_set bm s True) bm [a..<min b 16383 + 1])"

function slots_parse_loop :: "bytes \<Rightarrow> bytes \<Rightarrow> bytes" where
  "slots_parse_loop bm s =
     (let s' = dropWhile is_space s
      in if s' = [] then bm
         else slots_parse_loop (set_range bm (takeWhile (\<lambda>c. \<not> is_space c) s')) (dropWhile (\<lambda>c. \<not> is_space c) s'))"
  by pat_completeness auto
termination
proof (relation "measure (\<lambda>(bm, s). length s)", goal_cases)
  case (2 bm s s')
  then obtain c r where s': "s' = c # r" by (meson neq_Nil_conv)
  then have "\<not> is_space c" using 2 hd_dropWhile [of is_space s] by simp
  then have "length (dropWhile (\<lambda>c. \<not> is_space c) s') \<le> length r"
    using s' length_dropWhile_le [of "\<lambda>c. \<not> is_space c" r] by simp
  moreover have "length s' \<le> length s" using 2 length_dropWhile_le by simp
  ultimately show ?case using s' by simp
qed simp

declare slots_parse_loop.simps [simp del]

definition cluster_slots_parse :: "bytes \<Rightarrow> bytes" where
  "cluster_slots_parse s = slots_parse_loop (replicate 2048 0) s"

definition serves_slots :: "cluster_node \<Rightarrow> bool" where
  "serves_slots n \<longleftrightarrow> list_ex (cluster_slots_get (cn_slots n)) [0..<16384]"

section \<open>Failure reports\<close>

definition cluster_report_failure :: "nat \<Rightarrow> bytes \<Rightarrow> u64 \<Rightarrow> cluster_db \<Rightarrow> cluster_db" where
  "cluster_report_failure subject reporter now_ms d =
     (let n = cd_nodes d ! subject
      in if \<not> nodes_ok d \<or> \<not> reports_ok n \<or> \<not> cluster_id_valid reporter then d
         else case index_of (\<lambda>r. fr_reporter r = reporter) (cn_reports n) of
                Some i \<Rightarrow>
                  upd_node subject
                    (\<lambda>n. n\<lparr>cn_reports := (cn_reports n)[i := (cn_reports n ! i)\<lparr>fr_time_ms := now_ms\<rparr>]\<rparr>) d
              | None \<Rightarrow>
                  if CLUSTER_MAX_NODES \<le> length (cn_reports n) then d
                  else upd_node subject
                    (\<lambda>n. n\<lparr>cn_reports := cn_reports n @ [\<lparr>fr_reporter = reporter, fr_time_ms = now_ms\<rparr>]\<rparr>) d)"

text \<open>A report is removed by moving the last one into its place.\<close>

definition swap_remove :: "'a list \<Rightarrow> nat \<Rightarrow> 'a list" where
  "swap_remove xs i = butlast (xs[i := last xs])"

definition cluster_report_heal :: "nat \<Rightarrow> bytes \<Rightarrow> cluster_db \<Rightarrow> cluster_db" where
  "cluster_report_heal subject reporter d =
     (let n = cd_nodes d ! subject
      in if \<not> nodes_ok d \<or> \<not> reports_ok n \<or> \<not> cluster_id_valid reporter then d
         else case index_of (\<lambda>r. fr_reporter r = reporter) (cn_reports n) of
                Some i \<Rightarrow> upd_node subject (\<lambda>n. n\<lparr>cn_reports := swap_remove (cn_reports n) i\<rparr>) d
              | None \<Rightarrow> d)"

definition report_window :: "u64 \<Rightarrow> u64" where
  "report_window timeout = (if (- 1) div 2 < timeout then - 1 else timeout * 2)"

definition report_expired :: "u64 \<Rightarrow> u64 \<Rightarrow> cluster_fail_report \<Rightarrow> bool" where
  "report_expired limit now_ms r \<longleftrightarrow> fr_time_ms r \<le> now_ms \<and> limit < now_ms - fr_time_ms r"

function drop_expired :: "(cluster_fail_report \<Rightarrow> bool) \<Rightarrow> cluster_fail_report list \<Rightarrow> nat \<Rightarrow> cluster_fail_report list"
where
  "drop_expired expired rs i =
     (if i < length rs
      then if expired (rs ! i) then drop_expired expired (swap_remove rs i) i else drop_expired expired rs (i + 1)
      else rs)"
  by pat_completeness auto
termination
  by (relation "measure (\<lambda>(e, rs, i). length rs - i)") (auto simp: swap_remove_def)

declare drop_expired.simps [simp del]

definition cluster_report_count :: "nat \<Rightarrow> u64 \<Rightarrow> cluster_db \<Rightarrow> nat \<times> cluster_db" where
  "cluster_report_count subject now_ms d =
     (let n = cd_nodes d ! subject
      in if \<not> nodes_ok d \<or> \<not> reports_ok n then (0, d)
         else let rs = drop_expired (report_expired (report_window (cd_node_timeout_ms d)) now_ms) (cn_reports n) 0
              in (length rs, upd_node subject (\<lambda>n. n\<lparr>cn_reports := rs\<rparr>) d))"

definition cluster_mark_fail :: "nat \<Rightarrow> u64 \<Rightarrow> cluster_db \<Rightarrow> cluster_db" where
  "cluster_mark_fail subject now_ms d =
     (if has_flag (cd_nodes d ! subject) (CLUSTER_NODE_FAIL OR CLUSTER_NODE_MYSELF) then d
      else (upd_node subject
              (\<lambda>n. n\<lparr>cn_flags := (cn_flags n AND NOT CLUSTER_NODE_PFAIL) OR CLUSTER_NODE_FAIL, cn_fail_time_ms := now_ms\<rparr>)
              d)\<lparr>cd_changes := cd_changes d + 1\<rparr>)"

definition slot_masters :: "cluster_db \<Rightarrow> nat" where
  "slot_masters d = length (filter (\<lambda>n. has_flag n CLUSTER_NODE_MASTER \<and> serves_slots n) (cd_nodes d))"

definition cluster_mark_fail_if_quorum :: "nat \<Rightarrow> u64 \<Rightarrow> cluster_db \<Rightarrow> bool \<times> cluster_db" where
  "cluster_mark_fail_if_quorum subject now_ms d =
     (let n = cd_nodes d ! subject
      in if \<not> nodes_ok d \<or> \<not> reports_ok n then (False, d)
         else if \<not> has_flag n CLUSTER_NODE_PFAIL \<or> has_flag n CLUSTER_NODE_FAIL then (False, d)
         else
           let masters = slot_masters d;
               (failures, d') = cluster_report_count subject now_ms d;
               failures = (case cluster_myself d of
                             None \<Rightarrow> failures
                           | Some me \<Rightarrow> if has_flag (cd_nodes d ! me) CLUSTER_NODE_MASTER then failures + 1 else failures)
           in if failures < masters div 2 + 1 then (False, d')
              else (True, (cluster_mark_fail subject now_ms d')\<lparr>cd_fail_broadcast_id := cn_id n\<rparr>))"

section \<open>Epochs and slot claims\<close>

definition cluster_next_epoch :: "cluster_db \<Rightarrow> u64 \<times> cluster_db" where
  "cluster_next_epoch d = (cd_current_epoch d + 1, d\<lparr>cd_current_epoch := cd_current_epoch d + 1\<rparr>)"

definition raise_epoch :: "nat \<Rightarrow> u64 \<Rightarrow> cluster_db \<Rightarrow> cluster_db" where
  "raise_epoch i epoch d =
     (let d = (if cn_epoch (cd_nodes d ! i) < epoch then upd_node i (\<lambda>n. n\<lparr>cn_epoch := epoch\<rparr>) d else d)
      in if cd_current_epoch d < epoch then d\<lparr>cd_current_epoch := epoch\<rparr> else d)"

definition set_slot :: "nat \<Rightarrow> bool \<Rightarrow> cluster_node list \<Rightarrow> nat \<Rightarrow> cluster_node list" where
  "set_slot s on ns i = ns[i := (ns ! i)\<lparr>cn_slots := cluster_slots_set (cn_slots (ns ! i)) s on\<rparr>]"

definition adopt_slot :: "nat \<Rightarrow> bytes \<Rightarrow> cluster_node list \<Rightarrow> nat \<Rightarrow> cluster_node list" where
  "adopt_slot c bm ns s =
     (if \<not> cluster_slots_get bm s then ns
      else set_slot s True (foldl (\<lambda>ns i. if i \<noteq> c then set_slot s False ns i else ns) ns [0..<length ns]) c)"

definition slots_changed :: "cluster_db \<Rightarrow> cluster_db" where
  "slots_changed d = d\<lparr>cd_slot_owner_dirty := True, cd_changes := cd_changes d + 1\<rparr>"

definition cluster_adopt_claims :: "nat \<Rightarrow> bytes \<Rightarrow> u64 \<Rightarrow> cluster_db \<Rightarrow> cluster_db" where
  "cluster_adopt_claims c bm epoch d =
     (if \<not> nodes_ok d then d
      else let d = raise_epoch c epoch d
           in slots_changed (d\<lparr>cd_nodes := foldl (adopt_slot c bm) (cd_nodes d) [0..<16384]\<rparr>))"

definition move_slot :: "nat \<Rightarrow> nat \<Rightarrow> cluster_node list \<Rightarrow> nat \<Rightarrow> cluster_node list" where
  "move_slot from to ns s =
     (if cluster_slots_get (cn_slots (ns ! from)) s then set_slot s True (set_slot s False ns from) to else ns)"

definition cluster_failover_promote :: "cluster_db \<Rightarrow> bool \<times> cluster_db" where
  "cluster_failover_promote d =
     (if \<not> nodes_ok d then (False, d)
      else case cluster_myself d of
             None \<Rightarrow> (False, d)
           | Some me \<Rightarrow>
               if \<not> has_flag (cd_nodes d ! me) CLUSTER_NODE_SLAVE then (False, d)
               else
                 let mid = cn_master_id (cd_nodes d ! me);
                     (epoch, d) = cluster_next_epoch d;
                     d = upd_node me
                           (\<lambda>n. n\<lparr>cn_flags := (cn_flags n OR CLUSTER_NODE_MASTER) AND NOT CLUSTER_NODE_SLAVE,
                                 cn_master_id := ascii ''-'', cn_epoch := epoch\<rparr>) d;
                     ns = (case cluster_node_find d mid of
                             None \<Rightarrow> cd_nodes d
                           | Some master \<Rightarrow> foldl (move_slot master me) (cd_nodes d) [0..<16384])
                 in (True, slots_changed (d\<lparr>cd_nodes := ns\<rparr>)))"

text \<open>A claim wins against a holder with a smaller epoch, and with the same epoch by the larger identifier.\<close>

definition beats :: "cluster_node \<Rightarrow> cluster_node \<Rightarrow> bool" where
  "beats c h \<longleftrightarrow> cn_epoch h < cn_epoch c \<or> (cn_epoch c = cn_epoch h \<and> 0 < memcmp (cn_id c) (cn_id h))"

definition contest :: "nat \<Rightarrow> nat \<Rightarrow> cluster_node list \<times> bool \<Rightarrow> nat \<Rightarrow> cluster_node list \<times> bool" where
  "contest c s st i =
     (let (ns, wins) = st
      in if i = c \<or> \<not> cluster_slots_get (cn_slots (ns ! i)) s then (ns, wins)
         else if beats (ns ! c) (ns ! i) then (set_slot s False ns i, wins)
         else (ns, False))"

definition merge_slot :: "nat \<Rightarrow> bytes \<Rightarrow> cluster_node list \<Rightarrow> nat \<Rightarrow> cluster_node list" where
  "merge_slot c bm ns s =
     (let has = cluster_slots_get (cn_slots (ns ! c)) s
      in if \<not> cluster_slots_get bm s then (if has then set_slot s False ns c else ns)
         else let (ns, wins) = foldl (contest c s) (ns, True) [0..<length ns]
              in if wins then (if \<not> has then set_slot s True ns c else ns)
                 else if has then set_slot s False ns c else ns)"

definition cluster_merge_claims :: "nat \<Rightarrow> bytes \<Rightarrow> u64 \<Rightarrow> cluster_db \<Rightarrow> cluster_db" where
  "cluster_merge_claims c bm epoch d =
     (if \<not> nodes_ok d then d
      else let me = cluster_myself d; d = raise_epoch c epoch d
           in if me = Some c then d
              else slots_changed (d\<lparr>cd_nodes := foldl (merge_slot c bm) (cd_nodes d) [0..<16384]\<rparr>))"

section \<open>Health\<close>

definition sig_step :: "u64 \<Rightarrow> u64 \<Rightarrow> u64" where
  "sig_step sig v = (sig XOR v) * 1099511628211"

definition cluster_state_signature :: "cluster_db \<Rightarrow> u64" where
  "cluster_state_signature d =
     (if \<not> nodes_ok d then 0
      else sig_step
             (foldl (\<lambda>sig n. sig_step (sig_step sig (ucast (cn_flags n))) (cn_epoch n)) 1469598103934665603 (cd_nodes d))
             (of_bool (cd_slot_owner_dirty d)))"

record cluster_survey =
  sv_covered :: bytes
  sv_count :: nat
  sv_masters :: nat
  sv_reachable :: nat
  sv_fail_slots :: bool

definition survey_slot :: "cluster_node \<Rightarrow> bool \<times> cluster_survey \<Rightarrow> nat \<Rightarrow> bool \<times> cluster_survey" where
  "survey_slot n st s =
     (let (serves, v) = st
      in if \<not> cluster_slots_get (cn_slots n) s then (serves, v)
         else let v = (if has_flag n CLUSTER_NODE_FAIL then v\<lparr>sv_fail_slots := True\<rparr> else v)
              in (True,
                  if \<not> cluster_slots_get (sv_covered v) s
                  then v\<lparr>sv_covered := cluster_slots_set (sv_covered v) s True, sv_count := sv_count v + 1\<rparr> else v))"

definition survey_node :: "cluster_survey \<Rightarrow> cluster_node \<Rightarrow> cluster_survey" where
  "survey_node v n =
     (let (serves, v) = foldl (survey_slot n) (False, v) [0..<16384]
      in if has_flag n CLUSTER_NODE_MASTER \<and> serves
         then let v = v\<lparr>sv_masters := sv_masters v + 1\<rparr>
              in if \<not> has_flag n (CLUSTER_NODE_FAIL OR CLUSTER_NODE_DISCONNECTED)
                 then v\<lparr>sv_reachable := sv_reachable v + 1\<rparr> else v
         else v)"

definition cluster_survey_of :: "cluster_node list \<Rightarrow> cluster_survey" where
  "cluster_survey_of ns =
     foldl survey_node
       \<lparr>sv_covered = replicate 2048 0, sv_count = 0, sv_masters = 0, sv_reachable = 0, sv_fail_slots = False\<rparr> ns"

definition cluster_state_is_ok :: "cluster_db \<Rightarrow> bool \<times> cluster_db" where
  "cluster_state_is_ok d =
     (if \<not> nodes_ok d then (\<not> cd_enabled d, d)
      else if \<not> cd_enabled d then (True, d)
      else
        let sig = cluster_state_signature d
        in if cd_cache_valid d \<and> cd_cache_changes d = cd_changes d \<and> cd_cache_signature d = sig then (cd_cache_ok d, d)
           else
             let v = cluster_survey_of (cd_nodes d);
                 ok = sv_count v = 16384 \<and> \<not> sv_fail_slots v \<and> 0 < sv_masters v \<and>
                      sv_masters v div 2 + 1 \<le> sv_reachable v
             in (ok, d\<lparr>cd_cache_changes := cd_changes d, cd_cache_signature := sig, cd_cache_valid := True,
                      cd_cache_covered := sv_count v, cd_cache_masters := sv_masters v,
                      cd_cache_reachable := sv_reachable v, cd_cache_fail_slots := sv_fail_slots v,
                      cd_cache_ok := ok\<rparr>))"

definition cluster_state_is_minority :: "cluster_db \<Rightarrow> bool \<times> cluster_db" where
  "cluster_state_is_minority d =
     (if \<not> nodes_ok d then (False, d)
      else let d = snd (cluster_state_is_ok d)
           in (cd_enabled d \<and> cd_cache_covered d = 16384 \<and> \<not> cd_cache_fail_slots d \<and> 0 < cd_cache_masters d \<and>
               cd_cache_reachable d < cd_cache_masters d div 2 + 1, d))"

end
