(* ===== verification/Cluster_Slots.thy ===== *)
theory Cluster_Slots
  imports Cluster
begin

text \<open>
  Slot bitmaps as sets of slots, the outcome of slot claims for every slot, and the text form of
  bitmaps.
\<close>

section \<open>Bitmaps\<close>

lemma slots_get_bit: "cluster_slots_get bm s \<longleftrightarrow> s < 16384 \<and> bit (bm ! (s div 8)) (s mod 8)"
  by (auto simp: cluster_slots_get_def and_one_eq odd_iff_mod_2_eq_one [symmetric] bit_iff_odd_drop_bit)

lemma slots_set_length [simp]: "length (cluster_slots_set bm s on) = length bm"
  by (simp add: cluster_slots_set_def)

lemma bit_one_push: "k < 8 \<Longrightarrow> bit (2 ^ k :: byte) j \<longleftrightarrow> j = k"
  by (auto simp: bit_exp_iff)

lemma slots_get_set:
  assumes "length bm = 2048" and "s < 16384"
  shows "cluster_slots_get (cluster_slots_set bm s on) t = (if t = s then on else cluster_slots_get bm t)"
proof -
  have "s div 8 < length bm" using assms by (simp add: less_mult_imp_div_less)
  moreover have "t = s \<longleftrightarrow> t div 8 = s div 8 \<and> t mod 8 = s mod 8" by (metis div_mult_mod_eq)
  moreover have "j < 8 \<Longrightarrow> bit (NOT (push_bit (s mod 8) 1) :: byte) j \<longleftrightarrow> j \<noteq> s mod 8" for j
    by (auto simp: bit_not_iff bit_one_push)
  ultimately show ?thesis
    using assms(2) by (auto simp: slots_get_bit cluster_slots_set_def nth_list_update bit_or_iff bit_and_iff bit_one_push)
qed

lemma slots_get_zero [simp]: "\<not> cluster_slots_get (replicate 2048 0) s"
  by (auto simp: slots_get_bit less_mult_imp_div_less)

section \<open>Holders of slots\<close>

definition holds :: "cluster_node list \<Rightarrow> nat \<Rightarrow> nat \<Rightarrow> bool" where
  "holds ns i s \<longleftrightarrow> i < length ns \<and> cluster_slots_get (cn_slots (ns ! i)) s"

definition slots_wf :: "cluster_node list \<Rightarrow> bool" where
  "slots_wf ns \<longleftrightarrow> (\<forall>n \<in> set ns. length (cn_slots n) = 2048)"

definition unique_owner :: "cluster_node list \<Rightarrow> bool" where
  "unique_owner ns \<longleftrightarrow> (\<forall>s i j. holds ns i s \<and> holds ns j s \<longrightarrow> i = j)"

text \<open>A node without its slots: what claims leave unchanged.\<close>

definition bare :: "cluster_node \<Rightarrow> cluster_node" where
  "bare n = n\<lparr>cn_slots := []\<rparr>"

definition same_bare :: "cluster_node list \<Rightarrow> cluster_node list \<Rightarrow> bool" where
  "same_bare ns ns' \<longleftrightarrow> map bare ns' = map bare ns"

lemma same_bare_refl [simp]: "same_bare ns ns"
  by (simp add: same_bare_def)

lemma same_bare_trans: "same_bare ns ns' \<Longrightarrow> same_bare ns' ns'' \<Longrightarrow> same_bare ns ns''"
  by (simp add: same_bare_def)

lemma same_bare_length: "same_bare ns ns' \<Longrightarrow> length ns' = length ns"
  unfolding same_bare_def by (metis length_map)

lemma same_bare_nth: "same_bare ns ns' \<Longrightarrow> i < length ns \<Longrightarrow> bare (ns' ! i) = bare (ns ! i)"
  unfolding same_bare_def by (metis length_map nth_map)

lemma bare_fields:
  assumes "bare n = bare m"
  shows "cn_id n = cn_id m" "cn_epoch n = cn_epoch m" "cn_flags n = cn_flags m" "cn_master_id n = cn_master_id m"
    "cn_reports n = cn_reports m"
  using assms by (cases n; cases m; simp add: bare_def)+

lemma beats_bare: "bare c = bare c' \<Longrightarrow> bare h = bare h' \<Longrightarrow> beats c h = beats c' h'"
  by (simp add: beats_def bare_fields [of c c'] bare_fields [of h h'])

lemma holds_length: "holds ns i s \<Longrightarrow> i < length ns \<and> s < 16384"
  by (auto simp: holds_def slots_get_bit)

lemma set_slot_facts:
  assumes "slots_wf ns" and "i < length ns" and "s < 16384"
  shows "slots_wf (set_slot s on ns i)" and "same_bare ns (set_slot s on ns i)"
    and "holds (set_slot s on ns i) j t \<longleftrightarrow> (if j = i \<and> t = s then on else holds ns j t)"
proof -
  have len: "length (cn_slots (ns ! i)) = 2048" using assms by (simp add: slots_wf_def)
  show "slots_wf (set_slot s on ns i)"
    using assms len by (auto simp: slots_wf_def set_slot_def dest!: subsetD [OF set_update_subset_insert])
  show "same_bare ns (set_slot s on ns i)"
    using assms(2) by (simp add: same_bare_def set_slot_def map_update bare_def list_update_same_conv)
  show "holds (set_slot s on ns i) j t \<longleftrightarrow> (if j = i \<and> t = s then on else holds ns j t)"
    using assms(2,3) len by (auto simp: holds_def set_slot_def slots_get_set nth_list_update)
qed

section \<open>Loops over the slots\<close>

text \<open>
  The loops of \<open>cluster.c\<close> over all slots treat each slot by itself. Given the effect of one
  round on the holders of its slot, the loop has this effect on every slot, and a slot with at
  most one holder keeps at most one.
\<close>

locale slot_step =
  fixes step :: "cluster_node list \<Rightarrow> nat \<Rightarrow> cluster_node list"
    and outcome :: "cluster_node list \<Rightarrow> nat \<Rightarrow> nat \<Rightarrow> bool"
    and least :: nat
  assumes step: "slots_wf ns \<Longrightarrow> least \<le> length ns \<Longrightarrow> s < 16384 \<Longrightarrow>
      slots_wf (step ns s) \<and> same_bare ns (step ns s) \<and>
      (\<forall>i t. holds (step ns s) i t \<longleftrightarrow> (if t = s then outcome ns i s else holds ns i t))"
    and outcome_cong: "same_bare ns ns' \<Longrightarrow> least \<le> length ns \<Longrightarrow> (\<And>i. holds ns' i s \<longleftrightarrow> holds ns i s) \<Longrightarrow>
      outcome ns' i s \<longleftrightarrow> outcome ns i s"
    and outcome_small: "outcome ns i s \<Longrightarrow> s < 16384"
    and outcome_unique: "unique_owner ns \<Longrightarrow> outcome ns i s \<Longrightarrow> outcome ns j s \<Longrightarrow> i = j"
begin

lemma first_slots:
  assumes wf: "slots_wf ns" and least: "least \<le> length ns" and k: "k \<le> 16384"
  shows "slots_wf (foldl step ns [0..<k]) \<and> same_bare ns (foldl step ns [0..<k]) \<and>
    (\<forall>i t. holds (foldl step ns [0..<k]) i t \<longleftrightarrow> (if t < k then outcome ns i t else holds ns i t))"
  using k
proof (induction k)
  case 0
  then show ?case using wf by simp
next
  case (Suc k)
  let ?r = "foldl step ns [0..<k]"
  from Suc have IH: "slots_wf ?r" "same_bare ns ?r"
    "\<And>i t. holds ?r i t \<longleftrightarrow> (if t < k then outcome ns i t else holds ns i t)" by auto
  have "least \<le> length ?r" using least same_bare_length [OF IH(2)] by simp
  from step [OF IH(1) this, of k] Suc(2) have f: "slots_wf (step ?r k)" "same_bare ?r (step ?r k)"
    "\<And>i t. holds (step ?r k) i t \<longleftrightarrow> (if t = k then outcome ?r i k else holds ?r i t)" by auto
  have cong: "outcome ?r i k \<longleftrightarrow> outcome ns i k" for i
    by (rule outcome_cong [OF IH(2) least]) (simp add: IH(3))
  have "holds (step ?r k) i t \<longleftrightarrow> (if t < Suc k then outcome ns i t else holds ns i t)" for i t
    unfolding f(3) cong IH(3) by (auto simp: less_Suc_eq)
  then show ?case using f(1) same_bare_trans [OF IH(2) f(2)] by simp
qed

lemma all_slots:
  assumes "slots_wf ns" and "least \<le> length ns"
  shows "slots_wf (foldl step ns [0..<16384])" and "same_bare ns (foldl step ns [0..<16384])"
    and "holds (foldl step ns [0..<16384]) i t \<longleftrightarrow> outcome ns i t"
  using first_slots [OF assms, of 16384] outcome_small holds_length by auto

lemma all_slots_unique:
  "slots_wf ns \<Longrightarrow> least \<le> length ns \<Longrightarrow> unique_owner ns \<Longrightarrow> unique_owner (foldl step ns [0..<16384])"
  using outcome_unique by (simp add: unique_owner_def [of "foldl _ _ _"] all_slots(3)) blast

end

section \<open>Claims\<close>

lemma contest_facts:
  assumes wf: "slots_wf ns" and c: "c < length ns" and s: "s < 16384" and k: "k \<le> length ns"
  defines "r \<equiv> foldl (contest c s) (ns, True) [0..<k]"
  shows "slots_wf (fst r) \<and> same_bare ns (fst r) \<and>
    (\<forall>i t. holds (fst r) i t \<longleftrightarrow> holds ns i t \<and> \<not> (t = s \<and> i < k \<and> i \<noteq> c \<and> beats (ns ! c) (ns ! i))) \<and>
    (snd r \<longleftrightarrow> (\<forall>i < k. i \<noteq> c \<and> holds ns i s \<longrightarrow> beats (ns ! c) (ns ! i)))"
  using k unfolding r_def
proof (induction k)
  case 0
  then show ?case using wf by simp
next
  case (Suc k)
  obtain ns' w where r: "foldl (contest c s) (ns, True) [0..<k] = (ns', w)" by fastforce
  with Suc have IH: "slots_wf ns'" "same_bare ns ns'"
    "\<And>i t. holds ns' i t \<longleftrightarrow> holds ns i t \<and> \<not> (t = s \<and> i < k \<and> i \<noteq> c \<and> beats (ns ! c) (ns ! i))"
    "w \<longleftrightarrow> (\<forall>i < k. i \<noteq> c \<and> holds ns i s \<longrightarrow> beats (ns ! c) (ns ! i))"
    by auto
  have len: "length ns' = length ns" using IH(2) by (rule same_bare_length)
  have k: "k < length ns'" using Suc len by simp
  have hk: "cluster_slots_get (cn_slots (ns' ! k)) s \<longleftrightarrow> holds ns k s"
    using k IH(3) [of k s] by (simp add: holds_def)
  have b: "beats (ns' ! c) (ns' ! k) = beats (ns ! c) (ns ! k)"
    using same_bare_nth [OF IH(2)] c k len by (intro beats_bare) auto
  note f = set_slot_facts [OF IH(1) k s, of False]
  show ?case
  proof (cases "k = c \<or> \<not> holds ns k s")
    case True
    then have "foldl (contest c s) (ns, True) [0..<Suc k] = (ns', w)" using r hk by (simp add: contest_def)
    then show ?thesis using IH True by (auto simp: less_Suc_eq)
  next
    case False
    show ?thesis
    proof (cases "beats (ns ! c) (ns ! k)")
      case True
      then have "foldl (contest c s) (ns, True) [0..<Suc k] = (set_slot s False ns' k, w)"
        using r hk b False by (simp add: contest_def)
      moreover have "same_bare ns (set_slot s False ns' k)" using same_bare_trans [OF IH(2) f(2)] .
      ultimately show ?thesis using f(1,3) IH(3,4) True False by (auto simp: less_Suc_eq)
    next
      case nb: False
      then have "foldl (contest c s) (ns, True) [0..<Suc k] = (ns', False)"
        using r hk b False by (simp add: contest_def)
      then show ?thesis using IH nb False by (auto simp: less_Suc_eq)
    qed
  qed
qed

text \<open>Who holds slot \<open>s\<close> after the claim of \<open>c\<close>.\<close>

definition claim_won :: "cluster_node list \<Rightarrow> nat \<Rightarrow> nat \<Rightarrow> bool" where
  "claim_won ns c s \<longleftrightarrow> (\<forall>i. i \<noteq> c \<and> holds ns i s \<longrightarrow> beats (ns ! c) (ns ! i))"

definition after_claim :: "cluster_node list \<Rightarrow> nat \<Rightarrow> bytes \<Rightarrow> nat \<Rightarrow> nat \<Rightarrow> bool" where
  "after_claim ns c bm i s \<longleftrightarrow>
     (if i = c then cluster_slots_get bm s \<and> claim_won ns c s
      else holds ns i s \<and> \<not> (cluster_slots_get bm s \<and> beats (ns ! c) (ns ! i)))"

lemma merge_slot_facts:
  assumes wf: "slots_wf ns" and c: "c < length ns" and s: "s < 16384"
  shows "slots_wf (merge_slot c bm ns s)" and "same_bare ns (merge_slot c bm ns s)"
    and "holds (merge_slot c bm ns s) i t \<longleftrightarrow> (if t = s then after_claim ns c bm i s else holds ns i t)"
proof -
  let ?m = "merge_slot c bm ns s"
  have has: "cluster_slots_get (cn_slots (ns ! c)) s \<longleftrightarrow> holds ns c s" using c by (simp add: holds_def)
  have "slots_wf ?m \<and> same_bare ns ?m \<and>
      (\<forall>i t. holds ?m i t \<longleftrightarrow> (if t = s then after_claim ns c bm i s else holds ns i t))"
  proof (cases "cluster_slots_get bm s")
    case False
    then have m: "?m = (if holds ns c s then set_slot s False ns c else ns)"
      using has by (simp add: merge_slot_def)
    show ?thesis
      using set_slot_facts [OF wf c s, of False] wf False unfolding m by (auto simp: after_claim_def)
  next
    case True
    obtain ns' w where r: "foldl (contest c s) (ns, True) [0..<length ns] = (ns', w)" by fastforce
    with contest_facts [OF wf c s, of "length ns"] have f: "slots_wf ns'" "same_bare ns ns'"
      "\<And>i t. holds ns' i t \<longleftrightarrow> holds ns i t \<and> \<not> (t = s \<and> i < length ns \<and> i \<noteq> c \<and> beats (ns ! c) (ns ! i))"
      "w \<longleftrightarrow> (\<forall>i < length ns. i \<noteq> c \<and> holds ns i s \<longrightarrow> beats (ns ! c) (ns ! i))"
      by auto
    have w: "w \<longleftrightarrow> claim_won ns c s" unfolding f(4) claim_won_def using holds_length by blast
    have c': "c < length ns'" using c same_bare_length [OF f(2)] by simp
    have m: "?m = (if w then (if \<not> holds ns c s then set_slot s True ns' c else ns')
        else if holds ns c s then set_slot s False ns' c else ns')"
      using True has r by (simp add: merge_slot_def)
    note g = set_slot_facts [OF f(1) c' s]
    have sb: "same_bare ns (set_slot s on ns' c)" for on using same_bare_trans [OF f(2) g(2)] .
    show ?thesis unfolding m using f g sb True w
      by (auto simp: after_claim_def dest: holds_length)
  qed
  then show "slots_wf ?m" "same_bare ns ?m" "holds ?m i t \<longleftrightarrow> (if t = s then after_claim ns c bm i s else holds ns i t)"
    by blast+
qed

lemma after_claim_cong:
  assumes "same_bare ns ns'" and "\<And>i. holds ns' i s \<longleftrightarrow> holds ns i s" and "c < length ns"
  shows "after_claim ns' c bm i s \<longleftrightarrow> after_claim ns c bm i s"
proof -
  have "beats (ns' ! c) (ns' ! i) = beats (ns ! c) (ns ! i)" if "holds ns i s" for i
    using same_bare_nth [OF assms(1)] assms(3) holds_length [OF that] by (intro beats_bare) auto
  then show ?thesis using assms(2) by (auto simp: after_claim_def claim_won_def)
qed

interpretation claims: slot_step "merge_slot c bm" "\<lambda>ns i s. after_claim ns c bm i s" "Suc c" for c bm
proof (unfold_locales, goal_cases)
  case (1 ns s)
  then show ?case using merge_slot_facts [of ns c s bm] by simp
next
  case (2 ns ns' s i)
  then show ?case using after_claim_cong [of ns ns' s c bm i] by simp
next
  case (3 ns i s)
  then show ?case by (auto simp: after_claim_def slots_get_bit dest: holds_length split: if_splits)
next
  case (4 ns i s j)
  then show ?case unfolding after_claim_def claim_won_def unique_owner_def by (metis (full_types))
qed

text \<open>Adoption takes every claimed slot.\<close>

lemma clear_others:
  assumes wf: "slots_wf ns" and s: "s < 16384" and k: "k \<le> length ns"
  shows "slots_wf (foldl (\<lambda>ns i. if i \<noteq> c then set_slot s False ns i else ns) ns [0..<k]) \<and>
    same_bare ns (foldl (\<lambda>ns i. if i \<noteq> c then set_slot s False ns i else ns) ns [0..<k]) \<and>
    (\<forall>i t. holds (foldl (\<lambda>ns i. if i \<noteq> c then set_slot s False ns i else ns) ns [0..<k]) i t \<longleftrightarrow>
      holds ns i t \<and> \<not> (t = s \<and> i < k \<and> i \<noteq> c))"
  using k
proof (induction k)
  case 0
  then show ?case using wf by simp
next
  case (Suc k)
  let ?r = "foldl (\<lambda>ns i. if i \<noteq> c then set_slot s False ns i else ns) ns [0..<k]"
  from Suc have IH: "slots_wf ?r" "same_bare ns ?r" "\<And>i t. holds ?r i t \<longleftrightarrow> holds ns i t \<and> \<not> (t = s \<and> i < k \<and> i \<noteq> c)"
    by auto
  have "k < length ?r" using Suc same_bare_length [OF IH(2)] by simp
  note f = set_slot_facts [OF IH(1) this s, of False]
  show ?case
    using IH f same_bare_trans [OF IH(2) f(2)] by (auto simp: less_Suc_eq)
qed

definition after_adopt :: "nat \<Rightarrow> bytes \<Rightarrow> cluster_node list \<Rightarrow> nat \<Rightarrow> nat \<Rightarrow> bool" where
  "after_adopt c bm ns i s \<longleftrightarrow> (if cluster_slots_get bm s then i = c else holds ns i s)"

lemma adopt_slot_facts:
  assumes wf: "slots_wf ns" and c: "c < length ns" and s: "s < 16384"
  shows "slots_wf (adopt_slot c bm ns s) \<and> same_bare ns (adopt_slot c bm ns s) \<and>
    (\<forall>i t. holds (adopt_slot c bm ns s) i t \<longleftrightarrow> (if t = s then after_adopt c bm ns i s else holds ns i t))"
proof (cases "cluster_slots_get bm s")
  case False
  then show ?thesis using wf by (simp add: adopt_slot_def after_adopt_def)
next
  case True
  let ?r = "foldl (\<lambda>ns i. if i \<noteq> c then set_slot s False ns i else ns) ns [0..<length ns]"
  from clear_others [OF wf s, of "length ns" c] have r: "slots_wf ?r" "same_bare ns ?r"
    "\<And>i t. holds ?r i t \<longleftrightarrow> holds ns i t \<and> \<not> (t = s \<and> i < length ns \<and> i \<noteq> c)" by auto
  have "c < length ?r" using c same_bare_length [OF r(2)] by simp
  note f = set_slot_facts [OF r(1) this s, of True]
  show ?thesis
    using True f r(3) same_bare_trans [OF r(2) f(2)] holds_length [of ns]
    by (auto simp: adopt_slot_def after_adopt_def)
qed

interpretation adoption: slot_step "adopt_slot c bm" "after_adopt c bm" "Suc c" for c bm
proof (unfold_locales, goal_cases)
  case (1 ns s)
  then show ?case using adopt_slot_facts [of ns c s bm] by simp
next
  case (3 ns i s)
  then show ?case by (auto simp: after_adopt_def slots_get_bit dest: holds_length split: if_splits)
next
  case (4 ns i s j)
  then show ?case unfolding after_adopt_def unique_owner_def by (metis (full_types))
qed (simp add: after_adopt_def)

text \<open>Promotion moves the slots of the old master.\<close>

definition after_move :: "nat \<Rightarrow> nat \<Rightarrow> cluster_node list \<Rightarrow> nat \<Rightarrow> nat \<Rightarrow> bool" where
  "after_move src dst ns i s \<longleftrightarrow>
     (if holds ns src s then i = dst \<or> (i \<noteq> src \<and> holds ns i s) else holds ns i s)"

lemma move_slot_facts:
  assumes wf: "slots_wf ns" and src: "src < length ns" and dst: "dst < length ns" and s: "s < 16384"
  shows "slots_wf (move_slot src dst ns s) \<and> same_bare ns (move_slot src dst ns s) \<and>
    (\<forall>i t. holds (move_slot src dst ns s) i t \<longleftrightarrow> (if t = s then after_move src dst ns i s else holds ns i t))"
proof -
  note f = set_slot_facts [OF wf src s, of False]
  have "dst < length (set_slot s False ns src)" using dst same_bare_length [OF f(2)] by simp
  note g = set_slot_facts [OF f(1) this s, of True]
  show ?thesis
    using src wf f(3) g same_bare_trans [OF f(2) g(2)]
    by (auto simp: move_slot_def after_move_def holds_def [of ns src])
qed

interpretation moves: slot_step "move_slot src dst" "after_move src dst" "Suc (max src dst)" for src dst
proof (unfold_locales, goal_cases)
  case (1 ns s)
  then show ?case using move_slot_facts [of ns src dst s] by simp
next
  case (3 ns i s)
  then show ?case by (auto simp: after_move_def dest: holds_length split: if_splits)
next
  case (4 ns i s j)
  then show ?case unfolding after_move_def unique_owner_def by (metis (full_types))
qed (simp add: after_move_def)

section \<open>Bitmaps as text\<close>

lemma parse_digits_eq:
  assumes "list_all is_digit ds" and "v * 10 ^ length ds + num_value ds \<le> bound"
  shows "parse_digits bound ds v = Some (v * 10 ^ length ds + num_value ds)"
  using assms
proof (induction ds arbitrary: v)
  case Nil
  then show ?case by (simp add: num_value_def)
next
  case (Cons c ds)
  have c: "\<not> (c < 48 \<or> 57 < c)" "unat (c - 48) = digit_val c"
    using Cons.prems(1) by (auto simp: is_digit_def digit_val_def unat_sub)
  have eq: "(v * 10 + digit_val c) * 10 ^ length ds + num_value ds = v * 10 ^ length (c # ds) + num_value (c # ds)"
    by (simp add: num_value_Cons algebra_simps)
  have "v * 10 + digit_val c \<le> (v * 10 + digit_val c) * 10 ^ length ds" by simp
  then have "v * 10 + digit_val c \<le> bound" using Cons.prems(2) eq by linarith
  then have "\<not> (bound - digit_val c) div 10 < v" by (simp add: not_less less_eq_div_iff_mult_less_eq)
  then show ?case using Cons.IH [of "v * 10 + digit_val c"] Cons.prems eq c by simp
qed

text \<open>A printed range as a token: its end is read as the digits of both numbers.\<close>

lemma slot_range_printed:
  assumes "a * 10 ^ length (decimal b) + b \<le> UINT32_MAX"
  shows "slot_range (decimal a @ 45 # decimal b) = Some (a, a * 10 ^ length (decimal b) + b)"
proof -
  have no: "45 \<notin> set (decimal n)" for n
    using decimal_digits [of n] by (auto simp: list_all_iff is_digit_def)
  have left: "takeWhile (\<lambda>c. c \<noteq> 45) (decimal a @ 45 # decimal b) = decimal a"
    using no [of a] by (subst takeWhile_append2) auto
  have count: "count_list (decimal n) 45 = 0" for n using no by (simp add: count_notin)
  have "a \<le> a * 10 ^ length (decimal b)" by simp
  then have "a \<le> UINT32_MAX" using assms by linarith
  then have "parse_digits UINT32_MAX (decimal a) 0 = Some a"
    using parse_digits_eq [of "decimal a" 0] decimal_digits by (simp add: decimal_value)
  moreover have "parse_digits UINT32_MAX (decimal b) a = Some (a * 10 ^ length (decimal b) + b)"
    using parse_digits_eq [of "decimal b" a] decimal_digits assms by (simp add: decimal_value)
  moreover have "decimal n \<noteq> []" for n by (simp add: decimal.simps [of n])
  ultimately show ?thesis by (simp add: slot_range_def left count Let_def)
qed

lemma set_slots_get:
  assumes "length bm = 2048" and "b < 16384"
  shows "length (foldl (\<lambda>bm s. cluster_slots_set bm s True) bm [a..<Suc b]) = 2048 \<and>
    (cluster_slots_get (foldl (\<lambda>bm s. cluster_slots_set bm s True) bm [a..<Suc b]) t \<longleftrightarrow> a \<le> t \<and> t \<le> b \<or> cluster_slots_get bm t)"
  using assms(2)
proof (induction b)
  case 0
  then show ?case using assms(1) by (cases a) (auto simp: slots_get_set)
next
  case (Suc b)
  then show ?case
    using assms(1) by (cases "a \<le> Suc b") (auto simp: slots_get_set le_Suc_eq)
qed

lemma parse_one_token:
  assumes "tok \<noteq> []" and "list_all (\<lambda>c. \<not> is_space c) tok"
  shows "cluster_slots_parse tok = set_range (replicate 2048 0) tok"
proof -
  have all: "\<forall>c \<in> set tok. \<not> is_space c" using assms(2) by (simp add: list_all_iff)
  then have hd: "dropWhile is_space tok = tok" using assms(1) by (cases tok) auto
  have tw: "takeWhile (\<lambda>c. \<not> is_space c) tok = tok" "dropWhile (\<lambda>c. \<not> is_space c) tok = []"
    using all by (simp_all add: takeWhile_eq_all_conv)
  show ?thesis
    unfolding cluster_slots_parse_def slots_parse_loop.simps [of _ tok]
    using assms(1) by (simp add: hd tw slots_parse_loop.simps [of _ "[]"])
qed

lemma render_off:
  "list_all (\<lambda>i. \<not> cluster_slots_get bm i) is \<Longrightarrow> render_loop bm cap out None (is @ js) = render_loop bm cap out None js"
  by (induction "is") simp_all

text \<open>A bitmap with one range.\<close>

definition range_map :: "nat \<Rightarrow> nat \<Rightarrow> bytes" where
  "range_map a b = foldl (\<lambda>bm s. cluster_slots_set bm s True) (replicate 2048 0) [a..<Suc b]"

lemma range_map_get: "b < 16384 \<Longrightarrow> cluster_slots_get (range_map a b) t \<longleftrightarrow> a \<le> t \<and> t \<le> b"
  using set_slots_get [of "replicate 2048 0" b a t] by (simp add: range_map_def)

lemma render_on:
  "list_all (\<lambda>i. i < 16384 \<and> cluster_slots_get bm i) is \<Longrightarrow> render_loop bm cap out (Some a) (is @ js) = render_loop bm cap out (Some a) js"
  by (induction "is") simp_all

lemma render_range:
  assumes ab: "a < b" "b < 16384" and cap: "length (decimal a @ 45 # decimal b) < cap"
  shows "cluster_slots_render (range_map a b) cap = decimal a @ 45 # decimal b"
proof -
  let ?bm = "range_map a b"
  note get = range_map_get [OF ab(2), of a]
  have split: "[0..<16385] = [0..<a] @ a # [Suc a..<Suc b] @ Suc b # [Suc (Suc b)..<16385]"
  proof -
    have "[0..<16385] = [0..<a] @ [a..<16385]" using ab upt_add_eq_append [of 0 a "16385 - a"] by simp
    also have "[a..<16385] = a # [Suc a..<16385]" using ab by (simp add: upt_conv_Cons)
    also have "[Suc a..<16385] = [Suc a..<Suc b] @ [Suc b..<16385]" using ab upt_add_eq_append [of "Suc a" "Suc b" "16384 - b"] by simp
    also have "[Suc b..<16385] = Suc b # [Suc (Suc b)..<16385]" using ab by (simp add: upt_conv_Cons)
    finally show ?thesis .
  qed
  have off: "list_all (\<lambda>i. \<not> cluster_slots_get ?bm i) [0..<a]" "list_all (\<lambda>i. \<not> cluster_slots_get ?bm i) [Suc (Suc b)..<16385]"
    by (simp_all add: list_all_iff get)
  have on: "list_all (\<lambda>i. i < 16384 \<and> cluster_slots_get ?bm i) [Suc a..<Suc b]" using ab by (simp add: list_all_iff get)
  have rest: "render_loop ?bm cap out None [Suc (Suc b)..<16385] = out" for out
    using render_off [OF off(2), of cap out "[]"] by simp
  show ?thesis
    unfolding cluster_slots_render_def split render_off [OF off(1)]
    using ab cap by (simp add: get render_on [OF on] rest ascii_def del: upt_Suc)
qed

text \<open>
  C40: A range of slots that is written is not read back. The slots from \<open>a\<close> to \<open>b\<close> are written as
  \<open>a-b\<close>; reading this text gives the slots from \<open>a\<close> to the number whose digits are those of \<open>a\<close>
  followed by those of \<open>b\<close>, cut at 16383. Unless the range starts at slot 0, the node claims slots
  it was never given when its configuration is loaded, and so do its peers that hear of it.
\<close>
theorem slot_ranges_grow_when_read:
  assumes "a < b" and "b < 16384"
  shows "cluster_slots_render (range_map a b) 256 = decimal a @ ascii ''-'' @ decimal b \<and>
    (\<forall>t. cluster_slots_get (cluster_slots_parse (cluster_slots_render (range_map a b) 256)) t =
       (a \<le> t \<and> t \<le> a * 10 ^ length (decimal b) + b \<and> t < 16384))"
proof -
  let ?tok = "decimal a @ 45 # decimal b" and ?e = "a * 10 ^ length (decimal b) + b"
  have short: "length (decimal n) \<le> 5" if "n < 16384" for n
    using that by (auto simp: decimal.simps [of n] decimal.simps [of "n div 10"] decimal.simps [of "n div 10 div 10"]
        decimal.simps [of "n div 10 div 10 div 10"] decimal.simps [of "n div 10 div 10 div 10 div 10"])
  have render: "cluster_slots_render (range_map a b) 256 = ?tok"
    using short [of a] short [of b] assms by (intro render_range) auto
  have "(10 :: nat) ^ length (decimal b) \<le> 10 ^ 5" using short [OF assms(2)] by (intro power_increasing) auto
  then have "a * 10 ^ length (decimal b) \<le> 16384 * 10 ^ 5" using assms by (intro mult_le_mono) auto
  then have "?e \<le> UINT32_MAX" using assms by (simp add: c_limits)
  then have range: "slot_range ?tok = Some (a, ?e)" by (rule slot_range_printed)
  have "list_all (\<lambda>c. \<not> is_space c) ?tok"
    using decimal_digits [of a] decimal_digits [of b] by (auto simp: list_all_iff is_digit_def is_space_def)
  then have parse: "cluster_slots_parse ?tok = set_range (replicate 2048 0) ?tok" by (intro parse_one_token) simp_all
  have "a \<le> ?e" using assms by (simp add: trans_le_add2)
  then have "set_range (replicate 2048 0) ?tok = range_map a (min ?e 16383)"
    using assms range by (simp add: set_range_def range_map_def)
  then show ?thesis using render parse range_map_get [of "min ?e 16383" a] by (auto simp: ascii_def)
qed

theorem slot_ranges_grow_when_read_witness:
  "cluster_slots_render (range_map 5 6) 256 = ascii ''5-6'' \<and> cluster_slots_get (cluster_slots_parse (ascii ''5-6'')) 56"
proof -
  have d: "decimal 5 = [53]" "decimal 6 = [54]" by (simp_all add: decimal.simps)
  have lt: "(5 :: nat) < 6" "(6 :: nat) < 16384" by simp_all
  note ranges = slot_ranges_grow_when_read [OF lt, unfolded d]
  have out: "cluster_slots_render (range_map 5 6) 256 = ascii ''5-6''" using conjunct1 [OF ranges] by (simp add: ascii_def)
  moreover have "cluster_slots_get (cluster_slots_parse (ascii ''5-6'')) 56"
    using spec [OF conjunct2 [OF ranges [unfolded out]], of 56] by simp
  ultimately show ?thesis by blast
qed

end
