(* ===== verification/Cluster_State.thy ===== *)
theory Cluster_State
  imports Cluster_Slots "HOL-Library.Multiset"
begin

text \<open>
  The invariant of the node table, the resolution of slot claims, the quorum of failure
  reports and the health of the cluster.
\<close>

section \<open>Invariant\<close>

definition cluster_inv :: "cluster_db \<Rightarrow> bool" where
  "cluster_inv d \<longleftrightarrow>
     nodes_ok d \<and> slots_wf (cd_nodes d) \<and> unique_owner (cd_nodes d) \<and> distinct (map cn_id (cd_nodes d)) \<and>
     (\<forall>n \<in> set (cd_nodes d). cluster_id_valid (cn_id n) \<and> reports_ok n)"

lemma inv_frame: "cd_nodes d' = cd_nodes d \<Longrightarrow> cluster_inv d' = cluster_inv d"
  by (simp add: cluster_inv_def nodes_ok_def)

lemma inv_fields [simp]:
  "cluster_inv (d\<lparr>cd_current_epoch := e\<rparr>) = cluster_inv d" "cluster_inv (d\<lparr>cd_changes := c\<rparr>) = cluster_inv d"
  "cluster_inv (d\<lparr>cd_fail_broadcast_id := b\<rparr>) = cluster_inv d" "cluster_inv (slots_changed d) = cluster_inv d"
  "cluster_inv (d\<lparr>cd_last_vote_epoch := e\<rparr>) = cluster_inv d" "cluster_inv (d\<lparr>cd_failover_ack_mask := m, cd_failover_ack_count := k\<rparr>) = cluster_inv d"
  "cluster_inv (d\<lparr>cd_slot_owner_dirty := x, cd_changes := c\<rparr>) = cluster_inv d"
  by (rule inv_frame, simp add: slots_changed_def)+

lemma upd_node_fields [simp]:
  "length (cd_nodes (upd_node i f d)) = length (cd_nodes d)" "cd_current_epoch (upd_node i f d) = cd_current_epoch d"
  "cd_last_vote_epoch (upd_node i f d) = cd_last_vote_epoch d" "nodes_ok (upd_node i f d) = nodes_ok d"
  by (simp_all add: upd_node_def nodes_ok_def)

lemma upd_node_nth:
  "j < length (cd_nodes d) \<Longrightarrow> cd_nodes (upd_node i f d) ! j = (if j = i then f (cd_nodes d ! i) else cd_nodes d ! j)"
  by (simp add: upd_node_def nth_list_update)

text \<open>An update of a node that keeps its identifier and its slots.\<close>

lemma inv_upd:
  assumes inv: "cluster_inv d"
    and f: "i < length (cd_nodes d) \<Longrightarrow> cn_id (f (cd_nodes d ! i)) = cn_id (cd_nodes d ! i) \<and>
      cn_slots (f (cd_nodes d ! i)) = cn_slots (cd_nodes d ! i) \<and> reports_ok (f (cd_nodes d ! i))"
  shows "cluster_inv (upd_node i f d)"
proof (cases "i < length (cd_nodes d)")
  case False
  then have "cd_nodes (upd_node i f d) = cd_nodes d" by (simp add: upd_node_def list_update_beyond)
  then show ?thesis using inv inv_frame by blast
next
  case True
  let ?ns = "cd_nodes d" and ?n = "cd_nodes d ! i"
  have ids: "map cn_id (?ns[i := f ?n]) = map cn_id ?ns"
    using f [OF True] True by (simp add: map_update list_update_same_conv)
  have holds: "holds (?ns[i := f ?n]) j s = holds ?ns j s" for j s
    using f [OF True] True by (cases "j = i") (auto simp: holds_def)
  have "m \<in> set ?ns \<or> m = f ?n" if "m \<in> set (?ns[i := f ?n])" for m
    using that set_update_subset_insert by fastforce
  moreover have "?n \<in> set ?ns" using True by simp
  ultimately show ?thesis
    using inv f [OF True] ids by (fastforce simp: cluster_inv_def upd_node_def nodes_ok_def slots_wf_def unique_owner_def holds)
qed

text \<open>A redistribution of slots.\<close>

lemma inv_slots:
  assumes inv: "cluster_inv d" and b: "same_bare (cd_nodes d) ns" and "slots_wf ns" and "unique_owner ns"
  shows "cluster_inv (d\<lparr>cd_nodes := ns\<rparr>)"
proof -
  have len: "length ns = length (cd_nodes d)" using b by (rule same_bare_length)
  have eq: "cn_id (ns ! i) = cn_id (cd_nodes d ! i)" "cn_reports (ns ! i) = cn_reports (cd_nodes d ! i)"
    if "i < length ns" for i
    using bare_fields [OF same_bare_nth [OF b]] that len by auto
  have "map cn_id ns = map cn_id (cd_nodes d)" using len eq(1) by (simp add: list_eq_iff_nth_eq)
  moreover have "cluster_id_valid (cn_id n) \<and> reports_ok n" if n: "n \<in> set ns" for n
  proof -
    obtain i where i: "i < length ns" "n = ns ! i" using n by (auto simp: in_set_conv_nth)
    have "cd_nodes d ! i \<in> set (cd_nodes d)" using i len by simp
    then show ?thesis using inv eq [OF i(1)] i(2) by (simp add: cluster_inv_def reports_ok_def)
  qed
  ultimately show ?thesis using assms len by (simp add: cluster_inv_def nodes_ok_def)
qed

section \<open>Node table\<close>

lemma inv_nth: "cluster_inv d \<Longrightarrow> i < length (cd_nodes d) \<Longrightarrow> cluster_id_valid (cn_id (cd_nodes d ! i)) \<and>
    reports_ok (cd_nodes d ! i) \<and> length (cn_slots (cd_nodes d ! i)) = 2048"
  by (simp add: cluster_inv_def slots_wf_def)

lemma node_find_SomeD:
  "cluster_node_find d ident = Some i \<Longrightarrow> i < length (cd_nodes d) \<and> cn_id (cd_nodes d ! i) = ident"
  by (auto simp: cluster_node_find_def split: if_splits dest: index_of_Some)

lemma node_find_eq:
  assumes inv: "cluster_inv d" and i: "i < length (cd_nodes d)"
  shows "cluster_node_find d (cn_id (cd_nodes d ! i)) = Some i"
proof (cases "cluster_node_find d (cn_id (cd_nodes d ! i))")
  case None
  then show ?thesis
    using inv_nth [OF inv i] inv i nth_mem [OF i] by (auto simp: cluster_node_find_def index_of_None cluster_inv_def split: if_splits)
next
  case (Some j)
  then have j: "j < length (cd_nodes d)" "cn_id (cd_nodes d ! j) = cn_id (cd_nodes d ! i)" using node_find_SomeD by blast+
  have "distinct (map cn_id (cd_nodes d))" using inv by (simp add: cluster_inv_def)
  then have "j = i" using j i by (simp add: distinct_conv_nth) metis
  then show ?thesis using Some by simp
qed

lemma myself_length: "cluster_myself d = Some i \<Longrightarrow> i < length (cd_nodes d) \<and> has_flag (cd_nodes d ! i) CLUSTER_NODE_MYSELF"
  by (auto simp: cluster_myself_def split: if_splits dest: index_of_Some)

lemma node_add_cases:
  assumes inv: "cluster_inv d" and add: "cluster_node_add d ident = (r, d')"
  shows "cluster_inv d' \<and>
    (r = None \<and> d' = d \<or>
     r = cluster_node_find d ident \<and> r \<noteq> None \<and> d' = d \<or>
     r = Some (length (cd_nodes d)) \<and> cluster_id_valid ident \<and> cluster_node_find d ident = None \<and>
       d' = d\<lparr>cd_nodes := cd_nodes d @ [cluster_node_new ident]\<rparr>)"
proof (cases "d' = d")
  case True
  then show ?thesis using inv add by (auto simp: cluster_node_add_def split: if_splits option.splits)
next
  case False
  then have new: "r = Some (length (cd_nodes d))" "cluster_id_valid ident" "cluster_node_find d ident = None"
    "length (cd_nodes d) < CLUSTER_MAX_NODES" "d' = d\<lparr>cd_nodes := cd_nodes d @ [cluster_node_new ident]\<rparr>"
    using add by (auto simp: cluster_node_add_def split: if_splits option.splits)
  have fresh: "cn_id n \<noteq> ident" if "n \<in> set (cd_nodes d)" for n
    using new(2,3) that inv by (auto simp: cluster_node_find_def index_of_None cluster_inv_def split: if_splits)
  have holds: "holds (cd_nodes d @ [cluster_node_new ident]) i s = holds (cd_nodes d) i s" for i s
    by (auto simp: holds_def nth_append cluster_node_new_def less_Suc_eq)
  have node: "cn_id (cluster_node_new ident) = ident" "length (cn_slots (cluster_node_new ident)) = 2048"
    "cn_reports (cluster_node_new ident) = []"
    by (simp_all add: cluster_node_new_def)
  have "cluster_inv d'"
    using inv new fresh
    by (auto simp: cluster_inv_def nodes_ok_def slots_wf_def unique_owner_def holds node reports_ok_def)
  then show ?thesis using new by blast
qed

section \<open>Failure reports\<close>

lemma swap_remove_mset: "i < length xs \<Longrightarrow> mset (swap_remove xs i) = mset xs - {#xs ! i#}"
proof -
  assume i: "i < length xs"
  then obtain ys y where xs: "xs = ys @ [y]" by (cases xs rule: rev_cases) auto
  show ?thesis
  proof (cases "i = length ys")
    case True
    then show ?thesis by (simp add: xs swap_remove_def)
  next
    case False
    then have i': "i < length ys" using i xs by simp
    have "mset (ys[i := y]) = add_mset y (mset ys - {#ys ! i#})" by (rule mset_update [OF i'])
    moreover have "ys ! i \<in># mset ys" using i' by simp
    ultimately show ?thesis using i' by (simp add: xs swap_remove_def list_update_append nth_append)
  qed
qed

lemma drop_expired_mset:
  "\<forall>j < i. \<not> e (rs ! j) \<Longrightarrow> i \<le> length rs \<Longrightarrow> mset (drop_expired e rs i) = mset (filter (\<lambda>r. \<not> e r) rs)"
proof (induction e rs i rule: drop_expired.induct)
  case (1 e rs i)
  show ?case
  proof (cases "i < length rs")
    case False
    then have "\<forall>r \<in> set rs. \<not> e r" using "1.prems" by (auto simp: in_set_conv_nth)
    then show ?thesis using False by (subst drop_expired.simps) (simp add: filter_True)
  next
    case lt: True
    show ?thesis
    proof (cases "e (rs ! i)")
      case False
      then have "mset (drop_expired e rs (i + 1)) = mset (filter (\<lambda>r. \<not> e r) rs)"
        using 1 lt by (auto simp: less_Suc_eq)
      then show ?thesis using lt False by (subst drop_expired.simps) simp
    next
      case True
      have len: "length (swap_remove rs i) = length rs - 1" by (simp add: swap_remove_def)
      have "\<forall>j < i. \<not> e (swap_remove rs i ! j)" using "1.prems" lt by (simp add: swap_remove_def nth_butlast)
      then have "mset (drop_expired e (swap_remove rs i) i) = mset (filter (\<lambda>r. \<not> e r) (swap_remove rs i))"
        using 1(1) [OF lt True] lt len by simp
      also have "\<dots> = filter_mset (\<lambda>r. \<not> e r) (mset rs - {#rs ! i#})"
        by (simp add: swap_remove_mset [OF lt])
      also have "\<dots> = mset (filter (\<lambda>r. \<not> e r) rs)" using True by (simp add: filter_diff_mset)
      finally show ?thesis using lt True by (subst drop_expired.simps) simp
    qed
  qed
qed

lemma drop_expired_length: "length (drop_expired e rs 0) = length (filter (\<lambda>r. \<not> e r) rs)"
  using drop_expired_mset [of 0 e rs] by (metis less_nat_zero_code le0 size_mset)

lemma report_failure_inv: "cluster_inv d \<Longrightarrow> cluster_inv (cluster_report_failure i reporter now d)"
  unfolding cluster_report_failure_def Let_def
  by (auto split: option.split intro!: inv_upd simp: reports_ok_def dest: index_of_Some inv_nth)

lemma report_heal_inv: "cluster_inv d \<Longrightarrow> cluster_inv (cluster_report_heal i reporter d)"
  unfolding cluster_report_heal_def Let_def
  by (auto split: option.split intro!: inv_upd simp: reports_ok_def swap_remove_def)

lemma report_count_inv: "cluster_inv d \<Longrightarrow> cluster_inv (snd (cluster_report_count i now d))"
  unfolding cluster_report_count_def Let_def
  by (auto intro!: inv_upd simp: reports_ok_def drop_expired_length intro: le_trans [OF length_filter_le])

lemma mark_fail_inv: "cluster_inv d \<Longrightarrow> cluster_inv (cluster_mark_fail i now d)"
  unfolding cluster_mark_fail_def
  by (auto intro!: inv_upd simp: reports_ok_def dest: inv_nth)

lemma quorum_inv: "cluster_inv d \<Longrightarrow> cluster_inv (snd (cluster_mark_fail_if_quorum i now d))"
  using report_count_inv [of d i now] mark_fail_inv
  by (auto simp: cluster_mark_fail_if_quorum_def Let_def split: prod.split)

section \<open>Claims\<close>

lemma raise_epoch_nodes:
  assumes "i < length (cd_nodes d)"
  shows "cd_nodes (raise_epoch i e d) = (cd_nodes d)[i := (cd_nodes d ! i)\<lparr>cn_epoch := max (cn_epoch (cd_nodes d ! i)) e\<rparr>]"
    and "cd_current_epoch (raise_epoch i e d) = max (cd_current_epoch d) e"
    and "cd_last_vote_epoch (raise_epoch i e d) = cd_last_vote_epoch d"
proof -
  have "(cd_nodes d)[i := (cd_nodes d ! i)\<lparr>cn_epoch := cn_epoch (cd_nodes d ! i)\<rparr>] = cd_nodes d"
    using assms by (simp add: list_update_same_conv)
  then show "cd_nodes (raise_epoch i e d) = (cd_nodes d)[i := (cd_nodes d ! i)\<lparr>cn_epoch := max (cn_epoch (cd_nodes d ! i)) e\<rparr>]"
    by (auto simp: raise_epoch_def upd_node_def max_def)
  show "cd_current_epoch (raise_epoch i e d) = max (cd_current_epoch d) e"
    by (auto simp: raise_epoch_def upd_node_def max_def Let_def)
  show "cd_last_vote_epoch (raise_epoch i e d) = cd_last_vote_epoch d"
    by (auto simp: raise_epoch_def upd_node_def Let_def)
qed

lemma raise_epoch_inv: "cluster_inv d \<Longrightarrow> cluster_inv (raise_epoch i e d)"
  using inv_nth by (auto simp: raise_epoch_def Let_def reports_ok_def intro!: inv_upd)

lemma raise_epoch_length [simp]: "length (cd_nodes (raise_epoch i e d)) = length (cd_nodes d)"
  by (simp add: raise_epoch_def Let_def)

lemma adopt_inv:
  assumes inv: "cluster_inv d" and c: "c < length (cd_nodes d)"
  shows "cluster_inv (cluster_adopt_claims c bm epoch d)"
proof -
  let ?d = "raise_epoch c epoch d"
  have d: "cluster_inv ?d" by (rule raise_epoch_inv [OF inv])
  then have wf: "slots_wf (cd_nodes ?d)" "unique_owner (cd_nodes ?d)" by (simp_all add: cluster_inv_def)
  have l: "Suc c \<le> length (cd_nodes ?d)" using c by simp
  have "cluster_inv (?d\<lparr>cd_nodes := foldl (adopt_slot c bm) (cd_nodes ?d) [0..<16384]\<rparr>)"
    by (rule inv_slots [OF d adoption.all_slots(2,1) [OF wf(1) l] adoption.all_slots_unique [OF wf(1) l wf(2)]])
  then show ?thesis using inv by (simp add: cluster_adopt_claims_def Let_def)
qed

lemma claims_inv:
  assumes inv: "cluster_inv d" and c: "c < length (cd_nodes d)"
  shows "cluster_inv (cluster_merge_claims c bm epoch d)"
proof -
  let ?d = "raise_epoch c epoch d"
  have d: "cluster_inv ?d" by (rule raise_epoch_inv [OF inv])
  then have wf: "slots_wf (cd_nodes ?d)" "unique_owner (cd_nodes ?d)" by (simp_all add: cluster_inv_def)
  have l: "Suc c \<le> length (cd_nodes ?d)" using c by simp
  have "cluster_inv (?d\<lparr>cd_nodes := foldl (merge_slot c bm) (cd_nodes ?d) [0..<16384]\<rparr>)"
    by (rule inv_slots [OF d claims.all_slots(2,1) [OF wf(1) l] claims.all_slots_unique [OF wf(1) l wf(2)]])
  then show ?thesis using inv d by (simp add: cluster_merge_claims_def Let_def)
qed

lemma merge_length:
  assumes "cluster_inv d" and "c < length (cd_nodes d)"
  shows "length (cd_nodes (cluster_merge_claims c bm epoch d)) = length (cd_nodes d)"
proof -
  let ?d = "raise_epoch c epoch d"
  have wf: "slots_wf (cd_nodes ?d)" using raise_epoch_inv [OF assms(1)] by (simp add: cluster_inv_def)
  have "length (foldl (merge_slot c bm) (cd_nodes ?d) [0..<16384]) = length (cd_nodes d)"
    using same_bare_length [OF claims.all_slots(2) [OF wf]] assms(2) by simp
  then show ?thesis by (simp add: cluster_merge_claims_def slots_changed_def Let_def)
qed

lemma promote_inv:
  assumes inv: "cluster_inv d"
  shows "cluster_inv (snd (cluster_failover_promote d))"
proof (cases "cluster_myself d")
  case None
  then show ?thesis using inv by (simp add: cluster_failover_promote_def)
next
  case (Some me)
  let ?f = "\<lambda>n. n\<lparr>cn_flags := (cn_flags n OR CLUSTER_NODE_MASTER) AND NOT CLUSTER_NODE_SLAVE,
    cn_master_id := ascii ''-'', cn_epoch := cd_current_epoch d + 1\<rparr>"
  let ?d = "upd_node me ?f (d\<lparr>cd_current_epoch := cd_current_epoch d + 1\<rparr>)"
  have d: "cluster_inv ?d"
    using inv_nth [OF inv] by (intro inv_upd) (simp_all add: inv reports_ok_def)
  then have wf: "slots_wf (cd_nodes ?d)" "unique_owner (cd_nodes ?d)" by (simp_all add: cluster_inv_def)
  have "cluster_inv (?d\<lparr>cd_nodes := (case cluster_node_find ?d m of None \<Rightarrow> cd_nodes ?d
      | Some master \<Rightarrow> foldl (move_slot master me) (cd_nodes ?d) [0..<16384])\<rparr>)" for m
  proof (cases "cluster_node_find ?d m")
    case None
    have "cluster_inv (?d\<lparr>cd_nodes := cd_nodes ?d\<rparr>)" using d by (rule inv_slots) (simp_all add: wf)
    then show ?thesis using None by simp
  next
    case master: (Some master)
    then have l: "Suc (max master me) \<le> length (cd_nodes ?d)"
      using node_find_SomeD [OF master] myself_length [OF Some] by (simp add: max_def)
    have "cluster_inv (?d\<lparr>cd_nodes := foldl (move_slot master me) (cd_nodes ?d) [0..<16384]\<rparr>)"
      by (rule inv_slots [OF d moves.all_slots(2,1) [OF wf(1) l] moves.all_slots_unique [OF wf(1) l wf(2)]])
    then show ?thesis using master by simp
  qed
  then show ?thesis
    using inv Some by (simp add: cluster_failover_promote_def cluster_next_epoch_def Let_def)
qed

lemma is_ok_inv: "cluster_inv d \<Longrightarrow> cluster_inv (snd (cluster_state_is_ok d))"
  by (rule inv_frame [THEN iffD2, of _ d]) (simp_all add: cluster_state_is_ok_def Let_def)

text \<open>A claim with epoch \<open>e\<close> and identifier \<open>ident\<close> against a holder.\<close>

definition stronger :: "u64 \<Rightarrow> bytes \<Rightarrow> cluster_node \<Rightarrow> bool" where
  "stronger e ident h \<longleftrightarrow> cn_epoch h < e \<or> (e = cn_epoch h \<and> 0 < memcmp ident (cn_id h))"

definition demo_node :: "byte \<Rightarrow> u64 \<Rightarrow> cluster_node" where
  "demo_node c e = (cluster_node_new (replicate 40 c))\<lparr>cn_epoch := e\<rparr>"

definition demo_cluster :: cluster_db where
  "demo_cluster =
     \<lparr>cd_enabled = True, cd_nodes = [demo_node 97 1, demo_node 98 2], cd_slot_owner_dirty = False, cd_changes = 0,
      cd_current_epoch = 2, cd_node_timeout_ms = 1000, cd_last_vote_epoch = 0, cd_failover_req_epoch = 0,
      cd_failover_ack_mask = 0, cd_failover_ack_count = 0, cd_fail_broadcast_id = [], cd_cache_valid = False,
      cd_cache_changes = 0, cd_cache_signature = 0, cd_cache_ok = False, cd_cache_covered = 0, cd_cache_masters = 0,
      cd_cache_reachable = 0, cd_cache_fail_slots = False\<rparr>"

lemma demo_inv: "cluster_inv demo_cluster"
proof -
  have "\<not> holds (cd_nodes demo_cluster) i s" for i s
    by (auto simp: holds_def demo_cluster_def demo_node_def cluster_node_new_def less_Suc_eq nth_Cons')
  then have "unique_owner (cd_nodes demo_cluster)" by (simp add: unique_owner_def)
  moreover have "replicate 40 97 \<noteq> (replicate 40 98 :: bytes)" by (simp add: replicate_eq_replicate)
  ultimately show ?thesis
    unfolding cluster_inv_def
    by (simp add: demo_cluster_def demo_node_def cluster_node_new_def nodes_ok_def slots_wf_def reports_ok_def
        cluster_id_valid_def list_all_iff hex_char_def CLUSTER_MAX_NODES_def)
qed

text \<open>
  C10: Slot claims are resolved by epoch. When another node claims a set of slots, it holds
  afterwards exactly the claimed slots for which its epoch exceeds that of every other holder,
  an equal epoch being decided by the larger identifier; it gives up what it does not claim; and
  another node loses a slot exactly when the claim is the stronger one. The epochs of the node
  and of the cluster only grow.
\<close>
theorem cluster_claims_resolved:
  assumes "cluster_inv d" and "c < length (cd_nodes d)" and "cluster_myself d \<noteq> Some c"
  shows "let d' = cluster_merge_claims c bm epoch d; n = cd_nodes d ! c;
        wins = (\<lambda>h. stronger (max (cn_epoch n) epoch) (cn_id n) h)
    in (\<forall>i s. holds (cd_nodes d') i s =
         (if i = c then cluster_slots_get bm s \<and> (\<forall>j. \<not> (j \<noteq> c \<and> holds (cd_nodes d) j s \<and> \<not> wins (cd_nodes d ! j)))
          else holds (cd_nodes d) i s \<and> \<not> (cluster_slots_get bm s \<and> wins (cd_nodes d ! i)))) \<and>
       cn_epoch (cd_nodes d' ! c) = max (cn_epoch n) epoch \<and> cd_current_epoch d' = max (cd_current_epoch d) epoch"
proof -
  let ?r = "raise_epoch c epoch d" and ?ns = "cd_nodes d" and ?n = "cd_nodes d ! c"
  let ?e = "max (cn_epoch ?n) epoch"
  have r: "cd_nodes ?r = ?ns[c := ?n\<lparr>cn_epoch := ?e\<rparr>]" "cd_current_epoch ?r = max (cd_current_epoch d) epoch"
    by (simp_all add: raise_epoch_nodes [OF assms(2)])
  have wf: "slots_wf (cd_nodes ?r)" using raise_epoch_inv [OF assms(1)] by (simp add: cluster_inv_def)
  have l: "Suc c \<le> length (cd_nodes ?r)" using assms(2) by simp
  note all = claims.all_slots [OF wf l]
  have d': "cluster_merge_claims c bm epoch d = slots_changed (?r\<lparr>cd_nodes := foldl (merge_slot c bm) (cd_nodes ?r) [0..<16384]\<rparr>)"
    using assms by (simp add: cluster_merge_claims_def cluster_inv_def Let_def)
  have h: "holds (cd_nodes ?r) i s = holds ?ns i s" for i s
    using assms(2) by (cases "i = c") (auto simp: holds_def r)
  have b: "beats (cd_nodes ?r ! c) (cd_nodes ?r ! i) = stronger ?e (cn_id ?n) (?ns ! i)" if "i \<noteq> c" for i
    using that assms(2) by (simp add: r beats_def stronger_def)
  have out: "after_claim (cd_nodes ?r) c bm i s =
      (if i = c then cluster_slots_get bm s \<and> (\<forall>j. \<not> (j \<noteq> c \<and> holds ?ns j s \<and> \<not> stronger ?e (cn_id ?n) (?ns ! j)))
       else holds ?ns i s \<and> \<not> (cluster_slots_get bm s \<and> stronger ?e (cn_id ?n) (?ns ! i)))" for i s
    using b by (auto simp: after_claim_def claim_won_def h)
  have "cn_epoch (foldl (merge_slot c bm) (cd_nodes ?r) [0..<16384] ! c) = cn_epoch (cd_nodes ?r ! c)"
    by (rule bare_fields(2) [OF same_bare_nth [OF all(2)]]) (use l in simp)
  then have "cn_epoch (foldl (merge_slot c bm) (cd_nodes ?r) [0..<16384] ! c) = ?e" using assms(2) by (simp add: r)
  then show ?thesis unfolding Let_def d' using all(3) out r(2) by (simp add: slots_changed_def)
qed

theorem cluster_claims_resolved_witness:
  "holds (cd_nodes (cluster_merge_claims 0 (cluster_slots_set (replicate 2048 0) 7 True) 5 demo_cluster)) 0 7 \<and>
   cd_current_epoch (cluster_merge_claims 0 (cluster_slots_set (replicate 2048 0) 7 True) 5 demo_cluster) = 5"
proof -
  have me: "cluster_myself demo_cluster \<noteq> Some 0" and c: "0 < length (cd_nodes demo_cluster)"
    by (simp_all add: cluster_myself_def demo_cluster_def demo_node_def cluster_node_new_def has_flag_def cluster_flags)
  have none: "\<not> holds (cd_nodes demo_cluster) j 7" for j
    by (auto simp: holds_def demo_cluster_def demo_node_def cluster_node_new_def less_Suc_eq nth_Cons')
  show ?thesis
    using cluster_claims_resolved [OF demo_inv c me, of "cluster_slots_set (replicate 2048 0) 7 True" 5] none
    by (simp add: Let_def slots_get_set) (simp add: demo_cluster_def)
qed

section \<open>Quorum\<close>

definition fresh_reports :: "cluster_db \<Rightarrow> nat \<Rightarrow> u64 \<Rightarrow> nat" where
  "fresh_reports d i now_ms =
     length (filter (\<lambda>r. \<not> report_expired (report_window (cd_node_timeout_ms d)) now_ms r) (cn_reports (cd_nodes d ! i)))"

definition myself_master :: "cluster_db \<Rightarrow> bool" where
  "myself_master d \<longleftrightarrow> (case cluster_myself d of None \<Rightarrow> False | Some m \<Rightarrow> has_flag (cd_nodes d ! m) CLUSTER_NODE_MASTER)"



section \<open>Health\<close>

definition covered :: "cluster_survey \<Rightarrow> nat set" where
  "covered v = {s. cluster_slots_get (sv_covered v) s}"

definition slots_of :: "cluster_node \<Rightarrow> nat set" where
  "slots_of n = {s. cluster_slots_get (cn_slots n) s}"

lemma slots_of_small: "slots_of n \<subseteq> {..<16384}" "covered v \<subseteq> {..<16384}"
  by (auto simp: slots_of_def covered_def slots_get_bit)

lemma serves_iff: "serves_slots n \<longleftrightarrow> slots_of n \<noteq> {}"
  by (auto simp: serves_slots_def list_ex_iff slots_of_def slots_get_bit)

definition survey_ok :: "cluster_survey \<Rightarrow> bool" where
  "survey_ok v \<longleftrightarrow> length (sv_covered v) = 2048 \<and> sv_count v = card (covered v)"

lemma survey_slots:
  fixes n
  assumes ok: "survey_ok v" and k: "k \<le> 16384"
  defines "r \<equiv> foldl (survey_slot n) (False, v) [0..<k]"
  shows "survey_ok (snd r) \<and> covered (snd r) = covered v \<union> (slots_of n \<inter> {..<k}) \<and>
    (fst r \<longleftrightarrow> slots_of n \<inter> {..<k} \<noteq> {}) \<and> sv_masters (snd r) = sv_masters v \<and> sv_reachable (snd r) = sv_reachable v \<and>
    (sv_fail_slots (snd r) \<longleftrightarrow> sv_fail_slots v \<or> has_flag n CLUSTER_NODE_FAIL \<and> fst r)"
  using k unfolding r_def
proof (induction k)
  case 0
  then show ?case using ok by simp
next
  case (Suc k)
  obtain b w where r: "foldl (survey_slot n) (False, v) [0..<k] = (b, w)" by fastforce
  with Suc have IH: "survey_ok w" "covered w = covered v \<union> (slots_of n \<inter> {..<k})" "b \<longleftrightarrow> slots_of n \<inter> {..<k} \<noteq> {}"
    "sv_masters w = sv_masters v" "sv_reachable w = sv_reachable v"
    "sv_fail_slots w \<longleftrightarrow> sv_fail_slots v \<or> has_flag n CLUSTER_NODE_FAIL \<and> b" by auto
  have split: "slots_of n \<inter> {..<Suc k} = (if k \<in> slots_of n then insert k (slots_of n \<inter> {..<k}) else slots_of n \<inter> {..<k})"
    by (auto simp: lessThan_Suc)
  have step: "foldl (survey_slot n) (False, v) [0..<Suc k] = survey_slot n (b, w) k" using r by simp
  have mem: "cluster_slots_get (cn_slots n) k \<longleftrightarrow> k \<in> slots_of n" by (simp add: slots_of_def)
  have len: "length (sv_covered w) = 2048" "k < 16384" using IH(1) Suc by (simp_all add: survey_ok_def)
  show ?case
  proof (cases "k \<in> slots_of n")
    case False
    then show ?thesis unfolding step split using IH mem by (simp add: survey_slot_def)
  next
    case True
    define w1 where "w1 = (if has_flag n CLUSTER_NODE_FAIL then w\<lparr>sv_fail_slots := True\<rparr> else w)"
    define w2 where "w2 = (if \<not> cluster_slots_get (sv_covered w1) k
      then w1\<lparr>sv_covered := cluster_slots_set (sv_covered w1) k True, sv_count := sv_count w1 + 1\<rparr> else w1)"
    have res: "survey_slot n (b, w) k = (True, w2)" using True mem by (simp add: survey_slot_def w1_def w2_def Let_def)
    have w1: "sv_covered w1 = sv_covered w" "sv_count w1 = sv_count w" "sv_masters w1 = sv_masters v"
      "sv_reachable w1 = sv_reachable v" "sv_fail_slots w1 \<longleftrightarrow> sv_fail_slots w \<or> has_flag n CLUSTER_NODE_FAIL"
      using IH by (simp_all add: w1_def)
    have fin: "finite (covered w)" using slots_of_small(2) finite_subset by blast
    have cov: "covered w2 = insert k (covered w)"
      using slots_get_set [OF len] by (auto simp: covered_def w2_def w1)
    have "sv_count w2 = card (insert k (covered w))"
    proof (cases "k \<in> covered w")
      case True
      then show ?thesis using IH(1) by (simp add: survey_ok_def w2_def w1 covered_def insert_absorb)
    next
      case False
      then have "sv_count w2 = Suc (card (covered w))" using IH(1) by (simp add: survey_ok_def w2_def w1 covered_def)
      then show ?thesis using False fin by simp
    qed
    then have "survey_ok w2" using len by (simp add: survey_ok_def cov) (simp add: w2_def w1)
    moreover have "sv_masters w2 = sv_masters v" "sv_reachable w2 = sv_reachable v"
      "sv_fail_slots w2 \<longleftrightarrow> sv_fail_slots v \<or> has_flag n CLUSTER_NODE_FAIL"
      using IH(6) w1 by (auto simp: w2_def)
    ultimately show ?thesis unfolding step split res using True IH(2) cov by simp
  qed
qed

lemma holder_set: "(\<exists>i. holds ns i s \<and> P (ns ! i)) \<longleftrightarrow> (\<exists>n \<in> set ns. s \<in> slots_of n \<and> P n)"
  unfolding holds_def slots_of_def Bex_def in_set_conv_nth by auto

lemma survey_nodes:
  "survey_ok (cluster_survey_of ns) \<and> covered (cluster_survey_of ns) = (\<Union>n \<in> set ns. slots_of n) \<and>
   sv_masters (cluster_survey_of ns) = length (filter (\<lambda>n. has_flag n CLUSTER_NODE_MASTER \<and> serves_slots n) ns) \<and>
   sv_reachable (cluster_survey_of ns) =
     length (filter (\<lambda>n. has_flag n CLUSTER_NODE_MASTER \<and> serves_slots n \<and>
       \<not> has_flag n (CLUSTER_NODE_FAIL OR CLUSTER_NODE_DISCONNECTED)) ns) \<and>
   (sv_fail_slots (cluster_survey_of ns) \<longleftrightarrow> (\<exists>n \<in> set ns. has_flag n CLUSTER_NODE_FAIL \<and> serves_slots n))"
proof (induction ns rule: rev_induct)
  case Nil
  then show ?case by (simp add: cluster_survey_of_def survey_ok_def covered_def)
next
  case (snoc n ns)
  let ?v = "cluster_survey_of ns"
  obtain b w where r: "foldl (survey_slot n) (False, ?v) [0..<16384] = (b, w)" by fastforce
  have ok: "survey_ok ?v" using snoc by blast
  have cut: "slots_of n \<inter> {..<16384} = slots_of n" using slots_of_small by blast
  from survey_slots [OF ok order_refl, of n] have w: "survey_ok w" "covered w = covered ?v \<union> slots_of n" "b \<longleftrightarrow> serves_slots n"
    "sv_masters w = sv_masters ?v" "sv_reachable w = sv_reachable ?v"
    "sv_fail_slots w \<longleftrightarrow> sv_fail_slots ?v \<or> has_flag n CLUSTER_NODE_FAIL \<and> b"
    unfolding r cut by (simp_all add: serves_iff)
  have step: "cluster_survey_of (ns @ [n]) = survey_node ?v n" by (simp add: cluster_survey_of_def)
  have keep: "survey_ok (w\<lparr>sv_masters := a\<rparr>) = survey_ok w" "survey_ok (w\<lparr>sv_masters := a, sv_reachable := c\<rparr>) = survey_ok w"
    "covered (w\<lparr>sv_masters := a\<rparr>) = covered w" "covered (w\<lparr>sv_masters := a, sv_reachable := c\<rparr>) = covered w" for a c
    by (simp_all add: survey_ok_def covered_def)
  show ?case
    unfolding step survey_node_def r using w snoc by (auto simp: keep Let_def)
qed

text \<open>
  C39: The health of the cluster. A view that is not cached is healthy exactly when every one of
  the 16384 slots has a holder, no node that holds a slot is failed, some master serves slots, and
  a majority of those masters is neither failed nor disconnected.
\<close>
theorem cluster_state_ok_iff:
  assumes "cluster_inv d" and "cd_enabled d" and "\<not> cd_cache_valid d"
  shows "fst (cluster_state_is_ok d) \<longleftrightarrow>
    {s. \<exists>i. holds (cd_nodes d) i s} = {..<16384} \<and>
    \<not> (\<exists>s i. holds (cd_nodes d) i s \<and> has_flag (cd_nodes d ! i) CLUSTER_NODE_FAIL) \<and>
    0 < slot_masters d \<and>
    slot_masters d div 2 + 1 \<le> length (filter (\<lambda>n. has_flag n CLUSTER_NODE_MASTER \<and> serves_slots n \<and>
       \<not> has_flag n (CLUSTER_NODE_FAIL OR CLUSTER_NODE_DISCONNECTED)) (cd_nodes d))"
proof -
  let ?ns = "cd_nodes d" and ?v = "cluster_survey_of (cd_nodes d)"
  note v = survey_nodes [of ?ns]
  have cov: "covered ?v = {s. \<exists>i. holds ?ns i s}"
    using v holder_set [of ?ns _ "\<lambda>_. True"] by auto
  have count: "sv_count ?v = card (covered ?v)" using v by (simp add: survey_ok_def)
  have all: "card (covered ?v) = card {..<16384 :: nat} \<longleftrightarrow> covered ?v = {..<16384}"
    using card_subset_eq [OF finite_lessThan slots_of_small(2)] by metis
  have "sv_count ?v = 16384 \<longleftrightarrow> covered ?v = {..<16384}" using all unfolding count card_lessThan .
  moreover have "sv_fail_slots ?v \<longleftrightarrow> (\<exists>s i. holds ?ns i s \<and> has_flag (?ns ! i) CLUSTER_NODE_FAIL)"
    unfolding holder_set [of ?ns _ "\<lambda>n. has_flag n CLUSTER_NODE_FAIL"] using v by (auto simp: serves_iff)
  ultimately show ?thesis
    using assms v cov by (simp add: cluster_state_is_ok_def cluster_inv_def Let_def slot_masters_def)
qed

theorem cluster_state_ok_iff_witness: "\<not> fst (cluster_state_is_ok demo_cluster)"
proof -
  have none: "\<not> holds (cd_nodes demo_cluster) j s" for j s
    by (auto simp: holds_def demo_cluster_def demo_node_def cluster_node_new_def less_Suc_eq nth_Cons')
  have on: "cd_enabled demo_cluster" "\<not> cd_cache_valid demo_cluster" by (simp_all add: demo_cluster_def)
  have "0 \<notin> {s. \<exists>i. holds (cd_nodes demo_cluster) i s}" using none by simp
  moreover have "(0 :: nat) \<in> {..<16384}" by simp
  ultimately have "{s. \<exists>i. holds (cd_nodes demo_cluster) i s} \<noteq> {..<16384}" by metis
  then show ?thesis unfolding cluster_state_ok_iff [OF demo_inv on] by blast
qed

section \<open>Sequences of operations\<close>

text \<open>The operations on the table; a node argument is the index of a node in it.\<close>

datatype cluster_op =
  CAdd bytes
| CReport nat bytes u64
| CHeal nat bytes
| CCount nat u64
| CMarkFail nat u64
| CQuorum nat u64
| CNextEpoch
| CAdopt nat bytes u64
| CMerge nat bytes u64
| CPromote
| CHealth

fun cluster_step :: "cluster_db \<Rightarrow> cluster_op \<Rightarrow> cluster_db" where
  "cluster_step d (CAdd ident) = snd (cluster_node_add d ident)"
| "cluster_step d (CReport i reporter now_ms) = cluster_report_failure i reporter now_ms d"
| "cluster_step d (CHeal i reporter) = cluster_report_heal i reporter d"
| "cluster_step d (CCount i now_ms) = snd (cluster_report_count i now_ms d)"
| "cluster_step d (CMarkFail i now_ms) = cluster_mark_fail i now_ms d"
| "cluster_step d (CQuorum i now_ms) = snd (cluster_mark_fail_if_quorum i now_ms d)"
| "cluster_step d CNextEpoch = snd (cluster_next_epoch d)"
| "cluster_step d (CAdopt c bm epoch) = cluster_adopt_claims c bm epoch d"
| "cluster_step d (CMerge c bm epoch) = cluster_merge_claims c bm epoch d"
| "cluster_step d CPromote = snd (cluster_failover_promote d)"
| "cluster_step d CHealth = snd (cluster_state_is_minority d)"

fun claimant_ok :: "cluster_db \<Rightarrow> cluster_op \<Rightarrow> bool" where
  "claimant_ok d (CAdopt c bm epoch) \<longleftrightarrow> c < length (cd_nodes d)"
| "claimant_ok d (CMerge c bm epoch) \<longleftrightarrow> c < length (cd_nodes d)"
| "claimant_ok d _ \<longleftrightarrow> True"

inductive cluster_run :: "cluster_db \<Rightarrow> cluster_db \<Rightarrow> bool" where
  start: "cluster_run d d"
| step: "cluster_run d d' \<Longrightarrow> claimant_ok d' op \<Longrightarrow> cluster_run d (cluster_step d' op)"

lemma minority_inv: "cluster_inv d \<Longrightarrow> cluster_inv (snd (cluster_state_is_minority d))"
  using is_ok_inv [of d] by (simp add: cluster_state_is_minority_def Let_def)

lemma cluster_step_inv: "cluster_inv d \<Longrightarrow> claimant_ok d op \<Longrightarrow> cluster_inv (cluster_step d op)"
  using node_add_cases [of d] report_failure_inv report_heal_inv report_count_inv mark_fail_inv quorum_inv adopt_inv
    claims_inv promote_inv minority_inv
  by (cases op) (auto simp: cluster_next_epoch_def intro: prod.collapse [symmetric])

text \<open>
  C9: Every slot has at most one owner. From a well-formed table, after any sequence of additions
  of nodes, failure reports, failure marks, slot claims, adoptions and promotions, no slot is held
  by two nodes, the identifiers of the nodes are valid and distinct, and there are at most 32 nodes
  with at most 32 reports each.
\<close>
theorem cluster_one_owner_per_slot:
  assumes "cluster_run d d'" and "cluster_inv d"
  shows "\<not> (\<exists>s i j. i \<noteq> j \<and> holds (cd_nodes d') i s \<and> holds (cd_nodes d') j s) \<and>
    distinct (map cn_id (cd_nodes d')) \<and> list_all (\<lambda>n. cluster_id_valid (cn_id n)) (cd_nodes d') \<and>
    length (cd_nodes d') \<le> CLUSTER_MAX_NODES \<and>
    list_all (\<lambda>n. length (cn_reports n) \<le> CLUSTER_MAX_NODES) (cd_nodes d')"
proof -
  have "cluster_inv d'" using assms by induction (simp_all add: cluster_step_inv)
  then show ?thesis
    by (auto simp: cluster_inv_def unique_owner_def nodes_ok_def reports_ok_def list_all_iff)
qed

theorem cluster_one_owner_per_slot_witness:
  "let bm = cluster_slots_set (replicate 2048 0) 7 True;
       d = cluster_step (cluster_step demo_cluster (CMerge 0 bm 5)) (CMerge 1 bm 6)
   in \<not> (holds (cd_nodes d) 0 7 \<and> holds (cd_nodes d) 1 7)"
proof -
  let ?bm = "cluster_slots_set (replicate 2048 0) 7 True"
  let ?d1 = "cluster_step demo_cluster (CMerge 0 ?bm 5)"
  let ?d = "cluster_step ?d1 (CMerge 1 ?bm 6)"
  have l: "length (cd_nodes demo_cluster) = 2" by (simp add: demo_cluster_def)
  have run: "cluster_run demo_cluster ?d1" by (rule cluster_run.step [OF cluster_run.start]) (simp add: l)
  have "length (cd_nodes ?d1) = 2" using merge_length [of demo_cluster 0 ?bm 5] demo_inv l by simp
  then have "cluster_run demo_cluster ?d" by (intro cluster_run.step [OF run]) simp
  from cluster_one_owner_per_slot [OF this demo_inv] show ?thesis unfolding Let_def by (metis zero_neq_one)
qed

end
