(* ===== verification/Spec2Isabelle.thy ===== *)
theory Spec2Isabelle
  imports Checksum Rhtable_Map Arena Buf_Pool Crlf Resp_Roundtrip Glob Repl Spsc Quicklist_List Stream_Object Skiplist_Set
    Acl_Registry Acl_Keys Cluster_State
begin

text \<open>
  Verification of ddup, a Redis-compatible server in C.

  \<^bold>\<open>The program.\<close> A connection delivers bytes; the parser of the Redis protocol
  (\<open>src/resp/resp_parser.c\<close>) turns them into values held in a bump allocator
  (\<open>src/core/arena.c\<close>); the name of the command is resolved to an identifier
  (\<open>src/core/command.c\<close>) and the user's rights are checked (\<open>src/core/acl.c\<close>); the command runs
  over the hash table of keys (\<open>src/core/rhtable.c\<close>) and the data structures for lists
  (\<open>src/ds/quicklist.c\<close> over \<open>src/ds/listpack.c\<close>), sorted sets (\<open>src/ds/skiplist.c\<close>) and streams
  (\<open>src/ds/stream.c\<close>); the reply is written (\<open>src/resp/resp_writer.c\<close>) into a buffer that may come
  from a pool (\<open>src/core/buf_pool.c\<close>). Worker threads exchange tasks through rings
  (\<open>src/server/mt_spsc.h\<close>), replicas are fed from a backlog (\<open>src/server/repl.c\<close>), and in a cluster
  the hash slot of a key (\<open>src/core/hashslot.c\<close>) decides which node serves it
  (\<open>src/core/cluster.c\<close>).

  \<^bold>\<open>Conventions.\<close> A byte string is a list of 8-bit words. Sizes and counters are natural numbers
  and every guard of the sources against their upper end is written out; where a value wraps
  around it is a word or reduced modulo a power of two. Structs are records, a pointer into an
  array is an index, and a pointer to a separately allocated object is an address in a store.
  Allocation is a parameter, or succeeds where the sources end the process otherwise; \<open>None\<close> as the
  result of an operation that returns a state stands for the end of the process, a null dereference
  or an endless loop, so that a theorem that gives \<open>Some\<close> also says that none of them happens.
  NULL arguments, which the sources refuse, are left out.

  \<^bold>\<open>Shared theory.\<close> \<open>Prelude\<close> has the machine types and limits, the generic lemmas on lists, ring
  indices, bytes in memory, lookup loops and C strings, and the locale \<open>data_refinement\<close>: an
  invariant, an abstraction and a simulation of every operation give the refinement of every
  sequence of operations. It is interpreted for the hash table, listpacks, quicklists, skip lists,
  streams, the ring used by one thread and the registry of users.

  \<^bold>\<open>Parts.\<close>
  \<^item> \<open>Checksum\<close>: CRC16, CRC64, hash tags and slots (\<open>core/hashslot.c\<close>, \<open>core/crc64.c\<close>). The table-driven
    routines equal the bit-serial registers.
  \<^item> \<open>Rhtable\<close>, \<open>Rhtable_Probe\<close>, \<open>Rhtable_Map\<close>: the Robin Hood hash table with its incremental rehash
    (\<open>core/rhtable.c\<close>); \<open>rh_get\<close>, \<open>rh_set\<close>, \<open>rh_set_ex2\<close>, \<open>rh_del\<close>, \<open>rh_scan\<close> and \<open>rh_each\<close> on the two slot arrays.
    Runs refine a finite map as long as a key is not hidden by an unfinished rehash, scans visit every
    entry once, rehashes complete; a reachable table that hides a key is exhibited. The hash is a
    parameter.
  \<^item> \<open>Arena\<close>, \<open>Buf_Pool\<close>: the allocator and the buffer pool. Live allocations are disjoint, no buffer is
    lent twice, and a steady request pattern makes the arena grow without bound.
  \<^item> \<open>Crlf\<close>, \<open>Resp_Parser\<close>, \<open>Resp_Writer\<close>, \<open>Resp_Numbers\<close>, \<open>Resp_Correct\<close>, \<open>Resp_Roundtrip\<close>: line ends in the
    scalar, SSE2 and NEON builds (\<open>pal/pal_simd.h\<close>), the parser, the writer and their numbers. Written
    values are read back, in any segmentation of the input; the inlined array loop agrees with the
    general recursion but for the depth limit; blob errors are not read back. The arena enters as the
    set of sizes it grants, printing and reading of doubles as parameters with a round-trip hypothesis.
  \<^item> \<open>Glob\<close>: the pattern matcher (\<open>ds/glob.c\<close>) decides the language of its pattern, apart from negated
    classes at the end of the string.
  \<^item> \<open>Repl\<close>: the replication backlog holds the newest bytes of the stream.
  \<^item> \<open>Spsc\<close>: the ring between threads as an interleaving of its atomic accesses with the wake-up
    protocol of \<open>server/mt_server.c\<close>. Elements leave in order and no wake-up is lost.
  \<^item> \<open>Listpack\<close>, \<open>Listpack_Codec\<close>, \<open>Listpack_List\<close>, \<open>Quicklist\<close>, \<open>Quicklist_List\<close>: lists at byte level. Every
    operation agrees with a list of strings, and the counters are exact.
  \<^item> \<open>Obj_Stream\<close>, \<open>Stream_Log\<close>, \<open>Stream_Groups\<close>, \<open>Stream_Object\<close>: streams, consumer groups and pending
    entries. Runs refine a sorted log beside a map of groups; the memory counters are exact.
  \<^item> \<open>Skiplist\<close>, \<open>Skiplist_Rep\<close>, \<open>Skiplist_Insert\<close>, \<open>Skiplist_Delete\<close>, \<open>Skiplist_Query\<close>, \<open>Skiplist_Set\<close>: nodes
    with forward links and spans in a store. Runs refine a sorted list of entries, whatever heights
    the generator draws; links, spans and counters are determined by the order.
  \<^item> \<open>Cmd_Ids\<close>, \<open>Cmd_Table\<close>, \<open>Cmd_Resolve\<close>: the command table and the hash table of names of
    \<open>core/command.c\<close>. \<open>cmd_resolve\<close> returns for every name and finds the row of the table.
  \<^item> \<open>Acl\<close>, \<open>Acl_Match\<close>, \<open>Acl_Registry\<close>, \<open>Acl_Keys\<close>: users, rules, categories, patterns, authentication,
    authorization and the security log of \<open>core/acl.c\<close>. The registry refines a map of users, the
    matcher decides its patterns on keys without asterisk, and in an authorized command the keys listed
    by \<open>acl_keys\<close> match a pattern of the user; commands whose keys depend on a subcommand, and those
    whose keys the decision checks in part, are not covered. The inverted test of \<open>GEOSEARCHSTORE\<close> and
    the denial that cannot be lifted are stated as they are.
  \<^item> \<open>Cluster\<close>, \<open>Cluster_Slots\<close>, \<open>Cluster_State\<close>: the node table of \<open>core/cluster.c\<close>: slot bitmaps and their
    text, failure reports, quorum, epochs, slot claims, promotion and health. The loops over the slots
    share the locale \<open>slot_step\<close>, interpreted for claims, adoption and promotion. A slot has at most one
    owner, claims are resolved by epoch, failure needs a quorum; ranges of slots grow when they are
    read back.

  \<^bold>\<open>Loops.\<close> Loops over pointers, probes and patterns are \<open>partial_function (option)\<close>: \<open>None\<close> is a loop
  that does not end, and that they end is part of the theorems (\<open>cmd_resolve_finds_row\<close>,
  \<open>acl_pattern_decides\<close>, the refinements). The other loops are recursive functions with a termination
  proof or folds over index lists. No fuel is used.

  \<^bold>\<open>Not modelled.\<close>
  \<^item> The handlers of \<open>core/command.c\<close> and the objects of \<open>ds/obj.c\<close>: some 25,000 lines over packed pointers
    and a global key space, of which a faithful model would need the whole heap; the data structures they
    call are modelled one by one.
  \<^item> \<open>server/server.c\<close>, \<open>server/mt_server.c\<close> beyond the wake-up protocol, \<open>core/session.c\<close> and the layer
    \<open>pal/\<close>: sockets, threads, timers and files.
  \<^item> \<open>core/snapshot.c\<close>, \<open>server/aof.c\<close>, \<open>core/tier.c\<close>: file formats and I/O of whole objects.
  \<^item> The frames of the cluster bus (\<open>core/redbus.c\<close> and the end of \<open>core/cluster.c\<close>), elections,
    \<open>nodes.conf\<close> lines and key migration.
  \<^item> Rendering of users and log entries in \<open>core/acl.c\<close>, configuration (\<open>core/config.c\<close>), SHA1, scripting
    and the vendored libraries.
\<close>

end
